(* ===== verification/Prelude.thy ===== *)
theory Prelude
  imports Main "HOL-Library.Word"
begin

text \<open>
  Shared vocabulary of the development: bytes and unsigned machine integers, the
  result type of fallible Rust functions, big-endian encodings, exact reads from a byte
  stream, and the few list lemmas several components need.

  A Rust \<open>Result<T>\<close> is \<open>'a res\<close>: \<open>Inl\<close> the error, \<open>Inr\<close> the value. An
  \<open>anyhow\<close> error is a message; \<open>Bail\<close> carries the constant text of the message in
  the source. The three errors the program recognises by type (\<open>ZeroRecord\<close>,
  \<open>DatagramError\<close> as a context, an I/O error) have constructors of their own.
\<close>

named_theorems res_simps \<open>elimination of the result combinators\<close>
named_theorems codec_simps \<open>round-trip laws of the byte encodings\<close>
named_theorems len_simps \<open>lengths of encodings\<close>

type_synonym byte = "8 word"
type_synonym bytes = "byte list"
type_synonym u16 = "16 word"
type_synonym u32 = "32 word"
type_synonym u64 = "64 word"

datatype ErrorKind = Timeout | Network | Authentication | Forbidden | ProxyAuthentication | RateLimited
  | Server | InvalidResponse | Signature | TlsUnknownIssuer | TlsCertificate | EchRejected | Other

datatype error =
    Bail string             \<comment> \<open>\<open>bail!\<close> and \<open>anyhow!\<close>\<close>
  | Io                      \<comment> \<open>an \<open>io::Error\<close> of the transport\<close>
  | ZeroRecord              \<comment> \<open>\<open>snell::record::ZeroRecord\<close>\<close>
  | DatagramError error     \<comment> \<open>an error with the context \<open>snell::udp::DatagramError\<close>\<close>
  | TimedOut string         \<comment> \<open>an elapsed \<open>tokio::time::timeout\<close>\<close>
  | ApiFailure ErrorKind "u16 option" "nat option"   \<comment> \<open>\<open>diagnostics::ApiFailure\<close>: kind, status, seconds to wait\<close>
  | WithContext error error \<comment> \<open>an error with a typed context around it\<close>

type_synonym 'a res = "error + 'a"

subsection \<open>The question-mark operator\<close>

definition and_then :: "'e + 'a \<Rightarrow> ('a \<Rightarrow> 'e + 'b) \<Rightarrow> 'e + 'b" where
  "and_then r f = (case r of Inl e \<Rightarrow> Inl e | Inr x \<Rightarrow> f x)"

definition ok_or :: "'a option \<Rightarrow> 'e \<Rightarrow> 'e + 'a" where
  "ok_or x e = (case x of None \<Rightarrow> Inl e | Some a \<Rightarrow> Inr a)"

definition map_err :: "('e \<Rightarrow> 'f) \<Rightarrow> 'e + 'a \<Rightarrow> 'f + 'a" where
  "map_err g r = (case r of Inl e \<Rightarrow> Inl (g e) | Inr x \<Rightarrow> Inr x)"

definition is_ok :: "'e + 'a \<Rightarrow> bool" where
  "is_ok r = (case r of Inl _ \<Rightarrow> False | Inr _ \<Rightarrow> True)"

lemma and_then_simps [simp, code]:
  "and_then (Inl e) f = Inl e"
  "and_then (Inr x) f = f x"
  by (simp_all add: and_then_def)

lemma and_then_Inr_iff [res_simps]:
  "and_then r f = Inr y \<longleftrightarrow> (\<exists>x. r = Inr x \<and> f x = Inr y)"
  by (cases r) simp_all

lemma and_then_Inl_iff [res_simps]:
  "and_then r f = Inl e \<longleftrightarrow> r = Inl e \<or> (\<exists>x. r = Inr x \<and> f x = Inl e)"
  by (cases r) simp_all

lemma ok_or_simps [simp, code]:
  "ok_or None e = Inl e"
  "ok_or (Some a) e = Inr a"
  by (simp_all add: ok_or_def)

lemma ok_or_Inr_iff [res_simps]: "ok_or x e = Inr a \<longleftrightarrow> x = Some a"
  by (cases x) simp_all

lemma ok_or_Inl_iff [res_simps]: "ok_or x e = Inl e' \<longleftrightarrow> x = None \<and> e' = e"
  by (cases x) auto

lemma map_err_simps [simp, code]:
  "map_err g (Inl e) = Inl (g e)"
  "map_err g (Inr x) = Inr x"
  by (simp_all add: map_err_def)

lemma map_err_Inr_iff [res_simps]: "map_err g r = Inr x \<longleftrightarrow> r = Inr x"
  by (cases r) simp_all

lemma map_err_Inl_iff [res_simps]: "map_err g r = Inl e \<longleftrightarrow> (\<exists>e'. r = Inl e' \<and> e = g e')"
  by (cases r) auto

lemma is_ok_simps [simp, code]:
  "is_ok (Inl e) = False"
  "is_ok (Inr x) = True"
  by (simp_all add: is_ok_def)

subsection \<open>Big-endian encodings\<close>

fun be_bytes :: "nat \<Rightarrow> nat \<Rightarrow> bytes" where
  "be_bytes 0 v = []"
| "be_bytes (Suc n) v = be_bytes n (v div 256) @ [of_nat v]"

fun be_val_acc :: "nat \<Rightarrow> bytes \<Rightarrow> nat" where
  "be_val_acc acc [] = acc"
| "be_val_acc acc (b # bs) = be_val_acc (acc * 256 + unat b) bs"

definition be_val :: "bytes \<Rightarrow> nat" where
  "be_val bs = be_val_acc 0 bs"

text \<open>\<open>u16::to_be_bytes\<close> and \<open>u16::from_be_bytes\<close>.\<close>

definition to_be16 :: "u16 \<Rightarrow> bytes" where
  "to_be16 w = be_bytes 2 (unat w)"

definition hi16 :: "u16 \<Rightarrow> byte" where
  "hi16 w = of_nat (unat w div 256)"

definition lo16 :: "u16 \<Rightarrow> byte" where
  "lo16 w = of_nat (unat w)"

definition from_be16 :: "byte \<Rightarrow> byte \<Rightarrow> u16" where
  "from_be16 a b = of_nat (unat a * 256 + unat b)"

lemma length_be_bytes [simp, len_simps]: "length (be_bytes n v) = n"
  by (induction n arbitrary: v) simp_all

lemma be_val_acc_append: "be_val_acc acc (xs @ ys) = be_val_acc (be_val_acc acc xs) ys"
  by (induction xs arbitrary: acc) simp_all

lemma be_val_snoc: "be_val (bs @ [b]) = be_val bs * 256 + unat b"
  by (simp add: be_val_def be_val_acc_append)

lemma be_val_Nil [simp]: "be_val [] = 0"
  by (simp add: be_val_def)

lemma unat_of_nat_byte: "unat (of_nat v :: byte) = v mod 256"
  by (simp add: unat_of_nat)

lemma unat_byte_less: "unat (b :: byte) < 256"
  using unsigned_less [of b, where ?'a = nat] by simp

lemma be_val_be_bytes [codec_simps]: "be_val (be_bytes n v) = v mod 256 ^ n"
proof (induction n arbitrary: v)
  case (Suc n)
  have "be_val (be_bytes (Suc n) v) = (v div 256) mod 256 ^ n * 256 + v mod 256"
    by (simp add: be_val_snoc Suc unat_of_nat_byte)
  also have "\<dots> = v mod (256 * 256 ^ n)"
    by (metis mod_mult2_eq mult.commute)
  finally show ?case by simp
qed simp

lemma be_val_less: "be_val bs < 256 ^ length bs"
proof (induction bs rule: rev_induct)
  case (snoc b bs)
  have "be_val bs * 256 + unat b < (be_val bs + 1) * 256"
    using unat_byte_less [of b] by simp
  also have "\<dots> \<le> 256 ^ length bs * 256"
    using snoc by (intro mult_le_mono1) simp
  finally show ?case by (simp add: be_val_snoc)
qed simp

lemma be_bytes_be_val [codec_simps]: "be_bytes (length bs) (be_val bs) = bs"
proof (induction bs rule: rev_induct)
  case (snoc b bs)
  have "(be_val bs * 256 + unat b) div 256 = be_val bs"
    using unat_byte_less [of b] by simp
  moreover have "of_nat (be_val bs * 256 + unat b) = b"
    by (rule word_unat_eq_iff [THEN iffD2])
      (simp only: unat_of_nat_byte, use unat_byte_less [of b] in simp)
  ultimately show ?case
    using snoc by (simp add: be_val_snoc del: of_nat_add)
qed simp

lemma to_be16_two: "to_be16 w = [hi16 w, lo16 w]"
  by (simp add: to_be16_def hi16_def lo16_def numeral_2_eq_2)

lemma length_to_be16 [simp, len_simps]: "length (to_be16 w) = 2"
  by (simp add: to_be16_def)

lemma from_be16_to_be16 [simp, codec_simps]: "from_be16 (hi16 w) (lo16 w) = w"
proof -
  have lt: "unat w < 65536" using unsigned_less [of w, where ?'a = nat] by simp
  then have "unat w div 256 mod 256 = unat w div 256" by (simp add: less_mult_imp_div_less)
  then have "unat w div 256 mod 256 * 256 + unat w mod 256 = unat w"
    by simp
  then show ?thesis
    by (simp only: from_be16_def hi16_def lo16_def unat_of_nat_byte) simp
qed

lemma unat_from_be16: "unat (from_be16 a b) = unat a * 256 + unat b"
proof -
  have "unat a * 256 + unat b < 65536"
    using unat_byte_less [of a] unat_byte_less [of b] by simp
  then show ?thesis
    by (simp add: from_be16_def unat_of_nat del: of_nat_add of_nat_mult)
qed

lemma to_be16_from_be16 [codec_simps]: "to_be16 (from_be16 a b) = [a, b]"
proof -
  have "be_bytes (length [a, b]) (be_val [a, b]) = [a, b]" by (rule be_bytes_be_val)
  moreover have "be_val [a, b] = unat (from_be16 a b)"
    by (simp add: be_val_def unat_from_be16)
  ultimately show ?thesis by (simp add: to_be16_def numeral_2_eq_2)
qed

subsection \<open>Exact reads\<close>

text \<open>
  \<open>AsyncReadExt::read_exact\<close> on a stream whose remaining bytes (up to its end) are
  \<open>s\<close>: the requested bytes and the rest, or an \<open>UnexpectedEof\<close>.
\<close>

definition read_exact :: "nat \<Rightarrow> bytes \<Rightarrow> (bytes \<times> bytes) option" where
  "read_exact n s = (if n \<le> length s then Some (take n s, drop n s) else None)"

lemma read_exact_append [simp]: "n = length a \<Longrightarrow> read_exact n (a @ r) = Some (a, r)"
  by (simp add: read_exact_def)

lemma read_exact_Some:
  "read_exact n s = Some (a, r) \<longleftrightarrow> s = a @ r \<and> length a = n"
  by (auto simp: read_exact_def)

lemma read_exact_None: "read_exact n s = None \<longleftrightarrow> length s < n"
  by (auto simp: read_exact_def)

subsection \<open>Lists\<close>

fun position :: "('a \<Rightarrow> bool) \<Rightarrow> 'a list \<Rightarrow> nat option" where
  "position p [] = None"
| "position p (x # xs) = (if p x then Some 0 else map_option Suc (position p xs))"

text \<open>
  \<open>iter().filter(|x| seen.insert(*x))\<close>: keep the first occurrence of each value.
\<close>

fun dedup_by :: "('a \<Rightarrow> 'k) \<Rightarrow> 'k set \<Rightarrow> 'a list \<Rightarrow> 'a list" where
  "dedup_by f seen [] = []"
| "dedup_by f seen (x # xs) =
     (if f x \<in> seen then dedup_by f seen xs else x # dedup_by f (insert (f x) seen) xs)"

lemma position_Some_iff:
  "position p xs = Some i \<longleftrightarrow> i < length xs \<and> p (xs ! i) \<and> (\<forall>j < i. \<not> p (xs ! j))"
proof (induction xs arbitrary: i)
  case (Cons x xs)
  then show ?case
    by (cases i) (auto simp: less_Suc_eq_0_disj nth_Cons')
qed simp

lemma position_None_iff: "position p xs = None \<longleftrightarrow> (\<forall>x \<in> set xs. \<not> p x)"
  by (induction xs) auto

lemma dedup_by_subset: "set (dedup_by f seen xs) \<subseteq> set xs"
  by (induction xs arbitrary: seen) auto

lemma dedup_by_keys: "f ` set (dedup_by f seen xs) = f ` set xs - seen"
  by (induction xs arbitrary: seen) auto

lemma dedup_by_distinct: "distinct (map f (dedup_by f seen xs))"
  by (induction xs arbitrary: seen) (use dedup_by_keys [of f] in \<open>auto simp flip: image_image\<close>)

lemma dedup_by_id:
  "distinct (map f xs) \<Longrightarrow> f ` set xs \<inter> seen = {} \<Longrightarrow> dedup_by f seen xs = xs"
  by (induction xs arbitrary: seen) auto

end
