(* ===== verification/Rust_Io.thy ===== *)
theory Rust_Io
  imports Prelude
begin

text \<open>
  Byte streams and stateful fallible operations. A function that takes \<open>&mut self\<close> and
  returns \<open>Result\<close> becomes a function into \<open>'a res \<times> 's\<close>: the state is returned on
  the error paths too, because the caller sees it there.

  A \<open>sink\<close> is an \<open>AsyncWrite\<close>: bytes the transport has accepted are \<open>pending\<close> until
  a flush moves them to \<open>delivered\<close>. Its budgets say how many more bytes and flushes
  succeed before the transport fails; \<open>None\<close> is a transport that never fails.
  A \<open>source\<close> is an \<open>AsyncRead\<close> as the list of what successive reads find: a piece of
  data, or an error; its end is the end of the stream.
\<close>

definition st_then :: "'a res \<times> 's \<Rightarrow> ('a \<Rightarrow> 's \<Rightarrow> 'b res \<times> 's) \<Rightarrow> 'b res \<times> 's" where
  "st_then r f = (case r of (Inl e, s) \<Rightarrow> (Inl e, s) | (Inr x, s) \<Rightarrow> f x s)"

lemma st_then_simps [simp, code]:
  "st_then (Inl e, s) f = (Inl e, s)"
  "st_then (Inr x, s) f = f x s"
  by (simp_all add: st_then_def)

lemma st_then_Inr_iff [res_simps]:
  "st_then r f = (Inr y, s') \<longleftrightarrow> (\<exists>x s. r = (Inr x, s) \<and> f x s = (Inr y, s'))"
  by (cases r; cases "fst r") auto

lemma st_then_Inl_iff [res_simps]:
  "st_then r f = (Inl e, s') \<longleftrightarrow>
     r = (Inl e, s') \<or> (\<exists>x s. r = (Inr x, s) \<and> f x s = (Inl e, s'))"
  by (cases r; cases "fst r") auto

subsection \<open>Sinks\<close>

record sink =
  delivered :: bytes
  pending :: bytes
  write_budget :: "nat option"
  flush_budget :: "nat option"
  shut :: bool

definition fresh_sink :: sink where
  "fresh_sink = \<lparr>delivered = [], pending = [], write_budget = None, flush_budget = None, shut = False\<rparr>"

text \<open>Everything the transport has accepted, in order.\<close>

definition accepted :: "sink \<Rightarrow> bytes" where
  "accepted w = delivered w @ pending w"

definition write_all :: "bytes \<Rightarrow> sink \<Rightarrow> unit res \<times> sink" where
  "write_all c w =
     (case write_budget w of
        None \<Rightarrow> (Inr (), w\<lparr>pending := pending w @ c\<rparr>)
      | Some n \<Rightarrow>
          if length c \<le> n
          then (Inr (), w\<lparr>pending := pending w @ c, write_budget := Some (n - length c)\<rparr>)
          else (Inl Io, w\<lparr>pending := pending w @ take n c, write_budget := Some 0\<rparr>))"

definition flush :: "sink \<Rightarrow> unit res \<times> sink" where
  "flush w =
     (case flush_budget w of
        None \<Rightarrow> (Inr (), w\<lparr>delivered := delivered w @ pending w, pending := []\<rparr>)
      | Some 0 \<Rightarrow> (Inl Io, w)
      | Some (Suc n) \<Rightarrow>
          (Inr (), w\<lparr>delivered := delivered w @ pending w, pending := [], flush_budget := Some n\<rparr>))"

definition shutdown_sink :: "sink \<Rightarrow> unit res \<times> sink" where
  "shutdown_sink w = st_then (flush w) (\<lambda>_ w. (Inr (), w\<lparr>shut := True\<rparr>))"

definition reliable :: "sink \<Rightarrow> bool" where
  "reliable w \<longleftrightarrow> write_budget w = None \<and> flush_budget w = None"

lemma write_all_accepted:
  "write_all c w = (Inr (), w') \<Longrightarrow> accepted w' = accepted w @ c"
  by (auto simp: write_all_def accepted_def split: option.splits if_splits)

lemma write_all_prefix:
  "write_all c w = (r, w') \<Longrightarrow> \<exists>d. accepted w' = accepted w @ d \<and> (\<exists>e. c = d @ e)"
  by (auto simp: write_all_def accepted_def split: option.splits if_splits)
    (metis append_take_drop_id)

lemma flush_accepted: "flush w = (r, w') \<Longrightarrow> accepted w' = accepted w"
  by (auto simp: flush_def accepted_def split: option.splits nat.splits)

lemma flush_delivered: "flush w = (Inr (), w') \<Longrightarrow> delivered w' = accepted w \<and> pending w' = []"
  by (auto simp: flush_def accepted_def split: option.splits nat.splits)

lemma write_all_reliable:
  "reliable w \<Longrightarrow> write_all c w = (Inr (), w\<lparr>pending := pending w @ c\<rparr>)"
  by (simp add: write_all_def reliable_def)

lemma flush_reliable:
  "reliable w \<Longrightarrow> flush w = (Inr (), w\<lparr>delivered := delivered w @ pending w, pending := []\<rparr>)"
  by (simp add: flush_def reliable_def)

lemma reliable_update [simp]:
  "reliable (w\<lparr>pending := p\<rparr>) = reliable w"
  "reliable (w\<lparr>delivered := d\<rparr>) = reliable w"
  "reliable (w\<lparr>shut := b\<rparr>) = reliable w"
  by (simp_all add: reliable_def)

lemma fresh_sink_simps [simp]:
  "reliable fresh_sink" "accepted fresh_sink = []" "delivered fresh_sink = []" "pending fresh_sink = []"
  by (simp_all add: fresh_sink_def reliable_def accepted_def)

subsection \<open>Sources\<close>

datatype rx = Data bytes | RxErr

type_synonym source = "rx list"

text \<open>One \<open>read\<close> into a buffer of \<open>n\<close> bytes; the empty result is the end of the stream.\<close>

fun read_some :: "nat \<Rightarrow> source \<Rightarrow> bytes res \<times> source" where
  "read_some n [] = (Inr [], [])"
| "read_some n (RxErr # s) = (Inl Io, s)"
| "read_some n (Data c # s) =
     (if c = [] then read_some n s
      else (Inr (take n c), if length c \<le> n then s else Data (drop n c) # s))"

fun source_bytes :: "source \<Rightarrow> bytes" where
  "source_bytes [] = []"
| "source_bytes (RxErr # s) = []"
| "source_bytes (Data c # s) = c @ source_bytes s"

fun healthy :: "source \<Rightarrow> bool" where
  "healthy [] = True"
| "healthy (RxErr # s) = False"
| "healthy (Data c # s) = healthy s"

fun source_size :: "source \<Rightarrow> nat" where
  "source_size [] = 0"
| "source_size (RxErr # s) = Suc (source_size s)"
| "source_size (Data c # s) = Suc (length c + source_size s)"

lemma read_some_bytes:
  "read_some n s = (Inr c, s') \<Longrightarrow> c \<noteq> [] \<Longrightarrow> source_bytes s = c @ source_bytes s'"
  by (induction n s rule: read_some.induct) (auto split: if_splits)

lemma read_some_eof:
  "read_some n s = (Inr [], s') \<Longrightarrow> 0 < n \<Longrightarrow> source_bytes s = [] \<and> healthy s \<and> s' = []"
  by (induction n s rule: read_some.induct) (auto split: if_splits)

lemma read_some_length: "read_some n s = (Inr c, s') \<Longrightarrow> length c \<le> n"
  by (induction n s rule: read_some.induct) (auto split: if_splits)

lemma read_some_healthy:
  "healthy s \<Longrightarrow> \<exists>c s'. read_some n s = (Inr c, s') \<and> healthy s'"
  by (induction n s rule: read_some.induct) auto

lemma read_some_healthy_iff:
  "read_some n s = (Inr c, s') \<Longrightarrow> healthy s' = healthy s"
  by (induction n s rule: read_some.induct) (auto split: if_splits)

lemma read_some_size:
  "read_some n s = (r, s') \<Longrightarrow> r \<noteq> Inr [] \<Longrightarrow> source_size s' < source_size s"
  by (induction n s rule: read_some.induct) (auto split: if_splits)

end
