(* ===== verification/Rust_Str.thy ===== *)
theory Rust_Str
  imports Prelude
begin

text \<open>
  The parts of Rust's \<open>char\<close>, \<open>str\<close> and \<open>String\<close> that the program uses. A string is
  the list of its Unicode scalar values; \<open>utf8\<close> is its byte representation, which
  \<open>len()\<close>, \<open>as_bytes()\<close> and the wire formats see. \<open>from_utf8_lossy\<close> replaces
  each maximal ill-formed subsequence by U+FFFD, exactly as the standard library's
  chunk iterator finds them. The tables behind \<open>to_lowercase\<close> and
  \<open>is_alphanumeric\<close> are not reproduced: definitions that call them take them as
  parameters.
\<close>

type_synonym uchar = nat
type_synonym ustring = "uchar list"

definition ustr :: "string \<Rightarrow> ustring" where
  "ustr s = map of_char s"

definition scalar :: "uchar \<Rightarrow> bool" where
  "scalar c \<longleftrightarrow> c < 0xD800 \<or> (0xE000 \<le> c \<and> c < 0x110000)"

subsection \<open>Character classes\<close>

text \<open>\<open>char::is_control\<close> (category Cc) and \<open>char::is_whitespace\<close> (White\_Space).\<close>

definition is_control :: "uchar \<Rightarrow> bool" where
  "is_control c \<longleftrightarrow> c < 32 \<or> (127 \<le> c \<and> c < 160)"

definition is_whitespace :: "uchar \<Rightarrow> bool" where
  "is_whitespace c \<longleftrightarrow>
     (9 \<le> c \<and> c \<le> 13) \<or> c = 32 \<or> c = 0x85 \<or> c = 0xA0 \<or> c = 0x1680
     \<or> (0x2000 \<le> c \<and> c \<le> 0x200A) \<or> c = 0x2028 \<or> c = 0x2029 \<or> c = 0x202F
     \<or> c = 0x205F \<or> c = 0x3000"

definition ascii_digit :: "uchar \<Rightarrow> bool" where
  "ascii_digit c \<longleftrightarrow> 48 \<le> c \<and> c \<le> 57"

definition ascii_alphabetic :: "uchar \<Rightarrow> bool" where
  "ascii_alphabetic c \<longleftrightarrow> (65 \<le> c \<and> c \<le> 90) \<or> (97 \<le> c \<and> c \<le> 122)"

definition ascii_alphanumeric :: "uchar \<Rightarrow> bool" where
  "ascii_alphanumeric c \<longleftrightarrow> ascii_alphabetic c \<or> ascii_digit c"

definition ascii_hexdigit :: "uchar \<Rightarrow> bool" where
  "ascii_hexdigit c \<longleftrightarrow> ascii_digit c \<or> (65 \<le> c \<and> c \<le> 70) \<or> (97 \<le> c \<and> c \<le> 102)"

definition ascii_lower :: "uchar \<Rightarrow> uchar" where
  "ascii_lower c = (if 65 \<le> c \<and> c \<le> 90 then c + 32 else c)"

definition to_ascii_lowercase :: "ustring \<Rightarrow> ustring" where
  "to_ascii_lowercase s = map ascii_lower s"

definition eq_ignore_ascii_case :: "ustring \<Rightarrow> ustring \<Rightarrow> bool" where
  "eq_ignore_ascii_case s t \<longleftrightarrow> to_ascii_lowercase s = to_ascii_lowercase t"

lemmas ascii_defs = ascii_digit_def ascii_alphabetic_def ascii_alphanumeric_def ascii_hexdigit_def

lemma eq_ignore_ascii_case_refl [simp]: "eq_ignore_ascii_case s s"
  by (simp add: eq_ignore_ascii_case_def)

lemma eq_ignore_ascii_case_sym: "eq_ignore_ascii_case s t \<longleftrightarrow> eq_ignore_ascii_case t s"
  by (auto simp: eq_ignore_ascii_case_def)

lemma eq_ignore_ascii_case_trans:
  "eq_ignore_ascii_case s t \<Longrightarrow> eq_ignore_ascii_case t u \<Longrightarrow> eq_ignore_ascii_case s u"
  by (simp add: eq_ignore_ascii_case_def)

subsection \<open>UTF-8\<close>

definition utf8_char :: "uchar \<Rightarrow> bytes" where
  "utf8_char c =
     (if c < 0x80 then [of_nat c]
      else if c < 0x800 then [of_nat (0xC0 + c div 64), of_nat (0x80 + c mod 64)]
      else if c < 0x10000 then
        [of_nat (0xE0 + c div 4096), of_nat (0x80 + c div 64 mod 64), of_nat (0x80 + c mod 64)]
      else
        [of_nat (0xF0 + c div 262144), of_nat (0x80 + c div 4096 mod 64),
         of_nat (0x80 + c div 64 mod 64), of_nat (0x80 + c mod 64)])"

definition utf8 :: "ustring \<Rightarrow> bytes" where
  "utf8 s = concat (map utf8_char s)"

text \<open>\<open>str::len\<close>: the length in bytes.\<close>

definition str_len :: "ustring \<Rightarrow> nat" where
  "str_len s = length (utf8 s)"

definition byte_at :: "bytes \<Rightarrow> nat \<Rightarrow> nat" where
  "byte_at bs i = (if i < length bs then unat (bs ! i) else 0)"

definition is_cont :: "nat \<Rightarrow> bool" where
  "is_cont b \<longleftrightarrow> 0x80 \<le> b \<and> b \<le> 0xBF"

text \<open>
  One step of the decoder: a scalar value and its width, or \<open>None\<close> and the length of
  the ill-formed prefix.
\<close>

definition utf8_step :: "nat \<Rightarrow> nat \<Rightarrow> nat \<Rightarrow> nat \<Rightarrow> uchar option \<times> nat" where
  "utf8_step b x y z =
     (if b < 0x80 then (Some b, 1)
      else if 0xC2 \<le> b \<and> b \<le> 0xDF then
        (if is_cont x then (Some ((b - 0xC0) * 64 + (x - 0x80)), 2) else (None, 1))
      else if 0xE0 \<le> b \<and> b \<le> 0xEF then
        (if \<not> ((b = 0xE0 \<and> 0xA0 \<le> x \<and> x \<le> 0xBF) \<or> (0xE1 \<le> b \<and> b \<le> 0xEC \<and> is_cont x)
              \<or> (b = 0xED \<and> 0x80 \<le> x \<and> x \<le> 0x9F) \<or> (0xEE \<le> b \<and> is_cont x)) then (None, 1)
         else if \<not> is_cont y then (None, 2)
         else (Some ((b - 0xE0) * 4096 + (x - 0x80) * 64 + (y - 0x80)), 3))
      else if 0xF0 \<le> b \<and> b \<le> 0xF4 then
        (if \<not> ((b = 0xF0 \<and> 0x90 \<le> x \<and> x \<le> 0xBF) \<or> (0xF1 \<le> b \<and> b \<le> 0xF3 \<and> is_cont x)
              \<or> (b = 0xF4 \<and> 0x80 \<le> x \<and> x \<le> 0x8F)) then (None, 1)
         else if \<not> is_cont y then (None, 2)
         else if \<not> is_cont z then (None, 3)
         else (Some ((b - 0xF0) * 262144 + (x - 0x80) * 4096 + (y - 0x80) * 64 + (z - 0x80)), 4))
      else (None, 1))"

definition utf8_next :: "bytes \<Rightarrow> uchar option \<times> nat" where
  "utf8_next bs = utf8_step (byte_at bs 0) (byte_at bs 1) (byte_at bs 2) (byte_at bs 3)"

lemma utf8_next_progress: "1 \<le> snd (utf8_next bs)"
  by (simp add: utf8_next_def utf8_step_def)

function from_utf8_lossy :: "bytes \<Rightarrow> ustring" where
  "from_utf8_lossy bs =
     (if bs = [] then []
      else (case fst (utf8_next bs) of Some c \<Rightarrow> c | None \<Rightarrow> 0xFFFD)
           # from_utf8_lossy (drop (snd (utf8_next bs)) bs))"
  by pat_completeness auto
termination
  by (relation "measure length")
    (auto simp: Suc_le_eq dest!: order_less_le_trans intro!: diff_less
          intro: utf8_next_progress [unfolded One_nat_def Suc_le_eq])

function from_utf8 :: "bytes \<Rightarrow> ustring option" where
  "from_utf8 bs =
     (if bs = [] then Some []
      else (case fst (utf8_next bs) of
              None \<Rightarrow> None
            | Some c \<Rightarrow> map_option (Cons c) (from_utf8 (drop (snd (utf8_next bs)) bs))))"
  by pat_completeness auto
termination
  by (relation "measure length")
    (auto simp: Suc_le_eq intro!: diff_less
          intro: utf8_next_progress [unfolded One_nat_def Suc_le_eq])

declare from_utf8_lossy.simps [simp del]
declare from_utf8.simps [simp del]

lemma utf8_char_nonempty [simp]: "utf8_char c \<noteq> []"
  by (simp add: utf8_char_def)

lemma utf8_Nil [simp]: "utf8 [] = []"
  by (simp add: utf8_def)

lemma utf8_Cons: "utf8 (c # s) = utf8_char c @ utf8 s"
  by (simp add: utf8_def)

lemma utf8_append: "utf8 (s @ t) = utf8 s @ utf8 t"
  by (simp add: utf8_def)

lemma utf8_Nil_iff [simp]: "utf8 s = [] \<longleftrightarrow> s = []"
  by (cases s) (simp_all add: utf8_Cons)

lemma byte_at_simps [simp]:
  "byte_at (b # bs) 0 = unat b"
  "byte_at (b # bs) (Suc i) = byte_at bs i"
  "byte_at [] i = 0"
  by (simp_all add: byte_at_def)

lemma unat_of_nat_byte_small: "v < 256 \<Longrightarrow> unat (of_nat v :: byte) = v"
  by (simp add: unat_of_nat_byte)

lemma utf8_step2:
  "2 \<le> h \<Longrightarrow> h < 32 \<Longrightarrow> l < 64 \<Longrightarrow> utf8_step (0xC0 + h) (0x80 + l) y z = (Some (h * 64 + l), 2)"
  by (simp add: utf8_step_def is_cont_def)

lemma utf8_step3:
  assumes "h < 16" "m < 64" "l < 64" "h = 0 \<Longrightarrow> 32 \<le> m" "h = 13 \<Longrightarrow> m < 32"
  shows "utf8_step (0xE0 + h) (0x80 + m) (0x80 + l) z = (Some (h * 4096 + m * 64 + l), 3)"
proof -
  consider "h = 0" | "1 \<le> h" "h \<le> 12" | "h = 13" | "14 \<le> h" by linarith
  then show ?thesis
    by cases (use assms in \<open>simp_all add: utf8_step_def is_cont_def\<close>)
qed

lemma utf8_step4:
  assumes "h < 5" "n < 64" "m < 64" "l < 64" "h = 0 \<Longrightarrow> 16 \<le> n" "h = 4 \<Longrightarrow> n < 16"
  shows "utf8_step (0xF0 + h) (0x80 + n) (0x80 + m) (0x80 + l)
    = (Some (h * 262144 + n * 4096 + m * 64 + l), 4)"
proof -
  consider "h = 0" | "1 \<le> h" "h \<le> 3" | "h = 4" using assms by linarith
  then show ?thesis
    by cases (use assms in \<open>simp_all add: utf8_step_def is_cont_def\<close>)
qed

lemma sextets:
  fixes c :: nat
  shows "c = c div 4096 * 4096 + c div 64 mod 64 * 64 + c mod 64"
    and "c div 4096 = c div 262144 * 64 + c div 4096 mod 64"
proof -
  have "c div 64 = c div 4096 * 64 + c div 64 mod 64"
    by (simp add: div_mult2_eq [of c 64 64, simplified])
  moreover have "c = c div 64 * 64 + c mod 64" by simp
  ultimately show "c = c div 4096 * 4096 + c div 64 mod 64 * 64 + c mod 64" by linarith
  show "c div 4096 = c div 262144 * 64 + c div 4096 mod 64"
    by (simp add: div_mult2_eq [of c 4096 64, simplified])
qed

lemma utf8_next_char1:
  assumes "c < 0x80"
  shows "utf8_next (utf8_char c @ r) = (Some c, length (utf8_char c))"
  using assms by (simp add: utf8_char_def utf8_next_def utf8_step_def unat_of_nat_byte_small)

lemma utf8_next_char2:
  assumes "0x80 \<le> c" "c < 0x800"
  shows "utf8_next (utf8_char c @ r) = (Some c, length (utf8_char c))"
proof -
  have h: "c div 64 < 32" using assms by (simp add: less_mult_imp_div_less)
  have l: "2 \<le> c div 64" using div_le_mono [OF assms(1), of 64] by simp
  have "utf8_char c = [of_nat (0xC0 + c div 64), of_nat (0x80 + c mod 64)]"
    using assms by (simp add: utf8_char_def)
  moreover have "utf8_next ([of_nat (0xC0 + c div 64), of_nat (0x80 + c mod 64)] @ r)
      = utf8_step (0xC0 + c div 64) (0x80 + c mod 64) (byte_at r 0) (byte_at r 1)"
    using h by (simp add: utf8_next_def unat_of_nat_byte_small numeral_2_eq_2 numeral_3_eq_3 del: of_nat_add)
  ultimately show ?thesis
    using utf8_step2 [OF l h, of "c mod 64"] by simp
qed

lemma utf8_next_char3:
  assumes "0x800 \<le> c" "c < 0x10000" "scalar c"
  shows "utf8_next (utf8_char c @ r) = (Some c, length (utf8_char c))"
proof -
  define h where "h = c div 4096"
  define m where "m = c div 64 mod 64"
  define l where "l = c mod 64"
  have c: "c = h * 4096 + m * 64 + l"
    unfolding h_def m_def l_def by (rule sextets)
  have b: "h < 16" "m < 64" "l < 64"
    using assms unfolding h_def m_def l_def by (simp_all add: less_mult_imp_div_less)
  have x0: "32 \<le> m" if "h = 0"
    using assms(1) b that unfolding c by linarith
  have x13: "m < 32" if "h = 13"
    using assms(3) b that unfolding c scalar_def by linarith
  have ch: "utf8_char c = [of_nat (0xE0 + h), of_nat (0x80 + m), of_nat (0x80 + l)]"
    using assms by (simp add: utf8_char_def h_def m_def l_def)
  have "utf8_next ([of_nat (0xE0 + h), of_nat (0x80 + m), of_nat (0x80 + l)] @ r)
      = utf8_step (0xE0 + h) (0x80 + m) (0x80 + l) (byte_at r 0)"
    using b by (simp add: utf8_next_def unat_of_nat_byte_small numeral_2_eq_2 numeral_3_eq_3 del: of_nat_add)
  then show ?thesis
    using utf8_step3 [OF b x0 x13] by (simp add: ch flip: c)
qed

lemma utf8_next_char4:
  assumes "0x10000 \<le> c" "scalar c"
  shows "utf8_next (utf8_char c @ r) = (Some c, length (utf8_char c))"
proof -
  define h where "h = c div 262144"
  define n where "n = c div 4096 mod 64"
  define m where "m = c div 64 mod 64"
  define l where "l = c mod 64"
  have c: "c = h * 262144 + n * 4096 + m * 64 + l"
    using sextets [of c] unfolding h_def n_def m_def l_def by linarith
  have b: "h < 5" "n < 64" "m < 64" "l < 64"
    using assms unfolding h_def n_def m_def l_def scalar_def by (simp_all add: less_mult_imp_div_less)
  have x0: "16 \<le> n" if "h = 0"
    using assms(1) b that unfolding c by linarith
  have x4: "n < 16" if "h = 4"
    using assms b that unfolding c scalar_def by linarith
  have ch: "utf8_char c = [of_nat (0xF0 + h), of_nat (0x80 + n), of_nat (0x80 + m), of_nat (0x80 + l)]"
    using assms by (simp add: utf8_char_def h_def n_def m_def l_def)
  have "utf8_next ([of_nat (0xF0 + h), of_nat (0x80 + n), of_nat (0x80 + m), of_nat (0x80 + l)] @ r)
      = utf8_step (0xF0 + h) (0x80 + n) (0x80 + m) (0x80 + l)"
    using b by (simp add: utf8_next_def unat_of_nat_byte_small numeral_2_eq_2 numeral_3_eq_3 del: of_nat_add)
  then show ?thesis
    using utf8_step4 [OF b x0 x4] by (simp add: ch flip: c)
qed

lemma utf8_next_char:
  assumes "scalar c"
  shows "utf8_next (utf8_char c @ r) = (Some c, length (utf8_char c))"
  using assms utf8_next_char1 utf8_next_char2 utf8_next_char3 utf8_next_char4
  by (metis not_le)

lemma from_utf8_lossy_utf8 [codec_simps]:
  "list_all scalar s \<Longrightarrow> from_utf8_lossy (utf8 s) = s"
proof (induction s)
  case (Cons c s)
  then show ?case
    by (subst from_utf8_lossy.simps) (simp add: utf8_Cons utf8_next_char)
qed (simp add: from_utf8_lossy.simps)

lemma from_utf8_utf8 [codec_simps]:
  "list_all scalar s \<Longrightarrow> from_utf8 (utf8 s) = Some s"
proof (induction s)
  case (Cons c s)
  then show ?case
    by (subst from_utf8.simps) (simp add: utf8_Cons utf8_next_char)
qed (simp add: from_utf8.simps)

lemma utf8_inj: "list_all scalar s \<Longrightarrow> list_all scalar t \<Longrightarrow> utf8 s = utf8 t \<Longrightarrow> s = t"
  by (metis from_utf8_utf8 option.inject)

lemma utf8_ascii: "list_all (\<lambda>c. c < 128) s \<Longrightarrow> utf8 s = map of_nat s"
  by (induction s) (simp_all add: utf8_Cons utf8_char_def)

lemma scalar_ascii: "c < 128 \<Longrightarrow> scalar c"
  by (simp add: scalar_def)

subsection \<open>Splitting and trimming\<close>

text \<open>\<open>str::split\<close> with a character or a predicate: one more piece than separators.\<close>

fun split_on :: "('a \<Rightarrow> bool) \<Rightarrow> 'a list \<Rightarrow> 'a list list" where
  "split_on p [] = [[]]"
| "split_on p (c # cs) =
     (if p c then [] # split_on p cs
      else (case split_on p cs of [] \<Rightarrow> [[c]] | w # ws \<Rightarrow> (c # w) # ws))"

definition split_char :: "uchar \<Rightarrow> ustring \<Rightarrow> ustring list" where
  "split_char d s = split_on (\<lambda>c. c = d) s"

definition split_whitespace :: "ustring \<Rightarrow> ustring list" where
  "split_whitespace s = filter (\<lambda>w. w \<noteq> []) (split_on is_whitespace s)"

fun split_once :: "'a \<Rightarrow> 'a list \<Rightarrow> ('a list \<times> 'a list) option" where
  "split_once d [] = None"
| "split_once d (c # cs) =
     (if c = d then Some ([], cs) else map_option (\<lambda>(a, b). (c # a, b)) (split_once d cs))"

definition rsplit_once :: "'a \<Rightarrow> 'a list \<Rightarrow> ('a list \<times> 'a list) option" where
  "rsplit_once d s = map_option (\<lambda>(a, b). (rev b, rev a)) (split_once d (rev s))"

definition trim_start_by :: "('a \<Rightarrow> bool) \<Rightarrow> 'a list \<Rightarrow> 'a list" where
  "trim_start_by p s = dropWhile p s"

definition trim_end_by :: "('a \<Rightarrow> bool) \<Rightarrow> 'a list \<Rightarrow> 'a list" where
  "trim_end_by p s = rev (dropWhile p (rev s))"

definition trim_by :: "('a \<Rightarrow> bool) \<Rightarrow> 'a list \<Rightarrow> 'a list" where
  "trim_by p s = trim_end_by p (trim_start_by p s)"

definition str_trim :: "ustring \<Rightarrow> ustring" where
  "str_trim s = trim_by is_whitespace s"

fun strip_prefix :: "'a list \<Rightarrow> 'a list \<Rightarrow> 'a list option" where
  "strip_prefix [] s = Some s"
| "strip_prefix (p # ps) [] = None"
| "strip_prefix (p # ps) (c # cs) = (if p = c then strip_prefix ps cs else None)"

definition strip_suffix :: "'a list \<Rightarrow> 'a list \<Rightarrow> 'a list option" where
  "strip_suffix p s = map_option rev (strip_prefix (rev p) (rev s))"

definition starts_with :: "'a list \<Rightarrow> 'a list \<Rightarrow> bool" where
  "starts_with p s \<longleftrightarrow> strip_prefix p s \<noteq> None"

definition ends_with :: "'a list \<Rightarrow> 'a list \<Rightarrow> bool" where
  "ends_with p s \<longleftrightarrow> strip_suffix p s \<noteq> None"

fun str_contains :: "'a list \<Rightarrow> 'a list \<Rightarrow> bool" where
  "str_contains p [] = (p = [])"
| "str_contains p (c # cs) = (starts_with p (c # cs) \<or> str_contains p cs)"

text \<open>
  \<open>str::lines\<close>: pieces ending in a line feed lose it and one carriage return before it;
  a last piece without a line feed is kept as it is, unless it is empty.
\<close>

definition chomp_cr :: "ustring \<Rightarrow> ustring" where
  "chomp_cr s = (case strip_suffix [13] s of None \<Rightarrow> s | Some t \<Rightarrow> t)"

definition str_lines :: "ustring \<Rightarrow> ustring list" where
  "str_lines s =
     (let ps = split_char 10 s in
      map chomp_cr (butlast ps) @ (if last ps = [] then [] else [last ps]))"

lemma split_on_nonempty [simp]: "split_on p s \<noteq> []"
  by (induction s) (auto split: list.splits)

lemma split_on_no_sep: "w \<in> set (split_on p s) \<Longrightarrow> c \<in> set w \<Longrightarrow> \<not> p c"
proof (induction s arbitrary: w)
  case (Cons x xs)
  then show ?case
    by (cases "split_on p xs") (auto split: if_splits, blast)
qed simp

lemma split_on_subset: "w \<in> set (split_on p s) \<Longrightarrow> set w \<subseteq> set s"
proof (induction s arbitrary: w)
  case (Cons x xs)
  then show ?case
    by (cases "split_on p xs") (fastforce split: if_splits)+
qed simp

lemma split_on_covers: "c \<in> set s \<Longrightarrow> p c \<or> (\<exists>w \<in> set (split_on p s). c \<in> set w)"
proof (induction s)
  case (Cons x xs)
  then show ?case by (cases "split_on p xs") auto
qed simp

lemma split_on_none: "(\<forall>c \<in> set s. \<not> p c) \<Longrightarrow> split_on p s = [s]"
  by (induction s) auto

lemma split_on_append:
  "(\<forall>c \<in> set a. \<not> p c) \<Longrightarrow> p d \<Longrightarrow> split_on p (a @ d # b) = a # split_on p b"
  by (induction a) auto

lemma split_once_Some:
  "split_once d s = Some (a, b) \<longleftrightarrow> s = a @ d # b \<and> d \<notin> set a"
proof (induction s arbitrary: a)
  case (Cons c cs)
  then show ?case
    by (cases a) (auto split: option.splits)
qed simp

lemma split_once_None: "split_once d s = None \<longleftrightarrow> d \<notin> set s"
  by (induction s) auto

lemma rsplit_once_Some:
  "rsplit_once d s = Some (a, b) \<longleftrightarrow> s = a @ d # b \<and> d \<notin> set b"
proof -
  have "rsplit_once d s = Some (a, b) \<longleftrightarrow> split_once d (rev s) = Some (rev b, rev a)"
    by (auto simp: rsplit_once_def)
  also have "\<dots> \<longleftrightarrow> rev s = rev b @ d # rev a \<and> d \<notin> set b"
    by (simp add: split_once_Some)
  also have "\<dots> \<longleftrightarrow> s = a @ d # b \<and> d \<notin> set b"
    by (metis append.assoc append_Cons append_Nil rev_append rev_rev_ident rev_singleton_conv)
  finally show ?thesis .
qed

lemma rsplit_once_None: "rsplit_once d s = None \<longleftrightarrow> d \<notin> set s"
  by (simp add: rsplit_once_def split_once_None)

lemma strip_prefix_Some: "strip_prefix p s = Some t \<longleftrightarrow> s = p @ t"
  by (induction p s rule: strip_prefix.induct) auto

lemma strip_suffix_Some: "strip_suffix p s = Some t \<longleftrightarrow> s = t @ p"
proof -
  have "strip_suffix p s = Some t \<longleftrightarrow> rev s = rev p @ rev t"
    by (auto simp: strip_suffix_def strip_prefix_Some)
  then show ?thesis by (metis rev_append rev_rev_ident)
qed

lemma starts_with_iff: "starts_with p s \<longleftrightarrow> (\<exists>t. s = p @ t)"
  by (simp add: starts_with_def) (metis not_Some_eq strip_prefix_Some)

lemma ends_with_iff: "ends_with p s \<longleftrightarrow> (\<exists>t. s = t @ p)"
  by (simp add: ends_with_def) (metis not_Some_eq strip_suffix_Some)

lemma str_contains_iff: "str_contains p s \<longleftrightarrow> (\<exists>a b. s = a @ p @ b)"
proof (induction s)
  case (Cons c cs)
  show ?case
  proof
    assume "str_contains p (c # cs)"
    then consider "starts_with p (c # cs)" | "str_contains p cs" by auto
    then show "\<exists>a b. c # cs = a @ p @ b"
      by cases (metis append_Nil starts_with_iff, metis Cons append_Cons)
  next
    assume "\<exists>a b. c # cs = a @ p @ b"
    then obtain a b where ab: "c # cs = a @ p @ b" by blast
    show "str_contains p (c # cs)"
    proof (cases a)
      case Nil
      with ab have "starts_with p (c # cs)" by (auto simp: starts_with_iff)
      then show ?thesis by simp
    next
      case (Cons x xs)
      with ab have "cs = xs @ p @ b" by simp
      with Cons.IH show ?thesis by auto
    qed
  qed
qed auto

lemma trim_end_by_subset: "set (trim_end_by p s) \<subseteq> set s"
  by (auto simp: trim_end_by_def dest: set_dropWhileD)

lemma trim_by_subset: "set (trim_by p s) \<subseteq> set s"
  using trim_end_by_subset [of p "trim_start_by p s"]
  by (auto simp: trim_by_def trim_start_by_def dest: set_dropWhileD)

lemma trim_start_by_id: "s = [] \<or> \<not> p (hd s) \<Longrightarrow> trim_start_by p s = s"
  by (cases s) (auto simp: trim_start_by_def)

lemma trim_end_by_id: "s = [] \<or> \<not> p (last s) \<Longrightarrow> trim_end_by p s = s"
  by (cases s rule: rev_cases) (auto simp: trim_end_by_def)

lemma trim_by_id: "s = [] \<or> (\<not> p (hd s) \<and> \<not> p (last s)) \<Longrightarrow> trim_by p s = s"
  by (auto simp: trim_by_def trim_start_by_id trim_end_by_id)

lemma trim_by_Nil_iff: "trim_by p s = [] \<longleftrightarrow> (\<forall>c \<in> set s. p c)"
proof
  assume "trim_by p s = []"
  then have "\<forall>c \<in> set (dropWhile p s). p c"
    by (simp add: trim_by_def trim_start_by_def trim_end_by_def)
  then show "\<forall>c \<in> set s. p c"
    by (metis dropWhile_eq_self_iff hd_in_set dropWhile_idem dropWhile_eq_Nil_conv)
qed (auto simp: trim_by_def trim_start_by_def trim_end_by_def dest: set_dropWhileD)

subsection \<open>Numbers\<close>

definition digit_val :: "uchar \<Rightarrow> nat" where
  "digit_val c = (if ascii_digit c then c - 48
                  else if 97 \<le> c \<and> c \<le> 102 then c - 87
                  else if 65 \<le> c \<and> c \<le> 70 then c - 55 else 16)"

fun digits_val :: "nat \<Rightarrow> nat \<Rightarrow> ustring \<Rightarrow> nat" where
  "digits_val r acc [] = acc"
| "digits_val r acc (c # cs) = digits_val r (acc * r + digit_val c) cs"

text \<open>
  \<open>from_str_radix\<close> on an unsigned type with largest value \<open>mx\<close>: an optional plus
  sign, then at least one digit of the radix, and no overflow.
\<close>

definition parse_radix :: "nat \<Rightarrow> nat \<Rightarrow> ustring \<Rightarrow> nat option" where
  "parse_radix r mx s =
     (let ds = (case s of c # cs \<Rightarrow> if c = 43 \<and> cs \<noteq> [] then cs else s | [] \<Rightarrow> []) in
      if ds = [] \<or> \<not> list_all (\<lambda>c. digit_val c < r) ds then None
      else if digits_val r 0 ds \<le> mx then Some (digits_val r 0 ds) else None)"

definition parse_u16 :: "ustring \<Rightarrow> u16 option" where
  "parse_u16 s = map_option of_nat (parse_radix 10 65535 s)"

definition parse_u64 :: "ustring \<Rightarrow> nat option" where
  "parse_u64 s = parse_radix 10 (2 ^ 64 - 1) s"

text \<open>\<open>Display\<close> of an unsigned integer.\<close>

function show_nat :: "nat \<Rightarrow> ustring" where
  "show_nat n = (if n < 10 then [48 + n] else show_nat (n div 10) @ [48 + n mod 10])"
  by pat_completeness auto
termination by (relation "measure id") auto

declare show_nat.simps [simp del]

lemma digits_val_append: "digits_val r acc (xs @ ys) = digits_val r (digits_val r acc xs) ys"
  by (induction xs arbitrary: acc) simp_all

lemma digit_val_digit: "d < 10 \<Longrightarrow> digit_val (48 + d) = d"
  by (simp add: digit_val_def ascii_digit_def)

lemma show_nat_digits: "list_all ascii_digit (show_nat n)"
proof (induction n rule: show_nat.induct)
  case (1 n)
  then show ?case
    by (subst show_nat.simps) (simp add: ascii_digit_def [of "48 + _"] less_Suc_eq_le [of _ 9, symmetric])
qed

lemma digits_val_show_nat: "digits_val 10 0 (show_nat n) = n"
proof (induction n rule: show_nat.induct)
  case (1 n)
  then show ?case
    by (subst show_nat.simps) (auto simp: digits_val_append digit_val_digit)
qed

lemma show_nat_nonempty [simp]: "show_nat n \<noteq> []"
  by (subst show_nat.simps) simp

lemma parse_radix_show_nat [codec_simps]: "n \<le> mx \<Longrightarrow> parse_radix 10 mx (show_nat n) = Some n"
proof -
  assume n: "n \<le> mx"
  have d: "list_all (\<lambda>c. digit_val c < 10) (show_nat n)"
    using show_nat_digits [of n] by (auto simp: list_all_iff digit_val_def ascii_digit_def)
  have "hd (show_nat n) \<noteq> 43"
    using show_nat_digits [of n] by (cases "show_nat n") (auto simp: ascii_digit_def)
  then have "(case show_nat n of [] \<Rightarrow> [] | c # cs \<Rightarrow> if c = 43 \<and> cs \<noteq> [] then cs else show_nat n)
      = show_nat n"
    by (cases "show_nat n") auto
  with n d show ?thesis
    by (simp add: parse_radix_def digits_val_show_nat Let_def)
qed

lemma parse_radix_le: "parse_radix r mx s = Some n \<Longrightarrow> n \<le> mx"
  by (auto simp: parse_radix_def Let_def split: if_splits)

lemma parse_radix_nonempty: "parse_radix r mx s = Some n \<Longrightarrow> s \<noteq> []"
  by (auto simp: parse_radix_def Let_def)

lemma parse_u16_show [codec_simps]: "parse_u16 (show_nat (unat p)) = Some p"
proof -
  have "unat p \<le> 65535"
    using unsigned_less [of p, where ?'a = nat] by simp
  then show ?thesis by (simp add: parse_u16_def parse_radix_show_nat)
qed

end
