(* ===== verification/Crates.thy ===== *)
theory Crates
  imports Rust_Io Rust_Str
begin

text \<open>
  Third-party code the program calls. It is not part of the repository, so each function
  is a field of a record that the definitions take as an argument; what the program relies
  on is stated as a predicate on that record and appears as a hypothesis of the theorems
  that need it. \<open>sample_crypto\<close> is a concrete record with these laws.

    \<^item> \<open>argon2id\<close>: \<open>Argon2::hash_password_into\<close> (\<open>argon2\<close>), password and salt to 32 bytes;
    \<^item> \<open>gcm_seal\<close>: \<open>LessSafeKey::seal_in_place_separate_tag\<close> (\<open>ring\<close>, AES-128-GCM, no
      associated data), key, nonce and plaintext to ciphertext and tag;
    \<^item> \<open>gcm_open\<close>: \<open>LessSafeKey::open_in_place\<close>, key, nonce and ciphertext with tag;
    \<^item> \<open>gcm_wreck\<close>: what a failed \<open>open_in_place\<close> leaves in the buffer, which \<open>ring\<close> does
      not specify;
    \<^item> \<open>sha256\<close>, \<open>hmac_sha256\<close>: \<open>sha2\<close> and \<open>hmac\<close>.
\<close>

record crypto =
  argon2id :: "bytes \<Rightarrow> bytes \<Rightarrow> bytes option"
  gcm_seal :: "bytes \<Rightarrow> bytes \<Rightarrow> bytes \<Rightarrow> (bytes \<times> bytes) option"
  gcm_open :: "bytes \<Rightarrow> bytes \<Rightarrow> bytes \<Rightarrow> bytes option"
  gcm_wreck :: "bytes \<Rightarrow> bytes \<Rightarrow> bytes \<Rightarrow> bytes"
  sha256 :: "bytes \<Rightarrow> bytes"
  hmac_sha256 :: "bytes \<Rightarrow> bytes \<Rightarrow> bytes"

text \<open>
  AES-GCM: the ciphertext is as long as the plaintext, the tag has 16 bytes, and opening
  what was sealed under the same key and nonce returns the plaintext.
\<close>

definition aead_laws :: "crypto \<Rightarrow> bool" where
  "aead_laws X \<longleftrightarrow>
     (\<forall>k n p c t. gcm_seal X k n p = Some (c, t) \<longrightarrow>
        length c = length p \<and> length t = 16 \<and> gcm_open X k n (c @ t) = Some p)"

text \<open>The tag is checked and stripped: what opens is 16 bytes longer than the plaintext.\<close>

definition open_strips_tag :: "crypto \<Rightarrow> bool" where
  "open_strips_tag X \<longleftrightarrow> (\<forall>k n c p. gcm_open X k n c = Some p \<longrightarrow> length c = length p + 16)"

definition digest_laws :: "crypto \<Rightarrow> bool" where
  "digest_laws X \<longleftrightarrow> (\<forall>k m. length (hmac_sha256 X k m) = 32)"

subsection \<open>Operating system entropy\<close>

text \<open>\<open>getrandom::fill\<close>: \<open>None\<close> is a failing source.\<close>

type_synonym entropy = "(nat \<Rightarrow> byte) option"

definition fill_random :: "entropy \<Rightarrow> nat \<Rightarrow> bytes option" where
  "fill_random r n = map_option (\<lambda>f. map f [0..<n]) r"

lemma fill_random_length: "fill_random r n = Some bs \<Longrightarrow> length bs = n"
  by (auto simp: fill_random_def)

subsection \<open>A concrete instance\<close>

definition sample_tag :: "bytes \<Rightarrow> bytes \<Rightarrow> bytes" where
  "sample_tag k n = take 16 (n @ k @ replicate 16 0)"

definition sample_crypto :: crypto where
  "sample_crypto =
     \<lparr>argon2id = (\<lambda>p s. Some (take 32 (s @ p @ replicate 32 0))),
      gcm_seal = (\<lambda>k n p. Some (map (\<lambda>b. b + 1) p, sample_tag k n)),
      gcm_open = (\<lambda>k n c.
        if 16 \<le> length c \<and> drop (length c - 16) c = sample_tag k n
        then Some (map (\<lambda>b. b - 1) (take (length c - 16) c)) else None),
      gcm_wreck = (\<lambda>k n c. c),
      sha256 = (\<lambda>m. take 32 (m @ replicate 32 0)),
      hmac_sha256 = (\<lambda>k m. take 32 (m @ k @ replicate 32 0))\<rparr>"

lemma sample_tag_length [simp]: "length (sample_tag k n) = 16"
  by (simp add: sample_tag_def)

lemma sample_aead_laws: "aead_laws sample_crypto"
  by (auto simp: aead_laws_def sample_crypto_def o_def)

lemma sample_open_strips_tag: "open_strips_tag sample_crypto"
  by (auto simp: open_strips_tag_def sample_crypto_def split: if_splits)

lemma sample_digest_laws: "digest_laws sample_crypto"
  by (auto simp: digest_laws_def sample_crypto_def)

subsection \<open>Text codecs and tables\<close>

text \<open>
    \<^item> \<open>b64url_encode\<close>, \<open>b64url_decode\<close>: \<open>base64\<close>'s \<open>URL_SAFE_NO_PAD\<close>; \<open>b64_decode\<close>: \<open>STANDARD\<close>;
    \<^item> \<open>lowercase\<close>, \<open>alphanumeric\<close>: the Unicode tables of \<open>str::to_lowercase\<close> and
      \<open>char::is_alphanumeric\<close>;
    \<^item> \<open>ct_eq\<close>: \<open>subtle::ConstantTimeEq\<close>;
    \<^item> \<open>ech_supported\<close>: whether \<open>EchConfig::new\<close> of \<open>rustls\<close> accepts a configuration list;
    \<^item> \<open>hex_encode\<close>, \<open>hex_decode\<close>: those of \<open>hex\<close>.
\<close>

record text_crates =
  b64url_encode :: "bytes \<Rightarrow> ustring"
  b64url_decode :: "ustring \<Rightarrow> bytes option"
  b64_decode :: "ustring \<Rightarrow> bytes option"
  lowercase :: "ustring \<Rightarrow> ustring"
  alphanumeric :: "uchar \<Rightarrow> bool"
  ct_eq :: "bytes \<Rightarrow> bytes \<Rightarrow> bool"
  ech_supported :: "bytes \<Rightarrow> bool"
  hex_encode :: "bytes \<Rightarrow> ustring"
  hex_decode :: "ustring \<Rightarrow> bytes option"

definition url_safe_char :: "uchar \<Rightarrow> bool" where
  "url_safe_char c \<longleftrightarrow> ascii_alphanumeric c \<or> c = 45 \<or> c = 95"

text \<open>Decoding inverts encoding, and the alphabet is letters, digits, minus and underscore.\<close>

definition b64url_laws :: "text_crates \<Rightarrow> bool" where
  "b64url_laws T \<longleftrightarrow>
     (\<forall>b. b64url_decode T (b64url_encode T b) = Some b \<and> list_all url_safe_char (b64url_encode T b))"

definition ct_eq_law :: "text_crates \<Rightarrow> bool" where
  "ct_eq_law T \<longleftrightarrow> (\<forall>a b. ct_eq T a b \<longleftrightarrow> a = b)"

text \<open>A concrete instance: two letters per byte instead of Base64, ASCII tables.\<close>

fun nibbles :: "bytes \<Rightarrow> ustring" where
  "nibbles [] = []"
| "nibbles (b # bs) = (97 + unat b div 16) # (97 + unat b mod 16) # nibbles bs"

fun unnibbles :: "ustring \<Rightarrow> bytes option" where
  "unnibbles [] = Some []"
| "unnibbles [c] = None"
| "unnibbles (h # l # s) = map_option (Cons (of_nat ((h - 97) * 16 + (l - 97)))) (unnibbles s)"

definition sample_text :: text_crates where
  "sample_text = \<lparr>b64url_encode = nibbles, b64url_decode = unnibbles, b64_decode = unnibbles,
     lowercase = to_ascii_lowercase, alphanumeric = ascii_alphanumeric, ct_eq = (\<lambda>a b. a = b),
     ech_supported = (\<lambda>_. True), hex_encode = nibbles, hex_decode = unnibbles\<rparr>"

lemma unnibbles_nibbles: "unnibbles (nibbles bs) = Some bs"
proof (induction bs)
  case (Cons b bs)
  have "unat b div 16 * 16 + unat b mod 16 = unat b" by (rule div_mult_mod_eq)
  then show ?case using Cons by (simp del: of_nat_add of_nat_mult)
qed simp

lemma sample_b64url_laws: "b64url_laws sample_text"
proof -
  have letter: "url_safe_char (97 + k)" if "k < 16" for k
    using that by (simp add: url_safe_char_def ascii_alphanumeric_def ascii_alphabetic_def)
  have "url_safe_char (97 + unat b div 16)" "url_safe_char (97 + unat b mod 16)" for b :: byte
    using unat_byte_less [of b] by (intro letter, simp add: less_mult_imp_div_less)+
  then have "list_all url_safe_char (nibbles bs)" for bs by (induction bs) simp_all
  then show ?thesis by (simp add: b64url_laws_def sample_text_def unnibbles_nibbles)
qed

lemma sample_ct_eq_law: "ct_eq_law sample_text"
  by (simp add: ct_eq_law_def sample_text_def)

end
