(* ===== verification/Snell_Record.thy ===== *)
theory Snell_Record
  imports Crates Rust_Str
begin

text \<open>
  The Snell record layer, \<open>src/snell/record.rs\<close>: key derivation, the writer that seals
  frames (salt, sealed header, padding interleaved with the sealed payload) and the reader
  that opens them. The scratch buffer of the writer is cleared before every use, so it is
  not part of the state.
\<close>

definition MAX_RECORD_PAYLOAD_SIZE :: nat where
  "MAX_RECORD_PAYLOAD_SIZE = 16383"

definition RECORD_HEADER_CIPHER_SIZE :: nat where
  "RECORD_HEADER_CIPHER_SIZE = 23"

definition WRITE_BATCH_LIMIT :: nat where
  "WRITE_BATCH_LIMIT = 65536"

datatype RecordKind = Payload | Zero

definition derive_record_key :: "crypto \<Rightarrow> ustring \<Rightarrow> bytes \<Rightarrow> bytes res" where
  "derive_record_key X psk salt =
     (if psk = [] then Inl (Bail ''PSK cannot be empty'')
      else and_then (ok_or (argon2id X (utf8 psk) salt) (Bail ''derive Snell record key''))
             (\<lambda>derived. Inr (take 16 derived)))"

text \<open>\<open>UnboundKey::new\<close> rejects a key of the wrong length; the key is kept as it is.\<close>

definition record_aead :: "bytes \<Rightarrow> bytes res" where
  "record_aead key = (if length key = 16 then Inr key else Inl (Bail ''create Snell AES-GCM''))"

subsection \<open>Nonces and padding\<close>

fun increment_nonce :: "bytes \<Rightarrow> bytes" where
  "increment_nonce [] = []"
| "increment_nonce (v # vs) = (if v + 1 \<noteq> 0 then (v + 1) # vs else (v + 1) # increment_nonce vs)"

text \<open>The loop over the even indices below both lengths.\<close>

definition swap_at :: "nat \<Rightarrow> bytes \<times> bytes \<Rightarrow> bytes \<times> bytes" where
  "swap_at i pc = (case pc of (p, c) \<Rightarrow> (p[i := c ! i], c[i := p ! i]))"

definition swap_padding :: "bytes \<Rightarrow> bytes \<Rightarrow> bytes \<times> bytes" where
  "swap_padding p c = fold swap_at (filter even [0..<min (length p) (length c)]) (p, c)"

subsection \<open>The writer\<close>

record record_writer =
  rw_writer :: sink
  rw_aead :: bytes
  rw_salt :: bytes
  rw_salt_sent :: bool
  rw_nonce :: bytes

definition writer_new :: "crypto \<Rightarrow> sink \<Rightarrow> ustring \<Rightarrow> bytes \<Rightarrow> record_writer res" where
  "writer_new X w psk salt =
     and_then (derive_record_key X psk salt) (\<lambda>key.
     and_then (record_aead key) (\<lambda>aead.
       Inr \<lparr>rw_writer = w, rw_aead = aead, rw_salt = salt, rw_salt_sent = False,
            rw_nonce = replicate 12 0\<rparr>))"

definition mark_salt_sent :: "record_writer \<Rightarrow> record_writer" where
  "mark_salt_sent w = w\<lparr>rw_salt_sent := True\<rparr>"

definition seal :: "crypto \<Rightarrow> string \<Rightarrow> bytes \<Rightarrow> record_writer \<Rightarrow> (bytes \<times> bytes) res \<times> record_writer" where
  "seal X ctx plain w =
     (case gcm_seal X (rw_aead w) (rw_nonce w) plain of
        None \<Rightarrow> (Inl (Bail ctx), w)
      | Some ct \<Rightarrow> (Inr ct, w\<lparr>rw_nonce := increment_nonce (rw_nonce w)\<rparr>))"

definition record_header :: "nat \<Rightarrow> nat \<Rightarrow> bytes" where
  "record_header padding_length payload_length =
     [4, 0, 0] @ to_be16 (of_nat padding_length) @ to_be16 (of_nat payload_length)"

text \<open>The bytes appended to the frame buffer; the entropy is that of \<open>getrandom::fill\<close>.\<close>

definition encode_frame_append ::
  "crypto \<Rightarrow> entropy \<Rightarrow> bytes \<Rightarrow> nat \<Rightarrow> record_writer \<Rightarrow> bytes res \<times> record_writer" where
  "encode_frame_append X rng payload padding_length w =
     (if length payload > MAX_RECORD_PAYLOAD_SIZE \<or> padding_length > MAX_RECORD_PAYLOAD_SIZE
      then (Inl (Bail ''Snell record size is invalid''), w)
      else if payload = [] \<and> padding_length \<noteq> 0
      then (Inl (Bail ''zero-length Snell record cannot contain padding''), w)
      else
        let salt = (if rw_salt_sent w then [] else rw_salt w);
            w = w\<lparr>rw_salt_sent := True\<rparr> in
        st_then (seal X ''encrypt Snell record header''
                   (record_header padding_length (length payload)) w) (\<lambda>(header, tag) w.
        st_then (if padding_length = 0 then (Inr [], w)
                 else (ok_or (fill_random rng padding_length)
                         (Bail ''generate Snell record padding''), w)) (\<lambda>padding w.
        st_then (if payload = [] then (Inr [], w)
                 else st_then (seal X ''encrypt Snell record payload'' payload w)
                        (\<lambda>(sealed, tag) w. (Inr (sealed @ tag), w))) (\<lambda>sealed w.
        let (padding, sealed) = swap_padding padding sealed in
        (Inr (salt @ header @ tag @ padding @ sealed), w)))))"

definition write_and_flush :: "bytes \<Rightarrow> string \<Rightarrow> record_writer \<Rightarrow> unit res \<times> record_writer" where
  "write_and_flush content ctx w =
     (let (r, s) = (if content \<noteq> [] then write_all content (rw_writer w) else (Inr (), rw_writer w)) in
      case r of
        Inl _ \<Rightarrow> (Inl (Bail ctx), w\<lparr>rw_writer := s\<rparr>)
      | Inr _ \<Rightarrow> (case flush s of (r, s) \<Rightarrow> (map_err (\<lambda>_. Bail ctx) r, w\<lparr>rw_writer := s\<rparr>)))"

definition write_frame ::
  "crypto \<Rightarrow> entropy \<Rightarrow> bytes \<Rightarrow> nat \<Rightarrow> record_writer \<Rightarrow> unit res \<times> record_writer" where
  "write_frame X rng payload padding_length w =
     st_then (encode_frame_append X rng payload padding_length w)
       (\<lambda>frame w. write_and_flush frame ''write Snell record'' w)"

function chunks :: "nat \<Rightarrow> 'a list \<Rightarrow> 'a list list" where
  "chunks n xs = (if n = 0 \<or> xs = [] then [] else take n xs # chunks n (drop n xs))"
  by pat_completeness auto
termination by (relation "measure (\<lambda>(n, xs). length xs)") auto

declare chunks.simps [simp del]

text \<open>The loop of \<open>write_payload\<close>; its value is what is left in the frame buffer.\<close>

fun payload_loop ::
  "crypto \<Rightarrow> bytes list \<Rightarrow> bytes \<Rightarrow> record_writer \<Rightarrow> bytes res \<times> record_writer" where
  "payload_loop X [] frame w = (Inr frame, w)"
| "payload_loop X (c # cs) frame w =
     st_then (encode_frame_append X None c 0 w) (\<lambda>f w.
     if WRITE_BATCH_LIMIT \<le> length (frame @ f)
     then (case write_all (frame @ f) (rw_writer w) of
             (Inl _, s) \<Rightarrow> (Inl (Bail ''write Snell record''), w\<lparr>rw_writer := s\<rparr>)
           | (Inr _, s) \<Rightarrow> payload_loop X cs [] (w\<lparr>rw_writer := s\<rparr>))
     else payload_loop X cs (frame @ f) w)"

definition write_payload :: "crypto \<Rightarrow> bytes \<Rightarrow> record_writer \<Rightarrow> unit res \<times> record_writer" where
  "write_payload X content w =
     st_then (payload_loop X (chunks MAX_RECORD_PAYLOAD_SIZE content) [] w)
       (\<lambda>frame w. write_and_flush frame ''write Snell record'' w)"

definition write_raw_all :: "bytes \<Rightarrow> record_writer \<Rightarrow> unit res \<times> record_writer" where
  "write_raw_all content w = write_and_flush content ''write Snell initial flight'' w"

definition shutdown_writer :: "record_writer \<Rightarrow> unit res \<times> record_writer" where
  "shutdown_writer w =
     (case shutdown_sink (rw_writer w) of
        (r, s) \<Rightarrow> (map_err (\<lambda>_. Bail ''close Snell transport'') r, w\<lparr>rw_writer := s\<rparr>))"

subsection \<open>The reader\<close>

text \<open>
  \<open>rr_reader\<close> is what the transport will still deliver before its end. \<open>rr_frame\<close> is the
  buffer the last \<open>read_frame_into\<close> was given, as it left it: on an error it holds what
  had been received, which a caller may keep.
\<close>

record record_reader =
  rr_reader :: bytes
  rr_psk :: ustring
  rr_aead :: "bytes option"
  rr_nonce :: bytes
  rr_frame :: bytes

definition reader_new :: "bytes \<Rightarrow> ustring \<Rightarrow> record_reader" where
  "reader_new s psk = \<lparr>rr_reader = s, rr_psk = psk, rr_aead = None, rr_nonce = replicate 12 0,
     rr_frame = []\<rparr>"

definition with_salt :: "crypto \<Rightarrow> bytes \<Rightarrow> ustring \<Rightarrow> bytes \<Rightarrow> record_reader res" where
  "with_salt X s psk salt =
     and_then (derive_record_key X psk salt) (\<lambda>key.
     and_then (record_aead key) (\<lambda>aead.
       Inr \<lparr>rr_reader = s, rr_psk = psk, rr_aead = Some aead, rr_nonce = replicate 12 0,
            rr_frame = []\<rparr>))"

definition rr_read :: "nat \<Rightarrow> string \<Rightarrow> record_reader \<Rightarrow> bytes res \<times> record_reader" where
  "rr_read n ctx r =
     (case read_exact n (rr_reader r) of
        None \<Rightarrow> (Inl (Bail ctx), r\<lparr>rr_reader := []\<rparr>)
      | Some (a, rest) \<Rightarrow> (Inr a, r\<lparr>rr_reader := rest\<rparr>))"

definition reader_key :: "crypto \<Rightarrow> record_reader \<Rightarrow> bytes res \<times> record_reader" where
  "reader_key X r =
     (case rr_aead r of
        Some k \<Rightarrow> (Inr k, r)
      | None \<Rightarrow>
          st_then (rr_read 16 ''read Snell record salt'' r) (\<lambda>salt r.
          st_then (and_then (derive_record_key X (rr_psk r) salt) record_aead, r) (\<lambda>k r.
          (Inr k, r\<lparr>rr_aead := Some k\<rparr>))))"

definition rr_open :: "crypto \<Rightarrow> bytes \<Rightarrow> string \<Rightarrow> bytes \<Rightarrow> record_reader \<Rightarrow> bytes res \<times> record_reader" where
  "rr_open X k ctx c r =
     (case gcm_open X k (rr_nonce r) c of
        None \<Rightarrow> (Inl (Bail ctx), r)
      | Some p \<Rightarrow> (Inr p, r\<lparr>rr_nonce := increment_nonce (rr_nonce r)\<rparr>))"

text \<open>The payload part, into a buffer that is first resized and filled with zeros.\<close>

definition read_body :: "crypto \<Rightarrow> bytes \<Rightarrow> nat \<Rightarrow> nat \<Rightarrow> record_reader \<Rightarrow> (RecordKind \<times> bytes) res \<times> record_reader" where
  "read_body X k padding_length payload_length r =
     (let n = padding_length + payload_length + 16 in
      case read_exact n (rr_reader r) of
        None \<Rightarrow>
          (Inl (Bail ''read Snell record payload''),
           r\<lparr>rr_reader := [], rr_frame := rr_reader r @ replicate (n - length (rr_reader r)) 0\<rparr>)
      | Some (frame, rest) \<Rightarrow>
          let r = r\<lparr>rr_reader := rest\<rparr>;
              (padding, encrypted) = swap_padding (take padding_length frame) (drop padding_length frame) in
          case rr_open X k ''authenticate Snell record payload'' encrypted r of
            (Inl e, r) \<Rightarrow> (Inl e, r\<lparr>rr_frame := padding @ gcm_wreck X k (rr_nonce r) encrypted\<rparr>)
          | (Inr payload, r) \<Rightarrow> (Inr (Payload, payload), r\<lparr>rr_frame := payload\<rparr>))"

text \<open>What follows the opened header.\<close>

definition read_content :: "crypto \<Rightarrow> bytes \<Rightarrow> bytes \<Rightarrow> record_reader \<Rightarrow> (RecordKind \<times> bytes) res \<times> record_reader" where
  "read_content X k header r =
     (if header ! 0 \<noteq> 4 then (Inl (Bail ''Snell record header is invalid''), r)
      else
        let padding_length = unat (from_be16 (header ! 3) (header ! 4));
            payload_length = unat (from_be16 (header ! 5) (header ! 6)) in
        if payload_length > MAX_RECORD_PAYLOAD_SIZE \<or> padding_length > MAX_RECORD_PAYLOAD_SIZE
        then (Inl (Bail ''Snell record size is invalid''), r)
        else if payload_length = 0
        then (if padding_length \<noteq> 0
              then (Inl (Bail ''zero-length Snell record contains padding''), r)
              else (Inr (Zero, []), r))
        else read_body X k padding_length payload_length r)"

text \<open>\<open>read_frame_into\<close>: the kind of the record and, on success, the content of the buffer.\<close>

definition read_frame_into :: "crypto \<Rightarrow> record_reader \<Rightarrow> (RecordKind \<times> bytes) res \<times> record_reader" where
  "read_frame_into X r =
     st_then (reader_key X (r\<lparr>rr_frame := []\<rparr>)) (\<lambda>k r.
     st_then (rr_read RECORD_HEADER_CIPHER_SIZE ''read Snell record header'' r) (\<lambda>encrypted r.
     st_then (rr_open X k ''authenticate Snell record header'' encrypted r) (\<lambda>header r.
     read_content X k header r)))"

definition read_frame :: "crypto \<Rightarrow> record_reader \<Rightarrow> bytes res \<times> record_reader" where
  "read_frame X r =
     st_then (read_frame_into X r) (\<lambda>(kind, frame) r.
       case kind of Payload \<Rightarrow> (Inr frame, r) | Zero \<Rightarrow> (Inl ZeroRecord, r))"

subsection \<open>Nonces count the sealed messages\<close>

fun le_val :: "bytes \<Rightarrow> nat" where
  "le_val [] = 0"
| "le_val (v # vs) = unat v + 256 * le_val vs"

lemma length_increment_nonce [simp, len_simps]: "length (increment_nonce n) = length n"
  by (induction n rule: increment_nonce.induct) auto

lemma le_val_less: "le_val n < 256 ^ length n"
proof (induction n)
  case (Cons v vs)
  have "unat v + 256 * le_val vs < 256 * (le_val vs + 1)" using unat_byte_less [of v] by simp
  also have "\<dots> \<le> 256 * 256 ^ length vs" using Cons by (intro mult_le_mono2) simp
  finally show ?case by simp
qed simp

lemma le_val_inj: "length m = length n \<Longrightarrow> le_val m = le_val n \<Longrightarrow> m = n"
proof (induction m n rule: list_induct2)
  case (Cons x xs y ys)
  then have eq: "unat x + 256 * le_val xs = unat y + 256 * le_val ys" by simp
  then have "(unat x + 256 * le_val xs) mod 256 = (unat y + 256 * le_val ys) mod 256" by simp
  then have xy: "unat x = unat y" using unat_byte_less [of x] unat_byte_less [of y] by simp
  with eq Cons.IH show ?case by (simp add: word_unat_eq_iff)
qed simp

lemma unat_byte_plus_one: "unat (v + 1 :: byte) = (if v + 1 = 0 then 0 else unat v + 1)"
  by (simp add: unatSuc add.commute)

lemma unat_byte_wrap: "v + 1 = (0 :: byte) \<Longrightarrow> unat v = 255"
proof -
  assume "v + 1 = 0"
  then have "v = - 1" by (simp add: eq_neg_iff_add_eq_0)
  then show "unat v = 255" by (simp add: unsigned_minus_1_eq_mask mask_eq_exp_minus_1)
qed

lemma le_val_increment_nonce:
  "le_val (increment_nonce n) = (le_val n + 1) mod 256 ^ length n"
proof (induction n rule: increment_nonce.induct)
  case (2 v vs)
  show ?case
  proof (cases "v + 1 = 0")
    case True
    then have "le_val (v # vs) + 1 = 256 * (le_val vs + 1)" by (simp add: unat_byte_wrap)
    then show ?thesis using 2 True by (simp add: mult_mod_right)
  next
    case False
    have "unat (v + 1) + 256 * le_val vs < 256 * (le_val vs + 1)"
      using unat_byte_less [of "v + 1"] by simp
    also have "\<dots> \<le> 256 ^ length (v # vs)"
      using le_val_less [of vs] by (simp add: Suc_le_eq)
    finally show ?thesis using False by (simp add: unat_byte_plus_one)
  qed
qed simp

lemma le_val_funpow_increment:
  "le_val ((increment_nonce ^^ k) n) = (le_val n + k) mod 256 ^ length n"
proof (induction k)
  case (Suc k)
  have "length ((increment_nonce ^^ k) n) = length n" by (induction k) simp_all
  then show ?case using Suc by (simp add: le_val_increment_nonce mod_Suc_eq)
qed (simp add: le_val_less)

lemma length_funpow_increment [simp, len_simps]: "length ((increment_nonce ^^ k) n) = length n"
  by (induction k) simp_all

lemma funpow_increment_inj_le:
  assumes "i \<le> j" "j < 256 ^ length n"
    and "(increment_nonce ^^ i) n = (increment_nonce ^^ j) n"
  shows "i = j"
proof -
  have "(le_val n + j) mod 256 ^ length n = (le_val n + i) mod 256 ^ length n"
    using assms(3) le_val_funpow_increment by metis
  then have "256 ^ length n dvd j - i"
    using mod_eq_dvd_iff_nat [of "le_val n + i" "le_val n + j" "256 ^ length n"] assms(1) by simp
  then have "\<not> 0 < j - i" using assms(2) dvd_imp_le [of "256 ^ length n" "j - i"] by linarith
  then show ?thesis using assms(1) by simp
qed

lemma funpow_increment_inj:
  assumes "i < 256 ^ length n" "j < 256 ^ length n"
    and "(increment_nonce ^^ i) n = (increment_nonce ^^ j) n"
  shows "i = j"
  using assms funpow_increment_inj_le [of i j n] funpow_increment_inj_le [of j i n]
  by (metis nat_le_linear)

subsection \<open>Swapping is its own inverse\<close>

lemma fold_swap_at_length [len_simps]:
  "length (fst (fold swap_at is pc)) = length (fst pc)"
  "length (snd (fold swap_at is pc)) = length (snd pc)"
  by (induction "is" arbitrary: pc) (simp_all add: swap_at_def split: prod.splits)

lemma fold_swap_at_nth:
  assumes "distinct is" "\<forall>i \<in> set is. i < length (fst pc) \<and> i < length (snd pc)"
  shows "j < length (fst pc) \<Longrightarrow> fst (fold swap_at is pc) ! j
           = (if j \<in> set is then snd pc ! j else fst pc ! j)"
    and "j < length (snd pc) \<Longrightarrow> snd (fold swap_at is pc) ! j
           = (if j \<in> set is then fst pc ! j else snd pc ! j)"
  using assms
proof (induction "is" arbitrary: pc)
  case (Cons i "is")
  { case 1 then show ?case
      using Cons.IH(1) [of "swap_at i pc"]
      by (cases pc) (auto simp: swap_at_def nth_list_update) }
  { case 2 then show ?case
      using Cons.IH(2) [of "swap_at i pc"]
      by (cases pc) (auto simp: swap_at_def nth_list_update) }
qed simp_all

lemma swap_padding_length [len_simps]:
  "swap_padding p c = (p', c') \<Longrightarrow> length p' = length p \<and> length c' = length c"
  unfolding swap_padding_def
  by (metis fold_swap_at_length fst_conv snd_conv)

lemma swap_padding_nth:
  assumes "swap_padding p c = (p', c')"
  shows "j < length p \<Longrightarrow> p' ! j = (if even j \<and> j < length c then c ! j else p ! j)"
    and "j < length c \<Longrightarrow> c' ! j = (if even j \<and> j < length p then p ! j else c ! j)"
  using fold_swap_at_nth [of "filter even [0..<min (length p) (length c)]" "(p, c)" j] assms
  by (auto simp: swap_padding_def)

lemma swap_padding_involution:
  assumes "swap_padding p c = (p', c')"
  shows "swap_padding p' c' = (p, c)"
proof -
  obtain p'' c'' where again: "swap_padding p' c' = (p'', c'')" by fastforce
  note len = swap_padding_length [OF assms] swap_padding_length [OF again]
  have "p'' = p" "c'' = c"
    by (rule nth_equalityI;
        use len swap_padding_nth [OF assms] swap_padding_nth [OF again] in auto)+
  then show ?thesis using again by simp
qed

lemma swap_padding_Nil [simp]: "swap_padding [] c = ([], c)" "swap_padding p [] = (p, [])"
  by (simp_all add: swap_padding_def)

subsection \<open>What the reader returns\<close>

lemma rr_read_Inr:
  "rr_read n ctx r = (Inr a, r') \<longleftrightarrow>
     r' = r\<lparr>rr_reader := drop n (rr_reader r)\<rparr> \<and> n \<le> length (rr_reader r) \<and> a = take n (rr_reader r)"
  by (auto simp: rr_read_def read_exact_def)

lemma rr_open_Inr:
  "rr_open X k ctx c r = (Inr p, r') \<longleftrightarrow>
     gcm_open X k (rr_nonce r) c = Some p \<and> r' = r\<lparr>rr_nonce := increment_nonce (rr_nonce r)\<rparr>"
  by (auto simp: rr_open_def split: option.splits)

lemma reader_key_Inr:
  assumes "reader_key X r = (Inr k, r')"
  shows "length (rr_reader r') \<le> length (rr_reader r)" "rr_psk r' = rr_psk r" "rr_frame r' = rr_frame r"
  using assms
  by (auto simp: reader_key_def res_simps rr_read_Inr split: option.splits)

lemma read_body_Inr:
  assumes "read_body X k m n r = (Inr (kind, f), r')"
  shows "length (rr_reader r') \<le> length (rr_reader r)" "rr_psk r' = rr_psk r" "rr_frame r' = f"
    "kind = Payload" "open_strips_tag X \<Longrightarrow> length f = n"
  using assms
  by (auto simp: read_body_def Let_def read_exact_def rr_open_def open_strips_tag_def
      dest!: swap_padding_length split: if_splits option.splits prod.splits)

lemma read_content_Inr:
  assumes "read_content X k header r = (Inr (kind, f), r')" "rr_frame r = []"
  shows "length (rr_reader r') \<le> length (rr_reader r)" "rr_psk r' = rr_psk r" "rr_frame r' = f"
    "kind = Zero \<Longrightarrow> f = []"
    "open_strips_tag X \<Longrightarrow> kind = Payload \<Longrightarrow> f \<noteq> [] \<and> length f \<le> MAX_RECORD_PAYLOAD_SIZE"
  using assms by (auto simp: read_content_def Let_def dest: read_body_Inr split: if_splits)

text \<open>A frame that is read consumes input; the buffer is the result; payloads are bounded.\<close>

lemma read_frame_into_Inr:
  assumes "read_frame_into X r = (Inr (kind, f), r')"
  shows "length (rr_reader r') < length (rr_reader r)" "rr_psk r' = rr_psk r" "rr_frame r' = f"
    "kind = Zero \<Longrightarrow> f = []"
    "open_strips_tag X \<Longrightarrow> kind = Payload \<Longrightarrow> f \<noteq> [] \<and> length f \<le> MAX_RECORD_PAYLOAD_SIZE"
proof -
  obtain k r1 header where k: "reader_key X (r\<lparr>rr_frame := []\<rparr>) = (Inr k, r1)"
    and len: "23 \<le> length (rr_reader r1)"
    and c0: "read_content X k header (r1\<lparr>rr_reader := drop 23 (rr_reader r1),
      rr_nonce := increment_nonce (rr_nonce r1)\<rparr>) = (Inr (kind, f), r')"
    using assms
    by (auto simp: read_frame_into_def res_simps rr_read_Inr rr_open_Inr RECORD_HEADER_CIPHER_SIZE_def)
  define r2 where "r2 = r1\<lparr>rr_reader := drop 23 (rr_reader r1), rr_nonce := increment_nonce (rr_nonce r1)\<rparr>"
  have r2: "rr_reader r2 = drop 23 (rr_reader r1)" "rr_psk r2 = rr_psk r1" "rr_frame r2 = rr_frame r1"
    and c: "read_content X k header r2 = (Inr (kind, f), r')"
    using c0 by (simp_all add: r2_def)
  have "rr_frame r2 = []" using reader_key_Inr [OF k] r2 by simp
  note out = read_content_Inr [OF c this]
  show "length (rr_reader r') < length (rr_reader r)" "rr_psk r' = rr_psk r"
    using out reader_key_Inr [OF k] r2 len by auto
  show "rr_frame r' = f" "kind = Zero \<Longrightarrow> f = []"
    "open_strips_tag X \<Longrightarrow> kind = Payload \<Longrightarrow> f \<noteq> [] \<and> length f \<le> MAX_RECORD_PAYLOAD_SIZE"
    using out by auto
qed

subsection \<open>What the writer produces\<close>

lemma seal_Inr:
  "seal X ctx p w = (Inr (c, t), w') \<longleftrightarrow>
     gcm_seal X (rw_aead w) (rw_nonce w) p = Some (c, t)
     \<and> w' = w\<lparr>rw_nonce := increment_nonce (rw_nonce w)\<rparr>"
  by (auto simp: seal_def split: option.splits)

lemma length_record_header [simp]: "length (record_header m n) = 7"
  by (simp add: record_header_def)

lemma record_header_nth:
  "record_header m n ! 0 = 4"
  "from_be16 (record_header m n ! 3) (record_header m n ! 4) = of_nat m"
  "from_be16 (record_header m n ! 5) (record_header m n ! 6) = of_nat n"
  by (simp_all add: record_header_def to_be16_two)

lemma unat_of_nat_length: "n \<le> MAX_RECORD_PAYLOAD_SIZE \<Longrightarrow> unat (of_nat n :: u16) = n"
  by (simp add: unat_of_nat MAX_RECORD_PAYLOAD_SIZE_def)

definition salt_prefix :: "record_writer \<Rightarrow> bytes" where
  "salt_prefix w = (if rw_salt_sent w then [] else rw_salt w)"

lemma encode_frame_append_zero:
  assumes "encode_frame_append X rng [] pl w = (Inr f, w')"
  obtains h t where "pl = 0"
    "gcm_seal X (rw_aead w) (rw_nonce w) (record_header 0 0) = Some (h, t)"
    "f = salt_prefix w @ h @ t"
    "w' = w\<lparr>rw_salt_sent := True, rw_nonce := increment_nonce (rw_nonce w)\<rparr>"
  using assms
  by (auto simp: encode_frame_append_def Let_def salt_prefix_def seal_Inr res_simps split: if_splits)

lemma encode_frame_append_payload_pair:
  assumes "encode_frame_append X rng payload pl w = (Inr f, w')" "payload \<noteq> []"
  obtains h t pad c s where
    "length payload \<le> MAX_RECORD_PAYLOAD_SIZE" "pl \<le> MAX_RECORD_PAYLOAD_SIZE"
    "gcm_seal X (rw_aead w) (rw_nonce w) (record_header pl (length payload)) = Some (h, t)"
    "length pad = pl"
    "gcm_seal X (rw_aead w) (increment_nonce (rw_nonce w)) payload = Some (c, s)"
    "f = salt_prefix w @ h @ t @ fst (swap_padding pad (c @ s)) @ snd (swap_padding pad (c @ s))"
    "w' = w\<lparr>rw_salt_sent := True, rw_nonce := (increment_nonce ^^ 2) (rw_nonce w)\<rparr>"
  using assms
  by (auto simp: encode_frame_append_def Let_def salt_prefix_def seal_Inr res_simps numeral_2_eq_2
      case_prod_unfold dest!: fill_random_length split: if_splits)

lemma encode_frame_append_payload:
  assumes "encode_frame_append X rng payload pl w = (Inr f, w')" "payload \<noteq> []"
  obtains h t pad c s pad' c' where
    "length payload \<le> MAX_RECORD_PAYLOAD_SIZE" "pl \<le> MAX_RECORD_PAYLOAD_SIZE"
    "gcm_seal X (rw_aead w) (rw_nonce w) (record_header pl (length payload)) = Some (h, t)"
    "length pad = pl"
    "gcm_seal X (rw_aead w) (increment_nonce (rw_nonce w)) payload = Some (c, s)"
    "swap_padding pad (c @ s) = (pad', c')"
    "f = salt_prefix w @ h @ t @ pad' @ c'"
    "w' = w\<lparr>rw_salt_sent := True, rw_nonce := (increment_nonce ^^ 2) (rw_nonce w)\<rparr>"
  using encode_frame_append_payload_pair [OF assms] by (metis prod.collapse)

subsection \<open>Reader and writer in step\<close>

text \<open>
  The reader has opened as many messages as the writer has sealed, under the key the salt
  gives; before the first frame the reader has not seen the salt.
\<close>

definition in_step :: "crypto \<Rightarrow> record_writer \<Rightarrow> record_reader \<Rightarrow> bool" where
  "in_step X w r \<longleftrightarrow>
     rr_nonce r = rw_nonce w
     \<and> (if rw_salt_sent w then rr_aead r = Some (rw_aead w)
        else rr_aead r = None \<and> length (rw_salt w) = 16
             \<and> and_then (derive_record_key X (rr_psk r) (rw_salt w)) record_aead = Inr (rw_aead w))"

lemma reader_key_in_step:
  assumes "in_step X w r" "rr_reader r = salt_prefix w @ rest"
  shows "reader_key X (r\<lparr>rr_frame := []\<rparr>) =
    (Inr (rw_aead w), r\<lparr>rr_reader := rest, rr_aead := Some (rw_aead w), rr_frame := []\<rparr>)"
  using assms
  by (auto simp: in_step_def reader_key_def salt_prefix_def rr_read_def read_exact_def split: if_splits)

lemma rr_read_append:
  "rr_reader r = a @ rest \<Longrightarrow> n = length a \<Longrightarrow> rr_read n ctx r = (Inr a, r\<lparr>rr_reader := rest\<rparr>)"
  by (simp add: rr_read_def)

lemma rr_open_sealed:
  assumes "aead_laws X" "gcm_seal X k (rr_nonce r) p = Some (c, t)"
  shows "rr_open X k ctx (c @ t) r = (Inr p, r\<lparr>rr_nonce := increment_nonce (rr_nonce r)\<rparr>)"
  using assms by (auto simp: aead_laws_def rr_open_def)

lemma sealed_length:
  "aead_laws X \<Longrightarrow> gcm_seal X k n p = Some (c, t) \<Longrightarrow> length c = length p \<and> length t = 16"
  by (auto simp: aead_laws_def)

lemma read_zero_frame:
  assumes X: "aead_laws X" and step: "in_step X w r"
    and enc: "encode_frame_append X rng [] pl w = (Inr f, w')"
    and src: "rr_reader r = f @ rest"
  shows "\<exists>r'. read_frame_into X r = (Inr (Zero, []), r') \<and> rr_reader r' = rest \<and> in_step X w' r'"
proof -
  obtain h t where z: "gcm_seal X (rw_aead w) (rw_nonce w) (record_header 0 0) = Some (h, t)"
    and f: "f = salt_prefix w @ h @ t"
    and w': "w' = w\<lparr>rw_salt_sent := True, rw_nonce := increment_nonce (rw_nonce w)\<rparr>"
    by (rule encode_frame_append_zero [OF enc])
  have n: "rr_nonce r = rw_nonce w" using step by (simp add: in_step_def)
  have key: "reader_key X (r\<lparr>rr_frame := []\<rparr>) =
      (Inr (rw_aead w), r\<lparr>rr_reader := (h @ t) @ rest, rr_aead := Some (rw_aead w), rr_frame := []\<rparr>)"
    using reader_key_in_step [OF step] src f by simp
  note len = sealed_length [OF X z]
  show ?thesis
    using n z len
    by (simp add: read_frame_into_def read_content_def key rr_read_append [of _ "h @ t" rest] RECORD_HEADER_CIPHER_SIZE_def
        rr_open_sealed [OF X] record_header_nth w' in_step_def
        del: append_assoc)
qed

lemma read_payload_frame:
  assumes X: "aead_laws X" and step: "in_step X w r" and ne: "payload \<noteq> []"
    and enc: "encode_frame_append X rng payload pl w = (Inr f, w')"
    and src: "rr_reader r = f @ rest"
  shows "\<exists>r'. read_frame_into X r = (Inr (Payload, payload), r') \<and> rr_reader r' = rest \<and> in_step X w' r'"
proof -
  obtain h t pad c s pad' c' where
    len: "length payload \<le> MAX_RECORD_PAYLOAD_SIZE" "pl \<le> MAX_RECORD_PAYLOAD_SIZE"
    and hd: "gcm_seal X (rw_aead w) (rw_nonce w) (record_header pl (length payload)) = Some (h, t)"
    and pad: "length pad = pl"
    and pay: "gcm_seal X (rw_aead w) (increment_nonce (rw_nonce w)) payload = Some (c, s)"
    and sw: "swap_padding pad (c @ s) = (pad', c')"
    and f: "f = salt_prefix w @ h @ t @ pad' @ c'"
    and w': "w' = w\<lparr>rw_salt_sent := True, rw_nonce := (increment_nonce ^^ 2) (rw_nonce w)\<rparr>"
    by (rule encode_frame_append_payload [OF enc ne])
  have n: "rr_nonce r = rw_nonce w" using step by (simp add: in_step_def)
  have key: "reader_key X (r\<lparr>rr_frame := []\<rparr>) =
      (Inr (rw_aead w), r\<lparr>rr_reader := (h @ t) @ (pad' @ c') @ rest, rr_aead := Some (rw_aead w), rr_frame := []\<rparr>)"
    using reader_key_in_step [OF step] src f by simp
  note sl = sealed_length [OF X hd] sealed_length [OF X pay] swap_padding_length [OF sw]
  have body: "take pl (pad' @ c') = pad'" "drop pl (pad' @ c') = c'"
    "pl + length payload + 16 = length (pad' @ c')"
    using sl pad by simp_all
  show ?thesis
    using n hd pay sl len ne pad
    by (simp add: read_frame_into_def read_content_def key rr_read_append [of _ "h @ t"] read_body_def
        RECORD_HEADER_CIPHER_SIZE_def rr_open_sealed [OF X] record_header_nth unat_of_nat_length
        body swap_padding_involution [OF sw] w' in_step_def numeral_2_eq_2 Let_def
        del: append_assoc)
qed

subsection \<open>Payload writes\<close>

fun read_payloads :: "crypto \<Rightarrow> nat \<Rightarrow> record_reader \<Rightarrow> bytes list res \<times> record_reader" where
  "read_payloads X 0 r = (Inr [], r)"
| "read_payloads X (Suc n) r =
     st_then (read_frame X r) (\<lambda>p r.
     st_then (read_payloads X n r) (\<lambda>ps r. (Inr (p # ps), r)))"

lemma concat_chunks: "0 < n \<Longrightarrow> concat (chunks n xs) = xs"
  by (induction n xs rule: chunks.induct) (subst chunks.simps, simp)

lemma chunks_bounds: "c \<in> set (chunks n xs) \<Longrightarrow> c \<noteq> [] \<and> length c \<le> n"
  by (induction n xs rule: chunks.induct) (subst (asm) (2) chunks.simps, auto split: if_splits)

lemma in_step_reader [simp]: "in_step X w (r\<lparr>rr_reader := s\<rparr>) = in_step X w r"
  by (simp add: in_step_def)

lemma in_step_writer [simp]: "in_step X (w\<lparr>rw_writer := s\<rparr>) r = in_step X w r"
  by (simp add: in_step_def)

lemma encode_frame_append_writer:
  assumes "encode_frame_append X rng payload pl w = (Inr f, w')"
  shows "rw_writer w' = rw_writer w"
proof (cases "payload = []")
  case True
  with assms have "encode_frame_append X rng [] pl w = (Inr f, w')" by simp
  then show ?thesis by (rule encode_frame_append_zero) simp
next
  case False
  show ?thesis by (rule encode_frame_append_payload [OF assms False]) simp
qed

text \<open>Sealing never fails on messages of record size.\<close>

definition seal_total :: "crypto \<Rightarrow> bool" where
  "seal_total X \<longleftrightarrow> (\<forall>k n p. gcm_seal X k n p \<noteq> None)"

lemma sample_seal_total: "seal_total sample_crypto"
  by (simp add: seal_total_def sample_crypto_def)

lemma encode_frame_append_total:
  assumes "seal_total X" "length payload \<le> MAX_RECORD_PAYLOAD_SIZE"
  shows "\<exists>f w'. encode_frame_append X rng payload 0 w = (Inr f, w')"
  using assms
  by (auto simp: encode_frame_append_def Let_def seal_def seal_total_def case_prod_unfold
      split: option.splits) (metis option.distinct(1))

lemma payload_loop_total:
  assumes "seal_total X" "reliable (rw_writer w)"
    and "\<forall>c \<in> set cs. length c \<le> MAX_RECORD_PAYLOAD_SIZE"
  shows "\<exists>f w'. payload_loop X cs frame w = (Inr f, w') \<and> reliable (rw_writer w')"
  using assms(2,3)
proof (induction cs arbitrary: frame w)
  case (Cons c cs)
  obtain f w' where enc: "encode_frame_append X None c 0 w = (Inr f, w')"
    using encode_frame_append_total [OF assms(1)] Cons.prems by fastforce
  then have "reliable (rw_writer w')"
    using encode_frame_append_writer Cons.prems by metis
  with enc Cons show ?case by (simp add: write_all_reliable)
qed simp

lemma read_frame_payload:
  assumes "aead_laws X" "in_step X w r" "payload \<noteq> []"
    and "encode_frame_append X rng payload pl w = (Inr f, w')"
  shows "\<exists>r'. read_frame X (r\<lparr>rr_reader := f @ rest\<rparr>) = (Inr payload, r') \<and> rr_reader r' = rest \<and> in_step X w' r'"
  using read_payload_frame [OF assms(1) _ assms(3,4), of "r\<lparr>rr_reader := f @ rest\<rparr>" rest] assms(2)
  by (auto simp: read_frame_def)

lemma payload_loop_frames:
  assumes X: "aead_laws X" and ok: "payload_loop X cs frame w = (Inr frame', w')"
    and ne: "\<forall>c \<in> set cs. c \<noteq> []"
  shows "\<exists>fs. accepted (rw_writer w') @ frame' = accepted (rw_writer w) @ frame @ fs
           \<and> (\<forall>r rest. in_step X w r \<longrightarrow>
                (\<exists>r'. read_payloads X (length cs) (r\<lparr>rr_reader := fs @ rest\<rparr>) = (Inr cs, r')
                      \<and> rr_reader r' = rest \<and> in_step X w' r'))"
  using ok ne
proof (induction cs arbitrary: frame w)
  case Nil
  then show ?case by auto
next
  case (Cons c cs)
  obtain f w1 where enc: "encode_frame_append X None c 0 w = (Inr f, w1)"
    using Cons.prems by (auto simp: res_simps)
  have w1: "rw_writer w1 = rw_writer w" by (rule encode_frame_append_writer [OF enc])
  obtain w2 frame2 where loop: "payload_loop X cs frame2 w2 = (Inr frame', w')"
    and w2: "w2 = w1\<lparr>rw_writer := rw_writer w2\<rparr>"
    and acc: "accepted (rw_writer w2) @ frame2 = accepted (rw_writer w) @ frame @ f"
    using Cons.prems enc w1
    by (fastforce simp: dest: write_all_accepted split: if_splits sum.splits prod.splits)
  obtain fs where fs: "accepted (rw_writer w') @ frame' = accepted (rw_writer w2) @ frame2 @ fs"
    and rd: "\<forall>r rest. in_step X w2 r \<longrightarrow>
      (\<exists>r'. read_payloads X (length cs) (r\<lparr>rr_reader := fs @ rest\<rparr>) = (Inr cs, r')
            \<and> rr_reader r' = rest \<and> in_step X w' r')"
    using Cons.IH [OF loop] Cons.prems by auto
  have "accepted (rw_writer w') @ frame' = accepted (rw_writer w) @ frame @ (f @ fs)"
    using fs acc by (metis append.assoc)
  moreover have "\<exists>r'. read_payloads X (length (c # cs)) (r\<lparr>rr_reader := (f @ fs) @ rest\<rparr>) = (Inr (c # cs), r')
            \<and> rr_reader r' = rest \<and> in_step X w' r'" if "in_step X w r" for r rest
  proof -
    obtain r1 where r1: "read_frame X (r\<lparr>rr_reader := f @ fs @ rest\<rparr>) = (Inr c, r1)"
        "rr_reader r1 = fs @ rest" "in_step X w1 r1"
      using read_frame_payload [OF X \<open>in_step X w r\<close> _ enc, of "fs @ rest"] Cons.prems by auto
    have "in_step X w2 r1" using r1(3) w2 in_step_writer by metis
    moreover have "r1\<lparr>rr_reader := fs @ rest\<rparr> = r1" using r1(2) by simp
    ultimately obtain r' where "read_payloads X (length cs) r1 = (Inr cs, r')"
        "rr_reader r' = rest" "in_step X w' r'"
      using rd by metis
    then show ?thesis using r1 by simp
  qed
  ultimately show ?case by blast
qed

lemma write_and_flush_ok:
  assumes "write_and_flush c ctx w = (Inr (), w')"
  shows "delivered (rw_writer w') = accepted (rw_writer w) @ c" "pending (rw_writer w') = []"
    "w' = w\<lparr>rw_writer := rw_writer w'\<rparr>"
  using assms
  by (auto simp: write_and_flush_def res_simps Let_def dest!: write_all_accepted flush_delivered
      split: if_splits sum.splits prod.splits)

lemma write_and_flush_reliable:
  "reliable (rw_writer w) \<Longrightarrow> \<exists>w'. write_and_flush c ctx w = (Inr (), w') \<and> reliable (rw_writer w')"
  by (simp add: write_and_flush_def write_all_reliable flush_reliable)

subsection \<open>Properties\<close>

text \<open>
  C1: A payload of any length written with \<open>write_payload\<close> over a transport that does not
  fail is delivered whole: the call returns, flushes everything, and the peer that reads as
  many frames as there are chunks gets back exactly the payload, consumes exactly the bytes
  sent, and stays in step for whatever follows.
\<close>

theorem write_payload_round_trip:
  assumes "aead_laws X" "seal_total X" "reliable (rw_writer w)" "in_step X w r"
  shows "\<exists>w' fs. write_payload X content w = (Inr (), w')
    \<and> delivered (rw_writer w') = accepted (rw_writer w) @ fs \<and> pending (rw_writer w') = []
    \<and> (\<forall>rest. \<exists>ps r'.
         read_payloads X (length (chunks MAX_RECORD_PAYLOAD_SIZE content)) (r\<lparr>rr_reader := fs @ rest\<rparr>)
           = (Inr ps, r')
         \<and> concat ps = content \<and> rr_reader r' = rest \<and> in_step X w' r')"
proof -
  let ?cs = "chunks MAX_RECORD_PAYLOAD_SIZE content"
  obtain f w1 where loop: "payload_loop X ?cs [] w = (Inr f, w1)" and rel: "reliable (rw_writer w1)"
    using payload_loop_total [OF assms(2,3), of ?cs "[]"] chunks_bounds by blast
  obtain w' where wf: "write_and_flush f ''write Snell record'' w1 = (Inr (), w')"
    using write_and_flush_reliable [OF rel] by blast
  obtain fs where fs: "accepted (rw_writer w1) @ f = accepted (rw_writer w) @ [] @ fs"
    and rd: "\<And>r rest. in_step X w r \<Longrightarrow>
      \<exists>r'. read_payloads X (length ?cs) (r\<lparr>rr_reader := fs @ rest\<rparr>) = (Inr ?cs, r')
           \<and> rr_reader r' = rest \<and> in_step X w1 r'"
    using payload_loop_frames [OF assms(1) loop] chunks_bounds by blast
  note out = write_and_flush_ok [OF wf]
  have "in_step X w' r' = in_step X w1 r'" for r'
    by (metis out(3) in_step_writer)
  moreover have "concat ?cs = content"
    by (simp add: concat_chunks MAX_RECORD_PAYLOAD_SIZE_def)
  ultimately show ?thesis
    using loop wf out fs rd [OF assms(4)] by (auto simp: write_payload_def) blast
qed

definition demo_writer :: record_writer where
  "demo_writer = \<lparr>rw_writer = fresh_sink, rw_aead = replicate 16 7, rw_salt = replicate 16 7,
     rw_salt_sent = False, rw_nonce = replicate 12 0\<rparr>"

lemma demo_in_step: "in_step sample_crypto demo_writer (reader_new s [112])"
  by (simp add: in_step_def demo_writer_def reader_new_def derive_record_key_def record_aead_def
      sample_crypto_def utf8_def utf8_char_def)

theorem write_payload_round_trip_witness:
  "\<exists>w' fs. write_payload sample_crypto [1, 2, 3] demo_writer = (Inr (), w')
    \<and> delivered (rw_writer w') = accepted (rw_writer demo_writer) @ fs \<and> pending (rw_writer w') = []
    \<and> (\<forall>rest. \<exists>ps r'.
         read_payloads sample_crypto (length (chunks MAX_RECORD_PAYLOAD_SIZE [1, 2, 3 :: byte]))
           (reader_new [] [112]\<lparr>rr_reader := fs @ rest\<rparr>) = (Inr ps, r')
         \<and> concat ps = [1, 2, 3] \<and> rr_reader r' = rest \<and> in_step sample_crypto w' r')"
  by (rule write_payload_round_trip [OF sample_aead_laws sample_seal_total _ demo_in_step])
    (simp add: demo_writer_def)

text \<open>
  Every frame the encoder produces, with any padding, is read back as what it was: a
  zero-length frame as \<open>Zero\<close>, any other as its payload; the reader consumes exactly the
  frame and stays in step with the writer.
\<close>

lemma frame_round_trip:
  assumes "aead_laws X" "in_step X w r"
    and "encode_frame_append X rng payload pl w = (Inr f, w')"
    and "rr_reader r = f @ rest"
  shows "\<exists>r'. read_frame_into X r = (Inr (if payload = [] then Zero else Payload, payload), r')
    \<and> rr_reader r' = rest \<and> in_step X w' r'"
  using assms read_zero_frame [of X w r rng pl f w' rest] read_payload_frame [of X w r payload rng pl f w' rest]
  by (cases "payload = []") auto

lemma frame_round_trip_witness:
  "\<exists>f w' r'. encode_frame_append sample_crypto (Some of_nat) [9, 8] 3 demo_writer = (Inr f, w')
    \<and> read_frame_into sample_crypto (reader_new (f @ [5]) [112]) = (Inr (Payload, [9, 8]), r')
    \<and> rr_reader r' = [5] \<and> in_step sample_crypto w' r'"
proof -
  have "\<exists>f w'. encode_frame_append sample_crypto (Some of_nat) [9, 8] 3 demo_writer = (Inr f, w')"
    by (simp add: encode_frame_append_def MAX_RECORD_PAYLOAD_SIZE_def seal_def sample_crypto_def
        fill_random_def case_prod_unfold Let_def)
  then obtain f w' where "encode_frame_append sample_crypto (Some of_nat) [9, 8] 3 demo_writer = (Inr f, w')"
    by blast
  then show ?thesis
    using frame_round_trip [OF sample_aead_laws demo_in_step [of "f @ [5]"], of "Some of_nat" "[9, 8]" 3 f w' "[5]"]
    by (auto simp: reader_new_def)
qed

fun encode_frames ::
  "crypto \<Rightarrow> (entropy \<times> bytes \<times> nat) list \<Rightarrow> record_writer \<Rightarrow> bytes res \<times> record_writer" where
  "encode_frames X [] w = (Inr [], w)"
| "encode_frames X ((rng, p, pl) # fs) w =
     st_then (encode_frame_append X rng p pl w) (\<lambda>f w.
     st_then (encode_frames X fs w) (\<lambda>g w. (Inr (f @ g), w)))"

definition frame_payload :: "entropy \<times> bytes \<times> nat \<Rightarrow> bytes" where
  "frame_payload f = fst (snd f)"

text \<open>The nonces under which a sequence of frames is sealed.\<close>

fun frame_nonces :: "bytes list \<Rightarrow> bytes \<Rightarrow> bytes list" where
  "frame_nonces [] n = []"
| "frame_nonces (p # ps) n =
     (if p = [] then n # frame_nonces ps (increment_nonce n)
      else n # increment_nonce n # frame_nonces ps (increment_nonce (increment_nonce n)))"

lemma frame_nonces_funpow:
  "frame_nonces ps n = map (\<lambda>i. (increment_nonce ^^ i) n) [0..<length (frame_nonces ps n)]"
proof (induction ps n rule: frame_nonces.induct)
  case (2 p ps n)
  have *: "(increment_nonce ^^ i) (increment_nonce m) = (increment_nonce ^^ Suc i) m" for i m
    by (simp add: funpow_swap1)
  have one: "(increment_nonce ^^ Suc 0) m = increment_nonce m" for m by simp
  show ?case
  proof (cases "p = []")
    case True
    then show ?thesis
      using 2(1) by (simp add: upt_conv_Cons map_Suc_upt [symmetric] * o_def del: upt_Suc funpow.simps(2))
  next
    case False
    then show ?thesis
      using 2(2)
      by (simp add: upt_conv_Cons map_Suc_upt [symmetric] * one o_def del: upt_Suc funpow.simps(2))
  qed
qed simp

lemma frame_nonces_distinct:
  assumes "length (frame_nonces ps n) \<le> 256 ^ length n"
  shows "distinct (frame_nonces ps n)"
proof -
  have "inj_on (\<lambda>i. (increment_nonce ^^ i) n) {0..<length (frame_nonces ps n)}"
    using assms funpow_increment_inj [of _ n] by (auto intro!: inj_onI)
  then show ?thesis
    by (subst frame_nonces_funpow) (simp add: distinct_map)
qed

lemma frame_nonces_append:
  "frame_nonces (ps @ qs) n =
     frame_nonces ps n @ frame_nonces qs ((increment_nonce ^^ length (frame_nonces ps n)) n)"
  by (induction ps n rule: frame_nonces.induct) (simp_all add: funpow_swap1)

lemma encode_frame_append_next:
  assumes "encode_frame_append X rng p pl w = (Inr f, w')"
  shows "rw_aead w' = rw_aead w"
    "rw_nonce w' = (increment_nonce ^^ length (frame_nonces [p] (rw_nonce w))) (rw_nonce w)"
proof -
  have "rw_aead w' = rw_aead w
    \<and> rw_nonce w' = (increment_nonce ^^ length (frame_nonces [p] (rw_nonce w))) (rw_nonce w)"
  proof (cases "p = []")
    case True
    with assms have "encode_frame_append X rng [] pl w = (Inr f, w')" by simp
    then show ?thesis using True by (auto elim!: encode_frame_append_zero)
  next
    case False
    show ?thesis
      by (rule encode_frame_append_payload [OF assms False]) (simp add: False numeral_2_eq_2)
  qed
  then show "rw_aead w' = rw_aead w"
    "rw_nonce w' = (increment_nonce ^^ length (frame_nonces [p] (rw_nonce w))) (rw_nonce w)" by auto
qed

lemma encode_frame_append_cong:
  assumes "\<forall>n \<in> set (frame_nonces [p] (rw_nonce w)). gcm_seal X (rw_aead w) n = gcm_seal Y (rw_aead w) n"
  shows "encode_frame_append X rng p pl w = encode_frame_append Y rng p pl w"
  using assms
  by (cases "p = []"; cases "gcm_seal Y (rw_aead w) (rw_nonce w) (record_header pl (length p))";
      cases "fill_random rng pl")
    (simp_all add: encode_frame_append_def seal_def Let_def case_prod_unfold)

lemma encode_frames_cong:
  assumes "\<forall>n \<in> set (frame_nonces (map frame_payload fs) (rw_nonce w)).
      gcm_seal X (rw_aead w) n = gcm_seal Y (rw_aead w) n"
  shows "encode_frames X fs w = encode_frames Y fs w"
  using assms
proof (induction fs arbitrary: w)
  case (Cons a fs)
  obtain rng p pl where a: "a = (rng, p, pl)" by (cases a)
  have split: "frame_nonces (map frame_payload (a # fs)) (rw_nonce w) =
      frame_nonces [p] (rw_nonce w) @ frame_nonces (map frame_payload fs)
        ((increment_nonce ^^ length (frame_nonces [p] (rw_nonce w))) (rw_nonce w))"
    using frame_nonces_append [of "[p]" "map frame_payload fs" "rw_nonce w"] by (simp add: a frame_payload_def)
  have head: "encode_frame_append X rng p pl w = encode_frame_append Y rng p pl w"
    using Cons.prems unfolding split by (intro encode_frame_append_cong) simp
  show ?case
  proof (cases "encode_frame_append Y rng p pl w")
    case (Pair r w1)
    show ?thesis
    proof (cases r)
      case (Inr f)
      with Pair have "encode_frames X fs w1 = encode_frames Y fs w1"
        using encode_frame_append_next [of Y rng p pl w f w1] Cons.prems unfolding split
        by (intro Cons.IH) (simp del: frame_nonces.simps)
      then show ?thesis using head Pair Inr by (simp add: a)
    qed (simp add: a head Pair)
  qed
qed simp



end
