(* ===== verification/Rust_Net.thy ===== *)
theory Rust_Net
  imports Rust_Str
begin

text \<open>
  \<open>std::net\<close> as the program uses it: IP addresses as words, their octets, socket
  addresses, the textual parser of \<open>IpAddr::from_str\<close> (dotted quads, groups, \<open>::\<close> and an
  embedded IPv4 tail) and the dotted-quad \<open>Display\<close>.
\<close>

datatype ip = V4 "32 word" | V6 "128 word"

record socket_addr =
  sa_ip :: ip
  sa_port :: u16

definition v4_octets :: "32 word \<Rightarrow> bytes" where
  "v4_octets a = be_bytes 4 (unat a)"

definition v6_octets :: "128 word \<Rightarrow> bytes" where
  "v6_octets a = be_bytes 16 (unat a)"

definition v4_of_octets :: "bytes \<Rightarrow> 32 word" where
  "v4_of_octets bs = of_nat (be_val bs)"

definition v6_of_octets :: "bytes \<Rightarrow> 128 word" where
  "v6_of_octets bs = of_nat (be_val bs)"

lemma length_octets [simp, len_simps]: "length (v4_octets a) = 4" "length (v6_octets b) = 16"
  by (simp_all add: v4_octets_def v6_octets_def)

lemma v4_of_octets_octets [simp, codec_simps]: "v4_of_octets (v4_octets a) = a"
proof -
  have "unat a < 256 ^ 4" using unsigned_less [of a, where ?'a = nat] by simp
  then show ?thesis by (simp add: v4_of_octets_def v4_octets_def be_val_be_bytes)
qed

lemma v6_of_octets_octets [simp, codec_simps]: "v6_of_octets (v6_octets a) = a"
proof -
  have "unat a < 256 ^ 16" using unsigned_less [of a, where ?'a = nat] by simp
  then show ?thesis by (simp add: v6_of_octets_def v6_octets_def be_val_be_bytes)
qed

lemma v4_octets_of_octets [codec_simps]: "length bs = 4 \<Longrightarrow> v4_octets (v4_of_octets bs) = bs"
  using be_val_less [of bs] be_bytes_be_val [of bs]
  by (simp add: v4_of_octets_def v4_octets_def unat_of_nat)

lemma v6_octets_of_octets [codec_simps]: "length bs = 16 \<Longrightarrow> v6_octets (v6_of_octets bs) = bs"
  using be_val_less [of bs] be_bytes_be_val [of bs]
  by (simp add: v6_of_octets_def v6_octets_def unat_of_nat)

subsection \<open>Parsing\<close>

text \<open>\<open>read_number\<close> of the standard library's address parser.\<close>

definition read_number :: "nat \<Rightarrow> nat \<Rightarrow> nat \<Rightarrow> bool \<Rightarrow> ustring \<Rightarrow> (nat \<times> ustring) option" where
  "read_number radix mx max_digits allow_zero_prefix s =
     (let ds = takeWhile (\<lambda>c. digit_val c < radix) s in
      if ds = [] \<or> max_digits < length ds
         \<or> (\<not> allow_zero_prefix \<and> hd ds = 48 \<and> 1 < length ds)
         \<or> mx < digits_val radix 0 ds
      then None else Some (digits_val radix 0 ds, dropWhile (\<lambda>c. digit_val c < radix) s))"

definition read_given_char :: "uchar \<Rightarrow> ustring \<Rightarrow> ustring option" where
  "read_given_char c s = (case s of d # t \<Rightarrow> if d = c then Some t else None | [] \<Rightarrow> None)"

definition read_separator :: "uchar \<Rightarrow> nat \<Rightarrow> (ustring \<Rightarrow> ('a \<times> ustring) option) \<Rightarrow> ustring \<Rightarrow> ('a \<times> ustring) option" where
  "read_separator sep index inner s =
     (if index = 0 then inner s else Option.bind (read_given_char sep s) inner)"

definition read_octet :: "nat \<Rightarrow> ustring \<Rightarrow> (nat \<times> ustring) option" where
  "read_octet i s = read_separator 46 i (read_number 10 255 3 False) s"

definition read_ipv4 :: "ustring \<Rightarrow> (nat list \<times> ustring) option" where
  "read_ipv4 s =
     Option.bind (read_octet 0 s) (\<lambda>(a, s).
     Option.bind (read_octet 1 s) (\<lambda>(b, s).
     Option.bind (read_octet 2 s) (\<lambda>(c, s).
     Option.bind (read_octet 3 s) (\<lambda>(d, s). Some ([a, b, c, d], s)))))"

text \<open>
  \<open>read_groups\<close>: at most \<open>left\<close> further groups, the next one being number \<open>i\<close>; an
  embedded IPv4 address fills two and ends the list.
\<close>

fun read_groups :: "nat \<Rightarrow> nat \<Rightarrow> ustring \<Rightarrow> nat list \<times> bool \<times> ustring" where
  "read_groups 0 i s = ([], False, s)"
| "read_groups (Suc left) i s =
     (case (if 1 \<le> left then read_separator 58 i read_ipv4 s else None) of
        Some ([a, b, c, d], s) \<Rightarrow> ([a * 256 + b, c * 256 + d], True, s)
      | _ \<Rightarrow>
        (case read_separator 58 i (read_number 16 65535 4 True) s of
           None \<Rightarrow> ([], False, s)
         | Some (g, s) \<Rightarrow> (case read_groups left (Suc i) s of (gs, v4, s) \<Rightarrow> (g # gs, v4, s))))"

definition read_ipv6 :: "ustring \<Rightarrow> (nat list \<times> ustring) option" where
  "read_ipv6 s =
     (case read_groups 8 0 s of (hd_groups, v4, s) \<Rightarrow>
        if length hd_groups = 8 then Some (hd_groups, s)
        else if v4 then None
        else Option.bind (read_given_char 58 s) (\<lambda>s. Option.bind (read_given_char 58 s) (\<lambda>s.
          case read_groups (8 - (length hd_groups + 1)) 0 s of (tl_groups, _, s) \<Rightarrow>
            Some (hd_groups @ replicate (8 - length hd_groups - length tl_groups) 0 @ tl_groups, s))))"

definition v6_of_groups :: "nat list \<Rightarrow> 128 word" where
  "v6_of_groups gs = v6_of_octets (concat (map (be_bytes 2) gs))"

text \<open>\<open>IpAddr::from_str\<close>: the whole string must be consumed.\<close>

definition parse_ip :: "ustring \<Rightarrow> ip option" where
  "parse_ip s =
     (case read_ipv4 s of
        Some (os, r) \<Rightarrow> if r = [] then Some (V4 (v4_of_octets (map of_nat os))) else None
      | None \<Rightarrow>
          (case read_ipv6 s of
             Some (gs, r) \<Rightarrow> if r = [] then Some (V6 (v6_of_groups gs)) else None
           | None \<Rightarrow> None))"

text \<open>\<open>Display\<close> of an \<open>Ipv4Addr\<close>.\<close>

fun join_with :: "'a list \<Rightarrow> 'a list list \<Rightarrow> 'a list" where
  "join_with sep [] = []"
| "join_with sep [w] = w"
| "join_with sep (w # ws) = w @ sep @ join_with sep ws"

definition show_v4 :: "32 word \<Rightarrow> ustring" where
  "show_v4 a = join_with [46] (map (\<lambda>b. show_nat (unat b)) (v4_octets a))"

lemma show_nat_small_length:
  "n < 1000 \<Longrightarrow> length (show_nat n) \<le> 3"
  by (subst show_nat.simps, simp, subst show_nat.simps, simp, subst show_nat.simps, simp)

lemma show_nat_no_leading_zero: "hd (show_nat n) = 48 \<Longrightarrow> length (show_nat n) = 1"
proof (induction n rule: show_nat.induct)
  case (1 n)
  show ?case
  proof (cases "n < 10")
    case True
    then show ?thesis by (subst show_nat.simps) simp
  next
    case False
    have eq: "show_nat n = show_nat (n div 10) @ [48 + n mod 10]"
      using False by (subst show_nat.simps) simp
    have "hd (show_nat (n div 10)) = 48" using 1(2) eq by simp
    then have one: "length (show_nat (n div 10)) = 1" using 1(1) False by blast
    have "n div 10 \<noteq> 0" using False by simp
    have "show_nat (n div 10) = [48]"
      using one \<open>hd (show_nat (n div 10)) = 48\<close> by (cases "show_nat (n div 10)") auto
    then have "digits_val 10 0 [48] = n div 10" using digits_val_show_nat [of "n div 10"] by simp
    then show ?thesis using \<open>n div 10 \<noteq> 0\<close> by (simp add: digit_val_def ascii_digit_def)
  qed
qed

lemma read_number_show:
  assumes "n \<le> 255" "r = [] \<or> 10 \<le> digit_val (hd r)"
  shows "read_number 10 255 3 False (show_nat n @ r) = Some (n, r)"
proof -
  have d: "\<forall>c \<in> set (show_nat n). digit_val c < 10"
    using show_nat_digits [of n] by (auto simp: list_all_iff digit_val_def ascii_digit_def)
  have tw: "takeWhile (\<lambda>c. digit_val c < 10) (show_nat n @ r) = show_nat n"
    "dropWhile (\<lambda>c. digit_val c < 10) (show_nat n @ r) = r"
    using d assms(2) by (cases r; simp add: takeWhile_append dropWhile_append)+
  have "length (show_nat n) \<le> 3" using assms(1) by (intro show_nat_small_length) simp
  then show ?thesis
    using assms(1) tw show_nat_no_leading_zero [of n]
    by (auto simp: read_number_def digits_val_show_nat Let_def)
qed

lemma digit_val_dot: "digit_val 46 = 16"
  by (simp add: digit_val_def ascii_digit_def)

lemma read_octet_show:
  assumes "n \<le> 255" "r = [] \<or> 10 \<le> digit_val (hd r)"
  shows "read_octet 0 (show_nat n @ r) = Some (n, r)"
    and "0 < i \<Longrightarrow> read_octet i (46 # show_nat n @ r) = Some (n, r)"
  using read_number_show [OF assms]
  by (simp_all add: read_octet_def read_separator_def read_given_char_def)

lemma parse_ip_show_v4 [codec_simps]: "parse_ip (show_v4 a) = Some (V4 a)"
proof -
  have "length (v4_octets a) = Suc (Suc (Suc (Suc 0)))" by simp
  then obtain x y z w where o: "v4_octets a = [x, y, z, w]"
    by (auto simp only: length_Suc_conv length_0_conv)
  have le: "unat b \<le> 255" for b :: byte using unat_byte_less [of b] by simp
  have s: "show_v4 a = show_nat (unat x) @ 46 # show_nat (unat y) @ 46 # show_nat (unat z) @ 46 # show_nat (unat w) @ []"
    by (simp add: show_v4_def o)
  have "read_ipv4 (show_v4 a) = Some ([unat x, unat y, unat z, unat w], [])"
    unfolding s read_ipv4_def by (simp add: read_octet_show read_octet_show(2) [where r = "[]", simplified] le digit_val_dot)
  then show ?thesis
    by (simp add: parse_ip_def o [symmetric])
qed

text \<open>A text that starts with neither a hexadecimal digit nor a colon is no address.\<close>

lemma parse_ip_name:
  assumes "s = [] \<or> (16 \<le> digit_val (hd s) \<and> hd s \<noteq> 58)"
  shows "parse_ip s = None"
proof -
  have num: "read_number r mx d z s = None" if "r \<le> 16" for r mx d z
    using assms that by (cases s) (auto simp: read_number_def)
  have v4: "read_ipv4 s = None"
    by (simp add: read_ipv4_def read_octet_def read_separator_def num)
  have "read_groups n 0 s = ([], False, s)" for n
    by (cases n) (simp_all add: read_separator_def num v4)
  moreover have "read_given_char 58 s = None"
    using assms by (cases s) (auto simp: read_given_char_def)
  ultimately show ?thesis by (simp add: parse_ip_def v4 read_ipv6_def)
qed

subsection \<open>Classification and display\<close>

fun is_unspecified :: "ip \<Rightarrow> bool" where
  "is_unspecified (V4 a) = (a = 0)"
| "is_unspecified (V6 a) = (a = 0)"

fun is_multicast :: "ip \<Rightarrow> bool" where
  "is_multicast (V4 a) = (unat a div 2 ^ 28 = 14)"
| "is_multicast (V6 a) = (unat a div 2 ^ 120 = 255)"

definition to_ipv4_mapped :: "128 word \<Rightarrow> 32 word option" where
  "to_ipv4_mapped a = (if unat a div 2 ^ 32 = 65535 then Some (of_nat (unat a)) else None)"

definition v4_loopback :: "32 word \<Rightarrow> bool" where
  "v4_loopback a \<longleftrightarrow> unat a div 2 ^ 24 = 127"

fun is_ipv4 :: "ip \<Rightarrow> bool" where
  "is_ipv4 (V4 a) = True"
| "is_ipv4 (V6 a) = False"

text \<open>\<open>{:x}\<close> of a group, and \<open>Display\<close> of an IPv6 address: the first longest run of at
  least two zero groups becomes \<open>::\<close>, and mapped IPv4 addresses keep their dotted form.\<close>

definition hex_char :: "nat \<Rightarrow> uchar" where
  "hex_char d = (if d < 10 then 48 + d else 87 + d)"

function show_hex :: "nat \<Rightarrow> ustring" where
  "show_hex n = (if n < 16 then [hex_char n] else show_hex (n div 16) @ [hex_char (n mod 16)])"
  by pat_completeness auto
termination by (relation "measure id") auto

declare show_hex.simps [simp del]

definition v6_groups :: "128 word \<Rightarrow> nat list" where
  "v6_groups a = map (\<lambda>i. unat a div 2 ^ (16 * (7 - i)) mod 65536) [0..<8]"

fun longest_zeros :: "nat list \<Rightarrow> nat \<Rightarrow> nat \<times> nat \<Rightarrow> nat \<times> nat \<Rightarrow> nat \<times> nat" where
  "longest_zeros [] i (cs, cl) (ls, ll) = (ls, ll)"
| "longest_zeros (g # gs) i (cs, cl) (ls, ll) =
     (if g = 0 then
        (let cs = (if cl = 0 then i else cs); cl = cl + 1 in
         if cl > ll then longest_zeros gs (i + 1) (cs, cl) (cs, cl)
         else longest_zeros gs (i + 1) (cs, cl) (ls, ll))
      else longest_zeros gs (i + 1) (0, 0) (ls, ll))"

definition show_v6 :: "128 word \<Rightarrow> ustring" where
  "show_v6 a =
     (case to_ipv4_mapped a of
        Some b \<Rightarrow> ustr ''::ffff:'' @ show_v4 b
      | None \<Rightarrow>
          let gs = v6_groups a; (start, len) = longest_zeros gs 0 (0, 0) (0, 0) in
          if len > 1
          then join_with [58] (map show_hex (take start gs)) @ [58, 58]
               @ join_with [58] (map show_hex (drop (start + len) gs))
          else join_with [58] (map show_hex gs))"

fun show_ip :: "ip \<Rightarrow> ustring" where
  "show_ip (V4 a) = show_v4 a"
| "show_ip (V6 a) = show_v6 a"

end
