(* ===== verification/Snell_Codec.thy ===== *)
theory Snell_Codec
  imports Snell_Record Rust_Net
begin

text \<open>
  The Snell messages inside records: connect and UDP-associate requests
  (\<open>src/snell/request.rs\<close>), UDP datagrams (\<open>src/snell/udp.rs\<close>) and the identity block of
  the initial flight (\<open>src/snell/identity.rs\<close>). The peer's decoders are not part of the
  repository; \<open>parse_connect_request\<close>, \<open>parse_udp_request\<close> and \<open>print_udp_response\<close> are
  the specification the encodings are proved against.
\<close>

subsection \<open>Requests\<close>

definition build_connect_request :: "ustring \<Rightarrow> u16 \<Rightarrow> bool \<Rightarrow> bytes res" where
  "build_connect_request host port reuse =
     (if host = [] then Inl (Bail ''target host cannot be empty'')
      else if str_len host > 255 then Inl (Bail ''target host is longer than 255 bytes'')
      else if port = 0 then Inl (Bail ''target port cannot be zero'')
      else Inr ([1, if reuse then 5 else 1, 0, of_nat (str_len host)] @ utf8 host @ to_be16 port))"

definition build_udp_associate_request :: bytes where
  "build_udp_associate_request = [1, 6, 0]"

subsection \<open>UDP datagrams\<close>

definition udp_address :: "ustring \<Rightarrow> bytes res" where
  "udp_address host =
     (case parse_ip host of
        Some (V4 a) \<Rightarrow> Inr ([0, 4] @ v4_octets a)
      | Some (V6 a) \<Rightarrow> Inr ([0, 6] @ v6_octets a)
      | None \<Rightarrow>
          if str_len host > 255 then Inl (Bail ''Snell UDP target host is longer than 255 bytes'')
          else Inr (of_nat (str_len host) # utf8 host))"

definition encode_udp_request :: "ustring \<Rightarrow> u16 \<Rightarrow> bytes \<Rightarrow> bytes res" where
  "encode_udp_request host port payload =
     (if host = [] then Inl (Bail ''Snell UDP target host cannot be empty'')
      else if port = 0 then Inl (Bail ''Snell UDP target port cannot be zero'')
      else and_then (udp_address host) (\<lambda>address.
        let frame = [1] @ address @ to_be16 port in
        if length frame + length payload > MAX_RECORD_PAYLOAD_SIZE
        then Inl (Bail ''Snell UDP datagram is too large'')
        else Inr (frame @ payload)))"

definition decode_udp_response :: "bytes \<Rightarrow> (socket_addr \<times> bytes) res" where
  "decode_udp_response frame =
     (case frame of
        [] \<Rightarrow> Inl (Bail ''Snell UDP response is empty'')
      | address_type # _ \<Rightarrow>
          if address_type = 4 then
            (if length frame < 7 then Inl (Bail ''Snell UDP response is truncated'')
             else
               let port = from_be16 (frame ! 5) (frame ! 6) in
               if port = 0 then Inl (Bail ''Snell UDP response port is zero'')
               else Inr (\<lparr>sa_ip = V4 (v4_of_octets [frame ! 1, frame ! 2, frame ! 3, frame ! 4]), sa_port = port\<rparr>,
                         drop 7 frame))
          else if address_type = 6 then
            (if length frame < 19 then Inl (Bail ''Snell UDP response is truncated'')
             else
               let port = from_be16 (frame ! 17) (frame ! 18) in
               if port = 0 then Inl (Bail ''Snell UDP response port is zero'')
               else Inr (\<lparr>sa_ip = V6 (v6_of_octets (take 16 (drop 1 frame))), sa_port = port\<rparr>,
                         drop 19 frame))
          else Inl (Bail ''Snell UDP response address type is invalid''))"

subsection \<open>Identity\<close>

definition IDENTITY_V2_MAGIC :: bytes where
  "IDENTITY_V2_MAGIC = map of_char ''DLSNID02''"

definition IDENTITY_V2_ROOT_LABEL :: bytes where
  "IDENTITY_V2_ROOT_LABEL = map of_char ''oix/snell-ech/2/auth-root''"

record IdentityV2Key =
  identity :: bytes
  authentication_key :: bytes

definition derive_key :: "crypto \<Rightarrow> bytes \<Rightarrow> bytes \<Rightarrow> bytes" where
  "derive_key X root label = hmac_sha256 X root (label @ [1])"

definition identity_key_new :: "crypto \<Rightarrow> ustring \<Rightarrow> IdentityV2Key res" where
  "identity_key_new X psk =
     (if psk = [] then Inl (Bail ''PSK cannot be empty'')
      else
        let root = hmac_sha256 X (sha256 X IDENTITY_V2_ROOT_LABEL) (utf8 psk) in
        Inr \<lparr>identity = take 16 (derive_key X root (map of_char ''identity'')),
             authentication_key = derive_key X root (map of_char ''authentication'')\<rparr>)"

definition identity_build :: "crypto \<Rightarrow> IdentityV2Key \<Rightarrow> bytes \<Rightarrow> bytes \<Rightarrow> bytes" where
  "identity_build X k exporter nonce =
     (let context = IDENTITY_V2_MAGIC @ exporter @ nonce @ identity k;
          authentication = hmac_sha256 X (authentication_key k) context in
      nonce @ IDENTITY_V2_MAGIC @ identity k @ take 16 authentication)"

definition build_identity_v2 :: "crypto \<Rightarrow> ustring \<Rightarrow> bytes \<Rightarrow> bytes \<Rightarrow> bytes res" where
  "build_identity_v2 X psk exporter nonce =
     and_then (identity_key_new X psk) (\<lambda>k. Inr (identity_build X k exporter nonce))"

subsection \<open>Specification of the peer\<close>

definition parse_connect_request :: "bytes \<Rightarrow> (bool \<times> bytes \<times> u16) option" where
  "parse_connect_request r =
     (case r of
        v # cmd # z # n # rest \<Rightarrow>
          if v = 1 \<and> (cmd = 1 \<or> cmd = 5) \<and> z = 0 \<and> n \<noteq> 0 \<and> length rest = unat n + 2
          then Some (cmd = 5, take (unat n) rest, from_be16 (rest ! unat n) (rest ! (unat n + 1)))
          else None
      | _ \<Rightarrow> None)"

datatype udp_target = Name bytes | Ip ip

definition udp_target :: "ustring \<Rightarrow> udp_target" where
  "udp_target host = (case parse_ip host of Some a \<Rightarrow> Ip a | None \<Rightarrow> Name (utf8 host))"

definition parse_port :: "udp_target \<Rightarrow> bytes \<Rightarrow> (udp_target \<times> u16 \<times> bytes) option" where
  "parse_port t r = (case r of a # b # p \<Rightarrow> Some (t, from_be16 a b, p) | _ \<Rightarrow> None)"

definition parse_udp_request :: "bytes \<Rightarrow> (udp_target \<times> u16 \<times> bytes) option" where
  "parse_udp_request r =
     (case r of
        v # n # rest \<Rightarrow>
          if v \<noteq> 1 then None
          else if n \<noteq> 0 then parse_port (Name (take (unat n) rest)) (drop (unat n) rest)
          else (case rest of
                  f # rest \<Rightarrow>
                    if f = 4 then parse_port (Ip (V4 (v4_of_octets (take 4 rest)))) (drop 4 rest)
                    else if f = 6 then parse_port (Ip (V6 (v6_of_octets (take 16 rest)))) (drop 16 rest)
                    else None
                | [] \<Rightarrow> None)
      | _ \<Rightarrow> None)"

definition print_udp_response :: "socket_addr \<Rightarrow> bytes \<Rightarrow> bytes" where
  "print_udp_response a payload =
     (case sa_ip a of
        V4 ip \<Rightarrow> 4 # v4_octets ip @ to_be16 (sa_port a) @ payload
      | V6 ip \<Rightarrow> 6 # v6_octets ip @ to_be16 (sa_port a) @ payload)"

subsection \<open>Lemmas\<close>

lemma parse_port_append [simp]: "parse_port t (to_be16 p @ r) = Some (t, p, r)"
  by (simp add: parse_port_def to_be16_two)

lemma str_len_pos: "s \<noteq> [] \<Longrightarrow> 0 < str_len s"
  by (simp add: str_len_def)

lemma byte_len:
  assumes "s \<noteq> []" "str_len s \<le> 255"
  shows "unat (of_nat (str_len s) :: byte) = length (utf8 s)" "(of_nat (str_len s) :: byte) \<noteq> 0"
proof -
  show *: "unat (of_nat (str_len s) :: byte) = length (utf8 s)"
    using assms(2) by (simp add: unat_of_nat_byte str_len_def)
  show "(of_nat (str_len s) :: byte) \<noteq> 0"
    using * str_len_pos [OF assms(1)] by (auto simp: str_len_def)
qed

lemma four_bytes: "length bs = 4 \<Longrightarrow> bs = [bs ! 0, bs ! Suc 0, bs ! 2, bs ! 3]"
  by (auto simp: list_eq_iff_nth_eq less_Suc_eq numeral_eq_Suc nth_Cons')

lemma octets_port_split:
  assumes "n + 2 \<le> length rest"
  shows "\<exists>os p q r. rest = os @ p # q # r \<and> length os = n"
proof -
  obtain p q r where "drop n rest = p # q # r"
    using assms by (cases "drop n rest"; cases "tl (drop n rest)") (auto simp: drop_eq_Nil dest!: arg_cong [where f = length])
  then have "rest = take n rest @ p # q # r" by (metis append_take_drop_id)
  then show ?thesis using assms by (metis le_add1 le_trans length_take min.absorb2)
qed

text \<open>
  A connect request that is built parses back to the command, the host and the port
  that were given, and it is built exactly for a nonempty host of at most 255 bytes and a
  nonzero port.
\<close>

lemma connect_request_round_trip:
  "case build_connect_request host port reuse of
     Inr r \<Rightarrow> parse_connect_request r = Some (reuse, utf8 host, port)
             \<and> host \<noteq> [] \<and> str_len host \<le> 255 \<and> port \<noteq> 0
   | Inl e \<Rightarrow> host = [] \<or> 255 < str_len host \<or> port = 0"
proof (cases "host = [] \<or> 255 < str_len host \<or> port = 0")
  case True
  then show ?thesis by (auto simp: build_connect_request_def)
next
  case False
  then show ?thesis
    using byte_len [of host]
    by (simp add: build_connect_request_def parse_connect_request_def to_be16_two nth_append
        del: of_nat_eq_0_iff)
qed

text \<open>
  An encoded UDP request fits in one record and parses back to the target (an address
  when the host is the text of one, the host's bytes otherwise), the port and the payload.
\<close>

lemma udp_request_round_trip:
  assumes "encode_udp_request host port payload = Inr frame"
  shows "parse_udp_request frame = Some (udp_target host, port, payload)
    \<and> length frame \<le> MAX_RECORD_PAYLOAD_SIZE \<and> frame \<noteq> [] \<and> port \<noteq> 0"
proof -
  obtain a where a: "udp_address host = Inr a" and f: "frame = [1] @ a @ to_be16 port @ payload"
    and len: "length frame \<le> MAX_RECORD_PAYLOAD_SIZE" and h: "host \<noteq> []" "port \<noteq> 0"
    using assms by (auto simp: encode_udp_request_def res_simps Let_def split: if_splits)
  have "parse_udp_request frame = Some (udp_target host, port, payload)"
    using a h byte_len [of host]
    by (auto simp: f parse_udp_request_def udp_address_def udp_target_def
        split: option.splits ip.splits if_splits)
  with len h f show ?thesis by simp
qed

lemma to_be16_53: "to_be16 53 = [0, 53]"
  by (simp add: to_be16_two hi16_def lo16_def)

lemma udp_request_round_trip_witness:
  "parse_udp_request [1, 1, 122, 0, 53, 7] = Some (udp_target [122], 53, [7])
    \<and> length [1, 1, 122, 0, 53, 7 :: byte] \<le> MAX_RECORD_PAYLOAD_SIZE
    \<and> [1, 1, 122, 0, 53, 7 :: byte] \<noteq> [] \<and> (53 :: u16) \<noteq> 0"
  by (rule udp_request_round_trip)
    (simp add: encode_udp_request_def udp_address_def str_len_def utf8_def utf8_char_def
      to_be16_53 parse_ip_name digit_val_def ascii_digit_def MAX_RECORD_PAYLOAD_SIZE_def)

text \<open>
  \<open>decode_udp_response\<close> accepts exactly the encodings of a datagram from an IPv4 or
  IPv6 address with a nonzero port, and returns that address and the payload.
\<close>

lemma udp_response_round_trip:
  "decode_udp_response frame = Inr (a, payload) \<longleftrightarrow>
     frame = print_udp_response a payload \<and> sa_port a \<noteq> 0"
proof
  assume "frame = print_udp_response a payload \<and> sa_port a \<noteq> 0"
  then show "decode_udp_response frame = Inr (a, payload)"
    by (cases a; cases "sa_ip a")
      (auto simp: print_udp_response_def decode_udp_response_def Let_def to_be16_two nth_append
        four_bytes [OF length_octets(1), symmetric])
next
  assume d: "decode_udp_response frame = Inr (a, payload)"
  then obtain t rest where f: "frame = t # rest" by (auto simp: decode_udp_response_def split: list.splits)
  consider (v4) "t = 4" "6 \<le> length rest" | (v6) "t = 6" "18 \<le> length rest"
    using d by (auto simp: f decode_udp_response_def split: if_splits)
  then show "frame = print_udp_response a payload \<and> sa_port a \<noteq> 0"
  proof cases
    case v4
    then obtain os p q r where "rest = os @ p # q # r" "length os = 4"
      using octets_port_split [of 4 rest] by auto
    with d v4 show ?thesis
      by (auto simp: f decode_udp_response_def print_udp_response_def Let_def to_be16_from_be16
          v4_octets_of_octets nth_append four_bytes [symmetric] split: if_splits)
  next
    case v6
    then obtain os p q r where "rest = os @ p # q # r" "length os = 16"
      using octets_port_split [of 16 rest] by auto
    with d v6 show ?thesis
      by (auto simp: f decode_udp_response_def print_udp_response_def Let_def to_be16_from_be16
          v6_octets_of_octets nth_append split: if_splits)
  qed
qed

end
