(* ===== verification/Snell_Reader.thy ===== *)
theory Snell_Reader
  imports Snell_Codec
begin

text \<open>
  The receiving side of a Snell session, \<open>SnellReader\<close> of \<open>src/snell/client.rs\<close>: the
  server's reply is read lazily before the first application data, records are buffered and
  handed out, and a reusable session is drained up to the server's zero-length record.
\<close>

record snell_reader =
  records :: record_reader
  buffered :: bytes
  buffered_offset :: nat
  server_eof :: bool
  reply_pending :: bool
  reply_error :: "error option"

definition buffered_remaining :: "snell_reader \<Rightarrow> nat" where
  "buffered_remaining r = length (buffered r) - buffered_offset r"

text \<open>The record is read into the reader's own buffer, which keeps whatever an error leaves.\<close>

definition fill_buffer :: "crypto \<Rightarrow> snell_reader \<Rightarrow> RecordKind res \<times> snell_reader" where
  "fill_buffer X r =
     (case read_frame_into X (records r) of (res, rec) \<Rightarrow>
        (case res of Inl e \<Rightarrow> Inl e | Inr (kind, _) \<Rightarrow> Inr kind,
         r\<lparr>records := rec, buffered := rr_frame rec, buffered_offset := 0\<rparr>))"

definition reader_read_frame :: "crypto \<Rightarrow> snell_reader \<Rightarrow> bytes res \<times> snell_reader" where
  "reader_read_frame X r =
     (case read_frame X (records r) of (res, rec) \<Rightarrow> (res, r\<lparr>records := rec\<rparr>))"

definition read_packet_frame :: "crypto \<Rightarrow> snell_reader \<Rightarrow> bytes res \<times> snell_reader" where
  "read_packet_frame X r =
     (case read_frame_into X (records r) of
        (Inl e, rec) \<Rightarrow> (Inl e, r\<lparr>records := rec\<rparr>)
      | (Inr (Payload, frame), rec) \<Rightarrow> (Inr frame, r\<lparr>records := rec\<rparr>)
      | (Inr (Zero, _), rec) \<Rightarrow> (Inl ZeroRecord, r\<lparr>records := rec\<rparr>))"

lemma fill_buffer_Inr:
  assumes "fill_buffer X r = (Inr kind, r')"
  obtains f rec where "read_frame_into X (records r) = (Inr (kind, f), rec)"
    "r' = r\<lparr>records := rec, buffered := f, buffered_offset := 0\<rparr>"
  using assms
  by (auto simp: fill_buffer_def dest: read_frame_into_Inr(3) split: prod.splits sum.splits)

lemma fill_buffer_shrinks:
  "fill_buffer X r = (Inr kind, r') \<Longrightarrow> length (rr_reader (records r')) < length (rr_reader (records r))"
  by (erule fill_buffer_Inr) (auto dest: read_frame_into_Inr(1))

lemma reader_read_frame_Inr:
  assumes "reader_read_frame X r = (Inr f, r')"
  obtains rec where "read_frame_into X (records r) = (Inr (Payload, f), rec)" "r' = r\<lparr>records := rec\<rparr>"
  using assms
  by (auto simp: reader_read_frame_def read_frame_def res_simps split: prod.splits RecordKind.splits)
    (metis RecordKind.exhaust)

lemma reader_read_frame_shrinks:
  "reader_read_frame X r = (Inr f, r') \<Longrightarrow> length (rr_reader (records r')) < length (rr_reader (records r))"
  by (erule reader_read_frame_Inr) (auto dest: read_frame_into_Inr(1))

subsection \<open>Waiting for payload\<close>

text \<open>False is the server's end of data.\<close>

function wait_payload :: "crypto \<Rightarrow> snell_reader \<Rightarrow> bool res \<times> snell_reader" where
  "wait_payload X r =
     (if buffered_remaining r \<noteq> 0 then (Inr True, r)
      else case fill_buffer X r of
        (Inl e, r) \<Rightarrow> (Inl e, r)
      | (Inr Zero, r) \<Rightarrow> (Inr False, r\<lparr>server_eof := True\<rparr>)
      | (Inr Payload, r) \<Rightarrow> wait_payload X r)"
  by pat_completeness auto
termination
  by (relation "measure (\<lambda>(X, r). length (rr_reader (records r)))")
    (auto dest: fill_buffer_shrinks [OF sym])

function read_exact_payload_into :: "crypto \<Rightarrow> nat \<Rightarrow> snell_reader \<Rightarrow> bytes res \<times> snell_reader" where
  "read_exact_payload_into X n r =
     (if buffered_remaining r < n then
        (if buffered_remaining r = 0 then
           (case fill_buffer X r of
              (Inl e, r) \<Rightarrow> (Inl (Bail ''read Snell CONNECT response''), r)
            | (Inr Zero, r) \<Rightarrow> (Inl (Bail ''read Snell CONNECT response: Snell zero-length record''), r)
            | (Inr Payload, r) \<Rightarrow> read_exact_payload_into X n r)
         else
           (case reader_read_frame X r of
              (Inl e, r) \<Rightarrow> (Inl (Bail ''read Snell CONNECT response''), r)
            | (Inr payload, r) \<Rightarrow> read_exact_payload_into X n (r\<lparr>buffered := buffered r @ payload\<rparr>)))
      else (Inr (take n (drop (buffered_offset r) (buffered r))),
            r\<lparr>buffered_offset := buffered_offset r + n\<rparr>))"
  by pat_completeness auto
termination
  by (relation "measure (\<lambda>(X, n, r). length (rr_reader (records r)))")
    (auto dest: fill_buffer_shrinks [OF sym] reader_read_frame_shrinks [OF sym])

declare wait_payload.simps [simp del]
declare read_exact_payload_into.simps [simp del]

subsection \<open>The reply\<close>

definition read_reply :: "crypto \<Rightarrow> snell_reader \<Rightarrow> unit res \<times> snell_reader" where
  "read_reply X r =
     st_then (read_exact_payload_into X 1 r) (\<lambda>status r.
     if status ! 0 = 0 then (Inr (), r)
     else if status ! 0 = 2 then
       st_then (read_exact_payload_into X 2 r) (\<lambda>detail r.
       st_then (read_exact_payload_into X (unat (detail ! 1)) r) (\<lambda>message r.
       (Inl (Bail ''Snell server rejected the request''), r)))
     else (Inl (Bail ''Snell server returned an unexpected status''), r))"

definition ensure_reply :: "crypto \<Rightarrow> snell_reader \<Rightarrow> unit res \<times> snell_reader" where
  "ensure_reply X r =
     (case reply_error r of
        Some e \<Rightarrow> (Inl e, r)
      | None \<Rightarrow>
          if \<not> reply_pending r then (Inr (), r)
          else
            (case read_reply X (r\<lparr>reply_pending := False\<rparr>) of
               (Inl e, r) \<Rightarrow> (Inl e, r\<lparr>reply_error := Some e\<rparr>)
             | (Inr u, r) \<Rightarrow> (Inr u, r)))"

subsection \<open>Application data\<close>

text \<open>\<open>read_application\<close> with a destination of \<open>n\<close> bytes: what is copied into it.\<close>

definition read_application :: "crypto \<Rightarrow> nat \<Rightarrow> snell_reader \<Rightarrow> bytes res \<times> snell_reader" where
  "read_application X n r =
     st_then (ensure_reply X r) (\<lambda>_ r.
     if n = 0 then (Inr [], r)
     else st_then (wait_payload X r) (\<lambda>more_data r.
       if \<not> more_data then (Inr [], r)
       else
         let len = min n (buffered_remaining r) in
         (Inr (take len (drop (buffered_offset r) (buffered r))),
          r\<lparr>buffered_offset := buffered_offset r + len\<rparr>)))"

definition read_application_chunk :: "crypto \<Rightarrow> snell_reader \<Rightarrow> bytes res \<times> snell_reader" where
  "read_application_chunk X r =
     st_then (ensure_reply X r) (\<lambda>_ r.
     st_then (wait_payload X r) (\<lambda>more_data r.
       if \<not> more_data then (Inr [], r)
       else (Inr (drop (buffered_offset r) (buffered r)),
             r\<lparr>buffered_offset := length (buffered r)\<rparr>)))"

function drain_to_zero :: "crypto \<Rightarrow> snell_reader \<Rightarrow> unit res \<times> snell_reader" where
  "drain_to_zero X r =
     (if server_eof r then (Inr (), r)
      else case fill_buffer X r of
        (Inr Payload, r) \<Rightarrow> drain_to_zero X r
      | (Inr Zero, r) \<Rightarrow> drain_to_zero X (r\<lparr>server_eof := True\<rparr>)
      | (Inl e, r) \<Rightarrow> (Inl (Bail ''finish Snell reused session''), r))"
  by pat_completeness auto
termination
  by (relation "measure (\<lambda>(X, r). length (rr_reader (records r)))")
    (auto dest: fill_buffer_shrinks [OF sym])

declare drain_to_zero.simps [simp del]

definition complete_reuse_close :: "crypto \<Rightarrow> snell_reader \<Rightarrow> unit res \<times> snell_reader" where
  "complete_reuse_close X r =
     st_then (ensure_reply X (r\<lparr>buffered := [], buffered_offset := 0\<rparr>)) (\<lambda>_ r. drain_to_zero X r)"

subsection \<open>What the records carry\<close>

text \<open>
  The records still to come: the payloads \<open>ps\<close>, then a zero-length record; \<open>fin\<close> is the
  record reader after it.
\<close>

inductive incoming :: "crypto \<Rightarrow> record_reader \<Rightarrow> bytes list \<Rightarrow> record_reader \<Rightarrow> bool" for X where
  incoming_zero: "read_frame_into X r = (Inr (Zero, f), fin) \<Longrightarrow> incoming X r [] fin"
| incoming_payload:
    "read_frame_into X r = (Inr (Payload, p), r1) \<Longrightarrow> p \<noteq> [] \<Longrightarrow> incoming X r1 ps fin
     \<Longrightarrow> incoming X r (p # ps) fin"

inductive_cases incoming_NilE: "incoming X r [] fin"
inductive_cases incoming_ConsE: "incoming X r (p # ps) fin"

text \<open>The bytes a reader has not handed out yet.\<close>

definition unread :: "snell_reader \<Rightarrow> bytes" where
  "unread r = drop (buffered_offset r) (buffered r)"

definition holds :: "crypto \<Rightarrow> snell_reader \<Rightarrow> bytes list \<Rightarrow> record_reader \<Rightarrow> bool" where
  "holds X r ps fin \<longleftrightarrow> incoming X (records r) ps fin \<and> buffered_offset r \<le> length (buffered r)"

lemma buffered_remaining_unread: "buffered_remaining r = length (unread r)"
  by (simp add: buffered_remaining_def unread_def)

lemma fill_buffer_payload:
  assumes "incoming X (records r) (p # ps) fin"
  obtains rec where "fill_buffer X r = (Inr Payload, r\<lparr>records := rec, buffered := p, buffered_offset := 0\<rparr>)"
    "incoming X rec ps fin" "p \<noteq> []"
  using assms
proof (rule incoming_ConsE)
  fix r1
  assume a: "read_frame_into X (records r) = (Inr (Payload, p), r1)" "p \<noteq> []" "incoming X r1 ps fin"
  show thesis
    by (rule that [of r1]) (use a read_frame_into_Inr(3) [OF a(1)] in \<open>simp_all add: fill_buffer_def\<close>)
qed

lemma fill_buffer_zero:
  assumes "incoming X (records r) [] fin"
  shows "fill_buffer X r = (Inr Zero, r\<lparr>records := fin, buffered := [], buffered_offset := 0\<rparr>)"
  using assms
proof (rule incoming_NilE)
  fix f
  assume a: "read_frame_into X (records r) = (Inr (Zero, f), fin)"
  show ?thesis
    using a read_frame_into_Inr(3,4) [OF a] by (simp add: fill_buffer_def)
qed

lemma wait_payload_buffered: "unread r \<noteq> [] \<Longrightarrow> wait_payload X r = (Inr True, r)"
  by (subst wait_payload.simps) (simp add: buffered_remaining_unread)

lemma wait_payload_more:
  assumes "incoming X (records r) (p # ps) fin" "unread r = []"
  obtains rec where "wait_payload X r = (Inr True, r\<lparr>records := rec, buffered := p, buffered_offset := 0\<rparr>)"
    "incoming X rec ps fin" "p \<noteq> []"
proof -
  obtain rec where f: "fill_buffer X r = (Inr Payload, r\<lparr>records := rec, buffered := p, buffered_offset := 0\<rparr>)"
    "incoming X rec ps fin" "p \<noteq> []"
    using assms(1) by (rule fill_buffer_payload)
  have "wait_payload X r = wait_payload X (r\<lparr>records := rec, buffered := p, buffered_offset := 0\<rparr>)"
    using assms(2) by (subst wait_payload.simps) (simp add: buffered_remaining_unread f)
  also have "\<dots> = (Inr True, r\<lparr>records := rec, buffered := p, buffered_offset := 0\<rparr>)"
    using f(3) by (intro wait_payload_buffered) (simp add: unread_def)
  finally show ?thesis using f that by blast
qed

lemma wait_payload_end:
  assumes "incoming X (records r) [] fin" "unread r = []"
  shows "wait_payload X r = (Inr False, r\<lparr>records := fin, buffered := [], buffered_offset := 0, server_eof := True\<rparr>)"
  using assms fill_buffer_zero [OF assms(1)]
  by (subst wait_payload.simps) (simp add: buffered_remaining_unread)

lemma reader_read_frame_payload:
  assumes "incoming X (records r) (p # ps) fin"
  obtains rec where "reader_read_frame X r = (Inr p, r\<lparr>records := rec\<rparr>)" "incoming X rec ps fin"
  using assms by (auto elim!: incoming_ConsE simp: reader_read_frame_def read_frame_def)

text \<open>An exact read takes the next bytes of the payload, across records.\<close>

lemma read_exact_payload:
  assumes "holds X r ps fin" "n \<le> length (unread r @ concat ps)"
  shows "\<exists>r' ps'. read_exact_payload_into X n r = (Inr (take n (unread r @ concat ps)), r')
    \<and> holds X r' ps' fin \<and> unread r' @ concat ps' = drop n (unread r @ concat ps)
    \<and> r' = r\<lparr>records := records r', buffered := buffered r', buffered_offset := buffered_offset r'\<rparr>"
  using assms
proof (induction ps arbitrary: r)
  case Nil
  then have "\<not> buffered_remaining r < n" by (simp add: buffered_remaining_unread)
  with Nil show ?case
    by (intro exI [of _ "r\<lparr>buffered_offset := buffered_offset r + n\<rparr>"] exI [of _ "[]"])
      (subst read_exact_payload_into.simps, auto simp: holds_def unread_def add.commute)
next
  case (Cons p ps)
  show ?case
  proof (cases "buffered_remaining r < n")
    case False
    with Cons.prems show ?thesis
      by (intro exI [of _ "r\<lparr>buffered_offset := buffered_offset r + n\<rparr>"] exI [of _ "p # ps"])
        (subst read_exact_payload_into.simps,
         auto simp: holds_def unread_def add.commute buffered_remaining_def)
  next
    case True
    have inc: "incoming X (records r) (p # ps) fin" and off: "buffered_offset r \<le> length (buffered r)"
      using Cons.prems by (auto simp: holds_def)
    obtain r1 where step: "read_exact_payload_into X n r = read_exact_payload_into X n r1"
      and r1: "holds X r1 ps fin" "unread r1 = unread r @ p"
        "r1 = r\<lparr>records := records r1, buffered := buffered r1, buffered_offset := buffered_offset r1\<rparr>"
    proof (cases "buffered_remaining r = 0")
      case z: True
      obtain rec where f: "fill_buffer X r = (Inr Payload, r\<lparr>records := rec, buffered := p, buffered_offset := 0\<rparr>)"
        "incoming X rec ps fin" using inc by (rule fill_buffer_payload)
      show thesis
        using True z f
        by (intro that [of "r\<lparr>records := rec, buffered := p, buffered_offset := 0\<rparr>"],
            subst read_exact_payload_into.simps) (auto simp: holds_def buffered_remaining_unread, simp add: unread_def)
    next
      case z: False
      obtain rec where f: "reader_read_frame X r = (Inr p, r\<lparr>records := rec\<rparr>)" "incoming X rec ps fin"
        using inc by (rule reader_read_frame_payload)
      show thesis
        using True z f off
        by (intro that [of "r\<lparr>records := rec, buffered := buffered r @ p\<rparr>"],
            subst read_exact_payload_into.simps) (auto simp: holds_def unread_def)
    qed
    have "n \<le> length (unread r1 @ concat ps)" using Cons.prems r1 by simp
    from Cons.IH [OF r1(1) this] obtain r' ps' where
      "read_exact_payload_into X n r1 = (Inr (take n (unread r1 @ concat ps)), r')"
      "holds X r' ps' fin" "unread r' @ concat ps' = drop n (unread r1 @ concat ps)"
      and fr: "r' = r1\<lparr>records := records r', buffered := buffered r', buffered_offset := buffered_offset r'\<rparr>"
      by blast
    moreover have "r' = r\<lparr>records := records r', buffered := buffered r', buffered_offset := buffered_offset r'\<rparr>"
      by (subst fr, subst r1(3)) simp
    ultimately show ?thesis using step r1(2) by auto
  qed
qed

lemma read_reply_accepted:
  assumes "holds X r ps fin" "unread r @ concat ps = 0 # data"
  shows "\<exists>r' ps'. read_reply X r = (Inr (), r') \<and> holds X r' ps' fin \<and> unread r' @ concat ps' = data
    \<and> r' = r\<lparr>records := records r', buffered := buffered r', buffered_offset := buffered_offset r'\<rparr>"
  using read_exact_payload [OF assms(1), of 1] assms(2) by (auto simp: read_reply_def)

lemma read_reply_rejected:
  assumes "holds X r ps fin" "unread r @ concat ps = 2 # code # n # message" "unat n \<le> length message"
  shows "\<exists>r'. read_reply X r = (Inl (Bail ''Snell server rejected the request''), r')"
proof -
  obtain r1 ps1 where 1: "read_exact_payload_into X 1 r = (Inr [2], r1)" "holds X r1 ps1 fin"
    "unread r1 @ concat ps1 = code # n # message"
    using read_exact_payload [OF assms(1), of 1] assms(2) by auto
  obtain r2 ps2 where 2: "read_exact_payload_into X 2 r1 = (Inr [code, n], r2)" "holds X r2 ps2 fin"
    "unread r2 @ concat ps2 = message"
    using read_exact_payload [OF 1(2), of 2] 1(3) by auto
  obtain r3 where 3: "read_exact_payload_into X (unat n) r2 = (Inr (take (unat n) message), r3)"
    using read_exact_payload [OF 2(2), of "unat n"] 2(3) assms(3) by auto
  show ?thesis using 1(1) by (simp add: read_reply_def 2 3)
qed

lemma read_reply_unexpected:
  assumes "holds X r ps fin" "unread r @ concat ps = c # rest" "c \<noteq> 0" "c \<noteq> 2"
  shows "\<exists>r'. read_reply X r = (Inl (Bail ''Snell server returned an unexpected status''), r')"
  using read_exact_payload [OF assms(1), of 1] assms(2-) by (auto simp: read_reply_def)

text \<open>Reading chunks until the empty one, with a bound on the number of calls.\<close>

fun read_chunks :: "crypto \<Rightarrow> nat \<Rightarrow> snell_reader \<Rightarrow> bytes res option \<times> snell_reader" where
  "read_chunks X 0 r = (None, r)"
| "read_chunks X (Suc n) r =
     (case read_application_chunk X r of
        (Inl e, r) \<Rightarrow> (Some (Inl e), r)
      | (Inr c, r) \<Rightarrow>
          if c = [] then (Some (Inr []), r)
          else (case read_chunks X n r of
                  (Some (Inr d), r) \<Rightarrow> (Some (Inr (c @ d)), r)
                | other \<Rightarrow> other))"

lemma chunk_no_reply:
  assumes "\<not> reply_pending r" "reply_error r = None"
  shows "read_application_chunk X r = st_then (wait_payload X r) (\<lambda>more_data r.
       if \<not> more_data then (Inr [], r)
       else (Inr (drop (buffered_offset r) (buffered r)), r\<lparr>buffered_offset := length (buffered r)\<rparr>))"
  using assms by (simp add: read_application_chunk_def ensure_reply_def)

lemma read_chunks_drained:
  assumes "incoming X (records r) ps fin" "unread r = []" "\<not> reply_pending r" "reply_error r = None"
    and "length ps < n"
  shows "\<exists>r'. read_chunks X n r = (Some (Inr (concat ps)), r') \<and> records r' = fin \<and> server_eof r'
    \<and> unread r' = [] \<and> \<not> reply_pending r' \<and> reply_error r' = None"
  using assms
proof (induction ps arbitrary: r n)
  case Nil
  then obtain m where n: "n = Suc m" by (cases n) auto
  show ?case
    using Nil by (simp add: n chunk_no_reply wait_payload_end unread_def)
next
  case (Cons p ps)
  then obtain m where n: "n = Suc m" "length ps < m" by (cases n) auto
  obtain rec where w: "wait_payload X r = (Inr True, r\<lparr>records := rec, buffered := p, buffered_offset := 0\<rparr>)"
    "incoming X rec ps fin" "p \<noteq> []"
    using Cons.prems(1,2) by (rule wait_payload_more)
  let ?r = "r\<lparr>records := rec, buffered := p, buffered_offset := length p\<rparr>"
  obtain r' where "read_chunks X m ?r = (Some (Inr (concat ps)), r')" "records r' = fin" "server_eof r'"
    "unread r' = []" "\<not> reply_pending r'" "reply_error r' = None"
    using Cons.IH [of ?r m] Cons.prems w n by (auto simp: unread_def)
  with Cons.prems w show ?case by (simp add: n chunk_no_reply)
qed

lemma read_chunks_all:
  assumes "incoming X (records r) ps fin" "\<not> reply_pending r" "reply_error r = None" "Suc (length ps) < n"
  shows "\<exists>r'. read_chunks X n r = (Some (Inr (unread r @ concat ps)), r') \<and> records r' = fin
    \<and> server_eof r' \<and> unread r' = [] \<and> \<not> reply_pending r' \<and> reply_error r' = None"
proof (cases "unread r = []")
  case True
  then show ?thesis using read_chunks_drained [OF assms(1) True assms(2,3), of n] assms(4) by simp
next
  case False
  obtain m where n: "n = Suc m" "length ps < m" using assms(4) by (cases n) auto
  let ?r = "r\<lparr>buffered_offset := length (buffered r)\<rparr>"
  obtain r' where "read_chunks X m ?r = (Some (Inr (concat ps)), r')" "records r' = fin" "server_eof r'"
    "unread r' = []" "\<not> reply_pending r'" "reply_error r' = None"
    using read_chunks_drained [of X ?r ps fin m] assms n by (auto simp: unread_def)
  with False assms show ?thesis
    by (simp add: n chunk_no_reply wait_payload_buffered) (simp add: unread_def)
qed

text \<open>The first read settles the reply; the chunks then carry everything after the status byte.\<close>

lemma ensure_reply_settled: "\<not> reply_pending r \<Longrightarrow> reply_error r = None \<Longrightarrow> ensure_reply X r = (Inr (), r)"
  by (simp add: ensure_reply_def)

lemma chunk_after_reply:
  assumes "ensure_reply X r = (Inr (), r1)" "\<not> reply_pending r1" "reply_error r1 = None"
  shows "read_application_chunk X r = read_application_chunk X r1"
  using assms by (simp add: read_application_chunk_def ensure_reply_settled)

lemma holds_length: "incoming X rec ps fin \<Longrightarrow> length ps \<le> length (concat ps)"
proof (induction rule: incoming.induct)
  case (incoming_payload r p r1 ps fin)
  then show ?case by (cases p) simp_all
qed simp

lemma read_chunks_with_reply:
  assumes "holds X r ps fin" "reply_pending r" "reply_error r = None"
    and "unread r @ concat ps = 0 # data" "Suc (length data) < n"
  shows "\<exists>r'. read_chunks X n r = (Some (Inr data), r') \<and> records r' = fin \<and> server_eof r'
    \<and> unread r' = [] \<and> \<not> reply_pending r' \<and> reply_error r' = None"
proof -
  let ?r = "r\<lparr>reply_pending := False\<rparr>"
  have "holds X ?r ps fin" "unread ?r = unread r" using assms by (simp_all add: holds_def unread_def)
  then obtain r1 ps1 where r1: "read_reply X ?r = (Inr (), r1)" "holds X r1 ps1 fin"
      "unread r1 @ concat ps1 = data"
      "r1 = ?r\<lparr>records := records r1, buffered := buffered r1, buffered_offset := buffered_offset r1\<rparr>"
    using read_reply_accepted [of X ?r ps fin data] assms(4) by auto
  have set: "\<not> reply_pending r1" "reply_error r1 = None"
    using assms(3) by (subst r1(4), simp)+
  have ens: "ensure_reply X r = (Inr (), r1)" using assms(2,3) r1(1) by (simp add: ensure_reply_def)
  have len: "length ps1 \<le> length data" using holds_length r1(2,3) by (fastforce simp: holds_def)
  have "read_chunks X n r = read_chunks X n r1"
    using assms(5) chunk_after_reply [OF ens set] by (cases n) simp_all
  then show ?thesis
    using read_chunks_all [of X r1 ps1 fin n] r1(2,3) set len assms(5) by (simp add: holds_def)
qed

subsection \<open>From the server's records\<close>

lemma incoming_encoded:
  assumes X: "aead_laws X"
    and "encode_frames X (fs @ [(None, [], 0)]) w = (Inr bs, w')"
    and "in_step X w r" "rr_reader r = bs @ rest" "\<forall>f \<in> set fs. frame_payload f \<noteq> []"
  shows "\<exists>fin. incoming X r (map frame_payload fs) fin \<and> in_step X w' fin \<and> rr_reader fin = rest"
  using assms(2-)
proof (induction fs arbitrary: w r bs)
  case Nil
  then obtain f where "encode_frame_append X None [] 0 w = (Inr f, w')" "bs = f"
    by (auto simp: res_simps)
  with read_zero_frame [OF X Nil.prems(2)] Nil.prems show ?case
    by (fastforce intro: incoming_zero)
next
  case (Cons a fs)
  obtain rng p pl where a: "a = (rng, p, pl)" by (cases a)
  obtain f g w1 where e: "encode_frame_append X rng p pl w = (Inr f, w1)"
    and g: "encode_frames X (fs @ [(None, [], 0)]) w1 = (Inr g, w')"
    and bs: "bs = f @ g"
    using Cons.prems(1) by (auto simp: a res_simps)
  have fp: "frame_payload a = p" by (simp add: a frame_payload_def)
  then have p: "p \<noteq> []" using Cons.prems(4) by simp
  obtain r1 where r1: "read_frame_into X r = (Inr (Payload, p), r1)" "rr_reader r1 = g @ rest" "in_step X w1 r1"
    using read_payload_frame [OF X Cons.prems(2) p e, of "g @ rest"] Cons.prems(3) bs by auto
  obtain fin where "incoming X r1 (map frame_payload fs) fin" "in_step X w' fin" "rr_reader fin = rest"
    using Cons.IH [OF g r1(3,2)] Cons.prems(4) by auto
  then show ?case using incoming_payload [OF r1(1) p] by (auto simp: fp)
qed

definition reader_over :: "record_reader \<Rightarrow> snell_reader" where
  "reader_over rec = \<lparr>records = rec, buffered = [], buffered_offset = 0, server_eof = False,
     reply_pending = True, reply_error = None\<rparr>"

lemma session_stream:
  assumes "aead_laws X" "in_step X w (records r)" "reader_over (records r) = r"
    and "encode_frames X (fs @ [(None, [], 0)]) w = (Inr bs, w')"
    and "\<forall>f \<in> set fs. frame_payload f \<noteq> []" "concat (map frame_payload fs) = 0 # data"
    and "rr_reader (records r) = bs @ rest"
  shows "\<exists>r'. read_chunks X (length data + 2) r = (Some (Inr data), r') \<and> server_eof r'
    \<and> rr_reader (records r') = rest \<and> in_step X w' (records r') \<and> unread r' = []"
proof -
  obtain fin where fin: "incoming X (records r) (map frame_payload fs) fin" "in_step X w' fin" "rr_reader fin = rest"
    using incoming_encoded [OF assms(1,4,2,7,5)] by blast
  have r: "reply_pending r" "reply_error r = None" "unread r = []" "holds X r (map frame_payload fs) fin"
    using fin(1) by (subst assms(3) [symmetric], simp add: reader_over_def unread_def holds_def)+
  show ?thesis
    using read_chunks_with_reply [OF r(4,1,2), of data "length data + 2"] r(3) assms(6) fin by auto
qed

text \<open>
  C3: End to end, what the server sends after its accepting status byte is what the
  application reads. However the server cuts its stream into nonempty records and whatever
  padding it adds, reading chunks until the empty one returns exactly the bytes after the
  status byte, notes the end of data, and leaves the transport at the byte after the
  zero-length record, still in step for the next session on the connection.
\<close>

theorem session_delivers_stream:
  assumes "aead_laws X" "in_step X w (records r)" "reader_over (records r) = r"
    and "encode_frames X (fs @ [(None, [], 0)]) w = (Inr bs, w')"
    and "\<forall>f \<in> set fs. frame_payload f \<noteq> []" "concat (map frame_payload fs) = 0 # data"
    and "rr_reader (records r) = bs @ rest"
  shows "\<exists>r'. read_chunks X (length data + 2) r = (Some (Inr data), r') \<and> server_eof r'
    \<and> rr_reader (records r') = rest \<and> in_step X w' (records r') \<and> unread r' = []"
  using assms by (rule session_stream)

lemma demo_frames:
  "\<exists>bs w'. encode_frames sample_crypto [(None, [0, 104], 0), (Some of_nat, [105], 2), (None, [], 0)] demo_writer
     = (Inr bs, w')"
  by (simp add: encode_frame_append_def MAX_RECORD_PAYLOAD_SIZE_def seal_def sample_crypto_def
      fill_random_def case_prod_unfold Let_def)

theorem session_delivers_stream_witness:
  "\<exists>bs w' r'. encode_frames sample_crypto ([(None, [0, 104], 0), (Some of_nat, [105], 2)] @ [(None, [], 0)]) demo_writer
       = (Inr bs, w')
    \<and> read_chunks sample_crypto (length [104, 105 :: byte] + 2) (reader_over (reader_new (bs @ [9]) [112]))
       = (Some (Inr [104, 105]), r')
    \<and> server_eof r' \<and> rr_reader (records r') = [9] \<and> in_step sample_crypto w' (records r') \<and> unread r' = []"
proof -
  let ?fs = "[(None, [0, 104], 0), (Some of_nat, [105], 2)]"
  obtain bs w' where e: "encode_frames sample_crypto (?fs @ [(None, [], 0)]) demo_writer = (Inr bs, w')"
    using demo_frames by auto
  let ?r = "reader_over (reader_new (bs @ [9]) [112])"
  have "\<exists>r'. read_chunks sample_crypto (length [104, 105 :: byte] + 2) ?r = (Some (Inr [104, 105]), r') \<and> server_eof r'
    \<and> rr_reader (records r') = [9] \<and> in_step sample_crypto w' (records r') \<and> unread r' = []"
    by (rule session_delivers_stream [OF sample_aead_laws _ _ e])
      (simp_all add: reader_over_def demo_in_step frame_payload_def, simp add: reader_new_def)
  with e show ?thesis by blast
qed

text \<open>
  A request the server refuses never yields data. When the reply is a refusal or an
  unknown status, the first read of application data fails, and every later read, of any
  size and by either interface, fails with the same error and leaves the reader as it is.
\<close>

lemma refused_request_yields_no_data:
  assumes "holds X r ps fin" "reply_pending r" "reply_error r = None"
    and "unread r @ concat ps = c # rest" "c \<noteq> 0"
    and "c = 2 \<longrightarrow> (\<exists>code n message. rest = code # n # message \<and> unat n \<le> length message)"
  shows "\<exists>e r'. read_application X m r = (Inl e, r') \<and> read_application_chunk X r = (Inl e, r')
    \<and> (\<forall>k. read_application X k r' = (Inl e, r')) \<and> read_application_chunk X r' = (Inl e, r')"
proof -
  let ?r = "r\<lparr>reply_pending := False\<rparr>"
  have h: "holds X ?r ps fin" "unread ?r = unread r" using assms by (simp_all add: holds_def unread_def)
  obtain e r1 where "read_reply X ?r = (Inl e, r1)"
    using read_reply_rejected [OF h(1)] read_reply_unexpected [OF h(1)] assms(4-6) h(2) by (metis (no_types))
  then have "ensure_reply X r = (Inl e, r1\<lparr>reply_error := Some e\<rparr>)"
    using assms(2,3) by (simp add: ensure_reply_def)
  then show ?thesis
    by (intro exI [of _ e] exI [of _ "r1\<lparr>reply_error := Some e\<rparr>"])
      (simp add: read_application_def read_application_chunk_def ensure_reply_def)
qed

lemma refused_request_yields_no_data_witness:
  "\<exists>bs w' e r'. encode_frames sample_crypto [(None, [2, 5, 0], 0), (None, [], 0)] demo_writer = (Inr bs, w')
    \<and> read_application sample_crypto 10 (reader_over (reader_new bs [112])) = (Inl e, r')
    \<and> (\<forall>k. read_application sample_crypto k r' = (Inl e, r'))"
proof -
  have "\<exists>bs w'. encode_frames sample_crypto ([(None, [2, 5, 0], 0)] @ [(None, [], 0)]) demo_writer = (Inr bs, w')"
    by (simp add: encode_frame_append_def MAX_RECORD_PAYLOAD_SIZE_def seal_def sample_crypto_def
        case_prod_unfold Let_def)
  then obtain bs w' where e: "encode_frames sample_crypto ([(None, [2, 5, 0], 0)] @ [(None, [], 0)]) demo_writer = (Inr bs, w')"
    by blast
  let ?r = "reader_over (reader_new bs [112])"
  obtain fin where "incoming sample_crypto (records ?r) (map frame_payload [(None, [2, 5, 0], 0)]) fin"
    using incoming_encoded [OF sample_aead_laws e, of "records ?r" "[]"]
    by (auto simp: reader_over_def demo_in_step frame_payload_def) (auto simp: reader_new_def)
  then have "holds sample_crypto ?r [[2, 5, 0]] fin"
    by (simp add: holds_def frame_payload_def) (simp add: reader_over_def)
  from refused_request_yields_no_data [OF this, of 2 "[5, 0]" 10] e show ?thesis
    by (auto simp: reader_over_def unread_def)
qed

end
