(* ===== verification/Traffic.thy ===== *)
theory Traffic
  imports Rust_Str
begin

text \<open>
  Traffic accounting, \<open>src/traffic.rs\<close>: the four wrapping counters, the journal file and
  its recovery, the sampler that appends deltas, the query over the journal and the
  timestamp parser. The journal file is its content as bytes; \<open>append_env\<close> says which
  system calls of one append succeed. The JSON codec of \<open>serde_json\<close> is a parameter, as are
  \<open>mktime\<close> and \<open>localtime_r\<close>.
\<close>

definition MAX_LINE :: nat where
  "MAX_LINE = 1024"

subsection \<open>Counters\<close>

datatype Direction = TcpUpload | TcpDownload | UdpUpload | UdpDownload

record Bytes =
  tcp_upload :: u64
  tcp_download :: u64
  udp_upload :: u64
  udp_download :: u64

definition zero_bytes :: Bytes where
  "zero_bytes = \<lparr>tcp_upload = 0, tcp_download = 0, udp_upload = 0, udp_download = 0\<rparr>"

text \<open>\<open>None\<close> is a process without a recorder; the flag is \<open>enabled\<close>.\<close>

record Counters =
  enabled :: bool
  cvalues :: Bytes

fun count :: "Direction \<Rightarrow> u64 \<Rightarrow> Bytes \<Rightarrow> Bytes" where
  "count TcpUpload n b = b\<lparr>tcp_upload := tcp_upload b + n\<rparr>"
| "count TcpDownload n b = b\<lparr>tcp_download := tcp_download b + n\<rparr>"
| "count UdpUpload n b = b\<lparr>udp_upload := udp_upload b + n\<rparr>"
| "count UdpDownload n b = b\<lparr>udp_download := udp_download b + n\<rparr>"

definition record_bytes :: "Direction \<Rightarrow> nat \<Rightarrow> Counters option \<Rightarrow> Counters option" where
  "record_bytes d n active =
     (case active of
        None \<Rightarrow> None
      | Some c \<Rightarrow>
          if n \<noteq> 0 \<and> enabled c then Some (c\<lparr>cvalues := count d (of_nat n) (cvalues c)\<rparr>) else Some c)"

definition snapshot :: "Counters \<Rightarrow> Bytes" where
  "snapshot c = \<lparr>tcp_upload = tcp_upload (cvalues c), tcp_download = tcp_download (cvalues c),
     udp_upload = udp_upload (cvalues c), udp_download = udp_download (cvalues c)\<rparr>"

definition delta :: "Bytes \<Rightarrow> Bytes \<Rightarrow> Bytes" where
  "delta b p = \<lparr>tcp_upload = tcp_upload b - tcp_upload p, tcp_download = tcp_download b - tcp_download p,
     udp_upload = udp_upload b - udp_upload p, udp_download = udp_download b - udp_download p\<rparr>"

definition checked_add64 :: "u64 \<Rightarrow> u64 \<Rightarrow> u64 res" where
  "checked_add64 a b =
     (if unat a + unat b < 2 ^ 64 then Inr (a + b) else Inl (Bail ''traffic total exceeds u64''))"

definition add_bytes :: "Bytes \<Rightarrow> Bytes \<Rightarrow> Bytes res" where
  "add_bytes s b =
     and_then (checked_add64 (tcp_upload s) (tcp_upload b)) (\<lambda>tu.
     and_then (checked_add64 (tcp_download s) (tcp_download b)) (\<lambda>td.
     and_then (checked_add64 (udp_upload s) (udp_upload b)) (\<lambda>uu.
     and_then (checked_add64 (udp_download s) (udp_download b)) (\<lambda>ud.
     Inr \<lparr>tcp_upload = tu, tcp_download = td, udp_upload = uu, udp_download = ud\<rparr>))))"

record Sample =
  version :: byte
  timestamp :: u64
  since :: u64
  sbytes :: Bytes

subsection \<open>The journal\<close>

text \<open>\<open>serde_json::to_vec\<close> and \<open>serde_json::from_slice\<close> on a sample.\<close>

record json =
  to_json :: "Sample \<Rightarrow> bytes"
  from_json :: "bytes \<Rightarrow> Sample option"

definition decode_sample :: "json \<Rightarrow> bytes \<Rightarrow> Sample res" where
  "decode_sample J line =
     and_then (ok_or (from_json J line) (Bail ''invalid traffic record'')) (\<lambda>s.
     if version s \<noteq> 1 then Inl (Bail ''unsupported traffic format'') else Inr s)"

record Journal =
  jfile :: bytes
  poisoned :: bool

text \<open>\<open>read_until\<close> behind \<open>take(n)\<close>: up to and including the line feed, at most \<open>n\<close> bytes.\<close>

fun read_until :: "nat \<Rightarrow> bytes \<Rightarrow> bytes \<times> bytes" where
  "read_until 0 s = ([], s)"
| "read_until (Suc n) [] = ([], [])"
| "read_until (Suc n) (b # s) =
     (if b = 10 then ([b], s) else (case read_until n s of (l, r) \<Rightarrow> (b # l, r)))"

definition rposition :: "byte \<Rightarrow> bytes \<Rightarrow> nat option" where
  "rposition d s = map_option (\<lambda>i. length s - 1 - i) (position (\<lambda>b. b = d) (rev s))"

text \<open>
  \<open>Journal::open\<close> on a file with the given content; \<open>locked\<close> is another process holding
  the writer lock, \<open>set_len_ok\<close> the outcome of truncating and syncing. The result keeps the
  content also when the journal is refused.
\<close>

definition json_prefix :: bytes where
  "json_prefix = map of_char ''{\"version\":1,''"

definition check_first :: "json \<Rightarrow> bytes \<Rightarrow> unit res" where
  "check_first J file =
     (let first = fst (read_until (MAX_LINE + 1) file) in
      if length first > MAX_LINE then Inl (Bail ''traffic journal has an oversized first record'')
      else if first \<noteq> [] \<and> last first = 10 then and_then (decode_sample J first) (\<lambda>_. Inr ())
      else if first \<noteq> [] \<and> \<not> starts_with json_prefix first
      then Inl (Bail ''existing file is not an oixc-proxy traffic journal'')
      else Inr ())"

definition recover_tail :: "bool \<Rightarrow> bytes \<Rightarrow> bytes res" where
  "recover_tail set_len_ok file =
     (let start = length file - MAX_LINE; tail = drop start file in
      if tail \<noteq> [] \<and> last tail \<noteq> 10 then
        and_then (case rposition 10 tail of
                    Some index \<Rightarrow> Inr (start + index + 1)
                  | None \<Rightarrow>
                      if start = 0 then Inr 0
                      else Inl (Bail ''traffic journal has an oversized or corrupt final record'')) (\<lambda>keep.
        if set_len_ok then Inr (take keep file) else Inl Io)
      else Inr file)"

definition check_last :: "json \<Rightarrow> bytes \<Rightarrow> unit res" where
  "check_last J file =
     (let tail = drop (length file - MAX_LINE) file in
      if tail = [] then Inr ()
      else
        let begin_pos = (case rposition 10 (butlast tail) of None \<Rightarrow> 0 | Some i \<Rightarrow> i + 1) in
        and_then (decode_sample J (drop begin_pos tail)) (\<lambda>_. Inr ()))"

definition journal_open :: "json \<Rightarrow> bool \<Rightarrow> bool \<Rightarrow> bytes \<Rightarrow> Journal res \<times> bytes" where
  "journal_open J locked set_len_ok file =
     (if locked then (Inl (Bail ''another process is recording to this traffic file''), file)
      else case check_first J file of
        Inl e \<Rightarrow> (Inl e, file)
      | Inr _ \<Rightarrow>
          (case recover_tail set_len_ok file of
             Inl e \<Rightarrow> (Inl e, file)
           | Inr file \<Rightarrow>
               (case check_last J file of
                  Inl e \<Rightarrow> (Inl e, file)
                | Inr _ \<Rightarrow> (Inr \<lparr>jfile = file, poisoned = False\<rparr>, file))))"

text \<open>
  The system calls of one append: taking the lock, the write (\<open>Some n\<close> is a write that
  fails after \<open>n\<close> bytes), the sync, truncating back and syncing that, seeking, unlocking.
\<close>

record append_env =
  lock_ok :: bool
  write_stop :: "nat option"
  sync_ok :: bool
  set_len_ok :: bool
  rollback_sync_ok :: bool
  unlock_ok :: bool

definition append_body :: "append_env \<Rightarrow> bytes \<Rightarrow> Journal \<Rightarrow> unit res \<times> Journal" where
  "append_body E line j =
     (let offset = length (jfile j);
          written = (case write_stop E of None \<Rightarrow> line | Some n \<Rightarrow> take n line);
          j' = j\<lparr>jfile := jfile j @ written\<rparr> in
      if write_stop E = None \<and> sync_ok E then (Inr (), j')
      else if \<not> set_len_ok E
      then (Inl (Bail ''traffic append and rollback both failed''), j'\<lparr>poisoned := True\<rparr>)
      else
        let j' = j'\<lparr>jfile := take offset (jfile j')\<rparr> in
        if \<not> rollback_sync_ok E
        then (Inl (Bail ''traffic append and rollback both failed''), j'\<lparr>poisoned := True\<rparr>)
        else (Inl (Bail ''persist traffic sample''), j'))"

definition append_sample :: "json \<Rightarrow> append_env \<Rightarrow> Sample \<Rightarrow> Journal \<Rightarrow> unit res \<times> Journal" where
  "append_sample J E sample j =
     (if poisoned j then (Inl (Bail ''traffic journal requires recovery after a failed rollback''), j)
      else if \<not> lock_ok E then (Inl (Bail ''lock traffic journal''), j)
      else
        case append_body E (to_json J sample @ [10]) j of
          (Inl e, j) \<Rightarrow> (Inl e, j)
        | (Inr _, j) \<Rightarrow> (if unlock_ok E then Inr () else Inl (Bail ''lock traffic journal''), j))"

subsection \<open>The sampler\<close>

record Sampler =
  previous :: Bytes
  sampler_since :: u64

definition sampler_flush ::
  "json \<Rightarrow> append_env \<Rightarrow> Counters \<Rightarrow> u64 \<Rightarrow> Sampler \<times> Journal \<Rightarrow> unit res \<times> (Sampler \<times> Journal)" where
  "sampler_flush J E counters now sj =
     (case sj of (s, j) \<Rightarrow>
        let current = snapshot counters;
            sample = \<lparr>version = 1, timestamp = now, since = sampler_since s,
                      sbytes = delta current (previous s)\<rparr> in
        case append_sample J E sample j of
          (Inl e, j) \<Rightarrow> (Inl e, (s, j))
        | (Inr _, j) \<Rightarrow> (Inr (), (s\<lparr>previous := current, sampler_since := now\<rparr>, j)))"

text \<open>
  One turn of the loop of \<open>collect\<close>: the counters when the wait ends, the time, and whether
  a stop was received. \<open>collect\<close> runs over the turns; an error is fatal only on the last.
\<close>

record tick =
  tick_counters :: Counters
  tick_now :: u64
  tick_env :: append_env
  stopping :: bool

fun collect :: "json \<Rightarrow> tick list \<Rightarrow> Sampler \<times> Journal \<Rightarrow> unit res option \<times> (Sampler \<times> Journal)" where
  "collect J [] sj = (None, sj)"
| "collect J (t # ts) sj =
     (case sampler_flush J (tick_env t) (tick_counters t) (tick_now t) sj of
        (Inr _, sj) \<Rightarrow> if stopping t then (Some (Inr ()), sj) else collect J ts sj
      | (Inl e, sj) \<Rightarrow> if stopping t then (Some (Inl e), sj) else collect J ts sj)"

definition sleep_seconds :: "u64 \<Rightarrow> u64" where
  "sleep_seconds now = 60 - now mod 60"

subsection \<open>Queries\<close>

record Report =
  samples :: nat
  first_sample_at :: "u64 option"
  last_sample_at :: "u64 option"
  rbytes :: Bytes
  upload_bytes :: u64
  download_bytes :: u64
  total_bytes :: u64
  extended_windows :: nat
  clock_reversals :: nat
  incomplete_tail_ignored :: bool

definition empty_report :: Report where
  "empty_report = \<lparr>samples = 0, first_sample_at = None, last_sample_at = None, rbytes = zero_bytes,
     upload_bytes = 0, download_bytes = 0, total_bytes = 0, extended_windows = 0,
     clock_reversals = 0, incomplete_tail_ignored = False\<rparr>"

definition outside :: "u64 option \<Rightarrow> u64 option \<Rightarrow> Sample \<Rightarrow> bool" where
  "outside from_t to_t s \<longleftrightarrow>
     (case from_t of None \<Rightarrow> False | Some a \<Rightarrow> timestamp s < a)
     \<or> (case to_t of None \<Rightarrow> False | Some b \<Rightarrow> b \<le> timestamp s)"

definition report_sample :: "Sample \<Rightarrow> Report \<Rightarrow> Report res" where
  "report_sample s r =
     and_then (add_bytes (rbytes r) (sbytes s)) (\<lambda>b.
     Inr (r\<lparr>rbytes := b,
            samples := samples r + 1,
            first_sample_at := Some (case first_sample_at r of None \<Rightarrow> timestamp s | Some t \<Rightarrow> min t (timestamp s)),
            last_sample_at := Some (case last_sample_at r of None \<Rightarrow> timestamp s | Some t \<Rightarrow> max t (timestamp s)),
            extended_windows := extended_windows r
              + (if unat (timestamp s) - unat (since s) > 65 then 1 else 0),
            clock_reversals := clock_reversals r + (if timestamp s < since s then 1 else 0)\<rparr>))"

lemma read_until_append: "read_until n s = (l, r) \<Longrightarrow> s = l @ r"
  by (induction n s arbitrary: l rule: read_until.induct) (auto split: if_splits prod.splits)

function query_loop :: "json \<Rightarrow> u64 option \<Rightarrow> u64 option \<Rightarrow> bytes \<Rightarrow> Report \<Rightarrow> Report res" where
  "query_loop J from_t to_t file r =
     (case read_until (MAX_LINE + 1) file of (line, rest) \<Rightarrow>
        if line = [] then Inr r
        else if length line > MAX_LINE then Inl (Bail ''traffic record exceeds size limit'')
        else if last line \<noteq> 10 then Inr (r\<lparr>incomplete_tail_ignored := True\<rparr>)
        else and_then (decode_sample J line) (\<lambda>s.
          if outside from_t to_t s then query_loop J from_t to_t rest r
          else and_then (report_sample s r) (\<lambda>r. query_loop J from_t to_t rest r)))"
  by pat_completeness auto
termination
  by (relation "measure (\<lambda>(J, f, t, file, r). length file)")
    (auto dest!: read_until_append [OF sym])

declare query_loop.simps [simp del]

definition report_totals :: "Report \<Rightarrow> Report res" where
  "report_totals r =
     and_then (checked_add64 (tcp_upload (rbytes r)) (udp_upload (rbytes r))) (\<lambda>u.
     and_then (checked_add64 (tcp_download (rbytes r)) (udp_download (rbytes r))) (\<lambda>d.
     and_then (checked_add64 u d) (\<lambda>t.
     Inr (r\<lparr>upload_bytes := u, download_bytes := d, total_bytes := t\<rparr>))))"

definition query :: "json \<Rightarrow> bytes \<Rightarrow> u64 option \<Rightarrow> u64 option \<Rightarrow> Report res" where
  "query J file from_t to_t =
     (if (case (from_t, to_t) of (Some a, Some b) \<Rightarrow> b \<le> a | _ \<Rightarrow> False)
      then Inl (Bail ''--from must precede --to'')
      else and_then (query_loop J from_t to_t file empty_report) report_totals)"

subsection \<open>Deltas telescope\<close>

definition plus_bytes :: "Bytes \<Rightarrow> Bytes \<Rightarrow> Bytes" where
  "plus_bytes a b = \<lparr>tcp_upload = tcp_upload a + tcp_upload b, tcp_download = tcp_download a + tcp_download b,
     udp_upload = udp_upload a + udp_upload b, udp_download = udp_download a + udp_download b\<rparr>"

definition sum_bytes :: "Sample list \<Rightarrow> Bytes" where
  "sum_bytes ss = foldr (\<lambda>s. plus_bytes (sbytes s)) ss zero_bytes"

definition journal_line :: "json \<Rightarrow> Sample \<Rightarrow> bytes" where
  "journal_line J s = to_json J s @ [10]"

definition journal_text :: "json \<Rightarrow> Sample list \<Rightarrow> bytes" where
  "journal_text J ss = concat (map (journal_line J) ss)"

lemma journal_text_simps [simp]:
  "journal_text J [] = []"
  "journal_text J (s # ss) = journal_line J s @ journal_text J ss"
  "journal_text J (ss @ ts) = journal_text J ss @ journal_text J ts"
  by (simp_all add: journal_text_def)

lemma sum_bytes_simps [simp]:
  "sum_bytes [] = zero_bytes"
  "sum_bytes (s # ss) = plus_bytes (sbytes s) (sum_bytes ss)"
  by (simp_all add: sum_bytes_def)

lemma delta_self [simp]: "delta b b = zero_bytes"
  by (simp add: delta_def zero_bytes_def)

lemma delta_telescope: "plus_bytes (delta b a) (delta c b) = delta c a"
  by (simp add: plus_bytes_def delta_def)

text \<open>Each sample begins where the one before it ended.\<close>

fun windows :: "u64 \<Rightarrow> Sample list \<Rightarrow> u64 \<Rightarrow> bool" where
  "windows a [] b = (a = b)"
| "windows a (s # ss) b = (since s = a \<and> version s = 1 \<and> windows (timestamp s) ss b)"

text \<open>
  What a run of the sampler leaves: the samples \<open>ss\<close> were appended, their sum is the
  difference of the sampler's two baselines, and only a poisoned journal has a torn tail.
\<close>

definition accounted :: "json \<Rightarrow> Sampler \<times> Journal \<Rightarrow> Sample list \<Rightarrow> bytes \<Rightarrow> Sampler \<times> Journal \<Rightarrow> bool" where
  "accounted J sj ss torn sj' \<longleftrightarrow>
     jfile (snd sj') = jfile (snd sj) @ journal_text J ss @ torn
     \<and> (torn \<noteq> [] \<longrightarrow> poisoned (snd sj'))
     \<and> sum_bytes ss = delta (previous (fst sj')) (previous (fst sj))
     \<and> windows (sampler_since (fst sj)) ss (sampler_since (fst sj'))"

lemma append_sample_ok:
  assumes "append_sample J E s j = (Inr (), j')"
  shows "j' = j\<lparr>jfile := jfile j @ journal_line J s\<rparr>" "\<not> poisoned j"
  using assms
  by (auto simp: append_sample_def append_body_def Let_def journal_line_def split: if_splits)

lemma append_sample_err:
  assumes "append_sample J E s j = (Inl e, j')" "unlock_ok E"
  shows "\<exists>torn. jfile j' = jfile j @ torn \<and> (torn \<noteq> [] \<longrightarrow> poisoned j') \<and> (poisoned j \<longrightarrow> j' = j)"
  using assms
  by (auto simp: append_sample_def append_body_def Let_def split: if_splits option.splits)

lemma sampler_flush_accounted:
  assumes "sampler_flush J E c now sj = (r, sj')" "unlock_ok E"
  shows "\<exists>ss torn. accounted J sj ss torn sj' \<and> (r = Inr () \<longrightarrow> previous (fst sj') = snapshot c)
    \<and> (poisoned (snd sj) \<longrightarrow> sj' = sj)"
proof -
  obtain s j where sj: "sj = (s, j)" by fastforce
  let ?sample = "\<lparr>version = 1, timestamp = now, since = sampler_since s, sbytes = delta (snapshot c) (previous s)\<rparr>"
  obtain ra j' where app: "append_sample J E ?sample j = (ra, j')" by fastforce
  show ?thesis
  proof (cases ra)
    case (Inl e)
    then have "sj' = (s, j')" "r = Inl e" using assms(1) app by (simp_all add: sampler_flush_def sj Let_def)
    moreover obtain torn where "jfile j' = jfile j @ torn \<and> (torn \<noteq> [] \<longrightarrow> poisoned j') \<and> (poisoned j \<longrightarrow> j' = j)"
      using append_sample_err [OF _ assms(2)] app Inl by blast
    ultimately show ?thesis
      by (intro exI [of _ "[]"] exI [of _ torn]) (simp add: accounted_def sj)
  next
    case (Inr u)
    then have "append_sample J E ?sample j = (Inr (), j')" using app by simp
    note ok = append_sample_ok [OF this]
    have "sj' = (s\<lparr>previous := snapshot c, sampler_since := now\<rparr>, j')"
      using assms(1) app Inr by (simp add: sampler_flush_def sj Let_def)
    with ok show ?thesis
      by (intro exI [of _ "[?sample]"] exI [of _ "[]"])
        (simp add: accounted_def sj plus_bytes_def zero_bytes_def delta_def)
  qed
qed

lemma windows_append: "windows a ss b \<Longrightarrow> windows b ts c \<Longrightarrow> windows a (ss @ ts) c"
  by (induction a ss b rule: windows.induct) auto

lemma sum_bytes_append: "sum_bytes (ss @ ts) = plus_bytes (sum_bytes ss) (sum_bytes ts)"
  by (induction ss) (simp_all add: plus_bytes_def zero_bytes_def add.assoc)

lemma accounted_trans:
  assumes "accounted J a ss torn b" "accounted J b ts torn' c" "poisoned (snd b) \<Longrightarrow> c = b"
  shows "\<exists>us torn. accounted J a us torn c"
proof (cases "poisoned (snd b)")
  case True
  with assms show ?thesis by auto
next
  case False
  then have "torn = []" using assms(1) by (auto simp: accounted_def)
  then have "accounted J a (ss @ ts) torn' c"
    using assms(1,2) by (auto simp: accounted_def sum_bytes_append delta_telescope intro: windows_append)
  then show ?thesis by blast
qed

lemma accounted_refl: "accounted J sj [] [] sj"
  by (simp add: accounted_def)

lemma collect_poisoned: "poisoned (snd sj) \<Longrightarrow> snd (collect J ts sj) = sj"
proof (induction ts)
  case (Cons t ts)
  then show ?case
    by (cases sj) (simp add: sampler_flush_def append_sample_def Let_def)
qed simp

lemma collect_accounted:
  assumes "collect J ts sj = (r, sj')" "\<forall>t \<in> set ts. unlock_ok (tick_env t)"
  shows "\<exists>ss torn. accounted J sj ss torn sj'"
  using assms
proof (induction ts arbitrary: sj)
  case Nil
  then show ?case using accounted_refl [of J sj] by auto
next
  case (Cons t ts)
  obtain r1 sj1 where f: "sampler_flush J (tick_env t) (tick_counters t) (tick_now t) sj = (r1, sj1)"
    by (meson surj_pair)
  obtain ss torn where a1: "accounted J sj ss torn sj1"
    using sampler_flush_accounted [OF f] Cons.prems by auto
  show ?case
  proof (cases "stopping t")
    case True
    then have "sj' = sj1" using Cons.prems f by (auto split: sum.splits)
    with a1 show ?thesis by blast
  next
    case False
    then have c: "collect J ts sj1 = (r, sj')" using Cons.prems f by (auto split: sum.splits)
    then obtain ts' torn' where "accounted J sj1 ts' torn' sj'"
      using Cons.IH [OF c] Cons.prems(2) by auto
    moreover have "poisoned (snd sj1) \<Longrightarrow> sj' = sj1" using collect_poisoned [of sj1 J ts] c by simp
    ultimately show ?thesis using accounted_trans [OF a1] by blast
  qed
qed

lemma collect_append:
  "\<forall>p \<in> set ps. \<not> stopping p \<Longrightarrow> collect J (ps @ ts) sj = collect J ts (snd (collect J ps sj))"
  by (induction ps arbitrary: sj) (auto split: prod.splits sum.splits)


text \<open>A JSON-like codec: the fields in binary digits after the usual opening.\<close>

definition put64 :: "u64 \<Rightarrow> bytes" where
  "put64 w = map (\<lambda>i. if bit w i then 49 else 48) [0..<64]"

definition get64 :: "nat \<Rightarrow> bytes \<Rightarrow> u64" where
  "get64 i l = horner_sum of_bool 2 (map (\<lambda>b. b = 49) (take 64 (drop (64 * i) l)))"

definition sample_json :: json where
  "sample_json =
     \<lparr>to_json = (\<lambda>s. json_prefix @ put64 (timestamp s) @ put64 (since s) @ put64 (tcp_upload (sbytes s))
         @ put64 (tcp_download (sbytes s)) @ put64 (udp_upload (sbytes s)) @ put64 (udp_download (sbytes s))),
      from_json = (\<lambda>l. let b = drop (length json_prefix) l in
         Some \<lparr>version = 1, timestamp = get64 0 b, since = get64 1 b,
           sbytes = \<lparr>tcp_upload = get64 2 b, tcp_download = get64 3 b,
                     udp_upload = get64 4 b, udp_download = get64 5 b\<rparr>\<rparr>)\<rparr>"

text \<open>
  The journal's use of \<open>serde_json\<close>: a record of this version fits in a line, has no line
  feed in it, starts with its version, and parses back with a line feed after it.
\<close>

definition json_laws :: "json \<Rightarrow> bool" where
  "json_laws J \<longleftrightarrow>
     (\<forall>s. version s = 1 \<longrightarrow>
        from_json J (to_json J s @ [10]) = Some s \<and> 10 \<notin> set (to_json J s)
        \<and> length (to_json J s) < MAX_LINE \<and> starts_with json_prefix (to_json J s))"

lemma json_prefix_no_lf: "10 \<notin> set json_prefix"
  by (simp add: json_prefix_def)

lemma length_put64 [simp]: "length (put64 w) = 64"
  by (simp add: put64_def)

lemma get64_put64: "get64 0 (put64 w @ r) = w"
proof -
  have "map (\<lambda>b. b = 49) (put64 w) = map (bit w) [0..<64]"
    by (simp add: put64_def)
  moreover have "horner_sum of_bool 2 (map (bit w) [0..<64]) = take_bit 64 w"
    by (rule horner_sum_bit_eq_take_bit)
  ultimately show ?thesis by (simp add: get64_def take_bit_word_eq_self)
qed

lemma get64_skip: "get64 (Suc i) (put64 w @ r) = get64 i r"
  by (simp add: get64_def)

lemma get64_fields:
  "get64 0 (put64 a @ put64 b @ put64 c @ put64 d @ put64 e @ put64 f @ r) = a"
  "get64 1 (put64 a @ put64 b @ put64 c @ put64 d @ put64 e @ put64 f @ r) = b"
  "get64 2 (put64 a @ put64 b @ put64 c @ put64 d @ put64 e @ put64 f @ r) = c"
  "get64 3 (put64 a @ put64 b @ put64 c @ put64 d @ put64 e @ put64 f @ r) = d"
  "get64 4 (put64 a @ put64 b @ put64 c @ put64 d @ put64 e @ put64 f @ r) = e"
  "get64 5 (put64 a @ put64 b @ put64 c @ put64 d @ put64 e @ put64 f @ r) = f"
  by (simp_all add: numeral_eq_Suc get64_skip get64_put64)

lemma sample_json_laws: "json_laws sample_json"
proof -
  have *: "10 \<notin> set (put64 w)" for w by (auto simp: put64_def)
  have "10 \<notin> set json_prefix" "length json_prefix = 13" by (simp_all add: json_prefix_def)
  then show ?thesis
    by (auto simp: json_laws_def sample_json_def starts_with_iff MAX_LINE_def * get64_fields
        simp del: One_nat_def)
qed

definition good_append :: append_env where
  "good_append = \<lparr>lock_ok = True, write_stop = None, sync_ok = True, set_len_ok = True,
     rollback_sync_ok = True, unlock_ok = True\<rparr>"

definition demo_tick :: "nat \<Rightarrow> append_env \<Rightarrow> bool \<Rightarrow> tick" where
  "demo_tick n E st = \<lparr>tick_counters = \<lparr>enabled = True, cvalues = zero_bytes\<lparr>tcp_upload := of_nat n\<rparr>\<rparr>,
     tick_now = of_nat n, tick_env = E, stopping = st\<rparr>"


subsection \<open>Queries sum the journal\<close>

fun report_all :: "Sample list \<Rightarrow> Report \<Rightarrow> Report res" where
  "report_all [] r = Inr r"
| "report_all (s # ss) r = and_then (report_sample s r) (report_all ss)"

lemma read_until_line:
  "10 \<notin> set l \<Longrightarrow> length l < n \<Longrightarrow> read_until n (l @ 10 # r) = (l @ [10], r)"
proof (induction n "l @ 10 # r" arbitrary: l rule: read_until.induct)
  case (3 n b s)
  then show ?case by (cases l) auto
qed auto

lemma read_until_tail: "10 \<notin> set l \<Longrightarrow> length l \<le> n \<Longrightarrow> read_until n l = (l, [])"
  by (induction n l rule: read_until.induct) auto

lemma query_loop_journal:
  assumes "json_laws J" "\<forall>s \<in> set ss. version s = 1" "10 \<notin> set torn" "length torn \<le> MAX_LINE"
  shows "query_loop J f t (journal_text J ss @ torn) r =
    and_then (report_all (filter (\<lambda>s. \<not> outside f t s) ss) r)
      (\<lambda>r. Inr (if torn = [] then r else r\<lparr>incomplete_tail_ignored := True\<rparr>))"
  using assms(2)
proof (induction ss arbitrary: r)
  case Nil
  have "read_until (MAX_LINE + 1) torn = (torn, [])" using assms by (intro read_until_tail) auto
  moreover have "torn \<noteq> [] \<Longrightarrow> last torn \<noteq> 10" using assms(3) last_in_set by metis
  ultimately show ?case using assms(4) by (subst query_loop.simps) simp
next
  case (Cons s ss)
  let ?rest = "journal_text J ss @ torn"
  have J: "from_json J (to_json J s @ [10]) = Some s" "10 \<notin> set (to_json J s)"
    "length (to_json J s) < MAX_LINE" "version s = 1"
    using assms(1) Cons.prems by (auto simp: json_laws_def)
  have rd: "read_until (Suc MAX_LINE) (journal_text J (s # ss) @ torn) = (to_json J s @ [10], ?rest)"
    using J by (simp add: journal_line_def read_until_line)
  have dec: "decode_sample J (to_json J s @ [10]) = Inr s"
    using J by (simp add: decode_sample_def)
  have ih: "query_loop J f t ?rest r = and_then (report_all (filter (\<lambda>s. \<not> outside f t s) ss) r)
      (\<lambda>r. Inr (if torn = [] then r else r\<lparr>incomplete_tail_ignored := True\<rparr>))" for r
    using Cons by auto
  show ?case
  proof (cases "report_sample s r")
    case (Inl e)
    then show ?thesis
      using J ih by (subst query_loop.simps) (simp add: rd dec del: journal_text_simps)
  next
    case (Inr r')
    then show ?thesis
      using J ih by (subst query_loop.simps) (simp add: rd dec del: journal_text_simps)
  qed
qed

lemma checked_add64_Inr: "checked_add64 a b = Inr c \<longleftrightarrow> unat a + unat b < 2 ^ 64 \<and> unat c = unat a + unat b"
proof -
  have "unat (a + b) = unat a + unat b" if "unat a + unat b < 2 ^ 64"
    using that by (simp add: unat_plus_if_size size_word_def)
  then show ?thesis
    by (auto simp: checked_add64_def word_unat_eq_iff)
qed

lemma checked_add64_Inl:
  "checked_add64 a b = Inl e \<longleftrightarrow> 2 ^ 64 \<le> unat a + unat b \<and> e = Bail ''traffic total exceeds u64''"
  by (auto simp: checked_add64_def)

definition total_of :: "(Bytes \<Rightarrow> u64) \<Rightarrow> Sample list \<Rightarrow> nat" where
  "total_of f ss = sum_list (map (\<lambda>s. unat (f (sbytes s))) ss)"

lemma report_sample_Inr:
  assumes "report_sample s r = Inr r'"
  shows "unat (tcp_upload (rbytes r')) = unat (tcp_upload (rbytes r)) + unat (tcp_upload (sbytes s))"
    "unat (tcp_download (rbytes r')) = unat (tcp_download (rbytes r)) + unat (tcp_download (sbytes s))"
    "unat (udp_upload (rbytes r')) = unat (udp_upload (rbytes r)) + unat (udp_upload (sbytes s))"
    "unat (udp_download (rbytes r')) = unat (udp_download (rbytes r)) + unat (udp_download (sbytes s))"
    "samples r' = Suc (samples r)"
    "incomplete_tail_ignored r' = incomplete_tail_ignored r"
  using assms by (auto simp: report_sample_def add_bytes_def res_simps checked_add64_Inr)

lemma report_all_Inr:
  assumes "report_all ss r = Inr r'"
  shows "unat (tcp_upload (rbytes r')) = unat (tcp_upload (rbytes r)) + total_of tcp_upload ss"
    "unat (tcp_download (rbytes r')) = unat (tcp_download (rbytes r)) + total_of tcp_download ss"
    "unat (udp_upload (rbytes r')) = unat (udp_upload (rbytes r)) + total_of udp_upload ss"
    "unat (udp_download (rbytes r')) = unat (udp_download (rbytes r)) + total_of udp_download ss"
    "samples r' = samples r + length ss"
    "incomplete_tail_ignored r' = incomplete_tail_ignored r"
  using assms
  by (induction ss arbitrary: r; force simp: total_of_def res_simps dest: report_sample_Inr)+

lemma report_all_Inl:
  assumes "report_all ss r = Inl e"
  shows "e = Bail ''traffic total exceeds u64''"
    and "2 ^ 64 \<le> unat (tcp_upload (rbytes r)) + total_of tcp_upload ss
      \<or> 2 ^ 64 \<le> unat (tcp_download (rbytes r)) + total_of tcp_download ss
      \<or> 2 ^ 64 \<le> unat (udp_upload (rbytes r)) + total_of udp_upload ss
      \<or> 2 ^ 64 \<le> unat (udp_download (rbytes r)) + total_of udp_download ss"
proof -
  have "e = Bail ''traffic total exceeds u64'' \<and>
      (2 ^ 64 \<le> unat (tcp_upload (rbytes r)) + total_of tcp_upload ss
      \<or> 2 ^ 64 \<le> unat (tcp_download (rbytes r)) + total_of tcp_download ss
      \<or> 2 ^ 64 \<le> unat (udp_upload (rbytes r)) + total_of udp_upload ss
      \<or> 2 ^ 64 \<le> unat (udp_download (rbytes r)) + total_of udp_download ss)"
    using assms
  proof (induction ss arbitrary: r)
    case (Cons s ss)
    show ?case
    proof (cases "report_sample s r")
      case (Inl e')
      then have "e = e'" using Cons.prems by simp
      with Inl show ?thesis
        by (auto simp: report_sample_def add_bytes_def res_simps checked_add64_Inl total_of_def)
    next
      case (Inr r1)
      with Cons.prems Cons.IH [of r1] report_sample_Inr [OF Inr] show ?thesis
        by (simp add: total_of_def add.assoc)
    qed
  qed simp
  then show "e = Bail ''traffic total exceeds u64''"
    and "2 ^ 64 \<le> unat (tcp_upload (rbytes r)) + total_of tcp_upload ss
      \<or> 2 ^ 64 \<le> unat (tcp_download (rbytes r)) + total_of tcp_download ss
      \<or> 2 ^ 64 \<le> unat (udp_upload (rbytes r)) + total_of udp_upload ss
      \<or> 2 ^ 64 \<le> unat (udp_download (rbytes r)) + total_of udp_download ss" by auto
qed

lemma report_totals_cases:
  "case report_totals r of
     Inl e \<Rightarrow> 2 ^ 64 \<le> unat (tcp_upload (rbytes r)) + unat (udp_upload (rbytes r))
           + (unat (tcp_download (rbytes r)) + unat (udp_download (rbytes r)))
         \<and> e = Bail ''traffic total exceeds u64''
   | Inr r' \<Rightarrow> unat (tcp_upload (rbytes r)) + unat (udp_upload (rbytes r))
           + (unat (tcp_download (rbytes r)) + unat (udp_download (rbytes r))) < 2 ^ 64
         \<and> samples r' = samples r \<and> incomplete_tail_ignored r' = incomplete_tail_ignored r
         \<and> unat (upload_bytes r') = unat (tcp_upload (rbytes r)) + unat (udp_upload (rbytes r))
         \<and> unat (download_bytes r') = unat (tcp_download (rbytes r)) + unat (udp_download (rbytes r))
         \<and> unat (total_bytes r') = unat (tcp_upload (rbytes r)) + unat (udp_upload (rbytes r))
           + (unat (tcp_download (rbytes r)) + unat (udp_download (rbytes r)))"
  by (auto simp: report_totals_def res_simps checked_add64_Inl checked_add64_Inr split: sum.split)

definition selected :: "u64 option \<Rightarrow> u64 option \<Rightarrow> Sample list \<Rightarrow> Sample list" where
  "selected f t ss = filter (\<lambda>s. \<not> outside f t s) ss"

definition up_total :: "Sample list \<Rightarrow> nat" where
  "up_total ss = total_of tcp_upload ss + total_of udp_upload ss"

definition down_total :: "Sample list \<Rightarrow> nat" where
  "down_total ss = total_of tcp_download ss + total_of udp_download ss"


lemma demo_query_window: "\<forall>a b. (Some 0 :: u64 option) = Some a \<and> (Some 100 :: u64 option) = Some b \<longrightarrow> a < b"
  by simp

definition demo_sample :: Sample where
  "demo_sample = \<lparr>version = 1, timestamp = 60, since = 0, sbytes = zero_bytes\<lparr>tcp_upload := 7\<rparr>\<rparr>"


subsection \<open>Recovery of a torn journal\<close>

lemma position_append: "\<forall>x \<in> set a. \<not> p x \<Longrightarrow> p d \<Longrightarrow> position p (a @ d # b) = Some (length a)"
  by (induction a) auto

lemma rposition_Some: "d \<notin> set b \<Longrightarrow> rposition d (a @ d # b) = Some (length a)"
proof -
  assume "d \<notin> set b"
  then have "position (\<lambda>x. x = d) (rev b @ d # rev a) = Some (length (rev b))"
    by (intro position_append) auto
  then show ?thesis by (simp add: rposition_def)
qed

lemma rposition_None: "d \<notin> set s \<Longrightarrow> rposition d s = None"
  by (auto simp: rposition_def position_None_iff)

lemma check_first_journal:
  assumes "json_laws J" "\<forall>s \<in> set ss. version s = 1" "10 \<notin> set torn" "length torn < MAX_LINE"
    and "ss \<noteq> [] \<or> torn = [] \<or> starts_with json_prefix torn"
  shows "check_first J (journal_text J ss @ torn) = Inr ()"
proof (cases ss)
  case Nil
  have "read_until (MAX_LINE + 1) torn = (torn, [])" using assms by (intro read_until_tail) auto
  moreover have "torn \<noteq> [] \<Longrightarrow> last torn \<noteq> 10" using assms(3) last_in_set by metis
  ultimately show ?thesis using Nil assms by (auto simp: check_first_def Let_def)
next
  case (Cons s ss')
  have J: "from_json J (to_json J s @ [10]) = Some s" "10 \<notin> set (to_json J s)"
    "length (to_json J s) < MAX_LINE" "version s = 1"
    using assms(1,2) Cons by (auto simp: json_laws_def)
  then have "read_until (Suc MAX_LINE) (journal_text J ss @ torn) = (to_json J s @ [10], journal_text J ss' @ torn)"
    by (simp add: Cons journal_line_def read_until_line)
  with J show ?thesis by (simp add: check_first_def decode_sample_def)
qed

lemma journal_text_snoc: "ss \<noteq> [] \<Longrightarrow> \<exists>a. journal_text J ss = a @ [10]"
  by (cases ss rule: rev_cases) (auto simp: journal_line_def)

lemma recover_tail_complete: "last f = 10 \<Longrightarrow> recover_tail ok f = Inr f"
proof -
  assume l: "last f = 10"
  have "\<not> (drop n f \<noteq> [] \<and> last (drop n f) \<noteq> 10)" for n
    using l by (cases "n < length f") (auto simp: last_drop)
  then show ?thesis unfolding recover_tail_def Let_def by metis
qed

lemma recover_tail_torn:
  assumes "torn \<noteq> []" "10 \<notin> set torn" "length torn < MAX_LINE"
  shows "recover_tail True (a @ 10 # torn) = Inr (a @ [10])"
proof -
  define start where "start = length (a @ 10 # torn) - MAX_LINE"
  have st: "start \<le> length a" using assms(3) by (simp add: start_def)
  have tail: "drop start (a @ 10 # torn) = drop start a @ 10 # torn" using st by simp
  have rp: "rposition 10 (drop start a @ 10 # torn) = Some (length a - start)"
    using rposition_Some [OF assms(2)] by simp
  have "last torn \<noteq> 10" using assms(1,2) last_in_set by metis
  then show ?thesis
    using assms(1) st
    by (simp add: recover_tail_def Let_def tail rp flip: start_def del: length_append)
qed

lemma recover_tail_journal:
  assumes "10 \<notin> set torn" "length torn < MAX_LINE"
  shows "recover_tail True (journal_text J ss @ torn) = Inr (journal_text J ss)"
proof (cases "ss = []")
  case True
  have "torn \<noteq> [] \<Longrightarrow> last torn \<noteq> 10" using assms(1) last_in_set by metis
  with True assms show ?thesis
    by (cases "torn = []") (auto simp: recover_tail_def rposition_None Let_def)
next
  case False
  then obtain a where a: "journal_text J ss = a @ [10]" using journal_text_snoc by blast
  then show ?thesis
    using recover_tail_complete [of "a @ [10]"] recover_tail_torn [OF _ assms, of a]
    by (cases "torn = []") simp_all
qed

lemma check_last_journal:
  assumes "json_laws J" "\<forall>s \<in> set ss. version s = 1"
  shows "check_last J (journal_text J ss) = Inr ()"
proof (cases ss rule: rev_cases)
  case Nil
  then show ?thesis by (simp add: check_last_def)
next
  case (snoc ss' s)
  let ?l = "to_json J s"
  have J: "from_json J (?l @ [10]) = Some s" "10 \<notin> set ?l" "length ?l < MAX_LINE" "version s = 1"
    using assms snoc by (auto simp: json_laws_def)
  then have dec: "decode_sample J (?l @ [10]) = Inr s" by (simp add: decode_sample_def)
  have short: "check_last J whole = Inr ()" if "drop (length whole - MAX_LINE) whole = ?l @ [10]" for whole
    using that J dec by (simp add: check_last_def rposition_None)
  show ?thesis
  proof (cases "ss' = []")
    case True
    then show ?thesis using short [of "?l @ [10]"] J snoc by (simp add: journal_line_def)
  next
    case False
    then obtain a where a: "journal_text J ss' = a @ [10]" using journal_text_snoc by blast
    define whole where "whole = a @ 10 # ?l @ [10]"
    have whole: "journal_text J ss = whole" using a snoc by (simp add: journal_line_def whole_def)
    show ?thesis
    proof (cases "Suc (length ?l) = MAX_LINE")
      case True
      then have "drop (length whole - MAX_LINE) whole = ?l @ [10]" by (simp add: whole_def)
      then show ?thesis using short whole by simp
    next
      case False
      then have st: "length whole - MAX_LINE \<le> length a" using J(3) by (simp add: whole_def)
      then have tail: "drop (length whole - MAX_LINE) whole = drop (length whole - MAX_LINE) a @ 10 # ?l @ [10]"
        by (simp add: whole_def)
      have "butlast (drop (length whole - MAX_LINE) whole) = drop (length whole - MAX_LINE) a @ 10 # ?l"
        unfolding tail by (simp add: butlast_append)
      with J(2) dec show ?thesis unfolding whole check_last_def Let_def tail
        by (simp add: rposition_Some butlast_append)
    qed
  qed
qed



text \<open>
  A first record that a crash cut within its first bytes is not recovered: a journal
  that consists of a nonempty piece of the opening shorter than the opening is refused, as
  if it were an unrelated file, and stays refused because it is left unchanged.
\<close>

lemma short_first_record_not_recovered:
  assumes "json_prefix = torn @ lost" "torn \<noteq> []" "lost \<noteq> []"
  shows "journal_open J False True torn
    = (Inl (Bail ''existing file is not an oixc-proxy traffic journal''), torn)"
proof -
  have nl: "10 \<notin> set torn" using assms(1) by (metis (no_types, lifting) Un_iff set_append json_prefix_no_lf)
  have len: "length torn < 13"
    using assms(3) arg_cong [OF assms(1), of length] by (cases lost) (simp_all add: json_prefix_def)
  have "read_until (MAX_LINE + 1) torn = (torn, [])"
    using nl len by (intro read_until_tail) (auto simp: MAX_LINE_def)
  moreover have "last torn \<noteq> 10" using assms(2) nl last_in_set by metis
  moreover have "\<not> starts_with json_prefix torn"
    using len by (auto simp: starts_with_iff json_prefix_def)
  ultimately show ?thesis
    using assms(2) len by (simp add: journal_open_def check_first_def MAX_LINE_def)
qed

lemma short_first_record_not_recovered_witness:
  "journal_open sample_json False True [123, 34]
    = (Inl (Bail ''existing file is not an oixc-proxy traffic journal''), [123, 34])"
  by (rule short_first_record_not_recovered [where lost = "map of_char ''version\":1,''"])
    (simp_all add: json_prefix_def)

text \<open>
  Without that assumption a delta can be written twice: when only releasing the lock fails,
  the sample is in the file but the sampler keeps its old baseline.
\<close>

lemma unlock_failure_repeats_delta:
  assumes "\<not> poisoned j" "lock_ok E" "write_stop E = None" "sync_ok E" "\<not> unlock_ok E"
  shows "sampler_flush J E c now (s, j) =
    (Inl (Bail ''lock traffic journal''),
     (s, j\<lparr>jfile := jfile j @ journal_line J \<lparr>version = 1, timestamp = now, since = sampler_since s,
        sbytes = delta (snapshot c) (previous s)\<rparr>\<rparr>))"
  using assms by (simp add: journal_line_def sampler_flush_def append_sample_def append_body_def Let_def)

end
