(* ===== verification/Snell_Client.thy ===== *)
theory Snell_Client
  imports Snell_Reader Traffic
begin

text \<open>
  The Snell client, \<open>src/snell/client.rs\<close>: opening a connection (permits, dial, the initial
  flight), the pool of idle connections, reuse, sessions and packet sessions. What the
  environment decides is an argument: the outcome of dialing, random bytes, elapsed
  timeouts, clock readings, and whether an idle connection has input. Times are in
  nanoseconds.

  The connections the client shuts down are collected in \<open>retired\<close>, so that none can get
  lost. \<open>release\<close>, \<open>take_idle\<close> and \<open>close\<close> are composed of the sections they execute under
  the pool's lock (\<open>release_locked\<close>, \<open>pop_idle\<close>, \<open>close_drain\<close>), which are the steps
  concurrent tasks interleave.
\<close>

definition secs :: "nat \<Rightarrow> nat" where
  "secs n = n * 1000000000"

definition INITIAL_FRAME_BUDGET :: nat where
  "INITIAL_FRAME_BUDGET = 0x491"

record client_options =
  psk :: ustring
  reuse :: bool
  max_idle :: nat
  max_uses :: nat
  idle_timeout :: nat
  handshake_timeout :: nat
  close_timeout :: nat

record physical_connection =
  p_reader :: snell_reader
  p_writer :: record_writer
  p_local_addr :: socket_addr
  p_generation :: u64

record idle_connection =
  i_physical :: physical_connection
  i_uses :: nat
  i_since :: nat

record snell_client =
  options :: client_options
  c_identity :: IdentityV2Key
  idle :: "idle_connection list"
  closed :: bool
  retired :: "physical_connection list"

definition new_with_node_dial_limit :: "crypto \<Rightarrow> client_options \<Rightarrow> snell_client res" where
  "new_with_node_dial_limit X opts =
     (if psk opts = [] then Inl (Bail ''Snell PSK and transport dialer are required'')
      else if handshake_timeout opts = 0 \<or> handshake_timeout opts > secs 120
      then Inl (Bail ''Snell handshake timeout is invalid'')
      else if close_timeout opts = 0 \<or> close_timeout opts > secs 30
      then Inl (Bail ''Snell reuse close timeout is invalid'')
      else if reuse opts \<and> (max_idle opts = 0 \<or> max_idle opts > 128)
      then Inl (Bail ''Snell reuse max idle is invalid'')
      else if reuse opts \<and> (max_uses opts = 0 \<or> max_uses opts > 1024)
      then Inl (Bail ''Snell reuse max uses is invalid'')
      else if reuse opts \<and> (idle_timeout opts = 0 \<or> idle_timeout opts > secs 600)
      then Inl (Bail ''Snell reuse idle timeout is invalid'')
      else and_then (identity_key_new X (psk opts)) (\<lambda>key.
        Inr \<lparr>options = opts, c_identity = key, idle = [], closed = False, retired = []\<rparr>))"

subsection \<open>Opening a connection\<close>

datatype permit = Granted | LimitTimeout | LimitClosed

record dialed_transport =
  d_input :: bytes
  d_output :: sink
  d_local_addr :: "socket_addr option"
  d_exporter :: bytes
  d_generation :: u64

record open_env =
  e_permit :: permit
  e_dial :: "dialed_transport res"
  e_nonce :: entropy
  e_length :: entropy
  e_padding :: entropy
  e_timeout :: bool

definition initial_padding_length :: "entropy \<Rightarrow> nat \<Rightarrow> nat res" where
  "initial_padding_length rng payload_length =
     (if payload_length > INITIAL_FRAME_BUDGET then Inr 0
      else
        let available = INITIAL_FRAME_BUDGET - payload_length in
        if available = 0 then Inr 0
        else and_then (ok_or (fill_random rng 2) (Bail ''generate Snell initial padding length'')) (\<lambda>random.
          Inr (unat (from_be16 (random ! 0) (random ! 1)) mod available + 1)))"

definition new_reader :: "bytes \<Rightarrow> ustring \<Rightarrow> snell_reader" where
  "new_reader input key = \<lparr>records = reader_new input key, buffered = [], buffered_offset = 0,
     server_eof = False, reply_pending = True, reply_error = None\<rparr>"

definition send_initial_flight ::
  "crypto \<Rightarrow> snell_client \<Rightarrow> open_env \<Rightarrow> dialed_transport \<Rightarrow> bytes \<Rightarrow> record_writer res" where
  "send_initial_flight X c env d request =
     and_then (ok_or (fill_random (e_nonce env) 16) (Bail ''generate Snell identity nonce'')) (\<lambda>nonce.
     let ident = identity_build X (c_identity c) (d_exporter d) nonce in
     and_then (writer_new X (d_output d) (psk (options c)) nonce) (\<lambda>w.
     let w = mark_salt_sent w in
     and_then (initial_padding_length (e_length env) (length request)) (\<lambda>padding_length.
     case encode_frame_append X (e_padding env) request padding_length w of
       (Inl e, _) \<Rightarrow> Inl (Bail ''encode Snell CONNECT request'')
     | (Inr frame, w) \<Rightarrow>
         (case write_raw_all (ident @ frame) w of
            (Inl e, _) \<Rightarrow> Inl e
          | (Inr _, w) \<Rightarrow> Inr w))))"

definition open_command ::
  "crypto \<Rightarrow> snell_client \<Rightarrow> open_env \<Rightarrow> bytes \<Rightarrow> bool \<Rightarrow> physical_connection res" where
  "open_command X c env request defer_reply =
     (case e_permit env of
        LimitTimeout \<Rightarrow> Inl (Bail ''ECH-TLS node connection timed out'')
      | LimitClosed \<Rightarrow> Inl (Bail ''ECH dial concurrency limiter is closed'')
      | Granted \<Rightarrow>
          and_then (e_dial env) (\<lambda>d.
          and_then (ok_or (d_local_addr d) (Bail ''read Snell local address'')) (\<lambda>addr.
          and_then (send_initial_flight X c env d request) (\<lambda>w.
          let rd = new_reader (d_input d) (psk (options c)) in
          and_then (if defer_reply then Inr rd
                    else if e_timeout env then Inl (Bail ''Snell handshake timed out'')
                    else (case ensure_reply X rd of (Inl e, _) \<Rightarrow> Inl e | (Inr _, rd) \<Rightarrow> Inr rd)) (\<lambda>rd.
          Inr \<lparr>p_reader = rd, p_writer = w, p_local_addr = addr, p_generation = d_generation d\<rparr>)))))"

definition open_tcp ::
  "crypto \<Rightarrow> snell_client \<Rightarrow> open_env \<Rightarrow> ustring \<Rightarrow> u16 \<Rightarrow> bool \<Rightarrow> physical_connection res" where
  "open_tcp X c env host port reuse_flag =
     and_then (build_connect_request host port reuse_flag) (\<lambda>request. open_command X c env request True)"

subsection \<open>The pool\<close>

text \<open>\<open>retire\<close> says goodbye within a bounded time and ignores the outcome.\<close>

definition retire :: "physical_connection \<Rightarrow> snell_client \<Rightarrow> snell_client" where
  "retire p c = c\<lparr>retired := retired c @ [p\<lparr>p_writer := snd (shutdown_writer (p_writer p))\<rparr>]\<rparr>"

definition pop_idle :: "snell_client \<Rightarrow> idle_connection option \<times> snell_client" where
  "pop_idle c = (if idle c = [] then (None, c) else (Some (last (idle c)), c\<lparr>idle := butlast (idle c)\<rparr>))"

text \<open>\<open>clock n\<close> is the time when \<open>n\<close> entries are left.\<close>

function take_idle :: "(nat \<Rightarrow> nat) \<Rightarrow> u64 \<Rightarrow> snell_client \<Rightarrow> idle_connection option \<times> snell_client" where
  "take_idle clock generation c =
     (case pop_idle c of
        (None, c) \<Rightarrow> (None, c)
      | (Some entry, c) \<Rightarrow>
          if clock (length (idle c)) - i_since entry \<le> idle_timeout (options c)
             \<and> p_generation (i_physical entry) = generation
          then (Some entry, c)
          else take_idle clock generation (retire (i_physical entry) c))"
  by pat_completeness auto
termination
  by (relation "measure (\<lambda>(clock, generation, c). length (idle c))")
    (auto simp: pop_idle_def retire_def split: if_splits)

declare take_idle.simps [simp del]

definition release_locked :: "nat \<Rightarrow> physical_connection \<Rightarrow> nat \<Rightarrow> snell_client \<Rightarrow> snell_client" where
  "release_locked now p uses c =
     (if closed c \<or> length (idle c) \<ge> max_idle (options c) then retire p c
      else c\<lparr>idle := idle c @ [\<lparr>i_physical = p, i_uses = uses, i_since = now\<rparr>]\<rparr>)"

definition release :: "nat \<Rightarrow> physical_connection \<Rightarrow> nat \<Rightarrow> snell_client \<Rightarrow> snell_client" where
  "release now p uses c =
     (if closed c \<or> uses \<ge> max_uses (options c) then retire p c else release_locked now p uses c)"

definition close_drain :: "snell_client \<Rightarrow> snell_client" where
  "close_drain c = fold (\<lambda>e. retire (i_physical e)) (idle c) (c\<lparr>idle := []\<rparr>)"

definition close_client :: "snell_client \<Rightarrow> snell_client" where
  "close_client c = (if closed c then c else close_drain (c\<lparr>closed := True\<rparr>))"

subsection \<open>Sessions\<close>

record snell_session =
  s_physical :: physical_connection
  s_uses :: nat
  s_reusable :: bool

text \<open>\<open>input_ready\<close> is the probe of the idle connection, \<open>timed_out\<close> the write's timeout.\<close>

definition start_reuse ::
  "crypto \<Rightarrow> ustring \<Rightarrow> u16 \<Rightarrow> bool \<Rightarrow> bool \<Rightarrow> physical_connection \<Rightarrow> unit res \<times> physical_connection" where
  "start_reuse X host port input_ready timed_out p =
     (case build_connect_request host port True of
        Inl e \<Rightarrow> (Inl e, p)
      | Inr request \<Rightarrow>
          if buffered_remaining (p_reader p) \<noteq> 0 \<or> \<not> server_eof (p_reader p)
          then (Inl (Bail ''Snell connection is not ready for reuse''), p)
          else if input_ready
          then (Inl (Bail ''Snell idle connection was closed by the server''), p)
          else
            let p = p\<lparr>p_reader := (p_reader p)\<lparr>server_eof := False, reply_pending := False, reply_error := None\<rparr>\<rparr> in
            if timed_out then (Inl (Bail ''Snell reused CONNECT timed out''), p)
            else (case write_frame X None request 0 (p_writer p) of
                    (Inl e, w) \<Rightarrow> (Inl e, p\<lparr>p_writer := w\<rparr>)
                  | (Inr _, w) \<Rightarrow>
                      (Inr (), p\<lparr>p_writer := w, p_reader := (p_reader p)\<lparr>reply_pending := True\<rparr>\<rparr>)))"

text \<open>What the environment decides for one reuse attempt, with \<open>n\<close> entries left.\<close>

type_synonym probe = "nat \<Rightarrow> bool \<times> bool"

lemma take_idle_shrinks:
  "take_idle clock g c = (Some e, c') \<Longrightarrow> length (idle c') < length (idle c)"
proof (induction clock g c rule: take_idle.induct)
  case (1 clock g c)
  show ?case
  proof (cases "idle c = []")
    case True
    with "1.prems" show ?thesis by (subst (asm) take_idle.simps) (simp add: pop_idle_def)
  next
    case False
    then have pop: "pop_idle c = (Some (last (idle c)), c\<lparr>idle := butlast (idle c)\<rparr>)"
      by (simp add: pop_idle_def)
    have "0 < length (idle c)" using False by simp
    with "1.prems" "1.IH" [OF pop [symmetric] refl] pop show ?thesis
      by (subst (asm) take_idle.simps) (auto simp: retire_def split: if_splits)
  qed
qed

function reuse_loop ::
  "crypto \<Rightarrow> ustring \<Rightarrow> u16 \<Rightarrow> (nat \<Rightarrow> nat) \<Rightarrow> probe \<Rightarrow> u64 \<Rightarrow> snell_client \<Rightarrow> snell_session option \<times> snell_client" where
  "reuse_loop X host port clock probe generation c =
     (case take_idle clock generation c of
        (None, c) \<Rightarrow> (None, c)
      | (Some entry, c) \<Rightarrow>
          (case probe (length (idle c)) of (input_ready, timed_out) \<Rightarrow>
             case start_reuse X host port input_ready timed_out (i_physical entry) of
               (Inr _, p) \<Rightarrow> (Some \<lparr>s_physical = p, s_uses = i_uses entry + 1, s_reusable = True\<rparr>, c)
             | (Inl _, p) \<Rightarrow> reuse_loop X host port clock probe generation (retire p c)))"
  by pat_completeness auto
termination
  by (relation "measure (\<lambda>(X, host, port, clock, probe, generation, c). length (idle c))")
    (auto simp: retire_def dest!: take_idle_shrinks [OF sym])

declare reuse_loop.simps [simp del]

definition dial_tcp ::
  "crypto \<Rightarrow> ustring \<Rightarrow> u16 \<Rightarrow> (nat \<Rightarrow> nat) \<Rightarrow> probe \<Rightarrow> u64 \<Rightarrow> open_env \<Rightarrow> snell_client
   \<Rightarrow> snell_session res \<times> snell_client" where
  "dial_tcp X host port clock probe generation env c =
     (if closed c then (Inl (Bail ''Snell client is closed''), c)
      else
        case (if reuse (options c) then reuse_loop X host port clock probe generation c else (None, c)) of
          (Some s, c) \<Rightarrow> (Inr s, c)
        | (None, c) \<Rightarrow>
            (and_then (open_tcp X c env host port (reuse (options c))) (\<lambda>p.
               Inr \<lparr>s_physical = p, s_uses = 1, s_reusable = reuse (options c)\<rparr>), c))"

definition session_read_chunk ::
  "crypto \<Rightarrow> snell_session \<times> Counters option \<Rightarrow> bytes res \<times> (snell_session \<times> Counters option)" where
  "session_read_chunk X st =
     (case st of (s, active) \<Rightarrow>
        case read_application_chunk X (p_reader (s_physical s)) of
          (Inl e, rd) \<Rightarrow> (Inl e, (s\<lparr>s_physical := (s_physical s)\<lparr>p_reader := rd\<rparr>\<rparr>, active))
        | (Inr c, rd) \<Rightarrow>
            (Inr c, (s\<lparr>s_physical := (s_physical s)\<lparr>p_reader := rd\<rparr>\<rparr>, record_bytes TcpDownload (length c) active)))"

definition session_read ::
  "crypto \<Rightarrow> nat \<Rightarrow> snell_session \<times> Counters option \<Rightarrow> bytes res \<times> (snell_session \<times> Counters option)" where
  "session_read X n st =
     (case st of (s, active) \<Rightarrow>
        case read_application X n (p_reader (s_physical s)) of
          (Inl e, rd) \<Rightarrow> (Inl e, (s\<lparr>s_physical := (s_physical s)\<lparr>p_reader := rd\<rparr>\<rparr>, active))
        | (Inr c, rd) \<Rightarrow>
            (Inr c, (s\<lparr>s_physical := (s_physical s)\<lparr>p_reader := rd\<rparr>\<rparr>, record_bytes TcpDownload (length c) active)))"

definition write_application ::
  "crypto \<Rightarrow> bytes \<Rightarrow> record_writer \<times> Counters option \<Rightarrow> nat res \<times> (record_writer \<times> Counters option)" where
  "write_application X content st =
     (case st of (w, active) \<Rightarrow>
        case write_payload X content w of
          (Inl e, w) \<Rightarrow> (Inl e, (w, active))
        | (Inr _, w) \<Rightarrow> (Inr (length content), (w, record_bytes TcpUpload (length content) active)))"

definition close_write :: "crypto \<Rightarrow> snell_session \<Rightarrow> unit res \<times> snell_session" where
  "close_write X s =
     (case (if s_reusable s then write_frame X None [] 0 (p_writer (s_physical s))
            else shutdown_writer (p_writer (s_physical s))) of
        (r, w) \<Rightarrow> (r, s\<lparr>s_physical := (s_physical s)\<lparr>p_writer := w\<rparr>\<rparr>))"

text \<open>The close handshake of a reusable session, inside its timeout.\<close>

definition close_handshake :: "crypto \<Rightarrow> bool \<Rightarrow> physical_connection \<Rightarrow> unit res \<times> physical_connection" where
  "close_handshake X close_write_sent p =
     st_then (if close_write_sent then (Inr (), p)
              else (case write_frame X None [] 0 (p_writer p) of (r, w) \<Rightarrow> (r, p\<lparr>p_writer := w\<rparr>))) (\<lambda>_ p.
       case complete_reuse_close X (p_reader p) of (r, rd) \<Rightarrow> (r, p\<lparr>p_reader := rd\<rparr>))"

definition finish :: "crypto \<Rightarrow> nat \<Rightarrow> bool \<Rightarrow> bool \<Rightarrow> bool \<Rightarrow> snell_session \<Rightarrow> snell_client \<Rightarrow> snell_client" where
  "finish X now timed_out clean_relay close_write_sent s c =
     (if \<not> s_reusable s \<or> \<not> clean_relay then retire (s_physical s) c
      else if timed_out then retire (s_physical s) c
      else case close_handshake X close_write_sent (s_physical s) of
             (Inr _, p) \<Rightarrow> release now p (s_uses s) c
           | (Inl _, p) \<Rightarrow> retire p c)"

subsection \<open>Packet sessions\<close>

record packet_session =
  k_reader :: snell_reader
  k_writer :: record_writer
  k_local_addr :: socket_addr

definition dial_udp :: "crypto \<Rightarrow> snell_client \<Rightarrow> open_env \<Rightarrow> packet_session res" where
  "dial_udp X c env =
     and_then (open_command X c env build_udp_associate_request False) (\<lambda>p.
       Inr \<lparr>k_reader = p_reader p, k_writer = p_writer p, k_local_addr = p_local_addr p\<rparr>)"

definition write_to_host ::
  "crypto \<Rightarrow> bytes \<Rightarrow> ustring \<Rightarrow> u16 \<Rightarrow> packet_session \<times> Counters option
   \<Rightarrow> nat res \<times> (packet_session \<times> Counters option)" where
  "write_to_host X payload host port st =
     (case st of (k, active) \<Rightarrow>
        case encode_udp_request host port payload of
          Inl e \<Rightarrow> (Inl (DatagramError e), (k, active))
        | Inr frame \<Rightarrow>
            (case write_frame X None frame 0 (k_writer k) of
               (Inl e, w) \<Rightarrow> (Inl e, (k\<lparr>k_writer := w\<rparr>, active))
             | (Inr _, w) \<Rightarrow>
                 (Inr (length payload), (k\<lparr>k_writer := w\<rparr>, record_bytes UdpUpload (length payload) active))))"

text \<open>The source address and the payload, which is the end of the frame.\<close>

definition read_from ::
  "crypto \<Rightarrow> packet_session \<times> Counters option \<Rightarrow> (socket_addr \<times> bytes) res \<times> (packet_session \<times> Counters option)" where
  "read_from X st =
     (case st of (k, active) \<Rightarrow>
        case st_then (ensure_reply X (k_reader k)) (\<lambda>_ rd. read_packet_frame X rd) of
          (Inl e, rd) \<Rightarrow> (Inl e, (k\<lparr>k_reader := rd\<rparr>, active))
        | (Inr frame, rd) \<Rightarrow>
            (case decode_udp_response frame of
               Inl e \<Rightarrow> (Inl (DatagramError e), (k\<lparr>k_reader := rd\<rparr>, active))
             | Inr (addr, payload) \<Rightarrow>
                 (Inr (addr, payload),
                  (k\<lparr>k_reader := rd\<rparr>, record_bytes UdpDownload (length payload) active))))"

definition packet_close :: "packet_session \<Rightarrow> packet_session" where
  "packet_close k = k\<lparr>k_writer := snd (shutdown_writer (k_writer k))\<rparr>"

subsection \<open>Readers of pooled connections\<close>

lemma fill_buffer_flags:
  "fill_buffer X r = (res, r') \<Longrightarrow> server_eof r' = server_eof r \<and> reply_pending r' = reply_pending r
     \<and> reply_error r' = reply_error r"
  by (auto simp: fill_buffer_def split: prod.splits)

lemma fill_buffer_zero_empty: "fill_buffer X r = (Inr Zero, r') \<Longrightarrow> buffered_remaining r' = 0"
  by (erule fill_buffer_Inr) (simp add: buffered_remaining_def read_frame_into_Inr(4))

lemma reader_read_frame_flags:
  "reader_read_frame X r = (res, r') \<Longrightarrow> server_eof r' = server_eof r \<and> reply_pending r' = reply_pending r
     \<and> reply_error r' = reply_error r"
  by (auto simp: reader_read_frame_def split: prod.splits)

lemma read_exact_payload_flags:
  "read_exact_payload_into X n r = (res, r') \<Longrightarrow> server_eof r' = server_eof r
     \<and> reply_pending r' = reply_pending r \<and> reply_error r' = reply_error r"
proof (induction X n r arbitrary: res r' rule: read_exact_payload_into.induct)
  case (1 X n r)
  consider (enough) "\<not> buffered_remaining r < n" | (fill) "buffered_remaining r < n" "buffered_remaining r = 0"
    | (grow) "buffered_remaining r < n" "buffered_remaining r \<noteq> 0" by blast
  then show ?case
  proof cases
    case enough
    with "1.prems" show ?thesis by (subst (asm) read_exact_payload_into.simps) auto
  next
    case fill
    obtain k r1 where f: "fill_buffer X r = (k, r1)" by fastforce
    with "1.prems" "1.IH"(1) [OF fill f [symmetric]] fill fill_buffer_flags [OF f] show ?thesis
      by (subst (asm) read_exact_payload_into.simps) (auto split: sum.splits RecordKind.splits)
  next
    case grow
    obtain k r1 where f: "reader_read_frame X r = (k, r1)" by fastforce
    with "1.prems" "1.IH"(2) [OF grow f [symmetric]] grow reader_read_frame_flags [OF f] show ?thesis
      by (subst (asm) read_exact_payload_into.simps) (auto split: sum.splits)
  qed
qed

lemma read_reply_flags:
  "read_reply X r = (res, r') \<Longrightarrow> server_eof r' = server_eof r
     \<and> reply_pending r' = reply_pending r \<and> reply_error r' = reply_error r"
  by (cases res)
    (auto simp: read_reply_def res_simps dest!: read_exact_payload_flags split: if_splits)

lemma ensure_reply_Inr:
  assumes "ensure_reply X r = (Inr (), r')"
  shows "server_eof r' = server_eof r" "\<not> reply_pending r'" "reply_error r' = None"
    "\<not> reply_pending r \<Longrightarrow> r' = r"
  using assms
  by (auto simp: ensure_reply_def dest!: read_reply_flags split: option.splits if_splits sum.splits prod.splits)

lemma drain_to_zero_Inr:
  "drain_to_zero X r = (Inr (), r') \<Longrightarrow> server_eof r' \<and> reply_pending r' = reply_pending r
     \<and> reply_error r' = reply_error r \<and> (if server_eof r then r' = r else buffered_remaining r' = 0)"
proof (induction X r rule: drain_to_zero.induct)
  case (1 X r)
  show ?case
  proof (cases "server_eof r")
    case True
    with "1.prems" show ?thesis by (subst (asm) drain_to_zero.simps) simp
  next
    case False
    obtain k r1 where f: "fill_buffer X r = (k, r1)" by fastforce
    note flags = fill_buffer_flags [OF f]
    have step: "drain_to_zero X r = (case k of
        Inl e \<Rightarrow> (Inl (Bail ''finish Snell reused session''), r1)
      | Inr Payload \<Rightarrow> drain_to_zero X r1
      | Inr Zero \<Rightarrow> drain_to_zero X (r1\<lparr>server_eof := True\<rparr>))"
      using False by (subst drain_to_zero.simps) (simp add: f split: sum.splits)
    show ?thesis
    proof (cases k)
      case (Inr kind)
      show ?thesis
      proof (cases kind)
        case Payload
        with Inr "1.prems" "1.IH"(1) [OF False f [symmetric] Inr] step flags False show ?thesis by simp
      next
        case Zero
        then have "drain_to_zero X (r1\<lparr>server_eof := True\<rparr>) = (Inr (), r1\<lparr>server_eof := True\<rparr>)"
          by (subst drain_to_zero.simps) simp
        moreover have "buffered_remaining r1 = 0"
          using f Inr Zero by (auto intro: fill_buffer_zero_empty)
        ultimately show ?thesis
          using Inr Zero "1.prems" step flags False by (auto simp: buffered_remaining_def)
      qed
    qed (use "1.prems" step in simp)
  qed
qed

text \<open>A session whose end of data has been seen has its reply behind it.\<close>

definition reader_ok :: "snell_reader \<Rightarrow> bool" where
  "reader_ok r \<longleftrightarrow> (server_eof r \<longrightarrow> \<not> reply_pending r)"

definition reusable_reader :: "snell_reader \<Rightarrow> bool" where
  "reusable_reader r \<longleftrightarrow> server_eof r \<and> buffered_remaining r = 0"

lemma complete_reuse_close_ready:
  assumes "complete_reuse_close X r = (Inr (), r')" "reader_ok r"
  shows "reusable_reader r'"
proof -
  let ?r = "r\<lparr>buffered := [], buffered_offset := 0\<rparr>"
  obtain r1 where r1: "ensure_reply X ?r = (Inr (), r1)" "drain_to_zero X r1 = (Inr (), r')"
    using assms(1) by (auto simp: complete_reuse_close_def res_simps)
  note e = ensure_reply_Inr [OF r1(1)] and d = drain_to_zero_Inr [OF r1(2)]
  show ?thesis
  proof (cases "server_eof r")
    case True
    then have "r1 = ?r" using e(4) assms(2) by (simp add: reader_ok_def)
    with True d show ?thesis by (auto simp: reusable_reader_def buffered_remaining_def)
  next
    case False
    with d e(1) show ?thesis by (simp add: reusable_reader_def)
  qed
qed

lemma wait_payload_flags:
  "wait_payload X r = (res, r') \<Longrightarrow> reply_pending r' = reply_pending r \<and> reply_error r' = reply_error r"
proof (induction X r arbitrary: res r' rule: wait_payload.induct)
  case (1 X r)
  obtain k r1 where f: "fill_buffer X r = (k, r1)" by fastforce
  show ?case
  proof (cases "buffered_remaining r = 0")
    case True
    with "1.prems" "1.IH" [OF _ f [symmetric]] fill_buffer_flags [OF f] f show ?thesis
      by (subst (asm) wait_payload.simps) (auto split: sum.splits RecordKind.splits)
  next
    case False
    with "1.prems" show ?thesis by (subst (asm) wait_payload.simps) simp
  qed
qed

lemma ensure_reply_pending: "ensure_reply X r = (res, r') \<Longrightarrow> r' = r \<or> \<not> reply_pending r'"
  by (auto simp: ensure_reply_def dest!: read_reply_flags split: option.splits if_splits sum.splits prod.splits)

text \<open>Every way of reading application data keeps \<open>reader_ok\<close>.\<close>

lemma read_application_chunk_ok:
  assumes "read_application_chunk X r = (res, r')" "reader_ok r"
  shows "reader_ok r'"
proof -
  obtain e r1 where e: "ensure_reply X r = (e, r1)" by fastforce
  show ?thesis
  proof (cases e)
    case (Inl x)
    with assms e ensure_reply_pending [OF e] show ?thesis
      by (auto simp: read_application_chunk_def reader_ok_def)
  next
    case (Inr u)
    with e have "\<not> reply_pending r1" by (auto dest: ensure_reply_Inr(2))
    moreover obtain q r2 where w: "wait_payload X r1 = (q, r2)" by fastforce
    ultimately have "\<not> reply_pending r2" using wait_payload_flags [OF w] by simp
    with assms(1) e Inr w show ?thesis
      by (cases q) (auto simp: read_application_chunk_def reader_ok_def split: if_splits)
  qed
qed

subsection \<open>The pool invariant\<close>

definition idle_ok :: "client_options \<Rightarrow> idle_connection \<Rightarrow> bool" where
  "idle_ok opts e \<longleftrightarrow> 1 \<le> i_uses e \<and> i_uses e < max_uses opts \<and> reusable_reader (p_reader (i_physical e))"

definition pool_inv :: "snell_client \<Rightarrow> bool" where
  "pool_inv c \<longleftrightarrow> length (idle c) \<le> max_idle (options c) \<and> (\<forall>e \<in> set (idle c). idle_ok (options c) e)
     \<and> (closed c \<longrightarrow> idle c = [])"

definition session_ok :: "client_options \<Rightarrow> snell_session \<Rightarrow> bool" where
  "session_ok opts s \<longleftrightarrow> 1 \<le> s_uses s \<and> (s_reusable s \<longrightarrow> s_uses s \<le> max_uses opts)
     \<and> reader_ok (p_reader (s_physical s))"

text \<open>Connections the pool owns or has shut down.\<close>

definition owned :: "snell_client \<Rightarrow> nat" where
  "owned c = length (idle c) + length (retired c)"

lemma retire_simps [simp]:
  "options (retire p c) = options c" "idle (retire p c) = idle c" "closed (retire p c) = closed c"
  "c_identity (retire p c) = c_identity c" "length (retired (retire p c)) = Suc (length (retired c))"
  by (simp_all add: retire_def)

lemma pool_inv_retire [simp]: "pool_inv (retire p c) = pool_inv c"
  by (simp add: pool_inv_def)

lemma pop_idle_Some:
  assumes "pop_idle c = (Some e, c')"
  shows "idle c = idle c' @ [e]" "options c' = options c" "closed c' = closed c" "retired c' = retired c"
  using assms by (auto simp: pop_idle_def split: if_splits)

lemma pop_idle_None: "pop_idle c = (None, c') \<Longrightarrow> c' = c \<and> idle c = []"
  by (auto simp: pop_idle_def split: if_splits)

lemma pop_idle_inv:
  "pop_idle c = (Some e, c') \<Longrightarrow> pool_inv c \<Longrightarrow> pool_inv c' \<and> idle_ok (options c) e"
  using pop_idle_Some [of c e c'] by (auto simp: pool_inv_def)

lemma take_idle_step:
  "take_idle clock g c =
     (case pop_idle c of
        (None, c) \<Rightarrow> (None, c)
      | (Some entry, c) \<Rightarrow>
          if clock (length (idle c)) - i_since entry \<le> idle_timeout (options c)
             \<and> p_generation (i_physical entry) = g
          then (Some entry, c) else take_idle clock g (retire (i_physical entry) c))"
  by (rule take_idle.simps)

lemma take_idle_spec:
  "take_idle clock g c = (r, c') \<Longrightarrow> pool_inv c \<Longrightarrow>
     pool_inv c' \<and> options c' = options c \<and> closed c' = closed c \<and> set (idle c') \<subseteq> set (idle c)
     \<and> (case r of None \<Rightarrow> idle c' = [] \<and> owned c' = owned c
        | Some e \<Rightarrow> e \<in> set (idle c) \<and> idle_ok (options c) e \<and> Suc (owned c') = owned c
            \<and> p_generation (i_physical e) = g
            \<and> clock (length (idle c')) - i_since e \<le> idle_timeout (options c))"
proof (induction clock g c arbitrary: r c' rule: take_idle.induct)
  case (1 clock g c)
  obtain x c1 where pop: "pop_idle c = (x, c1)" by fastforce
  show ?case
  proof (cases x)
    case None
    with pop "1.prems" pop_idle_None [OF pop [unfolded None]] show ?thesis
      by (subst (asm) take_idle_step) (auto simp: owned_def)
  next
    case (Some e)
    note P = pop_idle_Some [OF pop [unfolded Some]] pop_idle_inv [OF pop [unfolded Some] "1.prems"(2)]
    show ?thesis
    proof (cases "clock (length (idle c1)) - i_since e \<le> idle_timeout (options c1) \<and> p_generation (i_physical e) = g")
      case True
      with pop Some "1.prems" have "r = Some e" "c' = c1" by (subst (asm) take_idle_step, simp)+
      with True P show ?thesis by (auto simp: owned_def)
    next
      case False
      with pop Some "1.prems" have "take_idle clock g (retire (i_physical e) c1) = (r, c')"
        by (subst (asm) take_idle_step) simp
      from "1.IH" [OF pop [symmetric] Some False this] P show ?thesis
        by (auto simp: owned_def split: option.splits)
    qed
  qed
qed

lemma start_reuse_reader:
  assumes "start_reuse X host port ir to p = (Inr (), p')"
  shows "reader_ok (p_reader p')" "reusable_reader (p_reader p)" "\<not> ir" "\<not> to"
    "p_generation p' = p_generation p"
  using assms
  by (auto simp: start_reuse_def Let_def reader_ok_def reusable_reader_def split: sum.splits if_splits prod.splits)

lemma reuse_loop_spec:
  "reuse_loop X host port clock probe g c = (r, c') \<Longrightarrow> pool_inv c \<Longrightarrow>
     pool_inv c' \<and> options c' = options c \<and> closed c' = closed c
     \<and> (case r of None \<Rightarrow> idle c' = [] \<and> owned c' = owned c
        | Some s \<Rightarrow> session_ok (options c) s \<and> s_reusable s \<and> Suc (owned c') = owned c
            \<and> p_generation (s_physical s) = g
            \<and> (\<exists>e \<in> set (idle c). s_uses s = Suc (i_uses e)
                 \<and> clock (length (idle c')) - i_since e \<le> idle_timeout (options c)))"
proof (induction X host port clock probe g c arbitrary: r c' rule: reuse_loop.induct)
  case (1 X host port clock probe g c)
  obtain x c1 where t: "take_idle clock g c = (x, c1)" by fastforce
  note T = take_idle_spec [OF t "1.prems"(2)]
  show ?case
  proof (cases x)
    case None
    with t "1.prems" have "r = None" "c' = c1" by (subst (asm) reuse_loop.simps, simp)+
    with T None show ?thesis by simp
  next
    case (Some e)
    obtain ir to where pr: "probe (length (idle c1)) = (ir, to)" by fastforce
    obtain q p where st: "start_reuse X host port ir to (i_physical e) = (q, p)" by fastforce
    show ?thesis
    proof (cases q)
      case (Inr u)
      with t Some pr st "1.prems" have r: "r = Some \<lparr>s_physical = p, s_uses = i_uses e + 1, s_reusable = True\<rparr>" "c' = c1"
        by (subst (asm) reuse_loop.simps, simp)+
      have st': "start_reuse X host port ir to (i_physical e) = (Inr (), p)" using st Inr by simp
      from T Some r start_reuse_reader [OF st'] show ?thesis
        by (auto simp: session_ok_def idle_ok_def)
    next
      case (Inl z)
      with t Some pr st "1.prems" have "reuse_loop X host port clock probe g (retire p c1) = (r, c')"
        by (subst (asm) reuse_loop.simps) simp
      from "1.IH" [OF t [symmetric] Some pr [symmetric] st [symmetric] Inl this] T Some show ?thesis
        by (fastforce simp: owned_def split: option.splits)
    qed
  qed
qed

lemma release_locked_inv:
  assumes "pool_inv c" "1 \<le> uses" "uses < max_uses (options c)" "reusable_reader (p_reader p)"
  shows "pool_inv (release_locked now p uses c)"
  using assms by (auto simp: release_locked_def pool_inv_def idle_ok_def)

lemma release_spec:
  assumes "pool_inv c" "1 \<le> uses" "reusable_reader (p_reader p)"
  shows "pool_inv (release now p uses c)" "owned (release now p uses c) = Suc (owned c)"
    "options (release now p uses c) = options c" "closed (release now p uses c) = closed c"
  using assms release_locked_inv [of c uses p now]
  by (auto simp: release_def release_locked_def owned_def)

lemma close_drain_eq:
  "close_drain c = c\<lparr>idle := [], retired := retired c @
     map (\<lambda>e. (i_physical e)\<lparr>p_writer := snd (shutdown_writer (p_writer (i_physical e)))\<rparr>) (idle c)\<rparr>"
proof -
  have fold: "fold (\<lambda>e. retire (i_physical e)) es c = c\<lparr>retired := retired c @
      map (\<lambda>e. (i_physical e)\<lparr>p_writer := snd (shutdown_writer (p_writer (i_physical e)))\<rparr>) es\<rparr>" for es c
    by (induction es arbitrary: c) (simp_all add: retire_def)
  show ?thesis unfolding close_drain_def fold by simp
qed

lemma close_client_spec:
  assumes "pool_inv c"
  shows "pool_inv (close_client c)" "owned (close_client c) = owned c" "idle (close_client c) = []"
    "closed (close_client c)" "options (close_client c) = options c"
  using assms by (auto simp: close_client_def close_drain_eq pool_inv_def owned_def)

lemma close_handshake_ready:
  assumes "close_handshake X sent p = (Inr (), p')" "reader_ok (p_reader p)"
  shows "reusable_reader (p_reader p')"
proof -
  have "complete_reuse_close X (p_reader p) = (Inr (), p_reader p')"
    using assms(1) by (auto simp: close_handshake_def res_simps split: if_splits prod.splits)
  then show ?thesis using assms(2) by (rule complete_reuse_close_ready)
qed

lemma finish_spec:
  assumes "pool_inv c" "session_ok (options c) s"
  shows "pool_inv (finish X now to clean sent s c)" "owned (finish X now to clean sent s c) = Suc (owned c)"
    "options (finish X now to clean sent s c) = options c" "closed (finish X now to clean sent s c) = closed c"
proof -
  obtain q p where h: "close_handshake X sent (s_physical s) = (q, p)" by fastforce
  have "reusable_reader (p_reader p)" if "q = Inr ()"
    using close_handshake_ready [of X sent "s_physical s" p] h that assms(2) by (simp add: session_ok_def)
  then have "pool_inv (finish X now to clean sent s c) \<and> owned (finish X now to clean sent s c) = Suc (owned c)
    \<and> options (finish X now to clean sent s c) = options c \<and> closed (finish X now to clean sent s c) = closed c"
    using assms h release_spec [of c "s_uses s" p now]
    by (cases q) (auto simp: finish_def session_ok_def owned_def)
  then show "pool_inv (finish X now to clean sent s c)" "owned (finish X now to clean sent s c) = Suc (owned c)"
    "options (finish X now to clean sent s c) = options c" "closed (finish X now to clean sent s c) = closed c" by auto
qed

lemma open_command_reader:
  assumes "open_command X c env request True = Inr p"
  shows "reader_ok (p_reader p)"
  using assms
  by (auto simp: open_command_def res_simps Let_def new_reader_def reader_ok_def split: permit.splits)

lemma dial_tcp_spec:
  assumes "pool_inv c" "reuse (options c) \<longrightarrow> 1 \<le> max_uses (options c)"
    and "dial_tcp X host port clock probe g env c = (r, c')"
  shows "pool_inv c' \<and> options c' = options c \<and> closed c' = closed c
    \<and> (\<forall>s. r = Inr s \<longrightarrow> session_ok (options c) s \<and> \<not> closed c
         \<and> owned c = owned c' + (if s_uses s = 1 then 0 else 1)
         \<and> (s_uses s \<noteq> 1 \<longrightarrow> p_generation (s_physical s) = g
              \<and> (\<exists>e \<in> set (idle c). clock (length (idle c')) - i_since e \<le> idle_timeout (options c))))
    \<and> (\<forall>e. r = Inl e \<longrightarrow> owned c = owned c')"
proof (cases "closed c")
  case True
  with assms show ?thesis by (auto simp: dial_tcp_def)
next
  case False
  obtain q c1 where l: "(if reuse (options c) then reuse_loop X host port clock probe g c else (None, c)) = (q, c1)"
    by fastforce
  have spec: "pool_inv c1 \<and> options c1 = options c \<and> closed c1 = closed c
     \<and> (case q of None \<Rightarrow> owned c1 = owned c
        | Some s \<Rightarrow> session_ok (options c) s \<and> Suc (owned c1) = owned c \<and> p_generation (s_physical s) = g
            \<and> (\<exists>e \<in> set (idle c). s_uses s = Suc (i_uses e) \<and> idle_ok (options c) e
                 \<and> clock (length (idle c1)) - i_since e \<le> idle_timeout (options c)))"
    using l reuse_loop_spec [of X host port clock probe g c q c1] assms(1)
    by (fastforce simp: pool_inv_def split: if_splits option.splits)
  show ?thesis
  proof (cases q)
    case (Some s)
    with assms(3) l False have "r = Inr s" "c' = c1" by (auto simp: dial_tcp_def)
    with spec Some False show ?thesis by (auto simp: idle_ok_def)
  next
    case None
    with assms(3) l False have r: "c' = c1"
      "r = and_then (open_tcp X c1 env host port (reuse (options c1))) (\<lambda>p.
         Inr \<lparr>s_physical = p, s_uses = 1, s_reusable = reuse (options c1)\<rparr>)"
      by (auto simp: dial_tcp_def)
    then show ?thesis
      using spec None False assms(2) open_command_reader
      by (auto simp: res_simps open_tcp_def session_ok_def)
  qed
qed

subsection \<open>Histories of a client\<close>

text \<open>
  A client with the sessions its callers hold and the number of connections opened so far.
  Sessions read until they finish; \<open>dial_tcp\<close>, \<open>finish\<close> and \<open>close\<close> happen in any order.
\<close>

inductive client_reach :: "crypto \<Rightarrow> client_options \<Rightarrow> snell_client \<Rightarrow> snell_session list \<Rightarrow> nat \<Rightarrow> bool"
  for X opts where
  start: "new_with_node_dial_limit X opts = Inr c \<Longrightarrow> client_reach X opts c [] 0"
| dial_new:
    "client_reach X opts c ss n \<Longrightarrow> dial_tcp X host port clock probe g env c = (Inr s, c') \<Longrightarrow> s_uses s = 1
     \<Longrightarrow> client_reach X opts c' (s # ss) (Suc n)"
| dial_reused:
    "client_reach X opts c ss n \<Longrightarrow> dial_tcp X host port clock probe g env c = (Inr s, c') \<Longrightarrow> s_uses s \<noteq> 1
     \<Longrightarrow> client_reach X opts c' (s # ss) n"
| dial_failed:
    "client_reach X opts c ss n \<Longrightarrow> dial_tcp X host port clock probe g env c = (Inl e, c')
     \<Longrightarrow> client_reach X opts c' ss n"
| session_reads:
    "client_reach X opts c (ss @ s # ts) n \<Longrightarrow> session_read_chunk X (s, active) = (r, (s', active'))
     \<Longrightarrow> client_reach X opts c (ss @ s' # ts) n"
| session_finishes:
    "client_reach X opts c (ss @ s # ts) n
     \<Longrightarrow> client_reach X opts (finish X now to clean sent s c) (ss @ ts) n"
| closes: "client_reach X opts c ss n \<Longrightarrow> client_reach X opts (close_client c) ss n"

lemma session_read_chunk_ok:
  assumes "session_read_chunk X (s, active) = (r, (s', active'))" "session_ok opts s"
  shows "session_ok opts s'"
proof -
  obtain q rd where "read_application_chunk X (p_reader (s_physical s)) = (q, rd)" by fastforce
  then show ?thesis
    using assms read_application_chunk_ok [of X "p_reader (s_physical s)" q rd]
    by (cases q) (auto simp: session_read_chunk_def session_ok_def)
qed

lemma new_client_options:
  assumes "new_with_node_dial_limit X opts = Inr c"
  shows "c = \<lparr>options = opts, c_identity = c_identity c, idle = [], closed = False, retired = []\<rparr>"
    "reuse opts \<longrightarrow> 1 \<le> max_uses opts"
  using assms by (auto simp: new_with_node_dial_limit_def res_simps split: if_splits)

text \<open>
  C4: In every history of a client the pool holds at most \<open>max_idle\<close> connections, each used
  at least once and fewer than \<open>max_uses\<close> times and drained so that it can be reused at
  once; a closed client's pool is empty; every session a caller holds has been used at most
  \<open>max_uses\<close> times; and no connection is lost or shared: those opened are exactly those
  idle, held by a session, or shut down.
\<close>

theorem client_pool_invariant:
  assumes "client_reach X opts c ss n"
  shows "options c = opts \<and> pool_inv c \<and> (\<forall>s \<in> set ss. session_ok opts s)
    \<and> length (idle c) + length (retired c) + length ss = n"
proof -
  have "options c = opts \<and> pool_inv c \<and> (reuse opts \<longrightarrow> 1 \<le> max_uses opts) \<and> (\<forall>s \<in> set ss. session_ok opts s)
    \<and> owned c + length ss = n"
    using assms
  proof (induction rule: client_reach.induct)
    case (start c)
    note n = new_client_options [OF start]
    show ?case using n(2) by (subst (1 2 3) n(1)) (simp add: pool_inv_def owned_def)
  next
    case (dial_new c ss n host port clock probe g env s c')
    from dial_tcp_spec [OF _ _ dial_new.hyps(2)] dial_new show ?case by auto
  next
    case (dial_reused c ss n host port clock probe g env s c')
    from dial_tcp_spec [OF _ _ dial_reused.hyps(2)] dial_reused show ?case by auto
  next
    case (dial_failed c ss n host port clock probe g env e c')
    from dial_tcp_spec [OF _ _ dial_failed.hyps(2)] dial_failed show ?case by auto
  next
    case (session_reads c ss s ts n active r s' active')
    from session_read_chunk_ok [OF session_reads.hyps(2)] session_reads show ?case by auto
  next
    case (session_finishes c ss s ts n now to clean sent)
    from finish_spec [of c s X now to clean sent] session_finishes show ?case by auto
  next
    case (closes c ss n)
    from close_client_spec [of c] closes show ?case by auto
  qed
  then show ?thesis by (simp add: owned_def)
qed

definition demo_options :: client_options where
  "demo_options = \<lparr>psk = [112], reuse = True, max_idle = 2, max_uses = 3, idle_timeout = 1,
     handshake_timeout = 1, close_timeout = 1\<rparr>"

lemma demo_client: "\<exists>c. new_with_node_dial_limit sample_crypto demo_options = Inr c"
  by (simp add: new_with_node_dial_limit_def demo_options_def secs_def identity_key_new_def Let_def)

theorem client_pool_invariant_witness:
  "\<exists>c. client_reach sample_crypto demo_options (close_client c) [] 0
    \<and> options (close_client c) = demo_options \<and> pool_inv (close_client c)
    \<and> length (idle (close_client c)) + length (retired (close_client c)) + length ([] :: snell_session list) = 0"
proof -
  obtain c where "new_with_node_dial_limit sample_crypto demo_options = Inr c" using demo_client by blast
  then have r: "client_reach sample_crypto demo_options (close_client c) [] 0"
    by (intro client_reach.closes client_reach.start)
  with client_pool_invariant [OF r] show ?thesis by blast
qed

subsection \<open>Interleavings of the lock sections\<close>

text \<open>
  The contract of a bounded stack that can be shut: what its critical sections promise,
  whatever concurrent tasks do between them.
\<close>

datatype 'e pool_op = Put 'e | Pop | Shut | Drain

locale idle_pool =
  fixes entries :: "'s \<Rightarrow> 'a list" and is_shut :: "'s \<Rightarrow> bool" and cap :: "'s \<Rightarrow> nat"
    and put :: "'e \<Rightarrow> 's \<Rightarrow> 's" and pop :: "'s \<Rightarrow> 's" and shut_down :: "'s \<Rightarrow> 's" and drain :: "'s \<Rightarrow> 's"
  assumes put_entries: "entries (put e s) = entries s
      \<or> (\<not> is_shut s \<and> length (entries s) < cap s \<and> (\<exists>x. entries (put e s) = entries s @ [x]))"
    and pop_entries: "entries (pop s) = butlast (entries s)"
    and shut_entries: "entries (shut_down s) = entries s"
    and drain_entries: "entries (drain s) = []"
    and put_shut: "is_shut (put e s) = is_shut s" and pop_shut: "is_shut (pop s) = is_shut s"
    and shut_shut: "is_shut (shut_down s)" and drain_shut: "is_shut (drain s) = is_shut s"
    and caps: "cap (put e s) = cap s" "cap (pop s) = cap s" "cap (shut_down s) = cap s" "cap (drain s) = cap s"
begin

fun apply_op :: "'e pool_op \<Rightarrow> 's \<Rightarrow> 's" where
  "apply_op (Put e) s = put e s"
| "apply_op Pop s = pop s"
| "apply_op Shut s = shut_down s"
| "apply_op Drain s = drain s"

lemma apply_op_cap: "cap (apply_op a s) = cap s"
  by (cases a) (simp_all add: caps)

lemma apply_op_bounded:
  "length (entries s) \<le> cap s \<Longrightarrow> length (entries (apply_op a s)) \<le> cap s"
  using put_entries
  by (cases a) (auto simp: pop_entries shut_entries drain_entries split: if_splits, metis Suc_leI length_append_singleton)

lemma run_bounded:
  "length (entries s) \<le> cap s \<Longrightarrow> length (entries (fold apply_op ops s)) \<le> cap s"
proof (induction ops arbitrary: s)
  case (Cons a ops)
  then show ?case using apply_op_bounded [of s a] Cons.IH [of "apply_op a s"] by (simp add: apply_op_cap)
qed simp

lemma apply_op_stays_shut: "is_shut s \<Longrightarrow> is_shut (apply_op a s)"
  by (cases a) (simp_all add: put_shut pop_shut shut_shut drain_shut)

lemma run_stays_shut: "is_shut s \<Longrightarrow> is_shut (fold apply_op ops s)"
  by (induction ops arbitrary: s) (simp_all add: apply_op_stays_shut)

lemma run_stays_empty:
  "is_shut s \<Longrightarrow> entries s = [] \<Longrightarrow> entries (fold apply_op ops s) = []"
proof (induction ops arbitrary: s)
  case (Cons a ops)
  have "entries (apply_op a s) = []"
    using Cons.prems put_entries [of _ s]
    by (cases a) (auto simp: pop_entries shut_entries drain_entries)
  then show ?case using Cons apply_op_stays_shut by simp
qed simp

lemma drained_for_good: "entries (fold apply_op (before @ Shut # between @ Drain # after) s) = []"
  using run_stays_shut [of "shut_down (fold apply_op before s)" between]
  by (simp add: shut_shut run_stays_empty drain_shut drain_entries)

end

text \<open>The client's lock sections; a release carries the time, the connection and its uses.\<close>

definition put_idle :: "nat \<times> physical_connection \<times> nat \<Rightarrow> snell_client \<Rightarrow> snell_client" where
  "put_idle e c = (case e of (now, p, uses) \<Rightarrow> release_locked now p uses c)"

definition set_closed :: "snell_client \<Rightarrow> snell_client" where
  "set_closed c = c\<lparr>closed := True\<rparr>"

fun pool_section :: "(nat \<times> physical_connection \<times> nat) pool_op \<Rightarrow> snell_client \<Rightarrow> snell_client" where
  "pool_section (Put e) c = put_idle e c"
| "pool_section Pop c = snd (pop_idle c)"
| "pool_section Shut c = set_closed c"
| "pool_section Drain c = close_drain c"

interpretation client_pool: idle_pool idle closed "\<lambda>c. max_idle (options c)" put_idle "\<lambda>c. snd (pop_idle c)"
  set_closed close_drain
  by unfold_locales
    (auto simp: put_idle_def release_locked_def pop_idle_def set_closed_def close_drain_eq split: if_splits)

lemma pool_section_eq: "pool_section = client_pool.apply_op"
proof (rule ext, rule ext)
  fix a :: "(nat \<times> physical_connection \<times> nat) pool_op" and c
  show "pool_section a c = client_pool.apply_op a c" by (cases a) simp_all
qed

text \<open>
  Concurrent releases cannot refill a closed pool. However the lock sections of
  releasing, dialing and closing tasks interleave, the pool never exceeds \<open>max_idle\<close>, and
  once \<open>close\<close> has set the flag and, at any later time, drained the pool, it stays empty.
\<close>

lemma closed_pool_stays_empty:
  "(length (idle c) \<le> max_idle (options c) \<longrightarrow> length (idle (fold pool_section ops c)) \<le> max_idle (options c))
   \<and> idle (fold pool_section (before @ Shut # between @ Drain # after) c) = []"
  using client_pool.run_bounded [of c ops] client_pool.drained_for_good by (simp add: pool_section_eq)

lemma closed_pool_stays_empty_witness:
  "\<exists>c. new_with_node_dial_limit sample_crypto demo_options = Inr c
    \<and> length (idle (fold pool_section [Pop, Pop] c)) \<le> max_idle (options c)
    \<and> idle (fold pool_section ([Pop] @ Shut # [] @ Drain # [Pop]) c) = []"
proof -
  obtain c where c: "new_with_node_dial_limit sample_crypto demo_options = Inr c" using demo_client by blast
  have "idle c = []" using new_client_options(1) [OF c] by (metis snell_client.select_convs(3))
  with c closed_pool_stays_empty [of c "[Pop, Pop]" "[Pop]" "[]" "[Pop]"] show ?thesis by auto
qed

subsection \<open>The initial flight\<close>

lemma initial_padding_length_bound:
  assumes "initial_padding_length rng n = Inr pl"
  shows "n < INITIAL_FRAME_BUDGET \<Longrightarrow> 1 \<le> pl \<and> n + pl \<le> INITIAL_FRAME_BUDGET"
    and "INITIAL_FRAME_BUDGET \<le> n \<Longrightarrow> pl = 0"
proof -
  have "x mod (INITIAL_FRAME_BUDGET - n) < INITIAL_FRAME_BUDGET - n" if "n < INITIAL_FRAME_BUDGET" for x
    using that by simp
  then have *: "n < INITIAL_FRAME_BUDGET \<Longrightarrow> n + Suc (x mod (INITIAL_FRAME_BUDGET - n)) \<le> INITIAL_FRAME_BUDGET" for x
    by (metis Suc_leI add_Suc_right less_diff_conv2 add.commute less_diff_conv)
  show "n < INITIAL_FRAME_BUDGET \<Longrightarrow> 1 \<le> pl \<and> n + pl \<le> INITIAL_FRAME_BUDGET"
    using assms * by (auto simp: initial_padding_length_def res_simps Let_def split: if_splits)
  show "INITIAL_FRAME_BUDGET \<le> n \<Longrightarrow> pl = 0"
    using assms by (auto simp: initial_padding_length_def split: if_splits)
qed

lemma identity_key_length:
  "digest_laws X \<Longrightarrow> identity_key_new X key = Inr k \<Longrightarrow> length (identity k) = 16"
  by (auto simp: identity_key_new_def derive_key_def digest_laws_def Let_def split: if_splits)

lemma length_identity_build:
  "digest_laws X \<Longrightarrow> length (identity k) = 16 \<Longrightarrow> length nonce = 16 \<Longrightarrow> length (identity_build X k ex nonce) = 56"
  by (simp add: identity_build_def IDENTITY_V2_MAGIC_def digest_laws_def Let_def)

lemma send_initial_flight_Inr:
  assumes "send_initial_flight X c env d request = Inr w"
  obtains nonce w0 pl frame w1 where "length nonce = 16"
    "writer_new X (d_output d) (psk (options c)) nonce = Inr w0"
    "initial_padding_length (e_length env) (length request) = Inr pl"
    "encode_frame_append X (e_padding env) request pl (mark_salt_sent w0) = (Inr frame, w1)"
    "write_raw_all (identity_build X (c_identity c) (d_exporter d) nonce @ frame) w1 = (Inr (), w)"
proof -
  obtain nonce w0 pl where n: "fill_random (e_nonce env) 16 = Some nonce"
    "writer_new X (d_output d) (psk (options c)) nonce = Inr w0"
    "initial_padding_length (e_length env) (length request) = Inr pl"
    and k: "(case encode_frame_append X (e_padding env) request pl (mark_salt_sent w0) of
       (Inl e, _) \<Rightarrow> Inl (Bail ''encode Snell CONNECT request'')
     | (Inr frame, w) \<Rightarrow>
         (case write_raw_all (identity_build X (c_identity c) (d_exporter d) nonce @ frame) w of
            (Inl e, _) \<Rightarrow> Inl e
          | (Inr _, w) \<Rightarrow> Inr w)) = Inr w"
    using assms unfolding send_initial_flight_def Let_def by (auto simp only: res_simps)
  from k show thesis
    using that [OF fill_random_length [OF n(1)] n(2,3)] by (auto split: prod.splits sum.splits)
qed

lemma mark_salt_in_step:
  assumes "writer_new X out key nonce = Inr w0"
  obtains r where "with_salt X s key nonce = Inr r" "in_step X (mark_salt_sent w0) r" "rr_reader r = s"
    "rw_writer w0 = out"
  using assms
  by (auto simp: writer_new_def with_salt_def res_simps in_step_def mark_salt_sent_def)

text \<open>
  C5: The initial flight carries everything the server needs. It is the 56-byte identity
  block, whose first 16 bytes are the record salt, followed by one frame; a server that
  derives its reader from that salt reads exactly the request from it, whatever padding was
  chosen, and is then in step with the client's writer.
\<close>

theorem initial_flight_decodes:
  assumes "aead_laws X" "digest_laws X" "identity_key_new X (psk (options c)) = Inr (c_identity c)"
    and "open_command X c env request True = Inr p" "e_dial env = Inr d" "request \<noteq> []"
  shows "\<exists>flight r r'. delivered (rw_writer (p_writer p)) = accepted (d_output d) @ flight
    \<and> take 56 flight = identity_build X (c_identity c) (d_exporter d) (take 16 flight)
    \<and> with_salt X (drop 56 flight) (psk (options c)) (take 16 flight) = Inr r
    \<and> read_frame_into X r = (Inr (Payload, request), r') \<and> rr_reader r' = [] \<and> in_step X (p_writer p) r'"
proof -
  obtain w where w: "send_initial_flight X c env d request = Inr w" "p_writer p = w"
    using assms(4,5) by (auto simp: open_command_def res_simps Let_def split: permit.splits)
  obtain nonce w0 pl frame w1 where n: "length nonce = 16"
    and w0: "writer_new X (d_output d) (psk (options c)) nonce = Inr w0"
    and enc: "encode_frame_append X (e_padding env) request pl (mark_salt_sent w0) = (Inr frame, w1)"
    and out: "write_raw_all (identity_build X (c_identity c) (d_exporter d) nonce @ frame) w1 = (Inr (), w)"
    by (rule send_initial_flight_Inr [OF w(1)])
  let ?ident = "identity_build X (c_identity c) (d_exporter d) nonce"
  have len: "length ?ident = 56"
    using assms(2,3) n by (intro length_identity_build) (auto intro: identity_key_length)
  have salt: "take 16 ?ident = nonce" using n by (simp add: identity_build_def Let_def)
  obtain r where r: "with_salt X frame (psk (options c)) nonce = Inr r" "in_step X (mark_salt_sent w0) r"
      "rr_reader r = frame" "rw_writer w0 = d_output d"
    using mark_salt_in_step [OF w0, of frame] by metis
  obtain r' where r': "read_frame_into X r = (Inr (Payload, request), r')" "rr_reader r' = []" "in_step X w1 r'"
    using read_payload_frame [OF assms(1) r(2) assms(6) enc, of "[]"] r(3) by auto
  note wf = write_and_flush_ok [OF out [unfolded write_raw_all_def]]
  have "rw_writer w1 = d_output d"
    using encode_frame_append_writer [OF enc] r(4) by (simp add: mark_salt_sent_def)
  moreover have "in_step X w r'" using r'(3) wf(3) in_step_writer by metis
  ultimately show ?thesis
    using wf(1) w(2) r(1) r' len salt n
    by (intro exI [of _ "?ident @ frame"] exI [of _ r] exI [of _ r']) simp
qed

definition demo_open :: open_env where
  "demo_open = \<lparr>e_permit = Granted,
     e_dial = Inr \<lparr>d_input = [], d_output = fresh_sink, d_local_addr = Some \<lparr>sa_ip = V4 0, sa_port = 1\<rparr>,
       d_exporter = replicate 32 1, d_generation = 0\<rparr>,
     e_nonce = Some of_nat, e_length = Some (\<lambda>_. 0), e_padding = Some of_nat, e_timeout = False\<rparr>"

definition demo_dialed :: dialed_transport where
  "demo_dialed = \<lparr>d_input = [], d_output = fresh_sink, d_local_addr = Some \<lparr>sa_ip = V4 0, sa_port = 1\<rparr>,
     d_exporter = replicate 32 1, d_generation = 0\<rparr>"

lemma demo_open_ok:
  assumes "psk (options c) = [112]"
  shows "\<exists>p. open_command sample_crypto c demo_open [1, 6, 0] True = Inr p"
proof -
  have len: "initial_padding_length (Some (\<lambda>_. 0)) (Suc (Suc (Suc 0))) = Inr (Suc 0)"
    by (simp add: initial_padding_length_def fill_random_def INITIAL_FRAME_BUDGET_def from_be16_def)
  obtain w0 where w0: "writer_new sample_crypto fresh_sink [112] (map of_nat [0..<16]) = Inr w0"
    by (simp add: writer_new_def derive_record_key_def record_aead_def sample_crypto_def utf8_def utf8_char_def)
  have rel: "rw_writer w0 = fresh_sink" using w0 by (auto simp: writer_new_def res_simps)
  obtain f w1 where e: "encode_frame_append sample_crypto (Some of_nat) [1, 6, 0] 1 (mark_salt_sent w0) = (Inr f, w1)"
    by (simp add: encode_frame_append_def MAX_RECORD_PAYLOAD_SIZE_def seal_def sample_crypto_def
        fill_random_def case_prod_unfold Let_def)
  have "reliable (rw_writer w1)" using encode_frame_append_writer [OF e] rel by (simp add: mark_salt_sent_def)
  then obtain w where "write_raw_all (identity_build sample_crypto (c_identity c) (replicate 32 1) (map of_nat [0..<16]) @ f) w1
      = (Inr (), w)"
    using write_and_flush_reliable by (fastforce simp: write_raw_all_def)
  with assms len w0 e show ?thesis
    by (simp add: open_command_def demo_open_def send_initial_flight_def fill_random_def del: upt_Suc)
qed

theorem initial_flight_decodes_witness:
  "\<exists>c p flight r r'. open_command sample_crypto c demo_open [1, 6, 0] True = Inr p
    \<and> delivered (rw_writer (p_writer p)) = accepted (d_output demo_dialed) @ flight
    \<and> with_salt sample_crypto (drop 56 flight) (psk (options c)) (take 16 flight) = Inr r
    \<and> read_frame_into sample_crypto r = (Inr (Payload, [1, 6, 0]), r') \<and> in_step sample_crypto (p_writer p) r'"
proof -
  obtain c where c: "new_with_node_dial_limit sample_crypto demo_options = Inr c" using demo_client by blast
  then have k: "identity_key_new sample_crypto (psk (options c)) = Inr (c_identity c)" "psk (options c) = [112]"
    by (auto simp: new_with_node_dial_limit_def res_simps demo_options_def split: if_splits)
  obtain p where p: "open_command sample_crypto c demo_open [1, 6, 0] True = Inr p" using demo_open_ok [OF k(2)] by blast
  from initial_flight_decodes [OF sample_aead_laws sample_digest_laws k(1) p, of demo_dialed] p show ?thesis
    by (auto simp: demo_open_def demo_dialed_def)
qed

end
