(* ===== verification/Traffic_Time.thy ===== *)
theory Traffic_Time
  imports Traffic
begin

text \<open>
  Timestamps of the traffic report, the second half of \<open>src/traffic.rs\<close>: the calendar
  parser \<open>parse_time\<close>, the disambiguation of local wall-clock times and their display.
  \<open>mktime\<close> and \<open>localtime_r\<close> of the C library are parameters.
\<close>

record tm =
  tm_year :: int
  tm_mon :: int
  tm_mday :: int
  tm_hour :: int
  tm_min :: int
  tm_sec :: int
  tm_gmtoff :: int

text \<open>
  \<open>mktime\<close> takes the fields and the daylight flag and returns a time or a negative number;
  \<open>localtime\<close> fails outside the platform's range.
\<close>

record libc_time =
  mktime :: "int \<Rightarrow> int \<Rightarrow> int \<Rightarrow> int \<Rightarrow> int \<Rightarrow> int \<Rightarrow> int \<Rightarrow> int"
  localtime :: "int \<Rightarrow> tm option"

definition local_parts :: "libc_time \<Rightarrow> int \<Rightarrow> tm res" where
  "local_parts L t = ok_or (localtime L t) (Bail ''local timestamp is outside the platform range'')"

definition same_parts :: "int \<Rightarrow> int \<Rightarrow> int \<Rightarrow> int \<Rightarrow> int \<Rightarrow> int \<Rightarrow> tm \<Rightarrow> bool" where
  "same_parts year month day hour minute second p \<longleftrightarrow>
     tm_year p = year - 1900 \<and> tm_mon p = month - 1 \<and> tm_mday p = day
     \<and> tm_hour p = hour \<and> tm_min p = minute \<and> tm_sec p = second"

fun local_candidates ::
  "libc_time \<Rightarrow> int \<Rightarrow> int \<Rightarrow> int \<Rightarrow> int \<Rightarrow> int \<Rightarrow> int \<Rightarrow> int list \<Rightarrow> int list \<Rightarrow> int list res" where
  "local_candidates L year month day hour minute second [] cs = Inr cs"
| "local_candidates L year month day hour minute second (isdst # ds) cs =
     (let t = mktime L (year - 1900) (month - 1) day hour minute second isdst in
      if t < 0 then local_candidates L year month day hour minute second ds cs
      else and_then (local_parts L t) (\<lambda>p.
        if same_parts year month day hour minute second p \<and> t \<notin> set cs
        then local_candidates L year month day hour minute second ds (cs @ [t])
        else local_candidates L year month day hour minute second ds cs))"

definition local_timestamp ::
  "libc_time \<Rightarrow> int \<Rightarrow> int \<Rightarrow> int \<Rightarrow> int \<Rightarrow> int \<Rightarrow> int \<Rightarrow> int res" where
  "local_timestamp L year month day hour minute second =
     and_then (local_candidates L year month day hour minute second [-1, 0, 1] []) (\<lambda>cs.
       case cs of
         [t] \<Rightarrow> Inr t
       | [] \<Rightarrow> Inl (Bail ''local time does not exist or is outside the platform range'')
       | _ \<Rightarrow> Inl (Bail ''ambiguous local time at a timezone transition''))"

subsection \<open>The parser\<close>

definition digit_byte :: "byte \<Rightarrow> bool" where
  "digit_byte b \<longleftrightarrow> 48 \<le> b \<and> b \<le> 57"

definition number :: "bytes \<Rightarrow> nat \<Rightarrow> nat \<Rightarrow> int res" where
  "number bs i j =
     (let part = take (j - i) (drop i bs) in
      if \<not> list_all digit_byte part then Inl (Bail ''invalid timestamp digits'')
      else Inr (fold (\<lambda>b n. n * 10 + int (unat b - 48)) part 0))"

definition parse_offset :: "bytes \<Rightarrow> nat \<Rightarrow> int option res" where
  "parse_offset bs end_pos =
     (case drop end_pos bs of
        [] \<Rightarrow> Inr None
      | [z] \<Rightarrow> if z = 90 then Inr (Some 0) else Inl (Bail ''invalid timestamp timezone suffix'')
      | [sign, _, _, colon, _, _] \<Rightarrow>
          if (sign = 43 \<or> sign = 45) \<and> colon = 58 then
            and_then (number bs (end_pos + 1) (end_pos + 3)) (\<lambda>hour.
            and_then (number bs (end_pos + 4) (end_pos + 6)) (\<lambda>minute.
            if hour > 23 \<or> minute > 59 then Inl (Bail ''invalid timezone offset'')
            else if sign = 45 \<and> hour = 0 \<and> minute = 0
            then Inl (Bail ''unknown -00:00 offset; use Z or +00:00'')
            else Inr (Some ((hour * 3600 + minute * 60) * (if sign = 45 then -1 else 1)))))
          else Inl (Bail ''invalid timestamp timezone suffix'')
      | _ \<Rightarrow> Inl (Bail ''invalid timestamp timezone suffix''))"

definition is_leap :: "int \<Rightarrow> bool" where
  "is_leap year \<longleftrightarrow> year mod 4 = 0 \<and> (year mod 100 \<noteq> 0 \<or> year mod 400 = 0)"

definition days_in_month :: "int \<Rightarrow> int \<Rightarrow> int" where
  "days_in_month year month =
     (if month \<in> {1, 3, 5, 7, 8, 10, 12} then 31
      else if month \<in> {4, 6, 9, 11} then 30
      else if month = 2 then (if is_leap year then 29 else 28)
      else 0)"

definition civil_days :: "int \<Rightarrow> int \<Rightarrow> int \<Rightarrow> int" where
  "civil_days year month day =
     (let y = year - (if month \<le> 2 then 1 else 0);
          era = y div 400;
          yoe = y - era * 400;
          m = month + (if month > 2 then -3 else 9);
          doy = (153 * m + 2) div 5 + day - 1;
          doe = yoe * 365 + yoe div 4 - yoe div 100 + doy in
      era * 146097 + doe - 719468)"

definition parse_time :: "libc_time \<Rightarrow> ustring \<Rightarrow> int res" where
  "parse_time L value =
     (let bs = utf8 value in
      if list_all digit_byte bs \<and> value \<noteq> []
      then and_then (ok_or (parse_u64 value) (Bail ''invalid Unix timestamp'')) (\<lambda>n. Inr (int n))
      else if length bs < 16 \<or> bs ! 4 \<noteq> 45 \<or> bs ! 7 \<noteq> 45 \<or> \<not> (bs ! 10 = 84 \<or> bs ! 10 = 32) \<or> bs ! 13 \<noteq> 58
      then Inl (Bail ''timestamp must be Unix seconds or YYYY-MM-DDTHH:MM[:SS][Z|+HH:MM|-HH:MM]'')
      else
        and_then (number bs 0 4) (\<lambda>year.
        and_then (number bs 5 7) (\<lambda>month.
        and_then (number bs 8 10) (\<lambda>day.
        and_then (number bs 11 13) (\<lambda>hour.
        and_then (number bs 14 16) (\<lambda>minute.
        and_then (if 16 < length bs \<and> bs ! 16 = 58
                  then (if length bs < 19 then Inl (Bail ''incomplete timestamp seconds'')
                        else and_then (number bs 17 19) (\<lambda>second. Inr (second, 19)))
                  else Inr (0, 16)) (\<lambda>(second, end_pos).
        and_then (parse_offset bs end_pos) (\<lambda>offset.
        if year < 1970 \<or> day < 1 \<or> day > days_in_month year month \<or> hour > 23 \<or> minute > 59 \<or> second > 59
        then Inl (Bail ''invalid calendar timestamp'')
        else
          case offset of
            None \<Rightarrow> local_timestamp L year month day hour minute second
          | Some off \<Rightarrow>
              let t = civil_days year month day * 86400 + hour * 3600 + minute * 60 + second - off in
              if t < 0 then Inl (Bail ''timestamp precedes Unix epoch'') else Inr t))))))))"

subsection \<open>Display\<close>

text \<open>\<open>{:0n}\<close> of a nonnegative number.\<close>

definition pad_nat :: "nat \<Rightarrow> int \<Rightarrow> ustring" where
  "pad_nat width n = (let s = show_nat (nat n) in replicate (width - length s) 48 @ s)"

definition format_local_time :: "libc_time \<Rightarrow> int \<Rightarrow> ustring res" where
  "format_local_time L t =
     (if t \<ge> 2 ^ 63 then Inl (Bail ''timestamp exceeds platform time range'')
      else and_then (local_parts L t) (\<lambda>p.
        let offset = tm_gmtoff p; magnitude = abs offset;
            suffix = (if offset < 0 then [45] else [43]) @ pad_nat 2 (magnitude div 3600) @ [58]
                     @ pad_nat 2 (magnitude mod 3600 div 60)
                     @ (if magnitude mod 60 \<noteq> 0 then [58] @ pad_nat 2 (magnitude mod 60) else []) in
        Inr (pad_nat 4 (tm_year p + 1900) @ [45] @ pad_nat 2 (tm_mon p + 1) @ [45] @ pad_nat 2 (tm_mday p)
             @ [84] @ pad_nat 2 (tm_hour p) @ [58] @ pad_nat 2 (tm_min p) @ [58] @ pad_nat 2 (tm_sec p)
             @ suffix)))"

subsection \<open>The day count is the calendar\<close>

definition next_day :: "int \<times> int \<times> int \<Rightarrow> int \<times> int \<times> int" where
  "next_day d = (case d of (year, month, day) \<Rightarrow>
     if day < days_in_month year month then (year, month, day + 1)
     else if month < 12 then (year, month + 1, 1)
     else (year + 1, 1, 1))"

definition valid_date :: "int \<times> int \<times> int \<Rightarrow> bool" where
  "valid_date d = (case d of (year, month, day) \<Rightarrow>
     0 \<le> year \<and> 1 \<le> month \<and> month \<le> 12 \<and> 1 \<le> day \<and> day \<le> days_in_month year month)"

definition days_before :: "int \<Rightarrow> int" where
  "days_before y = y * 365 + y div 4 - y div 100 + y div 400"

lemma era_days: "y div 400 * 146097 + ((y - y div 400 * 400) * 365 + (y - y div 400 * 400) div 4
    - (y - y div 400 * 400) div 100) = days_before y"
proof -
  define e where "e = y div 400"
  define r where "r = y - e * 400"
  have y: "y = r + 400 * e" by (simp add: r_def)
  have "(r + 400 * e) div 4 = r div 4 + 100 * e" "(r + 400 * e) div 100 = r div 100 + 4 * e"
    by (simp_all add: div_add1_eq)
  moreover have "y div 400 = e" by (simp add: e_def)
  ultimately show ?thesis
    unfolding days_before_def e_def [symmetric] by (simp add: y)
qed

lemma civil_days_eq:
  "civil_days year month day =
     days_before (if month \<le> 2 then year - 1 else year)
     + (153 * (if month \<le> 2 then month + 9 else month - 3) + 2) div 5 + day - 719469"
  using era_days [of year] era_days [of "year - 1"]
  by (cases "month \<le> 2") (simp_all add: civil_days_def Let_def)

lemma div_pred:
  fixes y k :: int
  assumes "1 < k"
  shows "(y - 1) div k = y div k - (if y mod k = 0 then 1 else 0)"
proof (cases "y mod k = 0")
  case True
  have "y - 1 = k * (y div k - 1) + (k - 1)"
    using True div_mult_mod_eq [of y k] by (simp add: algebra_simps)
  then have "(y - 1) div k = y div k - 1" using assms by (intro int_div_pos_eq [of _ _ _ "k - 1"]) auto
  then show ?thesis using True by simp
next
  case False
  have "y - 1 = k * (y div k) + (y mod k - 1)" using div_mult_mod_eq [of y k] by (simp add: algebra_simps)
  moreover have "0 \<le> y mod k - 1" "y mod k - 1 < k"
    using False assms pos_mod_sign [of k y] pos_mod_bound [of k y] by linarith+
  ultimately have "(y - 1) div k = y div k" by (intro int_div_pos_eq)
  then show ?thesis using False by simp
qed

lemma leap_arith:
  fixes y p q r :: int
  assumes "c \<longrightarrow> b" "b \<longrightarrow> a"
  shows "y * 365 + p - q + r - ((y - 1) * 365 + (p - (if a then 1 else 0)) - (q - (if b then 1 else 0))
      + (r - (if c then 1 else 0))) = (if a \<and> (\<not> b \<or> c) then 366 else 365)"
  using assms by (cases a; cases b; cases c) (simp_all add: algebra_simps)

lemma leap_step: "days_before year - days_before (year - 1) = (if is_leap year then 366 else 365)"
proof -
  have a: "year mod 400 = 0 \<longrightarrow> year mod 100 = 0"
    using dvd_trans [of 100 400 year] unfolding mod_eq_0_iff_dvd by simp
  have b: "year mod 100 = 0 \<longrightarrow> year mod 4 = 0"
    using dvd_trans [of 4 100 year] unfolding mod_eq_0_iff_dvd by simp
  have d: "(year - 1) div 4 = year div 4 - (if year mod 4 = 0 then 1 else 0)"
    "(year - 1) div 100 = year div 100 - (if year mod 100 = 0 then 1 else 0)"
    "(year - 1) div 400 = year div 400 - (if year mod 400 = 0 then 1 else 0)"
    by (rule div_pred, simp)+
  show ?thesis
    unfolding days_before_def is_leap_def d by (rule leap_arith [OF a b])
qed

lemma months: "1 \<le> m \<Longrightarrow> m \<le> 12 \<Longrightarrow>
  m = 1 \<or> m = 2 \<or> m = 3 \<or> m = 4 \<or> m = 5 \<or> m = 6 \<or> m = 7 \<or> m = 8 \<or> m = 9 \<or> m = 10 \<or> m = 11 \<or> m = (12 :: int)"
  by presburger

text \<open>
  The day number that \<open>parse_time\<close> computes is the Gregorian calendar: 1 January 1970 is
  day zero, and the day after any valid date has the next number.
\<close>

lemma civil_days_calendar:
  "civil_days 1970 1 1 = 0
   \<and> (valid_date (year, month, day) \<longrightarrow>
        (case next_day (year, month, day) of (y, m, d) \<Rightarrow>
           valid_date (y, m, d) \<and> civil_days y m d = civil_days year month day + 1))"
proof (intro conjI impI)
  show "civil_days 1970 1 1 = 0" by (simp add: civil_days_def)
next
  assume v: "valid_date (year, month, day)"
  then have m: "1 \<le> month" "month \<le> 12" by (simp_all add: valid_date_def)
  show "case next_day (year, month, day) of (y, m, d) \<Rightarrow>
      valid_date (y, m, d) \<and> civil_days y m d = civil_days year month day + 1"
  proof (cases "day < days_in_month year month")
    case True
    with v show ?thesis by (simp add: next_day_def valid_date_def civil_days_eq)
  next
    case False
    with v have "day = days_in_month year month" by (simp add: valid_date_def)
    with v m months [OF m] leap_step [of year] show ?thesis
      by (elim disjE) (auto simp: next_day_def valid_date_def civil_days_eq days_in_month_def split: if_splits)
  qed
qed

lemma civil_days_calendar_witness:
  "civil_days 1970 1 1 = 0 \<and> valid_date (2024, 2, 28)
    \<and> (case next_day (2024, 2, 28) of (y, m, d) \<Rightarrow>
         valid_date (y, m, d) \<and> civil_days y m d = civil_days 2024 2 28 + 1)"
  using civil_days_calendar [of 2024 2 28] by (simp add: valid_date_def days_in_month_def is_leap_def)

subsection \<open>Local times\<close>

definition denotes :: "libc_time \<Rightarrow> int \<Rightarrow> int \<Rightarrow> int \<Rightarrow> int \<Rightarrow> int \<Rightarrow> int \<Rightarrow> int \<Rightarrow> bool" where
  "denotes L year month day hour minute second t \<longleftrightarrow>
     0 \<le> t \<and> (case localtime L t of None \<Rightarrow> False | Some p \<Rightarrow> same_parts year month day hour minute second p)"

lemma local_candidates_set:
  assumes "local_candidates L y m d h mi sec ds cs = Inr r" "distinct cs"
  shows "distinct r \<and> set r = set cs \<union>
    {t. \<exists>dst \<in> set ds. t = mktime L (y - 1900) (m - 1) d h mi sec dst \<and> denotes L y m d h mi sec t}"
  using assms
proof (induction ds arbitrary: cs)
  case (Cons dst ds)
  let ?t = "mktime L (y - 1900) (m - 1) d h mi sec dst"
  show ?case
  proof (cases "denotes L y m d h mi sec ?t \<and> ?t \<notin> set cs")
    case True
    then have "local_candidates L y m d h mi sec ds (cs @ [?t]) = Inr r"
      using Cons.prems by (auto simp: denotes_def local_parts_def Let_def split: option.splits)
    from Cons.IH [OF this] Cons.prems True show ?thesis by auto
  next
    case False
    then have "local_candidates L y m d h mi sec ds cs = Inr r"
      using Cons.prems
      by (auto simp: denotes_def local_parts_def Let_def res_simps split: option.splits if_splits)
    from Cons.IH [OF this] Cons.prems False show ?thesis by auto
  qed
qed auto

text \<open>
  A local wall-clock time is accepted only when it is unambiguous: the time returned
  displays as the fields that were given, and no other interpretation of the daylight flag
  gives a different time that does.
\<close>

lemma local_timestamp_unambiguous:
  assumes "local_timestamp L year month day hour minute second = Inr t"
  shows "denotes L year month day hour minute second t
    \<and> (\<forall>isdst \<in> {-1, 0, 1}. \<forall>t'. t' = mktime L (year - 1900) (month - 1) day hour minute second isdst
         \<and> denotes L year month day hour minute second t' \<longrightarrow> t' = t)"
proof -
  obtain cs where c: "local_candidates L year month day hour minute second [-1, 0, 1] [] = Inr cs"
    and k: "(case cs of [t] \<Rightarrow> Inr t
       | [] \<Rightarrow> Inl (Bail ''local time does not exist or is outside the platform range'')
       | _ \<Rightarrow> Inl (Bail ''ambiguous local time at a timezone transition'')) = Inr t"
    using assms unfolding local_timestamp_def by (auto simp only: res_simps)
  have "cs = [t]" using k by (auto split: list.splits)
  with local_candidates_set [OF c] show ?thesis by auto
qed

definition utc_libc :: libc_time where
  "utc_libc = \<lparr>mktime = (\<lambda>y m d h mi s dst. civil_days (y + 1900) (m + 1) d * 86400 + h * 3600 + mi * 60 + s),
     localtime = (\<lambda>t. if t = 60 then Some \<lparr>tm_year = 70, tm_mon = 0, tm_mday = 1, tm_hour = 0, tm_min = 1,
        tm_sec = 0, tm_gmtoff = 0\<rparr> else None)\<rparr>"

lemma local_timestamp_unambiguous_witness:
  "local_timestamp utc_libc 1970 1 1 0 1 0 = Inr 60 \<and> denotes utc_libc 1970 1 1 0 1 0 60"
proof -
  have "local_timestamp utc_libc 1970 1 1 0 1 0 = Inr 60"
    by (simp add: local_timestamp_def utc_libc_def civil_days_def local_parts_def same_parts_def)
  with local_timestamp_unambiguous [OF this] show ?thesis by blast
qed

end
