(* ===== verification/Nodes.thy ===== *)
theory Nodes
  imports Crates Rust_Net
begin

text \<open>
  The node catalog: \<open>src/nodes.rs\<close> (nodes, their validation, filters, the tolerant parser of
  the managed configuration), the selectors of \<open>src/surge.rs\<close> and the checks of ECH
  configurations and profiles in \<open>src/transport/ech.rs\<close>. YAML is a parameter: a document
  either has the outer shape and gives its list of node values, or it has not; a node value
  either has the schema of a node or it has not.
\<close>

record ObfsOptions =
  mode :: ustring
  sni :: ustring
  path :: ustring
  alpn :: ustring
  ech_config :: ustring
  identity_version :: byte
  legacy_fallback :: bool
  skip_cert_verify :: bool
  preconnect :: byte

record Proxy =
  name :: ustring
  proxy_type :: ustring
  server :: ustring
  port :: u16
  proxy_psk :: ustring
  proxy_version :: byte
  udp :: bool
  tfo :: bool
  proxy_reuse :: bool
  proxy_identity :: bool
  obfs :: ObfsOptions

subsection \<open>Selectors\<close>

definition NODE_SELECTOR_PREFIX :: ustring where
  "NODE_SELECTOR_PREFIX = ustr ''name-''"

definition is_safe_credential :: "ustring \<Rightarrow> bool" where
  "is_safe_credential v \<longleftrightarrow> v \<noteq> [] \<and> str_len v \<le> 255 \<and>
     list_all (\<lambda>b. url_safe_char (unat b)) (utf8 v)"

definition node_selector :: "text_crates \<Rightarrow> ustring \<Rightarrow> ustring res" where
  "node_selector T nm =
     (if nm = [] then Inl (Bail ''managed proxy name is invalid'')
      else
        let selector = NODE_SELECTOR_PREFIX @ b64url_encode T (utf8 nm) in
        if \<not> is_safe_credential selector
        then Inl (Bail ''managed proxy name is too long for a SOCKS5 selector'')
        else Inr selector)"

definition node_name_from_selector :: "text_crates \<Rightarrow> ustring \<Rightarrow> ustring res" where
  "node_name_from_selector T selector =
     and_then (ok_or (strip_prefix NODE_SELECTOR_PREFIX selector) (Bail ''node selector prefix is invalid'')) (\<lambda>encoded.
     and_then (ok_or (b64url_decode T encoded) (Bail ''node selector encoding is invalid'')) (\<lambda>decoded.
     if decoded = [] then Inl (Bail ''node selector encoding is invalid'')
     else ok_or (from_utf8 decoded) (Bail ''node selector encoding is invalid'')))"

subsection \<open>ECH configurations and profiles\<close>

definition MAX_ECH_CONFIG_LENGTH :: nat where
  "MAX_ECH_CONFIG_LENGTH = 65536"

definition ech_config_from_list :: "text_crates \<Rightarrow> bytes \<Rightarrow> bytes res" where
  "ech_config_from_list T bs =
     (if length bs < 4 \<or> length bs > MAX_ECH_CONFIG_LENGTH then Inl (Bail ''ECH config list size is invalid'')
      else if unat (from_be16 (bs ! 0) (bs ! 1)) \<noteq> length bs - 2
      then Inl (Bail ''ECH config list length does not match'')
      else if ech_supported T bs then Inr bs else Inl (Bail ''ECH config list is unsupported''))"

definition parse_ech_config :: "text_crates \<Rightarrow> ustring \<Rightarrow> bytes res" where
  "parse_ech_config T encoded =
     (if encoded = [] \<or> str_len encoded > (MAX_ECH_CONFIG_LENGTH + 2) div 3 * 4
      then Inl (Bail ''ECH config size is invalid'')
      else and_then (ok_or (b64_decode T encoded) (Bail ''ECH config is not valid Base64'')) (\<lambda>bs.
        ech_config_from_list T bs))"

definition validate_profile :: "Proxy \<Rightarrow> unit res" where
  "validate_profile p =
     (if proxy_type p \<noteq> ustr ''snell'' \<or> proxy_version p \<noteq> 4 \<or> \<not> proxy_identity p \<or> server p = []
         \<or> port p = 0 \<or> mode (obfs p) \<noteq> ustr ''ech-tls'' \<or> sni (obfs p) = [] \<or> path (obfs p) = []
         \<or> alpn (obfs p) \<noteq> ustr ''snell-ech/1'' \<or> identity_version (obfs p) \<noteq> 2
         \<or> legacy_fallback (obfs p) \<or> skip_cert_verify (obfs p)
      then Inl (Bail ''unsupported Snell ECH-TLS node configuration'')
      else Inr ())"

subsection \<open>Validation and parsing\<close>

definition validate :: "text_crates \<Rightarrow> Proxy \<Rightarrow> unit res" where
  "validate T p =
     (if str_trim (name p) = [] then Inl (Bail ''name is required'')
      else if proxy_type p \<noteq> ustr ''snell'' \<or> proxy_version p \<noteq> 4
      then Inl (Bail ''only Snell v4 nodes are supported'')
      else if str_trim (server p) = [] \<or> port p = 0 \<or> proxy_psk p = []
      then Inl (Bail ''server, port, and PSK are required'')
      else if \<not> proxy_identity p then Inl (Bail ''identity authentication is required'')
      else if mode (obfs p) \<noteq> ustr ''ech-tls'' \<or> alpn (obfs p) \<noteq> ustr ''snell-ech/1''
              \<or> identity_version (obfs p) \<noteq> 2 \<or> legacy_fallback (obfs p) \<or> skip_cert_verify (obfs p)
      then Inl (Bail ''unsupported ECH-TLS settings'')
      else if sni (obfs p) = [] \<or> path (obfs p) = [] \<or> ech_config (obfs p) = []
      then Inl (Bail ''SNI, path, and ECH config are required'')
      else and_then (parse_ech_config T (ech_config (obfs p))) (\<lambda>_.
           and_then (node_selector T (name p)) (\<lambda>_. Inr ())))"

text \<open>\<open>ManagedConfig::validate\<close>; the names seen so far are an argument of the loop.\<close>

fun validate_loop :: "text_crates \<Rightarrow> ustring set \<Rightarrow> Proxy list \<Rightarrow> unit res" where
  "validate_loop T names [] = Inr ()"
| "validate_loop T names (p # ps) =
     and_then (validate T p) (\<lambda>_.
     if name p \<in> names then Inl (Bail ''proxy has a duplicate name'')
     else validate_loop T (insert (name p) names) ps)"

definition config_validate :: "text_crates \<Rightarrow> Proxy list \<Rightarrow> unit res" where
  "config_validate T ps =
     (if ps = [] then Inl (Bail ''managed config contains no proxies'') else validate_loop T {} ps)"

record ('d, 'v) yaml =
  documents :: "bytes \<Rightarrow> 'd list"
  remote_proxies :: "'d \<Rightarrow> 'v list option"
  proxy_value :: "'v \<Rightarrow> Proxy option"

definition from_value :: "text_crates \<Rightarrow> ('d, 'v) yaml \<Rightarrow> 'v \<Rightarrow> Proxy res" where
  "from_value T Y v =
     and_then (ok_or (proxy_value Y v) (Bail ''does not match the expected schema'')) (\<lambda>p.
     and_then (validate T p) (\<lambda>_. Inr p))"

fun parse_loop :: "text_crates \<Rightarrow> ('d, 'v) yaml \<Rightarrow> ustring set \<Rightarrow> 'v list \<Rightarrow> Proxy list" where
  "parse_loop T Y names [] = []"
| "parse_loop T Y names (v # vs) =
     (case from_value T Y v of
        Inr p \<Rightarrow> if name p \<notin> names then p # parse_loop T Y (insert (name p) names) vs
                else parse_loop T Y names vs
      | Inl e \<Rightarrow> parse_loop T Y names vs)"

definition MAX_MANAGED_CONFIG_BYTES :: nat where
  "MAX_MANAGED_CONFIG_BYTES = 8388608"

definition managed_parse :: "text_crates \<Rightarrow> ('d, 'v) yaml \<Rightarrow> bytes \<Rightarrow> Proxy list res" where
  "managed_parse T Y content =
     (if content = [] \<or> length content > MAX_MANAGED_CONFIG_BYTES
      then Inl (Bail ''managed config size is invalid'')
      else case documents Y content of
        [] \<Rightarrow> Inl (Bail ''managed config does not match the expected YAML schema'')
      | d # rest \<Rightarrow>
          and_then (ok_or (remote_proxies Y d)
                      (Bail ''managed config does not match the expected YAML schema'')) (\<lambda>vs.
          if rest \<noteq> [] then Inl (Bail ''managed config contains multiple YAML documents'')
          else
            let ps = parse_loop T Y {} vs in
            and_then (config_validate T ps) (\<lambda>_. Inr ps)))"

subsection \<open>Filters\<close>

record NodeFilter =
  flines :: "ustring list"
  fregions :: "ustring list"
  finclude :: "ustring list"
  fexclude :: "ustring list"

definition alternatives :: "text_crates \<Rightarrow> ustring \<Rightarrow> ustring list res" where
  "alternatives T v =
     (if v = [] then Inr []
      else if str_len v > 4096 \<or> list_ex is_control v
      then Inl (Bail ''node filter is too long or contains control characters'')
      else
        let parts = map (\<lambda>p. lowercase T (str_trim p)) (split_char 124 v) in
        if length parts > 64 \<or> list_ex (\<lambda>p. p = []) parts
        then Inl (Bail ''node filter requires at most 64 nonempty alternatives separated by |'')
        else Inr parts)"

definition filter_new :: "text_crates \<Rightarrow> ustring \<Rightarrow> ustring \<Rightarrow> ustring \<Rightarrow> ustring \<Rightarrow> NodeFilter res" where
  "filter_new T lines regions incl excl =
     and_then (alternatives T lines) (\<lambda>ls.
     if list_ex (\<lambda>l. \<not> list_all ascii_alphanumeric l) ls
     then Inl (Bail ''node filter lines must be ASCII alphanumeric markers'')
     else
       and_then (alternatives T regions) (\<lambda>rs.
       and_then (alternatives T incl) (\<lambda>is.
       and_then (alternatives T excl) (\<lambda>es.
       Inr \<lparr>flines = ls, fregions = rs, finclude = is, fexclude = es\<rparr>))))"

definition is_custom :: "NodeFilter \<Rightarrow> bool" where
  "is_custom f \<longleftrightarrow> flines f \<noteq> [] \<or> fregions f \<noteq> [] \<or> finclude f \<noteq> [] \<or> fexclude f \<noteq> []"

definition is_allowed_node_name :: "text_crates \<Rightarrow> ustring \<Rightarrow> bool" where
  "is_allowed_node_name T nm \<longleftrightarrow>
     str_contains (ustr ''fusion'') (lowercase T nm)
     \<or> list_ex (\<lambda>tok. eq_ignore_ascii_case tok (ustr ''cia'')) (split_on (\<lambda>c. \<not> alphanumeric T c) nm)"

definition filter_matches :: "text_crates \<Rightarrow> NodeFilter \<Rightarrow> ustring \<Rightarrow> bool" where
  "filter_matches T f nm =
     (if \<not> is_custom f then is_allowed_node_name T nm
      else
        let lower = lowercase T nm;
            contains_any = (\<lambda>ps. list_ex (\<lambda>p. str_contains p lower) ps);
            line_matches = (flines f = []
              \<or> list_ex (\<lambda>tok. list_ex (\<lambda>l. eq_ignore_ascii_case tok l) (flines f))
                  (split_on (\<lambda>c. \<not> ascii_alphanumeric c) nm)) in
        line_matches \<and> (fregions f = [] \<or> contains_any (fregions f))
        \<and> (finclude f = [] \<or> contains_any (finclude f)) \<and> \<not> contains_any (fexclude f))"

datatype preview_mode = AllNodes | CustomFilter | DefaultFilter

record FilterPreview =
  pmode :: preview_mode
  total :: nat
  kept :: nat
  excluded :: nat
  pnodes :: "ustring list"

definition preview :: "text_crates \<Rightarrow> NodeFilter \<Rightarrow> Proxy list \<Rightarrow> bool \<Rightarrow> FilterPreview" where
  "preview T f ps all_nodes =
     (let nodes = map name (filter (\<lambda>p. all_nodes \<or> filter_matches T f (name p)) ps) in
      \<lparr>pmode = (if all_nodes then AllNodes else if is_custom f then CustomFilter else DefaultFilter),
       total = length ps, kept = length nodes, excluded = length ps - length nodes, pnodes = nodes\<rparr>)"

definition allowed_proxies :: "text_crates \<Rightarrow> Proxy list \<Rightarrow> Proxy list" where
  "allowed_proxies T ps = filter (\<lambda>p. is_allowed_node_name T (name p)) ps"

definition filtered_proxies :: "text_crates \<Rightarrow> Proxy list \<Rightarrow> NodeFilter \<Rightarrow> Proxy list res" where
  "filtered_proxies T ps f =
     (let kept_nodes = filter (\<lambda>p. filter_matches T f (name p)) ps in
      if kept_nodes = [] then Inl (Bail ''node filter kept no nodes; use preview-nodes to inspect the selection'')
      else Inr kept_nodes)"

definition filter_allowed_nodes :: "text_crates \<Rightarrow> Proxy list \<Rightarrow> Proxy list res" where
  "filter_allowed_nodes T ps =
     (let kept_nodes = allowed_proxies T ps in
      if kept_nodes = [] then Inl (Bail ''managed config contains no allowed Fusion/CIA proxies'')
      else Inr kept_nodes)"

subsection \<open>Selectors identify nodes\<close>

lemma node_selector_Inr:
  assumes "node_selector T nm = Inr s"
  shows "s = NODE_SELECTOR_PREFIX @ b64url_encode T (utf8 nm)" "is_safe_credential s" "nm \<noteq> []"
  using assms by (auto simp: node_selector_def Let_def split: if_splits)

lemma selector_decodes:
  assumes "b64url_laws T" "list_all scalar nm" "node_selector T nm = Inr s"
  shows "node_name_from_selector T s = Inr nm"
  using node_selector_Inr [OF assms(3)] assms(1,2)
  by (simp add: node_name_from_selector_def strip_prefix_Some [THEN iffD2, OF refl] b64url_laws_def from_utf8_utf8)

lemma selector_inj:
  "b64url_laws T \<Longrightarrow> list_all scalar nm \<Longrightarrow> list_all scalar nm' \<Longrightarrow> node_selector T nm = Inr s
    \<Longrightarrow> node_selector T nm' = Inr s \<Longrightarrow> nm' = nm"
  using selector_decodes by (metis sum.inject(2))

text \<open>
  A selector stands for exactly one node: it decodes to the name it was made from, two
  names never share one, and it consists of at most 255 letters, digits, minus signs and
  underscores, so it can be a SOCKS5 user name.
\<close>

lemma node_selector_round_trip:
  assumes "b64url_laws T" "list_all scalar nm" "node_selector T nm = Inr s"
  shows "node_name_from_selector T s = Inr nm \<and> is_safe_credential s
    \<and> (\<forall>nm'. list_all scalar nm' \<and> node_selector T nm' = Inr s \<longrightarrow> nm' = nm)"
  using selector_decodes [OF assms] node_selector_Inr(2) [OF assms(3)] selector_inj [OF assms(1,2) _ assms(3)] by blast

lemma utf8_safe:
  assumes "list_all url_safe_char v"
  shows "list_all (\<lambda>b. url_safe_char (unat b)) (utf8 v)" "str_len v = length v"
proof -
  have "list_all (\<lambda>c. c < 128) v"
    using assms by (auto simp: list_all_iff url_safe_char_def ascii_defs)
  then have u: "utf8 v = map of_nat v" and small: "\<forall>c \<in> set v. c < 128"
    using utf8_ascii by (auto simp: list_all_iff)
  have "unat (of_nat c :: byte) = c" if "c \<in> set v" for c
    using small that by (force simp: unat_of_nat_byte)
  then show "list_all (\<lambda>b. url_safe_char (unat b)) (utf8 v)"
    using assms by (auto simp: u list_all_iff)
  show "str_len v = length v" by (simp add: str_len_def u)
qed

lemma prefix_safe: "list_all url_safe_char NODE_SELECTOR_PREFIX" "length NODE_SELECTOR_PREFIX = 5"
  by (simp_all add: NODE_SELECTOR_PREFIX_def ustr_def url_safe_char_def ascii_defs)

lemma sample_selector:
  assumes "nm \<noteq> []" "length (utf8 nm) \<le> 125"
  shows "node_selector sample_text nm = Inr (NODE_SELECTOR_PREFIX @ nibbles (utf8 nm))"
proof -
  have "length (nibbles b) = 2 * length b" for b by (induction b) simp_all
  moreover have "list_all url_safe_char (NODE_SELECTOR_PREFIX @ nibbles (utf8 nm))"
    using prefix_safe sample_b64url_laws by (simp add: b64url_laws_def sample_text_def)
  ultimately show ?thesis
    using assms utf8_safe [of "NODE_SELECTOR_PREFIX @ nibbles (utf8 nm)"] prefix_safe(2)
    by (auto simp: node_selector_def is_safe_credential_def sample_text_def)
qed

lemma node_selector_round_trip_witness:
  "\<exists>s. node_selector sample_text [88, 8364] = Inr s \<and> node_name_from_selector sample_text s = Inr [88, 8364]
    \<and> is_safe_credential s"
proof -
  have "length (utf8 [88, 8364]) \<le> 125" by (simp add: utf8_def utf8_char_def)
  note sel = sample_selector [OF _ this]
  show ?thesis
    using sel node_selector_round_trip [OF sample_b64url_laws _ sel] by (simp add: scalar_def)
qed

subsection \<open>The tolerant parser\<close>

definition valid_nodes :: "text_crates \<Rightarrow> ('d, 'v) yaml \<Rightarrow> 'v list \<Rightarrow> Proxy list" where
  "valid_nodes T Y vs = concat (map (\<lambda>v. case from_value T Y v of Inr p \<Rightarrow> [p] | Inl _ \<Rightarrow> []) vs)"

lemma from_value_valid: "from_value T Y v = Inr p \<Longrightarrow> validate T p = Inr ()"
  by (auto simp: from_value_def res_simps)

lemma valid_nodes_valid: "p \<in> set (valid_nodes T Y vs) \<Longrightarrow> validate T p = Inr ()"
  by (auto simp: valid_nodes_def from_value_valid split: sum.splits)

lemma parse_loop_dedup: "parse_loop T Y names vs = dedup_by name names (valid_nodes T Y vs)"
  by (induction vs arbitrary: names) (auto simp: valid_nodes_def split: sum.splits)

lemma validate_loop_ok:
  assumes "\<forall>p \<in> set ps. validate T p = Inr ()" "distinct (map name ps)" "name ` set ps \<inter> names = {}"
  shows "validate_loop T names ps = Inr ()"
  using assms by (induction ps arbitrary: names) auto

lemma dedup_by_Nil_iff: "dedup_by f {} xs = [] \<longleftrightarrow> xs = []"
  by (cases xs) simp_all

text \<open>
  C9: One node the client cannot use does not take the others offline. For a document of
  the right size and outer shape the catalog is exactly its usable nodes, in order, each
  name once; it is an error only when no node is usable. In particular removing or adding
  unusable nodes changes nothing.
\<close>

theorem managed_parse_keeps_usable_nodes:
  assumes "content \<noteq> []" "length content \<le> MAX_MANAGED_CONFIG_BYTES"
    and "documents Y content = [d]" "remote_proxies Y d = Some vs"
  shows "managed_parse T Y content =
    (if valid_nodes T Y vs = [] then Inl (Bail ''managed config contains no proxies'')
     else Inr (dedup_by name {} (valid_nodes T Y vs)))"
proof -
  let ?ps = "dedup_by name {} (valid_nodes T Y vs)"
  have "\<forall>p \<in> set ?ps. validate T p = Inr ()"
    using dedup_by_subset valid_nodes_valid by fast
  then have "validate_loop T {} ?ps = Inr ()"
    by (intro validate_loop_ok) (auto simp: dedup_by_distinct)
  then show ?thesis
    using assms by (simp add: managed_parse_def config_validate_def parse_loop_dedup dedup_by_Nil_iff)
qed

definition good_proxy :: "ustring \<Rightarrow> Proxy" where
  "good_proxy nm = \<lparr>name = nm, proxy_type = ustr ''snell'', server = ustr ''h'', port = 443, proxy_psk = ustr ''k'',
     proxy_version = 4, udp = True, tfo = False, proxy_reuse = True, proxy_identity = True,
     obfs = \<lparr>mode = ustr ''ech-tls'', sni = ustr ''s'', path = ustr ''/'', alpn = ustr ''snell-ech/1'',
       ech_config = nibbles [0, 2, 1, 1], identity_version = 2, legacy_fallback = False,
       skip_cert_verify = False, preconnect = 0\<rparr>\<rparr>"

definition demo_yaml :: "(Proxy option list, Proxy option) yaml" where
  "demo_yaml = \<lparr>documents = (\<lambda>_. [[Some (good_proxy [88]), None, Some (good_proxy [88]), Some (good_proxy [89])]]),
     remote_proxies = Some, proxy_value = (\<lambda>v. v)\<rparr>"

theorem managed_parse_keeps_usable_nodes_witness:
  "managed_parse sample_text demo_yaml [1] =
    (if valid_nodes sample_text demo_yaml [Some (good_proxy [88]), None, Some (good_proxy [88]), Some (good_proxy [89])] = []
     then Inl (Bail ''managed config contains no proxies'')
     else Inr (dedup_by name {} (valid_nodes sample_text demo_yaml
       [Some (good_proxy [88]), None, Some (good_proxy [88]), Some (good_proxy [89])])))"
  by (rule managed_parse_keeps_usable_nodes) (simp_all add: demo_yaml_def MAX_MANAGED_CONFIG_BYTES_def)

lemma managed_parse_valid:
  assumes "managed_parse T Y content = Inr ps"
  shows "ps \<noteq> []" "distinct (map name ps)" "\<forall>p \<in> set ps. validate T p = Inr ()"
proof -
  obtain vs where ps: "ps = dedup_by name {} (valid_nodes T Y vs)" "config_validate T ps = Inr ()"
    using assms
    by (auto simp: managed_parse_def res_simps Let_def parse_loop_dedup split: if_splits list.splits)
  then show "ps \<noteq> []" by (auto simp: config_validate_def)
  show "distinct (map name ps)" unfolding ps(1) by (rule dedup_by_distinct)
  show "\<forall>p \<in> set ps. validate T p = Inr ()"
    unfolding ps(1) using dedup_by_subset valid_nodes_valid by fast
qed

lemma validate_accepted:
  assumes "validate T p = Inr ()"
  shows "validate_profile p = Inr ()" "\<exists>bs. parse_ech_config T (ech_config (obfs p)) = Inr bs"
    "\<exists>s. node_selector T (name p) = Inr s" "proxy_psk p \<noteq> []"
proof -
  have "str_trim (server p) \<noteq> []" using assms by (auto simp: validate_def split: if_splits)
  then have "server p \<noteq> []" by (auto simp: str_trim_def trim_by_Nil_iff)
  then show "validate_profile p = Inr ()"
    using assms by (auto simp: validate_def validate_profile_def split: if_splits)
  show "\<exists>bs. parse_ech_config T (ech_config (obfs p)) = Inr bs" "\<exists>s. node_selector T (name p) = Inr s"
    "proxy_psk p \<noteq> []"
    using assms by (auto simp: validate_def res_simps split: if_splits)
qed

end
