(* ===== verification/Config.thy ===== *)
theory Config
  imports Nodes Snell_Client
begin

text \<open>
  The runtime settings of \<open>src/config.rs\<close>. Durations are in nanoseconds, URLs are their text.
\<close>

record RuntimeConfig =
  access_token :: ustring
  app_secret :: ustring
  api_base_url :: ustring
  api_fallback_urls :: "ustring list"
  node_filter :: NodeFilter
  listen_address :: ip
  serve_port :: u16
  map_base_port :: u16
  request_timeout :: nat
  tcp_idle_timeout :: nat
  udp_idle_timeout :: nat
  allow_remote_access :: bool
  allow_remote_raw_provider :: bool
  socks_username :: ustring
  socks_password :: ustring
  max_client_connections :: nat
  dial_concurrency :: nat
  per_node_dial_concurrency :: nat
  reuse_max_idle :: nat
  reuse_max_uses :: nat
  reuse_idle_timeout :: nat
  perf_trace_sample_every :: nat

definition same_client_settings :: "RuntimeConfig \<Rightarrow> RuntimeConfig \<Rightarrow> bool" where
  "same_client_settings c d \<longleftrightarrow>
     access_token c = access_token d \<and> request_timeout c = request_timeout d
     \<and> dial_concurrency c = dial_concurrency d
     \<and> per_node_dial_concurrency c = per_node_dial_concurrency d
     \<and> reuse_max_idle c = reuse_max_idle d \<and> reuse_max_uses c = reuse_max_uses d
     \<and> reuse_idle_timeout c = reuse_idle_timeout d"

subsection \<open>UDP relay ports\<close>

record UdpPortRange =
  range_start :: u16
  range_end :: u16

definition port_count :: "UdpPortRange \<Rightarrow> nat" where
  "port_count r = unat (range_end r - range_start r) + 1"

definition parse_udp_port_range :: "ustring \<Rightarrow> UdpPortRange res" where
  "parse_udp_port_range v =
     (case split_once 45 v of
        None \<Rightarrow> Inl (Bail ''udp-port-range must use START-END'')
      | Some (a, b) \<Rightarrow>
          if a = [] \<or> b = [] \<or> 45 \<in> set b then Inl (Bail ''udp-port-range must use START-END'')
          else
            and_then (ok_or (parse_u16 a) (Bail ''udp-port-range start must be between 1 and 65535'')) (\<lambda>start.
            and_then (ok_or (parse_u16 b) (Bail ''udp-port-range end must be between 1 and 65535'')) (\<lambda>stop.
            if start = 0 \<or> stop = 0 \<or> stop < start
            then Inl (Bail ''udp-port-range must be an ordered non-zero START-END range'')
            else
              let range = \<lparr>range_start = start, range_end = stop\<rparr> in
              if port_count range > 4096 then Inl (Bail ''udp-port-range cannot contain more than 4096 ports'')
              else Inr range)))"

definition parse_udp_advertise_address :: "ustring \<Rightarrow> ip \<Rightarrow> ip res" where
  "parse_udp_advertise_address v bind_ip =
     and_then (ok_or (parse_ip v) (Bail ''udp-advertise-address must be a specific, non-multicast numeric IP'')) (\<lambda>a.
     if is_unspecified a \<or> is_multicast a
     then Inl (Bail ''udp-advertise-address must be a specific, non-multicast numeric IP'')
     else if is_ipv4 a \<noteq> is_ipv4 bind_ip
     then Inl (Bail ''udp-advertise-address and outbound-ip must use the same IP family'')
     else Inr a)"

subsection \<open>The service configuration\<close>

record ProxyConfig =
  pc_runtime :: RuntimeConfig
  pc_listen :: socket_addr
  pc_nodelist_listen :: socket_addr
  pc_outbound_ip :: ip
  pc_udp_port_range :: "UdpPortRange option"
  pc_udp_advertise_address :: "ip option"
  pc_node_refresh_interval :: nat

subsection \<open>Accepted port ranges\<close>

definition range_ok :: "UdpPortRange \<Rightarrow> bool" where
  "range_ok r \<longleftrightarrow> range_start r \<noteq> 0 \<and> range_start r \<le> range_end r \<and> port_count r \<le> 4096"

lemma parse_udp_port_range_ok: "parse_udp_port_range v = Inr r \<Longrightarrow> range_ok r"
  by (auto simp: parse_udp_port_range_def range_ok_def res_simps Let_def split: option.splits if_splits)

lemma port_count_range:
  assumes "range_ok r"
  shows "port_count r = unat (range_end r) - unat (range_start r) + 1" "unat (range_start r) + port_count r \<le> 65536"
proof -
  have le: "range_start r \<le> range_end r" using assms by (simp add: range_ok_def)
  then show c: "port_count r = unat (range_end r) - unat (range_start r) + 1"
    by (simp add: port_count_def unat_sub)
  have "unat (range_end r) < 65536" using unsigned_less [of "range_end r"] by simp
  then show "unat (range_start r) + port_count r \<le> 65536" using c le by (simp add: word_le_nat_alt)
qed

end
