(* ===== verification/Providers.thy ===== *)
theory Providers
  imports Nodes
begin

text \<open>
  The documents published to other proxies: \<open>src/surge.rs\<close>, \<open>src/clash.rs\<close>
  and the subscription header of \<open>src/subscription.rs\<close>.
\<close>

datatype ProviderProtocol = Http | Socks5

subsection \<open>Policy names\<close>

definition sanitize_policy_name :: "ustring \<Rightarrow> ustring" where
  "sanitize_policy_name nm =
     (let replaced = map (\<lambda>c. if c = 61 \<or> c = 44 \<or> is_control c then 32 else c) nm;
          sanitized = join_with [32] (split_whitespace replaced) in
      if sanitized = [] then ustr ''Node'' else sanitized)"

text \<open>
  The loop over the nodes: sanitized names with selectors, and an error for a selector seen
  before. A name that occurs more than once gets its selector in brackets.
\<close>

fun render_entries :: "text_crates \<Rightarrow> string \<Rightarrow> ustring set \<Rightarrow> Proxy list \<Rightarrow> (ustring \<times> ustring) list res" where
  "render_entries T collision selectors [] = Inr []"
| "render_entries T collision selectors (p # ps) =
     and_then (node_selector T (name p)) (\<lambda>selector.
     if selector \<in> selectors then Inl (Bail collision)
     else and_then (render_entries T collision (insert selector selectors) ps) (\<lambda>es.
       Inr ((sanitize_policy_name (name p), selector) # es)))"

definition policy_name :: "(ustring \<times> ustring) list \<Rightarrow> ustring \<times> ustring \<Rightarrow> ustring" where
  "policy_name es e =
     (case e of (policy, selector) \<Rightarrow>
        if count_list (map fst es) policy > 1 then policy @ ustr '' ['' @ selector @ ustr '']'' else policy)"

definition check_provider :: "string \<Rightarrow> string \<Rightarrow> string \<Rightarrow> string \<Rightarrow> Proxy list \<Rightarrow> ustring \<Rightarrow> u16 \<Rightarrow> ustring \<Rightarrow> unit res" where
  "check_provider bad_ip bad_port no_node bad_secret ps listen prt secret =
     and_then (ok_or (parse_ip listen) (Bail bad_ip)) (\<lambda>a.
     if is_unspecified a \<or> is_multicast a then Inl (Bail bad_ip)
     else if prt = 0 then Inl (Bail bad_port)
     else if ps = [] then Inl (Bail no_node)
     else if \<not> is_safe_credential secret then Inl (Bail bad_secret)
     else Inr ())"

subsection \<open>Surge\<close>

definition surge_line ::
  "ProviderProtocol \<Rightarrow> ustring \<Rightarrow> u16 \<Rightarrow> ustring \<Rightarrow> bool \<Rightarrow> ustring \<Rightarrow> ustring \<Rightarrow> Proxy \<Rightarrow> ustring" where
  "surge_line protocol listen prt secret udp_relay_advertised policy selector p =
     policy @ (case protocol of Http \<Rightarrow> ustr '' = http, '' | Socks5 \<Rightarrow> ustr '' = socks5, '')
     @ listen @ ustr '', '' @ show_nat (unat prt) @ ustr '', '' @ selector @ ustr '', '' @ secret
     @ (if protocol = Socks5 \<and> udp p \<and> udp_relay_advertised
        then ustr '', udp-relay=true, test-udp=example.com@1.1.1.1'' else [])"

definition surge_render ::
  "text_crates \<Rightarrow> Proxy list \<Rightarrow> ustring \<Rightarrow> u16 \<Rightarrow> ustring \<Rightarrow> ProviderProtocol \<Rightarrow> bool \<Rightarrow> bytes res" where
  "surge_render T ps listen prt secret protocol udp_relay_advertised =
     and_then (check_provider ''Surge provider requires a specific numeric listen IP''
       ''Surge provider listen port cannot be zero'' ''Surge provider requires at least one node''
       ''Surge provider routing secret is invalid'' ps listen prt secret) (\<lambda>_.
     and_then (render_entries T ''Surge provider selector collision'' {} ps) (\<lambda>es.
     Inr (utf8 (concat (map (\<lambda>(p, e).
        surge_line protocol listen prt secret udp_relay_advertised (policy_name es e) (snd e) p @ [10])
        (zip ps es))))))"

subsection \<open>Clash\<close>

definition hex4 :: "nat \<Rightarrow> ustring" where
  "hex4 n = (let s = show_hex n in replicate (4 - length s) 48 @ s)"

definition yaml_escape :: "uchar \<Rightarrow> ustring" where
  "yaml_escape c =
     (if c = 34 then [92, 34] else if c = 92 then [92, 92]
      else if c < 32 then [92, 117] @ hex4 c else [c])"

definition yaml_quote :: "ustring \<Rightarrow> ustring" where
  "yaml_quote v = [34] @ concat (map yaml_escape v) @ [34]"

definition show_bool :: "bool \<Rightarrow> ustring" where
  "show_bool b = (if b then ustr ''true'' else ustr ''false'')"

definition clash_entry ::
  "ProviderProtocol \<Rightarrow> ustring \<Rightarrow> u16 \<Rightarrow> ustring \<Rightarrow> bool \<Rightarrow> ustring \<Rightarrow> ustring \<Rightarrow> Proxy \<Rightarrow> ustring list" where
  "clash_entry protocol listen prt secret udp_relay_advertised policy selector p =
     [ustr ''- name: '' @ yaml_quote policy,
      (case protocol of Http \<Rightarrow> ustr ''  type: http'' | Socks5 \<Rightarrow> ustr ''  type: socks5''),
      ustr ''  server: '' @ listen,
      ustr ''  port: '' @ show_nat (unat prt),
      ustr ''  username: '' @ selector,
      ustr ''  password: '' @ secret]
     @ (case protocol of Http \<Rightarrow> [] | Socks5 \<Rightarrow> [ustr ''  udp: '' @ show_bool (udp p \<and> udp_relay_advertised)])"

definition clash_render ::
  "text_crates \<Rightarrow> Proxy list \<Rightarrow> ustring \<Rightarrow> u16 \<Rightarrow> ustring \<Rightarrow> ProviderProtocol \<Rightarrow> bool \<Rightarrow> bytes res" where
  "clash_render T ps listen prt secret protocol udp_relay_advertised =
     and_then (check_provider ''Clash provider requires a specific numeric listen IP''
       ''Clash provider listen port cannot be zero'' ''Clash provider requires at least one node''
       ''Clash provider routing secret is invalid'' ps listen prt secret) (\<lambda>_.
     and_then (render_entries T ''Clash provider selector collision'' {} ps) (\<lambda>es.
     Inr (utf8 (concat (map (\<lambda>l. l @ [10]) (ustr ''proxies:'' # concat (map (\<lambda>(p, e).
        clash_entry protocol listen prt secret udp_relay_advertised (policy_name es e) (snd e) p)
        (zip ps es))))))))"

subsection \<open>Subscriptions\<close>

record UserInfo =
  upload :: nat
  download :: nat
  quota :: nat
  expire :: "nat option"

definition userinfo_valid :: "UserInfo \<Rightarrow> bool" where
  "userinfo_valid u \<longleftrightarrow> upload u + download u < 2 ^ 64
     \<and> (case expire u of None \<Rightarrow> True | Some t \<Rightarrow> t \<le> 253402300799)"

fun userinfo_fields :: "ustring list \<Rightarrow> (ustring \<rightharpoonup> nat) \<Rightarrow> (ustring \<rightharpoonup> nat) option" where
  "userinfo_fields [] found = Some found"
| "userinfo_fields (part # parts) found =
     (case split_once 61 part of
        None \<Rightarrow> None
      | Some (k, v) \<Rightarrow>
          let key = str_trim k; val = str_trim v in
          if key \<notin> {ustr ''upload'', ustr ''download'', ustr ''total'', ustr ''expire''}
             \<or> val = [] \<or> \<not> list_all (\<lambda>b. ascii_digit (unat b)) (utf8 val)
          then None
          else (case parse_u64 val of
                  None \<Rightarrow> None
                | Some n \<Rightarrow>
                    if found key \<noteq> None then None else userinfo_fields parts (found(key \<mapsto> n))))"

definition userinfo_parse :: "ustring \<Rightarrow> UserInfo option" where
  "userinfo_parse v =
     (if str_len v > 2048 \<or> list_ex is_control v then None
      else
        Option.bind (userinfo_fields (filter (\<lambda>p. str_trim p \<noteq> []) (split_char 59 v)) Map.empty) (\<lambda>found.
        Option.bind (found (ustr ''upload'')) (\<lambda>u.
        Option.bind (found (ustr ''download'')) (\<lambda>d.
        Option.bind (found (ustr ''total'')) (\<lambda>t.
        let info = \<lparr>upload = u, download = d, quota = t, expire = found (ustr ''expire'')\<rparr> in
        if userinfo_valid info then Some info else None)))))"

definition MAX_USERINFO_AGE :: nat where
  "MAX_USERINFO_AGE = 86400"

definition userinfo_header :: "UserInfo \<Rightarrow> nat option \<Rightarrow> nat \<Rightarrow> ustring option" where
  "userinfo_header u fetched_at now =
     Option.bind fetched_at (\<lambda>at.
     if now < at then None
     else if now - at > MAX_USERINFO_AGE \<or> \<not> userinfo_valid u then None
     else Some (ustr ''upload='' @ show_nat (upload u) @ ustr ''; download='' @ show_nat (download u)
            @ ustr ''; total='' @ show_nat (quota u)
            @ (case expire u of None \<Rightarrow> [] | Some t \<Rightarrow> ustr ''; expire='' @ show_nat t)))"

subsection \<open>Characters of the parts\<close>

definition plain_char :: "uchar \<Rightarrow> bool" where
  "plain_char c \<longleftrightarrow> c \<noteq> 44 \<and> c \<noteq> 61 \<and> \<not> is_control c"

lemma join_with_set: "set (join_with sep ws) \<subseteq> set sep \<union> \<Union> (set ` set ws)"
  by (induction sep ws rule: join_with.induct) auto

lemma sanitize_plain: "list_all plain_char (sanitize_policy_name nm)"
proof -
  let ?r = "map (\<lambda>c. if c = 61 \<or> c = 44 \<or> is_control c then 32 else c) nm"
  have r: "plain_char c" if "c \<in> set ?r" for c
    using that by (auto simp: plain_char_def is_control_def)
  have "plain_char c" if "c \<in> set (join_with [32] (split_whitespace ?r))" for c
  proof -
    have "c = 32 \<or> (\<exists>w \<in> set (split_whitespace ?r). c \<in> set w)"
      using that join_with_set [of "[32]" "split_whitespace ?r"] by auto
    moreover have "set w \<subseteq> set ?r" if "w \<in> set (split_whitespace ?r)" for w
      using that split_on_subset [of w is_whitespace ?r] by (simp add: split_whitespace_def)
    moreover have "plain_char 32" by (simp add: plain_char_def is_control_def)
    ultimately show ?thesis using r by blast
  qed
  then show ?thesis
    by (auto simp: sanitize_policy_name_def Let_def list_all_iff)
      (auto simp: ustr_def plain_char_def is_control_def)
qed

lemma url_safe_plain: "list_all url_safe_char v \<Longrightarrow> list_all plain_char v"
  by (auto simp: list_all_iff url_safe_char_def ascii_defs plain_char_def is_control_def)

lemma digits_plain: "list_all plain_char (show_nat n)"
  using show_nat_digits [of n] by (auto simp: list_all_iff ascii_digit_def plain_char_def is_control_def)

lemma policy_name_plain:
  "list_all plain_char (fst e) \<Longrightarrow> list_all plain_char (snd e) \<Longrightarrow> list_all plain_char (policy_name es e)"
  by (cases e) (auto simp: policy_name_def ustr_def plain_char_def is_control_def)

text \<open>A credential's bytes are ASCII, so its characters are.\<close>

lemma utf8_char_ascii_bytes: "(\<forall>b \<in> set (utf8_char c). unat b < 128) \<Longrightarrow> scalar c \<Longrightarrow> c < 128 \<and> utf8_char c = [of_nat c]"
proof -
  assume a: "\<forall>b \<in> set (utf8_char c). unat b < 128" "scalar c"
  have "c < 128"
  proof (rule ccontr)
    assume ge: "\<not> c < 128"
    then have "0x80 \<le> unat (last (utf8_char c))"
      by (auto simp: utf8_char_def unat_of_nat_byte simp del: of_nat_add)
    moreover have "last (utf8_char c) \<in> set (utf8_char c)" by simp
    ultimately show False using a(1) by fastforce
  qed
  then show ?thesis by (simp add: utf8_char_def)
qed

lemma ascii_bytes_chars:
  assumes "list_all (\<lambda>b. url_safe_char (unat b)) (utf8 v)" "list_all scalar v"
  shows "list_all url_safe_char v"
proof -
  have "url_safe_char c" if c: "c \<in> set v" for c
  proof -
    have sub: "set (utf8_char c) \<subseteq> set (utf8 v)" using c by (auto simp: utf8_def)
    have "unat b < 128" if "b \<in> set (utf8 v)" for b
      using assms(1) that by (auto simp: list_all_iff url_safe_char_def ascii_defs)
    then have u: "c < 128" "utf8_char c = [of_nat c]"
      using utf8_char_ascii_bytes [of c] sub assms(2) c by (auto simp: list_all_iff)
    then have "of_nat c \<in> set (utf8 v)" using sub by simp
    then have "url_safe_char (unat (of_nat c :: byte))" using assms(1) by (auto simp: list_all_iff)
    then show ?thesis using u by (simp add: unat_of_nat_byte)
  qed
  then show ?thesis by (simp add: list_all_iff)
qed

lemma safe_credential_chars:
  "is_safe_credential v \<Longrightarrow> list_all scalar v \<Longrightarrow> list_all url_safe_char v"
  using ascii_bytes_chars by (simp add: is_safe_credential_def)

text \<open>The characters of a text that parses as an address.\<close>

definition ip_char :: "uchar \<Rightarrow> bool" where
  "ip_char c \<longleftrightarrow> digit_val c < 16 \<or> c = 46 \<or> c = 58"

definition consumes :: "ustring \<Rightarrow> ustring \<Rightarrow> bool" where
  "consumes s r \<longleftrightarrow> (\<exists>p. s = p @ r \<and> list_all ip_char p)"

lemma consumes_refl [simp]: "consumes s s"
  by (simp add: consumes_def)

lemma consumes_trans: "consumes s t \<Longrightarrow> consumes t u \<Longrightarrow> consumes s u"
  by (fastforce simp: consumes_def)

lemma consumes_number:
  assumes "read_number r mx d z s = Some (n, t)" "r \<le> 16"
  shows "consumes s t"
proof -
  have "s = takeWhile (\<lambda>c. digit_val c < r) s @ t"
    using assms(1) by (auto simp: read_number_def Let_def split: if_splits)
  moreover have "list_all ip_char (takeWhile (\<lambda>c. digit_val c < r) s)"
    using assms(2) by (auto simp: list_all_iff ip_char_def dest!: set_takeWhileD)
  ultimately show ?thesis unfolding consumes_def by blast
qed

lemma consumes_char: "read_given_char c s = Some t \<Longrightarrow> ip_char c \<Longrightarrow> consumes s t"
  by (auto simp: read_given_char_def consumes_def split: list.splits if_splits intro: exI [of _ "[c]"])

lemma consumes_separator:
  assumes "read_separator sep i f s = Some (x, t)" "ip_char sep" "\<And>s x t. f s = Some (x, t) \<Longrightarrow> consumes s t"
  shows "consumes s t"
  using assms
  by (auto simp: read_separator_def bind_eq_Some_conv split: if_splits intro: consumes_trans dest!: consumes_char)

lemma ip_char_sep [simp]: "ip_char 46" "ip_char 58"
  by (simp_all add: ip_char_def)

lemma consumes_octet: "read_octet i s = Some (n, t) \<Longrightarrow> consumes s t"
  unfolding read_octet_def by (erule consumes_separator) (auto intro: consumes_number)

lemma consumes_ipv4: "read_ipv4 s = Some (os, t) \<Longrightarrow> consumes s t"
  by (auto simp: read_ipv4_def bind_eq_Some_conv intro: consumes_trans dest!: consumes_octet)

lemma consumes_groups: "read_groups n i s = (gs, v4, t) \<Longrightarrow> consumes s t"
proof (induction n arbitrary: i s gs v4 t)
  case (Suc left)
  let ?a = "if 1 \<le> left then read_separator 58 i read_ipv4 s else None"
  let ?b = "read_separator 58 i (read_number 16 65535 4 True) s"
  show ?case
  proof (cases "\<exists>a b c d u. ?a = Some ([a, b, c, d], u)")
    case True
    then obtain a b c d u where u: "?a = Some ([a, b, c, d], u)" by blast
    then have "t = u" using Suc.prems by (simp del: One_nat_def)
    moreover have "consumes s u"
      using u by (auto split: if_splits intro: consumes_separator [of 58 i read_ipv4] consumes_ipv4)
    ultimately show ?thesis by simp
  next
    case False
    then have st: "read_groups (Suc left) i s = (case ?b of None \<Rightarrow> ([], False, s)
        | Some (g, s) \<Rightarrow> (case read_groups left (Suc i) s of (gs, v4, s) \<Rightarrow> (g # gs, v4, s)))"
      by (auto split: option.splits list.splits)
    show ?thesis
    proof (cases ?b)
      case None
      with st Suc.prems show ?thesis by simp
    next
      case (Some x)
      obtain g u where x: "x = (g, u)" by fastforce
      obtain gs' v' w where r: "read_groups left (Suc i) u = (gs', v', w)" by (metis prod_cases3)
      have "t = w" using st Suc.prems Some x r by simp
      moreover have "consumes s u"
        using Some x by (auto intro: consumes_separator [of 58 i "read_number 16 65535 4 True"] consumes_number)
      moreover have "consumes u w" using Suc.IH [OF r] .
      ultimately show ?thesis by (metis consumes_trans)
    qed
  qed
qed simp

lemma consumes_ipv6:
  assumes "read_ipv6 s = Some (gs, t)"
  shows "consumes s t"
proof -
  obtain hs v4 s1 where h: "read_groups 8 0 s = (hs, v4, s1)" by (metis prod_cases3)
  have c1: "consumes s s1" using consumes_groups [OF h] .
  show ?thesis
  proof (cases "length hs = 8")
    case True
    with assms h c1 show ?thesis by (simp add: read_ipv6_def)
  next
    case False
    then obtain s2 s3 where s: "read_given_char 58 s1 = Some s2" "read_given_char 58 s2 = Some s3"
      using assms h by (auto simp: read_ipv6_def bind_eq_Some_conv split: if_splits)
    obtain ts v s4 where r: "read_groups (8 - (length hs + 1)) 0 s3 = (ts, v, s4)" by (metis prod_cases3)
    have "t = s4" using assms h False s r by (simp add: read_ipv6_def split: if_splits)
    with consumes_groups [OF r] consumes_char [OF s(1)] consumes_char [OF s(2)] c1
    show ?thesis by (metis consumes_trans ip_char_sep(2))
  qed
qed

lemma parse_ip_chars: "parse_ip s = Some a \<Longrightarrow> list_all ip_char s"
proof -
  assume "parse_ip s = Some a"
  then have "consumes s []"
    by (auto simp: parse_ip_def split: option.splits if_splits dest!: consumes_ipv4 consumes_ipv6)
  then show ?thesis by (simp add: consumes_def)
qed

lemma ip_char_plain: "ip_char c \<Longrightarrow> plain_char c"
  by (auto simp: ip_char_def digit_val_def ascii_digit_def plain_char_def is_control_def split: if_splits)

lemma parse_ip_plain: "parse_ip s = Some a \<Longrightarrow> list_all plain_char s"
  using parse_ip_chars ip_char_plain by (fastforce simp: list_all_iff)

subsection \<open>Lines and fields\<close>

lemma split_char_join:
  "\<forall>w \<in> set ws. d \<notin> set w \<Longrightarrow> ws \<noteq> [] \<Longrightarrow> split_char d (join_with [d] ws) = ws"
proof (induction "[d]" ws rule: join_with.induct)
  case (3 w v vs)
  have "split_char d (w @ d # join_with [d] (v # vs)) = w # split_char d (join_with [d] (v # vs))"
    unfolding split_char_def using 3(2) by (intro split_on_append) auto
  with 3 show ?case by simp
qed (auto simp: split_char_def intro: split_on_none)

lemma render_entries_Inr:
  assumes "render_entries T collision sel ps = Inr es"
  shows "length es = length ps"
    "\<forall>i < length ps. fst (es ! i) = sanitize_policy_name (name (ps ! i))
       \<and> node_selector T (name (ps ! i)) = Inr (snd (es ! i))"
    "distinct (map snd es)" "set (map snd es) \<inter> sel = {}"
proof -
  have "length es = length ps \<and> (\<forall>i < length ps. fst (es ! i) = sanitize_policy_name (name (ps ! i))
       \<and> node_selector T (name (ps ! i)) = Inr (snd (es ! i)))
    \<and> distinct (map snd es) \<and> set (map snd es) \<inter> sel = {}"
    using assms
  proof (induction ps arbitrary: sel es)
    case (Cons p ps)
    obtain s es' where s: "node_selector T (name p) = Inr s" "s \<notin> sel"
      "render_entries T collision (insert s sel) ps = Inr es'"
      "es = (sanitize_policy_name (name p), s) # es'"
      using Cons.prems by (auto simp: res_simps split: if_splits)
    from Cons.IH [OF s(3)] s show ?case by (auto simp: nth_Cons' less_Suc_eq_0_disj)
  qed simp
  then show "length es = length ps"
    "\<forall>i < length ps. fst (es ! i) = sanitize_policy_name (name (ps ! i))
       \<and> node_selector T (name (ps ! i)) = Inr (snd (es ! i))"
    "distinct (map snd es)" "set (map snd es) \<inter> sel = {}" by blast+
qed

lemma node_selector_plain:
  assumes "b64url_laws T" "node_selector T nm = Inr s"
  shows "list_all plain_char s"
proof -
  have "list_all url_safe_char s"
    using node_selector_Inr(1) [OF assms(2)] assms(1) prefix_safe by (simp add: b64url_laws_def)
  then show ?thesis by (rule url_safe_plain)
qed

lemma split_char_Cons: "d \<notin> set w \<Longrightarrow> split_char d (w @ d # r) = w # split_char d r"
  unfolding split_char_def by (intro split_on_append) auto

lemma split_lines_concat:
  "(\<forall>l \<in> set ls. 10 \<notin> set l) \<Longrightarrow> split_char 10 (concat (map (\<lambda>l. l @ [10]) ls)) = ls @ [[]]"
  by (induction ls) (auto simp: split_char_Cons, simp add: split_char_def)

lemma str_lines_concat:
  assumes "\<forall>l \<in> set ls. 10 \<notin> set l \<and> 13 \<notin> set l"
  shows "str_lines (concat (map (\<lambda>l. l @ [10]) ls)) = ls"
proof -
  have "chomp_cr l = l" if "l \<in> set ls" for l
  proof (cases "strip_suffix [13] l")
    case (Some t)
    then have "13 \<in> set l" by (simp add: strip_suffix_Some)
    with assms that show ?thesis by blast
  qed (simp add: chomp_cr_def)
  then show ?thesis
    using assms split_lines_concat [of ls]
    by (auto simp: str_lines_def Let_def map_idI split: if_splits)
qed

lemma plain_no_break: "list_all plain_char l \<Longrightarrow> 10 \<notin> set l \<and> 13 \<notin> set l \<and> 44 \<notin> set l \<and> 61 \<notin> set l"
  by (auto simp: list_all_iff plain_char_def is_control_def)

subsection \<open>Surge documents read back\<close>

definition surge_fields ::
  "ProviderProtocol \<Rightarrow> ustring \<Rightarrow> u16 \<Rightarrow> ustring \<Rightarrow> bool \<Rightarrow> ustring \<Rightarrow> ustring \<Rightarrow> Proxy \<Rightarrow> ustring list" where
  "surge_fields protocol listen prt secret adv policy selector p =
     (policy @ (case protocol of Http \<Rightarrow> ustr '' = http'' | Socks5 \<Rightarrow> ustr '' = socks5''))
     # map (Cons 32) [listen, show_nat (unat prt), selector, secret]
     @ (if protocol = Socks5 \<and> udp p \<and> adv
        then [ustr '' udp-relay=true'', ustr '' test-udp=example.com@1.1.1.1''] else [])"

lemma surge_line_fields:
  "surge_line protocol listen prt secret adv policy selector p =
     join_with [44] (surge_fields protocol listen prt secret adv policy selector p)"
  by (cases protocol) (auto simp: surge_line_def surge_fields_def ustr_def)

definition field_char :: "uchar \<Rightarrow> bool" where
  "field_char c \<longleftrightarrow> c \<noteq> 44 \<and> \<not> is_control c"

lemma plain_field: "list_all plain_char v \<Longrightarrow> list_all field_char v"
  by (auto simp: list_all_iff plain_char_def field_char_def)

lemma surge_fields_plain:
  assumes "list_all plain_char listen" "list_all plain_char secret"
    "list_all plain_char policy" "list_all plain_char selector"
    "w \<in> set (surge_fields protocol listen prt secret adv policy selector p)"
  shows "list_all field_char w"
  using assms(5) assms(1-4) [THEN plain_field] plain_field [OF digits_plain [of "unat prt"]]
  by (cases protocol) (auto simp: surge_fields_def ustr_def field_char_def is_control_def split: if_splits)

lemma check_provider_Inr:
  assumes "check_provider e1 e2 e3 e4 ps listen prt secret = Inr u"
  shows "\<exists>a. parse_ip listen = Some a \<and> \<not> is_unspecified a \<and> \<not> is_multicast a"
    "prt \<noteq> 0" "ps \<noteq> []" "is_safe_credential secret"
  using assms by (auto simp: check_provider_def res_simps split: if_splits)

lemma check_provider_then:
  assumes "and_then (check_provider e1 e2 e3 e4 ps listen prt secret) k = Inr out" "list_all scalar secret"
  shows "k () = Inr out" "list_all plain_char listen" "list_all plain_char secret"
proof -
  obtain u where u: "check_provider e1 e2 e3 e4 ps listen prt secret = Inr u" "k u = Inr out"
    using assms(1) by (auto simp: res_simps)
  then show "k () = Inr out" by simp
  show "list_all plain_char listen" using check_provider_Inr(1) [OF u(1)] parse_ip_plain by blast
  show "list_all plain_char secret"
    using check_provider_Inr(4) [OF u(1)] safe_credential_chars assms(2) url_safe_plain by blast
qed

lemma join_fields_break:
  assumes "\<forall>w \<in> set ws. list_all field_char w"
  shows "10 \<notin> set (join_with [44] ws) \<and> 13 \<notin> set (join_with [44] ws)"
proof -
  have "c = 44 \<or> field_char c" if "c \<in> set (join_with [44] ws)" for c
    using that assms join_with_set [of "[44]" ws] by (auto simp: list_all_iff)
  then have "\<not> (c = 10 \<or> c = 13)" if "c \<in> set (join_with [44] ws)" for c
    using that by (fastforce simp: field_char_def is_control_def)
  then show ?thesis by blast
qed

lemma entry_plain:
  assumes "b64url_laws T" "render_entries T c sel ps = Inr es" "(p, e) \<in> set (zip ps es)"
  shows "list_all plain_char (policy_name es e)" "list_all plain_char (snd e)"
proof -
  obtain i where i: "i < length ps" "es ! i = e"
    using assms(3) by (auto simp: in_set_conv_nth)
  have "fst e = sanitize_policy_name (name (ps ! i))" "node_selector T (name (ps ! i)) = Inr (snd e)"
    using render_entries_Inr(2) [OF assms(2)] i by auto
  then have "list_all plain_char (fst e)" and s: "list_all plain_char (snd e)"
    using sanitize_plain node_selector_plain [OF assms(1)] by auto
  then show "list_all plain_char (policy_name es e)" "list_all plain_char (snd e)"
    using policy_name_plain by auto
qed

text \<open>
  C10: A Surge document cannot be broken by a node's name: read back line by line and comma by
  comma, it has exactly one line per node, in order, whose fields are the policy, the listen
  address, the port, the node's selector and the secret.
\<close>

theorem surge_render_reads_back:
  assumes "b64url_laws T" "list_all scalar secret"
    "surge_render T ps listen prt secret protocol adv = Inr out"
  shows "\<exists>doc es. out = utf8 doc \<and> render_entries T ''Surge provider selector collision'' {} ps = Inr es
    \<and> map (split_char 44) (str_lines doc) =
      map (\<lambda>(p, e). surge_fields protocol listen prt secret adv (policy_name es e) (snd e) p) (zip ps es)"
proof -
  note step = check_provider_then [OF assms(3) [unfolded surge_render_def] assms(2)]
  obtain es where es: "render_entries T ''Surge provider selector collision'' {} ps = Inr es"
    and out: "out = utf8 (concat (map (\<lambda>(p, e).
        surge_line protocol listen prt secret adv (policy_name es e) (snd e) p @ [10]) (zip ps es)))"
    using step(1) by (cases "render_entries T ''Surge provider selector collision'' {} ps") auto
  note lp = step(2) and sp = step(3)
  let ?f = "\<lambda>(p, e). surge_fields protocol listen prt secret adv (policy_name es e) (snd e) p"
  have ok: "\<forall>w \<in> set (?f x). list_all field_char w" if "x \<in> set (zip ps es)" for x
  proof -
    obtain p e where x: "x = (p, e)" by (cases x)
    with that show ?thesis
      using surge_fields_plain [OF lp sp entry_plain [OF assms(1) es, of p e]] by simp
  qed
  have d: "concat (map (\<lambda>(p, e). surge_line protocol listen prt secret adv (policy_name es e) (snd e) p @ [10]) (zip ps es))
      = concat (map (\<lambda>l. l @ [10]) (map (\<lambda>x. join_with [44] (?f x)) (zip ps es)))"
    by (simp add: surge_line_fields case_prod_unfold comp_def)
  have "str_lines (concat (map (\<lambda>l. l @ [10]) (map (\<lambda>x. join_with [44] (?f x)) (zip ps es))))
      = map (\<lambda>x. join_with [44] (?f x)) (zip ps es)"
    using join_fields_break ok by (intro str_lines_concat) auto
  moreover have "split_char 44 (join_with [44] (?f x)) = ?f x" if "x \<in> set (zip ps es)" for x
  proof (rule split_char_join)
    show "\<forall>w \<in> set (?f x). 44 \<notin> set w" using ok [OF that] by (auto simp: list_all_iff field_char_def)
  qed (cases x, simp add: surge_fields_def)
  ultimately show ?thesis using es out d by (auto simp: comp_def intro!: exI)
qed

lemma render_entries_single:
  "node_selector T (name p) = Inr s \<Longrightarrow> render_entries T c {} [p] = Inr [(sanitize_policy_name (name p), s)]"
  by simp

lemma check_provider_sample:
  "check_provider e1 e2 e3 e4 [p] (show_v4 2130706433) 8080 (ustr ''s'') = Inr ()"
  by (simp add: check_provider_def parse_ip_show_v4 is_safe_credential_def str_len_def utf8_def utf8_char_def
      ustr_def url_safe_char_def ascii_defs)

lemma sample_selector_X: "node_selector sample_text [88] = Inr (NODE_SELECTOR_PREFIX @ nibbles [88])"
  using sample_selector [of "[88]"] by (simp add: utf8_def utf8_char_def)

theorem surge_render_reads_back_witness:
  "\<exists>out doc es. surge_render sample_text [good_proxy [88]] (show_v4 2130706433) 8080 (ustr ''s'') Http False = Inr out
    \<and> out = utf8 doc
    \<and> map (split_char 44) (str_lines doc) =
      [surge_fields Http (show_v4 2130706433) 8080 (ustr ''s'') False (policy_name es (hd es)) (snd (hd es)) (good_proxy [88])]"
proof -
  let ?render = "surge_render sample_text [good_proxy [88]] (show_v4 2130706433) 8080 (ustr ''s'') Http False"
  have "node_selector sample_text (name (good_proxy [88])) = Inr (NODE_SELECTOR_PREFIX @ nibbles [88])"
    using sample_selector_X by (simp add: good_proxy_def)
  note es = render_entries_single [OF this]
  obtain out where o: "?render = Inr out"
    by (auto simp only: surge_render_def check_provider_sample es and_then_simps)
  have "list_all scalar (ustr ''s'')" by (simp add: ustr_def scalar_def)
  from surge_render_reads_back [OF sample_b64url_laws this o] obtain doc where
    "out = utf8 doc" "map (split_char 44) (str_lines doc) = map (\<lambda>(p, e). surge_fields Http (show_v4 2130706433) 8080
        (ustr ''s'') False (policy_name [(sanitize_policy_name (name (good_proxy [88])), NODE_SELECTOR_PREFIX @ nibbles [88])] e) (snd e) p)
      (zip [good_proxy [88]] [(sanitize_policy_name (name (good_proxy [88])), NODE_SELECTOR_PREFIX @ nibbles [88])])"
    unfolding es sum.inject by blast
  with o show ?thesis
    by (intro exI [of _ out] exI [of _ doc] exI [of _ "[(sanitize_policy_name (name (good_proxy [88])), NODE_SELECTOR_PREFIX @ nibbles [88])]"] conjI)
      simp_all
qed

subsection \<open>YAML scalars read back\<close>

text \<open>A double-quoted scalar as YAML reads it: the escapes used here are a quote, a backslash and four hex digits.\<close>

function yaml_unescape :: "ustring \<Rightarrow> ustring option" where
  "yaml_unescape [] = None"
| "yaml_unescape (c # r) =
     (if c = 34 then (if r = [] then Some [] else None)
      else if c = 92 then
        (case r of
           [] \<Rightarrow> None
         | d # r' \<Rightarrow>
             if d = 34 \<or> d = 92 then map_option (Cons d) (yaml_unescape r')
             else if d = 117 \<and> 4 \<le> length r' then
               map_option (Cons (digits_val 16 0 (take 4 r'))) (yaml_unescape (drop 4 r'))
             else None)
      else map_option (Cons c) (yaml_unescape r))"
  by pat_completeness auto
termination by (relation "measure length") auto

definition yaml_unquote :: "ustring \<Rightarrow> ustring option" where
  "yaml_unquote s = (case s of [] \<Rightarrow> None | c # r \<Rightarrow> if c = 34 then yaml_unescape r else None)"

lemma digit_val_hex_char [simp]: "d < 16 \<Longrightarrow> digit_val (hex_char d) = d"
  by (auto simp: digit_val_def hex_char_def ascii_digit_def)

lemma digit_val_zero [simp]: "digit_val 48 = 0"
  by (simp add: digit_val_def ascii_digit_def)

lemma hex4_value:
  assumes "n < 32"
  shows "length (hex4 n) = 4 \<and> digits_val 16 0 (hex4 n) = n"
proof (cases "n < 16")
  case True
  then show ?thesis by (simp add: hex4_def show_hex.simps numeral_3_eq_3)
next
  case False
  then have d: "n div 16 = 1" using assms by simp
  then have n: "16 + n mod 16 = n" using div_mult_mod_eq [of n 16] by simp
  have "show_hex n = [hex_char 1, hex_char (n mod 16)]"
    using False d by (subst show_hex.simps) (simp add: show_hex.simps [of "Suc 0"])
  then show ?thesis using n by (simp add: hex4_def numeral_2_eq_2)
qed

lemma yaml_unescape_escape:
  "yaml_unescape (yaml_escape c @ r) = map_option (Cons c) (yaml_unescape r)"
  using hex4_value [of c] by (simp add: yaml_escape_def)

lemma yaml_unescape_concat: "yaml_unescape (concat (map yaml_escape v) @ [34]) = Some v"
  by (induction v) (simp_all add: yaml_unescape_escape)

lemma yaml_unquote_quote: "yaml_unquote (yaml_quote v) = Some v"
  by (simp add: yaml_unquote_def yaml_quote_def yaml_unescape_concat)

lemma show_hex_break: "c \<in> set (show_hex n) \<Longrightarrow> 48 \<le> c"
proof (induction n rule: show_hex.induct)
  case (1 n)
  then show ?case by (subst (asm) (2) show_hex.simps) (auto simp: hex_char_def split: if_splits)
qed

lemma yaml_quote_break: "10 \<notin> set (yaml_quote v) \<and> 13 \<notin> set (yaml_quote v)"
proof -
  have "10 \<notin> set (yaml_escape c) \<and> 13 \<notin> set (yaml_escape c)" for c
    by (auto simp: yaml_escape_def hex4_def Let_def dest!: show_hex_break)
  then show ?thesis by (auto simp: yaml_quote_def)
qed

text \<open>
  A Clash document has the heading, then for each node in order exactly its block of
  lines, whatever characters the node's name has; and the name's scalar is read back by a YAML reader
  as the policy name.
\<close>

lemma clash_render_reads_back:
  assumes "b64url_laws T" "list_all scalar secret"
    "clash_render T ps listen prt secret protocol adv = Inr out"
  shows "\<exists>doc es. out = utf8 doc \<and> render_entries T ''Clash provider selector collision'' {} ps = Inr es
    \<and> str_lines doc = ustr ''proxies:'' # concat (map (\<lambda>(p, e).
        clash_entry protocol listen prt secret adv (policy_name es e) (snd e) p) (zip ps es))
    \<and> map (\<lambda>(p, e). yaml_unquote (drop 8 (hd (clash_entry protocol listen prt secret adv (policy_name es e) (snd e) p)))) (zip ps es)
      = map (Some \<circ> policy_name es) es"
proof -
  note step = check_provider_then [OF assms(3) [unfolded clash_render_def] assms(2)]
  obtain es where es: "render_entries T ''Clash provider selector collision'' {} ps = Inr es"
    and out: "out = utf8 (concat (map (\<lambda>l. l @ [10]) (ustr ''proxies:'' # concat (map (\<lambda>(p, e).
        clash_entry protocol listen prt secret adv (policy_name es e) (snd e) p) (zip ps es)))))"
    using step(1) by (cases "render_entries T ''Clash provider selector collision'' {} ps") auto
  have brk: "10 \<notin> set l \<and> 13 \<notin> set l"
    if "(p, e) \<in> set (zip ps es)" "l \<in> set (clash_entry protocol listen prt secret adv (policy_name es e) (snd e) p)" for p e l
    using that(2) step(2,3) [THEN plain_no_break] entry_plain(2) [OF assms(1) es that(1), THEN plain_no_break]
      yaml_quote_break digits_plain [THEN plain_no_break]
    by (cases protocol) (auto simp: clash_entry_def ustr_def show_bool_def split: if_splits)
  have "str_lines (concat (map (\<lambda>l. l @ [10]) (ustr ''proxies:'' # concat (map (\<lambda>(p, e).
        clash_entry protocol listen prt secret adv (policy_name es e) (snd e) p) (zip ps es)))))
      = ustr ''proxies:'' # concat (map (\<lambda>(p, e).
        clash_entry protocol listen prt secret adv (policy_name es e) (snd e) p) (zip ps es))"
    by (rule str_lines_concat) (auto simp: ustr_def dest: brk)
  moreover have "yaml_unquote (drop 8 (hd (clash_entry protocol listen prt secret adv pn sel p))) = Some pn" for pn sel p
    by (simp add: clash_entry_def ustr_def yaml_unquote_quote)
  then have "map (\<lambda>(p, e). yaml_unquote (drop 8 (hd (clash_entry protocol listen prt secret adv (policy_name es e) (snd e) p)))) (zip ps es)
      = map (\<lambda>e. Some (policy_name es e)) (map snd (zip ps es))" by (simp add: case_prod_unfold)
  moreover have "map snd (zip ps es) = es" using render_entries_Inr(1) [OF es] by simp
  ultimately show ?thesis using es out by (auto simp: comp_def)
qed

lemma clash_render_reads_back_witness:
  "\<exists>out doc es. clash_render sample_text [good_proxy [88]] (show_v4 2130706433) 8080 (ustr ''s'') Http False = Inr out
    \<and> out = utf8 doc \<and> length (str_lines doc) = 7"
proof -
  let ?render = "clash_render sample_text [good_proxy [88]] (show_v4 2130706433) 8080 (ustr ''s'') Http False"
  have "node_selector sample_text (name (good_proxy [88])) = Inr (NODE_SELECTOR_PREFIX @ nibbles [88])"
    using sample_selector_X by (simp add: good_proxy_def)
  note es = render_entries_single [OF this]
  obtain out where o: "?render = Inr out"
    by (auto simp only: clash_render_def check_provider_sample es and_then_simps)
  have "list_all scalar (ustr ''s'')" by (simp add: ustr_def scalar_def)
  from clash_render_reads_back [OF sample_b64url_laws this o] obtain doc es where
    "out = utf8 doc" "render_entries sample_text ''Clash provider selector collision'' {} [good_proxy [88]] = Inr es"
    "str_lines doc = ustr ''proxies:'' # concat (map (\<lambda>(p, e).
        clash_entry Http (show_v4 2130706433) 8080 (ustr ''s'') False (policy_name es e) (snd e) p) (zip [good_proxy [88]] es))"
    by blast
  moreover from es have "[(sanitize_policy_name (name (good_proxy [88])), NODE_SELECTOR_PREFIX @ nibbles [88])] = es"
    using calculation(2) unfolding es sum.inject by blast
  ultimately have "length (str_lines doc) = 7" by (auto simp: clash_entry_def)
  with o \<open>out = utf8 doc\<close> show ?thesis by blast
qed

subsection \<open>Subscription headers read back\<close>

lemma show_nat_length: "n < 10 ^ Suc k \<Longrightarrow> length (show_nat n) \<le> Suc k"
proof (induction k arbitrary: n)
  case (Suc k)
  show ?case
  proof (cases "n < 10")
    case False
    have "n div 10 < 10 ^ Suc k" using Suc.prems by (simp add: less_mult_imp_div_less)
    with Suc.IH [of "n div 10"] False show ?thesis by (subst show_nat.simps) simp
  qed (simp add: show_nat.simps)
qed (simp add: show_nat.simps)

lemma digits_trim [simp]: "str_trim (show_nat n) = show_nat n"
proof -
  have "\<not> is_whitespace c" if "c \<in> set (show_nat n)" for c
    using that show_nat_digits [of n] by (auto simp: list_all_iff ascii_digit_def is_whitespace_def)
  then show ?thesis unfolding str_trim_def by (intro trim_by_id) (simp add: list.set_sel)
qed

lemma digits_bytes: "list_all (\<lambda>b. ascii_digit (unat b)) (utf8 (show_nat n))"
proof -
  have "list_all (\<lambda>c. c < 128) (show_nat n)"
    using show_nat_digits [of n] by (auto simp: list_all_iff ascii_digit_def)
  then have "utf8 (show_nat n) = map of_nat (show_nat n)" by (rule utf8_ascii)
  then show ?thesis
    using show_nat_digits [of n] by (auto simp: list_all_iff ascii_digit_def unat_of_nat_byte)
qed

lemma userinfo_fields_step:
  assumes "61 \<notin> set pre" "str_trim pre = key" "found key = None" "n < 2 ^ 64"
    "key \<in> {ustr ''upload'', ustr ''download'', ustr ''total'', ustr ''expire''}"
  shows "userinfo_fields ((pre @ 61 # show_nat n) # parts) found = userinfo_fields parts (found(key \<mapsto> n))"
proof -
  have "split_once 61 (pre @ 61 # show_nat n) = Some (pre, show_nat n)"
    using assms(1) by (simp add: split_once_Some)
  moreover have "parse_u64 (show_nat n) = Some n"
    using assms(4) by (simp add: parse_u64_def parse_radix_show_nat)
  ultimately show ?thesis using assms(2,3,5) digits_bytes by auto
qed

definition userinfo_parts :: "UserInfo \<Rightarrow> ustring list" where
  "userinfo_parts u =
     [ustr ''upload'' @ 61 # show_nat (upload u), ustr '' download'' @ 61 # show_nat (download u),
      ustr '' total'' @ 61 # show_nat (quota u)]
     @ (case expire u of None \<Rightarrow> [] | Some t \<Rightarrow> [ustr '' expire'' @ 61 # show_nat t])"

lemma userinfo_header_parts:
  "userinfo_header u f now = Some h \<Longrightarrow> userinfo_valid u \<and> h = join_with [59] (userinfo_parts u)"
  by (auto simp: userinfo_header_def userinfo_parts_def bind_eq_Some_conv ustr_def split: if_splits option.splits)

lemma show_nat_range: "c \<in> set (show_nat n) \<Longrightarrow> 48 \<le> c \<and> c \<le> 57"
  using show_nat_digits [of n] by (auto simp: list_all_iff ascii_digit_def)

lemma userinfo_parts_chars:
  assumes "w \<in> set (userinfo_parts u)"
  shows "59 \<notin> set w" "\<not> list_ex is_control w" "str_trim w \<noteq> []" "list_all (\<lambda>c. c < 128) w"
  using assms
  by (auto simp: userinfo_parts_def list_all_iff list_ex_iff is_control_def str_trim_def
      trim_by_Nil_iff is_whitespace_def ustr_def dest!: show_nat_range split: option.splits)

lemma userinfo_parts_length:
  assumes "userinfo_valid u" "quota u < 2 ^ 64"
  shows "length (join_with [59] (userinfo_parts u)) \<le> 2048"
proof -
  have "length (show_nat n) \<le> 20" if "n < 2 ^ 64" for n
    using show_nat_length [of n 19] that by simp
  then have "length (show_nat (upload u)) \<le> 20" "length (show_nat (download u)) \<le> 20"
    "length (show_nat (quota u)) \<le> 20" "\<forall>t. expire u = Some t \<longrightarrow> length (show_nat t) \<le> 20"
    using assms by (auto simp: userinfo_valid_def)
  then show ?thesis by (auto simp: userinfo_parts_def ustr_def split: option.splits)
qed

lemma trimmed_keys:
  "str_trim (ustr ''upload'') = ustr ''upload''" "str_trim (ustr '' download'') = ustr ''download''"
  "str_trim (ustr '' total'') = ustr ''total''" "str_trim (ustr '' expire'') = ustr ''expire''"
  by (simp_all add: str_trim_def trim_by_def trim_start_by_def trim_end_by_def ustr_def is_whitespace_def)

lemma userinfo_fields_parts:
  assumes "userinfo_valid u" "quota u < 2 ^ 64"
  shows "userinfo_fields (userinfo_parts u) Map.empty = Some ((case expire u of None \<Rightarrow> id | Some t \<Rightarrow> (\<lambda>m. m(ustr ''expire'' \<mapsto> t)))
    [ustr ''upload'' \<mapsto> upload u, ustr ''download'' \<mapsto> download u, ustr ''total'' \<mapsto> quota u])"
proof -
  have k: "ustr ''upload'' \<noteq> ustr ''download''" "ustr ''upload'' \<noteq> ustr ''total''" "ustr ''download'' \<noteq> ustr ''total''"
    "ustr ''upload'' \<noteq> ustr ''expire''" "ustr ''download'' \<noteq> ustr ''expire''" "ustr ''total'' \<noteq> ustr ''expire''"
    by (simp_all add: ustr_def)
  have e: "61 \<notin> set (ustr ''upload'')" "61 \<notin> set (ustr '' download'')" "61 \<notin> set (ustr '' total'')" "61 \<notin> set (ustr '' expire'')"
    by (simp_all add: ustr_def)
  have b: "upload u < 2 ^ 64" "download u < 2 ^ 64" "\<forall>t. expire u = Some t \<longrightarrow> t < 2 ^ 64"
    using assms by (auto simp: userinfo_valid_def)
  note steps = userinfo_fields_step [OF e(1) trimmed_keys(1)] userinfo_fields_step [OF e(2) trimmed_keys(2)]
    userinfo_fields_step [OF e(3) trimmed_keys(3)] userinfo_fields_step [OF e(4) trimmed_keys(4)]
  show ?thesis
    using k k [symmetric] b assms(2)
    by (cases "expire u") (simp_all add: userinfo_parts_def steps del: userinfo_fields.simps(2))
qed

text \<open>
  The subscription header published to clients is one that the parser reads back to the same
  user information, and it is published only for fetches at most a day old.
\<close>

lemma userinfo_header_parses:
  assumes "userinfo_header u fetched_at now = Some h" "quota u < 2 ^ 64"
  shows "userinfo_parse h = Some u \<and> (\<exists>at. fetched_at = Some at \<and> at \<le> now \<and> now \<le> at + MAX_USERINFO_AGE)"
proof -
  have v: "userinfo_valid u" and h: "h = join_with [59] (userinfo_parts u)"
    using userinfo_header_parts [OF assms(1)] by auto
  have chars: "set h \<subseteq> insert 59 (\<Union> (set ` set (userinfo_parts u)))"
    using join_with_set [of "[59]"] h by auto
  have "c < 128 \<and> \<not> is_control c" if c: "c \<in> set h" for c
  proof (cases "c = 59")
    case False
    then obtain w where "w \<in> set (userinfo_parts u)" "c \<in> set w" using chars c by auto
    with userinfo_parts_chars(2,4) [of w u] show ?thesis by (simp add: list_all_iff list_ex_iff)
  qed (simp add: is_control_def)
  then have "list_all (\<lambda>c. c < 128) h" and ctl: "\<not> list_ex is_control h"
    by (simp_all add: list_all_iff list_ex_iff)
  then have len: "str_len h \<le> 2048"
    using userinfo_parts_length [OF v assms(2)] utf8_ascii [of h] h by (simp add: str_len_def)
  have "split_char 59 h = userinfo_parts u"
    unfolding h using userinfo_parts_chars(1) by (intro split_char_join) (auto simp: userinfo_parts_def)
  moreover have "filter (\<lambda>p. str_trim p \<noteq> []) (userinfo_parts u) = userinfo_parts u"
    using userinfo_parts_chars(3) by (simp add: filter_id_conv)
  moreover have "ustr ''upload'' \<noteq> ustr ''download''" "ustr ''upload'' \<noteq> ustr ''total''" "ustr ''download'' \<noteq> ustr ''total''"
    "ustr ''upload'' \<noteq> ustr ''expire''" "ustr ''download'' \<noteq> ustr ''expire''" "ustr ''total'' \<noteq> ustr ''expire''"
    by (simp_all add: ustr_def)
  ultimately have "userinfo_parse h = Some u"
    using len ctl v userinfo_fields_parts [OF v assms(2)]
    by (cases u) (auto simp: userinfo_parse_def split: option.splits)
  then show ?thesis
    using assms(1) by (auto simp: userinfo_header_def bind_eq_Some_conv MAX_USERINFO_AGE_def split: if_splits)
qed

lemma userinfo_header_parses_witness:
  "\<exists>h. userinfo_header \<lparr>upload = 0, download = 7, quota = 9, expire = Some 5\<rparr> (Some 10) 11 = Some h
    \<and> userinfo_parse h = Some \<lparr>upload = 0, download = 7, quota = 9, expire = Some 5\<rparr>"
proof -
  obtain h where h: "userinfo_header \<lparr>upload = 0, download = 7, quota = 9, expire = Some 5\<rparr> (Some 10) 11 = Some h"
    by (simp add: userinfo_header_def MAX_USERINFO_AGE_def userinfo_valid_def)
  with userinfo_header_parses [OF h] show ?thesis by simp
qed

end
