(* ===== verification/Raw_Provider.thy ===== *)
theory Raw_Provider
  imports Providers
begin

text \<open>
  The export of the nodes themselves, \<open>src/raw_provider.rs\<close>: which nodes can be written as
  Surge policies, how their servers are resolved with the last good addresses as a fallback, and
  that the lines written read back to the parameters of the nodes.
\<close>

record RawNode =
  raw_policy :: ustring
  raw_proxy :: Proxy

record RawNodes =
  raw_nodes :: "RawNode list"
  skipped :: nat

definition safe_parameter :: "ustring \<Rightarrow> bool" where
  "safe_parameter v \<longleftrightarrow> v \<noteq> [] \<and>
     \<not> list_ex (\<lambda>c. is_whitespace c \<or> is_control c \<or> c \<in> set (ustr '',\"'' @ [39, 92] @ ustr ''#;'')) v"

definition safe_label :: "ustring \<Rightarrow> bool" where
  "safe_label l \<longleftrightarrow> l \<noteq> [] \<and> str_len l \<le> 63 \<and> hd l \<noteq> 45 \<and> last l \<noteq> 45
     \<and> list_all (\<lambda>b. url_safe_char (unat b)) (utf8 l)"

definition safe_host :: "ustring \<Rightarrow> bool" where
  "safe_host host \<longleftrightarrow>
     parse_ip host \<noteq> None
     \<or> (host \<noteq> [] \<and> str_len host \<le> 253
        \<and> list_all safe_label (split_char 46 (case strip_suffix [46] host of Some h \<Rightarrow> h | None \<Rightarrow> host)))"

definition supported :: "text_crates \<Rightarrow> Proxy \<Rightarrow> bool" where
  "supported T p \<longleftrightarrow>
     proxy_type p = ustr ''snell'' \<and> proxy_version p = 4 \<and> mode (obfs p) = ustr ''ech-tls''
     \<and> identity_version (obfs p) = 2 \<and> port p \<noteq> 0 \<and> safe_host (server p)
     \<and> (sni (obfs p) = [] \<or> safe_host (sni (obfs p))) \<and> safe_parameter (proxy_psk p)
     \<and> is_ok (parse_ech_config T (ech_config (obfs p)))"

fun raw_collect :: "text_crates \<Rightarrow> ustring set \<Rightarrow> Proxy list \<Rightarrow> RawNode list" where
  "raw_collect T selectors [] = []"
| "raw_collect T selectors (p # ps) =
     (if \<not> supported T p then raw_collect T selectors ps
      else case node_selector T (name p) of
        Inl e \<Rightarrow> raw_collect T selectors ps
      | Inr selector \<Rightarrow>
          if selector \<in> selectors then raw_collect T selectors ps
          else
            let policy = sanitize_policy_name (name p); selectors = insert selector selectors in
            if list_ex (\<lambda>c. c \<in> set (ustr ''#;\"'' @ [39, 92])) policy then raw_collect T selectors ps
            else \<lparr>raw_policy = policy, raw_proxy = p\<rparr> # raw_collect T selectors ps)"

definition raw_new :: "text_crates \<Rightarrow> Proxy list \<Rightarrow> RawNodes" where
  "raw_new T ps =
     (let nodes = raw_collect T {} ps;
          named = map (\<lambda>n. if count_list (map raw_policy nodes) (raw_policy n) > 1
            then n\<lparr>raw_policy := raw_policy n @ ustr '' [''
                   @ (case node_selector T (name (raw_proxy n)) of Inr s \<Rightarrow> s | Inl _ \<Rightarrow> []) @ ustr '']''\<rparr>
            else n) nodes in
      \<lparr>raw_nodes = named, skipped = length ps - length named\<rparr>)"

text \<open>
  One resolution: \<open>fresh\<close> is what the lookup returned in time. The cache of last good
  addresses is shared by all requests.
\<close>

type_synonym last_good = "ustring \<rightharpoonup> ip"

definition pick_address :: "ip list \<Rightarrow> ip option" where
  "pick_address addresses =
     (case find is_ipv4 addresses of
        Some a \<Rightarrow> Some a
      | None \<Rightarrow> (case addresses of [] \<Rightarrow> None | a # _ \<Rightarrow> Some a))"

definition raw_resolve :: "ustring \<Rightarrow> ip list option \<Rightarrow> last_good \<Rightarrow> ustring \<times> last_good" where
  "raw_resolve host fresh lg =
     (case parse_ip host of
        Some a \<Rightarrow> (show_ip a, lg)
      | None \<Rightarrow>
          let key = to_ascii_lowercase (trim_end_by (\<lambda>c. c = 46) host) in
          case Option.bind fresh pick_address of
            Some a \<Rightarrow> (show_ip a, lg(key \<mapsto> a))
          | None \<Rightarrow> (case lg key of Some a \<Rightarrow> show_ip a | None \<Rightarrow> host, lg))"

text \<open>The resolver tasks in the order in which they complete, with what each lookup found.\<close>

fun raw_resolve_all :: "(ustring \<times> ip list option) list \<Rightarrow> (ustring \<rightharpoonup> ustring) \<Rightarrow> last_good \<Rightarrow> (ustring \<rightharpoonup> ustring) \<times> last_good" where
  "raw_resolve_all [] addresses lg = (addresses, lg)"
| "raw_resolve_all ((host, fresh) # tasks) addresses lg =
     (case raw_resolve host fresh lg of (address, lg) \<Rightarrow>
        raw_resolve_all tasks (addresses(host \<mapsto> address)) lg)"

definition raw_line :: "(ustring \<rightharpoonup> ustring) \<Rightarrow> RawNode \<Rightarrow> ustring" where
  "raw_line addresses n =
     (let p = raw_proxy n;
          srv = (case addresses (server p) of Some a \<Rightarrow> a | None \<Rightarrow> server p);
          host = (if sni (obfs p) = [] then server p else sni (obfs p)) in
      raw_policy n @ ustr '' = snell, '' @ srv @ ustr '', '' @ show_nat (unat (port p)) @ ustr '', psk='' @ proxy_psk p
      @ ustr '', version=4, obfs=ech-tls, obfs-host='' @ host @ ustr '', ech-config='' @ ech_config (obfs p)
      @ ustr '', reuse='' @ show_bool (proxy_reuse p) @ ustr '', udp-relay='' @ show_bool (udp p)
      @ (if tfo p then ustr '', tfo=true'' else [])
      @ (if skip_cert_verify (obfs p) then ustr '', skip-cert-verify=true'' else []))"

definition raw_render :: "RawNodes \<Rightarrow> (ustring \<times> ip list option) list \<Rightarrow> last_good \<Rightarrow> bytes \<times> last_good" where
  "raw_render nodes tasks lg =
     (case raw_resolve_all tasks Map.empty lg of (addresses, lg) \<Rightarrow>
        (utf8 (concat (map (\<lambda>n. raw_line addresses n @ [10]) (raw_nodes nodes))), lg))"

subsection \<open>Characters of hosts and addresses\<close>

definition b64_alphabet_law :: "text_crates \<Rightarrow> bool" where
  "b64_alphabet_law T \<longleftrightarrow> (\<forall>s b. b64_decode T s = Some b \<longrightarrow>
     list_all (\<lambda>c. ascii_alphanumeric c \<or> c = 43 \<or> c = 47 \<or> c = 61) s)"

lemma field_char_ascii: "ascii_alphanumeric c \<or> c = 43 \<or> c = 47 \<or> c = 61 \<or> c = 45 \<or> c = 95 \<or> c = 46 \<Longrightarrow> field_char c"
  by (auto simp: field_char_def is_control_def ascii_defs)

lemma ip_char_field: "ip_char c \<Longrightarrow> field_char c"
  using ip_char_plain by (auto simp: plain_char_def field_char_def)

lemma split_char_covers: "c \<in> set s \<Longrightarrow> c = d \<or> (\<exists>w \<in> set (split_char d s). c \<in> set w)"
  unfolding split_char_def by (rule split_on_covers)

lemma safe_host_field:
  assumes "safe_host h" "list_all scalar h"
  shows "list_all field_char h"
proof (cases "parse_ip h")
  case (Some a)
  then show ?thesis using parse_ip_plain plain_field by blast
next
  case None
  define b where "b = (case strip_suffix [46] h of Some h \<Rightarrow> h | None \<Rightarrow> h)"
  have ls: "list_all safe_label (split_char 46 b)" using assms(1) None by (simp add: safe_host_def b_def)
  have bh: "set h \<subseteq> insert 46 (set b)" "set b \<subseteq> set h"
    by (auto simp: b_def strip_suffix_Some split: option.splits)
  have "field_char c" if cb: "c \<in> set b" for c
  proof (cases "c = 46")
    case False
    then obtain w where w: "w \<in> set (split_char 46 b)" "c \<in> set w" using split_char_covers [OF cb] by blast
    have "set w \<subseteq> set h" using split_on_subset w(1) bh(2) unfolding split_char_def by fastforce
    then have "list_all scalar w" using assms(2) by (auto simp: list_all_iff)
    moreover have "list_all (\<lambda>b. url_safe_char (unat b)) (utf8 w)"
      using ls w(1) by (auto simp: list_all_iff safe_label_def)
    ultimately have "list_all url_safe_char w" using ascii_bytes_chars by blast
    with w(2) show ?thesis using field_char_ascii by (auto simp: list_all_iff url_safe_char_def)
  qed (simp add: field_char_ascii)
  then show ?thesis using bh(1) field_char_ascii [of 46] by (auto simp: list_all_iff)
qed

lemma hex_char_ip: "d < 16 \<Longrightarrow> ip_char (hex_char d)"
  by (simp add: ip_char_def)

lemma show_hex_ip: "list_all ip_char (show_hex n)"
proof (induction n rule: show_hex.induct)
  case (1 n)
  then show ?case by (subst show_hex.simps) (simp add: hex_char_ip)
qed

lemma show_v4_ip: "list_all ip_char (show_v4 a)"
  using parse_ip_chars [OF parse_ip_show_v4] .

lemma join_ip: "(\<forall>w \<in> set ws. list_all ip_char w) \<Longrightarrow> list_all ip_char (join_with [58] ws)"
  using join_with_set [of "[58]" ws] by (force simp: list_all_iff)

lemma show_ip_chars: "list_all ip_char (show_ip a)"
proof (cases a)
  case (V6 b)
  have j: "list_all ip_char (join_with [58] (map show_hex gs))" for gs
    by (rule join_ip) (simp add: show_hex_ip)
  have f: "list_all ip_char (ustr ''::ffff:'')"
    by (simp add: ustr_def ip_char_def digit_val_def ascii_digit_def)
  show ?thesis using j f show_v4_ip V6
    by (simp add: show_v6_def Let_def case_prod_unfold split: option.split)
qed (simp add: show_v4_ip)

lemma show_ip_field: "list_all field_char (show_ip a)"
  using show_ip_chars ip_char_field by (fastforce simp: list_all_iff)

subsection \<open>Resolution\<close>

lemma raw_resolve_result: "raw_resolve host fresh lg = (r, lg') \<Longrightarrow> r = host \<or> (\<exists>a. r = show_ip a)"
  by (auto simp: raw_resolve_def Let_def split: option.splits)

lemma raw_resolve_all_result:
  assumes "raw_resolve_all tasks m lg = (addresses, lg')" "\<And>h r. m h = Some r \<Longrightarrow> r = h \<or> (\<exists>a. r = show_ip a)"
    "addresses h = Some r"
  shows "r = h \<or> (\<exists>a. r = show_ip a)"
  using assms
proof (induction tasks m lg rule: raw_resolve_all.induct)
  case (2 host fresh tasks m lg)
  obtain r' lg'' where s: "raw_resolve host fresh lg = (r', lg'')" by fastforce
  have "raw_resolve_all tasks (m(host \<mapsto> r')) lg'' = (addresses, lg')" using 2(2) s by simp
  then show ?case
    by (rule 2(1) [OF s [symmetric]]) (use 2(3,4) raw_resolve_result [OF s] in \<open>auto split: if_splits\<close>)
qed simp

lemma pick_address_prefers_v4:
  assumes "addresses \<noteq> []"
  shows "\<exists>a. pick_address addresses = Some a \<and> a \<in> set addresses \<and> (is_ipv4 a \<or> \<not> list_ex is_ipv4 addresses)"
proof (cases "find is_ipv4 addresses")
  case None
  then have "\<not> list_ex is_ipv4 addresses" by (simp add: find_None_iff list_ex_iff)
  with None assms show ?thesis by (cases addresses) (simp_all add: pick_address_def)
next
  case (Some a)
  then have "a \<in> set addresses" "is_ipv4 a" by (auto simp: find_Some_iff)
  with Some show ?thesis by (simp add: pick_address_def)
qed

text \<open>
  The last good address of a host is kept: once a lookup of it has succeeded, a later failing one
  yields the same address, as long as no other lookup of the host succeeds in between; a successful
  lookup prefers an IPv4 address.
\<close>

lemma raw_resolve_last_good:
  assumes "raw_resolve host (Some addresses) lg = (r, lg')" "addresses \<noteq> []"
    "\<forall>t \<in> set tasks. to_ascii_lowercase (trim_end_by (\<lambda>c. c = 46) (fst t)) =
       to_ascii_lowercase (trim_end_by (\<lambda>c. c = 46) host) \<longrightarrow> snd t = None"
    "raw_resolve_all tasks m lg' = (m', lg'')" "parse_ip host = None"
  shows "raw_resolve host None lg'' = (r, lg'')
    \<and> (\<exists>a \<in> set addresses. r = show_ip a \<and> (is_ipv4 a \<or> \<not> list_ex is_ipv4 addresses))"
proof -
  let ?k = "\<lambda>h. to_ascii_lowercase (trim_end_by (\<lambda>c. c = 46) h)"
  obtain a where a: "pick_address addresses = Some a" "a \<in> set addresses" "is_ipv4 a \<or> \<not> list_ex is_ipv4 addresses"
    using pick_address_prefers_v4 [OF assms(2)] by blast
  then have r: "r = show_ip a" "lg' = lg(?k host \<mapsto> a)"
    using assms(1,5) by (auto simp: raw_resolve_def Let_def)
  have keep: "lg'' (?k host) = lg' (?k host)"
    using assms(3,4)
  proof (induction tasks m lg' rule: raw_resolve_all.induct)
    case (2 h fresh tasks m l)
    obtain x l1 where s: "raw_resolve h fresh l = (x, l1)" by fastforce
    have "l1 (?k host) = l (?k host)"
      using s 2(2) by (auto simp: raw_resolve_def Let_def split: option.splits if_splits)
    moreover have "raw_resolve_all tasks (m(h \<mapsto> x)) l1 = (m', lg'')" using 2(3) s by simp
    ultimately show ?case using 2(1) [OF s [symmetric]] 2(2) by (simp del: fun_upd_apply)
  qed simp
  then have "raw_resolve host None lg'' = (r, lg'')"
    using r assms(5) by (simp add: raw_resolve_def Let_def)
  with a r show ?thesis by blast
qed

lemma raw_resolve_last_good_witness:
  "\<exists>lg'. raw_resolve [122] (Some [V6 1, V4 7]) Map.empty = (show_ip (V4 7), lg')
    \<and> raw_resolve [122] None lg' = (show_ip (V4 7), lg')"
proof -
  have p: "parse_ip [122] = None"
    using parse_ip_chars [of "[122]"] by (cases "parse_ip [122]") (auto simp: ip_char_def digit_val_def ascii_digit_def)
  obtain lg' where l: "raw_resolve [122] (Some [V6 1, V4 7]) Map.empty = (show_ip (V4 7), lg')"
    using p by (simp add: raw_resolve_def pick_address_def)
  have "raw_resolve_all [] Map.empty lg' = (Map.empty, lg')" by simp
  from raw_resolve_last_good [OF l _ _ this p] l show ?thesis by simp
qed

subsection \<open>The lines read back\<close>

lemma raw_collect_member:
  "n \<in> set (raw_collect T sel ps) \<Longrightarrow> raw_proxy n \<in> set ps \<and> supported T (raw_proxy n)
    \<and> raw_policy n = sanitize_policy_name (name (raw_proxy n))
    \<and> (\<exists>s. node_selector T (name (raw_proxy n)) = Inr s)"
  by (induction T sel ps rule: raw_collect.induct) (auto simp: Let_def split: if_splits sum.splits)

lemma raw_new_member:
  assumes "n \<in> set (raw_nodes (raw_new T ps))"
  shows "\<exists>k \<in> set (raw_collect T {} ps). raw_proxy n = raw_proxy k \<and> (raw_policy n = raw_policy k
    \<or> (\<exists>s. node_selector T (name (raw_proxy k)) = Inr s \<and> raw_policy n = raw_policy k @ ustr '' ['' @ s @ ustr '']''))"
proof -
  obtain k where k: "k \<in> set (raw_collect T {} ps)" and n: "n = k \<or> n = k\<lparr>raw_policy := raw_policy k @ ustr '' [''
      @ (case node_selector T (name (raw_proxy k)) of Inr s \<Rightarrow> s | Inl _ \<Rightarrow> []) @ ustr '']''\<rparr>"
    using assms by (auto simp: raw_new_def Let_def)
  obtain s where "node_selector T (name (raw_proxy k)) = Inr s" using raw_collect_member [OF k] by blast
  with k n show ?thesis by (intro bexI [of _ k]) auto
qed

definition raw_fields :: "(ustring \<rightharpoonup> ustring) \<Rightarrow> RawNode \<Rightarrow> ustring list" where
  "raw_fields addresses n =
     (let p = raw_proxy n in
      [raw_policy n @ ustr '' = snell'',
       32 # (case addresses (server p) of Some a \<Rightarrow> a | None \<Rightarrow> server p),
       32 # show_nat (unat (port p)), ustr '' psk='' @ proxy_psk p, ustr '' version=4'', ustr '' obfs=ech-tls'',
       ustr '' obfs-host='' @ (if sni (obfs p) = [] then server p else sni (obfs p)),
       ustr '' ech-config='' @ ech_config (obfs p), ustr '' reuse='' @ show_bool (proxy_reuse p),
       ustr '' udp-relay='' @ show_bool (udp p)]
      @ (if tfo p then [ustr '' tfo=true''] else [])
      @ (if skip_cert_verify (obfs p) then [ustr '' skip-cert-verify=true''] else []))"

lemma raw_line_fields: "raw_line addresses n = join_with [44] (raw_fields addresses n)"
  by (simp add: raw_line_def raw_fields_def Let_def ustr_def)

definition proxy_scalars :: "Proxy \<Rightarrow> bool" where
  "proxy_scalars p \<longleftrightarrow> list_all scalar (server p) \<and> list_all scalar (sni (obfs p))"

lemma supported_fields:
  assumes "supported T p" "proxy_scalars p" "b64_alphabet_law T"
  shows "list_all field_char (server p)" "sni (obfs p) \<noteq> [] \<Longrightarrow> list_all field_char (sni (obfs p))"
    "list_all field_char (proxy_psk p)" "list_all field_char (ech_config (obfs p))"
proof -
  show "list_all field_char (server p)" "sni (obfs p) \<noteq> [] \<Longrightarrow> list_all field_char (sni (obfs p))"
    using assms(1,2) safe_host_field by (auto simp: supported_def proxy_scalars_def)
  have "safe_parameter (proxy_psk p)" using assms(1) by (simp add: supported_def)
  then show "list_all field_char (proxy_psk p)"
    by (auto simp: safe_parameter_def list_all_iff list_ex_iff field_char_def ustr_def)
  obtain bs where "b64_decode T (ech_config (obfs p)) = Some bs"
    using assms(1) by (cases "b64_decode T (ech_config (obfs p))")
      (auto simp: supported_def parse_ech_config_def split: if_splits)
  then show "list_all field_char (ech_config (obfs p))"
    using assms(3) field_char_ascii by (fastforce simp: b64_alphabet_law_def list_all_iff)
qed

lemma raw_node_plain:
  assumes "b64url_laws T" "n \<in> set (raw_nodes (raw_new T ps))"
  shows "raw_proxy n \<in> set ps" "supported T (raw_proxy n)" "list_all plain_char (raw_policy n)"
proof -
  obtain k where k: "k \<in> set (raw_collect T {} ps)" "raw_proxy n = raw_proxy k"
    and pol: "raw_policy n = raw_policy k \<or> (\<exists>s. node_selector T (name (raw_proxy k)) = Inr s
      \<and> raw_policy n = raw_policy k @ ustr '' ['' @ s @ ustr '']'')"
    using raw_new_member [OF assms(2)] by blast
  have "list_all plain_char (raw_policy k)" using raw_collect_member [OF k(1)] sanitize_plain by simp
  then show "list_all plain_char (raw_policy n)"
    using pol node_selector_plain [OF assms(1)] by (auto simp: ustr_def plain_char_def is_control_def)
  show "raw_proxy n \<in> set ps" "supported T (raw_proxy n)" using k raw_collect_member [OF k(1)] by simp_all
qed

lemma raw_fields_plain:
  assumes "b64url_laws T" "b64_alphabet_law T" "\<forall>p \<in> set ps. proxy_scalars p"
    "raw_resolve_all tasks Map.empty lg = (addresses, lg')" "n \<in> set (raw_nodes (raw_new T ps))"
    "w \<in> set (raw_fields addresses n)"
  shows "list_all field_char w"
proof -
  note n = raw_node_plain [OF assms(1,5)]
  have sc: "proxy_scalars (raw_proxy n)" using n(1) assms(3) by auto
  note f = supported_fields [OF n(2) sc assms(2)]
  have "list_all field_char (case addresses (server (raw_proxy n)) of Some a \<Rightarrow> a | None \<Rightarrow> server (raw_proxy n))"
    using raw_resolve_all_result [OF assms(4)] show_ip_field f(1) by (fastforce split: option.split)
  then show ?thesis
    using assms(6) f plain_field [OF n(3)] plain_field [OF digits_plain [of "unat (port (raw_proxy n))"]]
    by (auto simp: raw_fields_def Let_def ustr_def field_char_def is_control_def show_bool_def split: if_splits)
qed

text \<open>
  The exported document has one line per exported node, in order, and read back comma by comma
  each line has exactly the node's parameters: no name, host, key, configuration or address can
  add a field or a line. Exported nodes are nodes of the catalog, and those left out are counted.
\<close>

lemma raw_render_reads_back:
  assumes "b64url_laws T" "b64_alphabet_law T" "\<forall>p \<in> set ps. proxy_scalars p"
    "raw_render (raw_new T ps) tasks lg = (out, lg')"
  shows "\<exists>doc addresses. out = utf8 doc
    \<and> map (split_char 44) (str_lines doc) = map (raw_fields addresses) (raw_nodes (raw_new T ps))
    \<and> raw_proxy ` set (raw_nodes (raw_new T ps)) \<subseteq> set ps
    \<and> skipped (raw_new T ps) = length ps - length (raw_nodes (raw_new T ps))"
proof -
  let ?ns = "raw_nodes (raw_new T ps)"
  obtain addresses where r: "raw_resolve_all tasks Map.empty lg = (addresses, lg')"
    and out: "out = utf8 (concat (map (\<lambda>n. raw_line addresses n @ [10]) ?ns))"
    using assms(4) by (auto simp: raw_render_def split: prod.splits)
  note ok = raw_fields_plain [OF assms(1-3) r]
  have "str_lines (concat (map (\<lambda>l. l @ [10]) (map (\<lambda>n. join_with [44] (raw_fields addresses n)) ?ns)))
      = map (\<lambda>n. join_with [44] (raw_fields addresses n)) ?ns"
    using join_fields_break ok by (intro str_lines_concat) auto
  moreover have "split_char 44 (join_with [44] (raw_fields addresses n)) = raw_fields addresses n"
    if "n \<in> set ?ns" for n
  proof (rule split_char_join)
    show "\<forall>w \<in> set (raw_fields addresses n). 44 \<notin> set w"
      using ok [OF that] by (auto simp: list_all_iff field_char_def)
  qed (simp add: raw_fields_def Let_def)
  ultimately have "map (split_char 44) (str_lines (concat (map (\<lambda>n. raw_line addresses n @ [10]) ?ns)))
      = map (raw_fields addresses) ?ns"
    by (simp add: raw_line_fields comp_def)
  moreover have "skipped (raw_new T ps) = length ps - length ?ns" by (simp add: raw_new_def Let_def)
  ultimately show ?thesis using out raw_node_plain(1) [OF assms(1)] by blast
qed

definition strict_text :: text_crates where
  "strict_text = sample_text\<lparr>b64_decode := \<lambda>s.
     if list_all (\<lambda>c. ascii_alphanumeric c \<or> c = 43 \<or> c = 47 \<or> c = 61) s then unnibbles s else None\<rparr>"

lemma raw_render_reads_back_witness:
  "\<exists>out lg' doc addresses. raw_render (raw_new strict_text [good_proxy [88]]) [] Map.empty = (out, lg') \<and> out = utf8 doc
    \<and> map (split_char 44) (str_lines doc) = map (raw_fields addresses) (raw_nodes (raw_new strict_text [good_proxy [88]]))"
proof -
  obtain out lg' where o: "raw_render (raw_new strict_text [good_proxy [88]]) [] Map.empty = (out, lg')" by fastforce
  have "b64url_laws strict_text" using sample_b64url_laws by (simp add: b64url_laws_def strict_text_def)
  moreover have "b64_alphabet_law strict_text" by (simp add: b64_alphabet_law_def strict_text_def)
  moreover have "proxy_scalars (good_proxy [88])" by (simp add: proxy_scalars_def good_proxy_def ustr_def scalar_def)
  ultimately show ?thesis using raw_render_reads_back [OF _ _ _ o] o by fastforce
qed

end
