(* ===== verification/Gateway.thy ===== *)
theory Gateway
  imports Config Raw_Provider "HOL-Library.AList"
begin

text \<open>
  The gateway, \<open>src/gateway.rs\<close>: the router built from a catalog, authentication by selector and
  secret, and the manager that replaces the router when the catalog changes and closes the
  clients nobody uses any more.

  A Snell client is shared by reference: \<open>Arc\<close>s of runtimes are addresses in an arena of clients.
  A runtime is allocated together with its client, so one address names both, and \<open>Arc::ptr_eq\<close>
  compares addresses. A \<open>HashMap\<close> is the list of its entries in the order in which it
  is iterated over.
\<close>

record Route =
  r_client :: nat
  r_udp :: bool

record NodeRuntime =
  n_proxy :: Proxy
  n_route :: Route

record arena =
  clients :: "nat \<rightharpoonup> snell_client"
  next_address :: nat

record ProviderDocs =
  surge_http :: bytes
  surge_socks :: bytes
  clash_http :: bytes
  clash_socks :: bytes

record Router =
  routes :: "ustring \<rightharpoonup> Route"
  runtimes :: "(ustring \<times> NodeRuntime) list"
  filtered_docs :: ProviderDocs
  all_docs :: ProviderDocs
  router_secret :: ustring
  published_count :: nat
  raw_filtered :: RawNodes
  raw_all :: RawNodes
  router_remote_raw :: bool

record GatewayContext =
  outbound_ip :: ip
  udp_relay_advertised :: bool
  routing_secret :: ustring
  dial_limit :: nat

subsection \<open>Documents and secrets\<close>

definition render_provider_docs ::
  "text_crates \<Rightarrow> Proxy list \<Rightarrow> ustring \<Rightarrow> u16 \<Rightarrow> ustring \<Rightarrow> bool \<Rightarrow> ProviderDocs res" where
  "render_provider_docs T ps listen prt secret adv =
     and_then (surge_render T ps listen prt secret Http False) (\<lambda>sh.
     and_then (surge_render T ps listen prt secret Socks5 adv) (\<lambda>ss.
     and_then (clash_render T ps listen prt secret Http False) (\<lambda>ch.
     and_then (clash_render T ps listen prt secret Socks5 adv) (\<lambda>cs.
     Inr \<lparr>surge_http = sh, surge_socks = ss, clash_http = ch, clash_socks = cs\<rparr>))))"

definition docs_surge :: "ProviderDocs \<Rightarrow> bool \<Rightarrow> bytes" where
  "docs_surge d socks = (if socks then surge_socks d else surge_http d)"

definition docs_clash :: "ProviderDocs \<Rightarrow> bool \<Rightarrow> bytes" where
  "docs_clash d socks = (if socks then clash_socks d else clash_http d)"

definition ROUTING_SECRET_CONTEXT :: bytes where
  "ROUTING_SECRET_CONTEXT = map of_char ''oixc-proxy/provider-routing/v1''"

definition derive_routing_secret :: "crypto \<Rightarrow> text_crates \<Rightarrow> ustring \<Rightarrow> ustring res" where
  "derive_routing_secret X T key_material =
     (if str_trim key_material = [] then Inl (Bail ''gateway routing key material is required'')
      else Inr (b64url_encode T (hmac_sha256 X (utf8 key_material) ROUTING_SECRET_CONTEXT)))"

text \<open>\<open>fresh\<close> is the address of a new semaphore.\<close>

definition reconfigured ::
  "crypto \<Rightarrow> text_crates \<Rightarrow> nat \<Rightarrow> GatewayContext \<Rightarrow> RuntimeConfig \<Rightarrow> RuntimeConfig \<Rightarrow> GatewayContext res" where
  "reconfigured X T fresh context old new =
     and_then (derive_routing_secret X T (access_token new)) (\<lambda>secret.
     Inr (context\<lparr>routing_secret := secret,
       dial_limit := if dial_concurrency old = dial_concurrency new then dial_limit context else fresh\<rparr>))"

subsection \<open>Building a router\<close>

definition dialer_new_with_context :: "text_crates \<Rightarrow> Proxy \<Rightarrow> nat \<Rightarrow> unit res" where
  "dialer_new_with_context T p dial_timeout =
     (if dial_timeout = 0 \<or> dial_timeout > secs 120
      then Inl (Bail ''ECH dial timeout must be between 1ns and 2m'')
      else and_then (validate_profile p) (\<lambda>_.
           and_then (parse_ech_config T (ech_config (obfs p))) (\<lambda>_. Inr ())))"

definition node_options :: "RuntimeConfig \<Rightarrow> Proxy \<Rightarrow> client_options" where
  "node_options rt p =
     \<lparr>psk = proxy_psk p, reuse = proxy_reuse p, max_idle = reuse_max_idle rt, max_uses = reuse_max_uses rt,
      idle_timeout = reuse_idle_timeout rt, handshake_timeout = request_timeout rt, close_timeout = secs 2\<rparr>"

definition new_runtime :: "crypto \<Rightarrow> text_crates \<Rightarrow> RuntimeConfig \<Rightarrow> Proxy \<Rightarrow> arena \<Rightarrow> NodeRuntime res \<times> arena" where
  "new_runtime X T rt p h =
     (case dialer_new_with_context T p (request_timeout rt) of
        Inl e \<Rightarrow> (Inl e, h)
      | Inr _ \<Rightarrow>
          (case new_with_node_dial_limit X (node_options rt p) of
             Inl e \<Rightarrow> (Inl e, h)
           | Inr c \<Rightarrow>
               (Inr \<lparr>n_proxy = p, n_route = \<lparr>r_client = next_address h, r_udp = udp p\<rparr>\<rparr>,
                h\<lparr>clients := (clients h)(next_address h \<mapsto> c), next_address := Suc (next_address h)\<rparr>)))"

definition existing_runtime :: "Router option \<Rightarrow> Proxy \<Rightarrow> NodeRuntime option" where
  "existing_runtime prev p =
     Option.bind prev (\<lambda>catalog.
     Option.bind (map_of (runtimes catalog) (name p)) (\<lambda>existing.
     if n_proxy existing = p then Some existing else None))"

definition node_runtime ::
  "crypto \<Rightarrow> text_crates \<Rightarrow> RuntimeConfig \<Rightarrow> Router option \<Rightarrow> Proxy \<Rightarrow> arena \<Rightarrow> NodeRuntime res \<times> arena" where
  "node_runtime X T rt prev p h =
     (case existing_runtime prev p of Some existing \<Rightarrow> (Inr existing, h) | None \<Rightarrow> new_runtime X T rt p h)"

fun build_loop ::
  "crypto \<Rightarrow> text_crates \<Rightarrow> RuntimeConfig \<Rightarrow> Router option \<Rightarrow> Proxy list
    \<Rightarrow> (ustring \<rightharpoonup> Route) \<times> (ustring \<times> NodeRuntime) list \<Rightarrow> arena
    \<Rightarrow> ((ustring \<rightharpoonup> Route) \<times> (ustring \<times> NodeRuntime) list) res \<times> arena" where
  "build_loop X T rt prev [] (rs, ns) h = (Inr (rs, ns), h)"
| "build_loop X T rt prev (p # ps) (rs, ns) h =
     st_then (node_runtime X T rt prev p h) (\<lambda>n h.
     case node_selector T (name p) of
       Inl e \<Rightarrow> (Inl e, h)
     | Inr selector \<Rightarrow>
         if rs selector \<noteq> None then (Inl (Bail ''gateway selector collision''), h)
         else build_loop X T rt prev ps (rs(selector \<mapsto> n_route n), AList.update (name p) n ns) h)"

text \<open>An error drops the runtimes made so far, and with them their clients.\<close>

definition router_build ::
  "crypto \<Rightarrow> text_crates \<Rightarrow> Proxy list \<Rightarrow> Proxy list \<Rightarrow> RuntimeConfig \<Rightarrow> GatewayContext \<Rightarrow> Router option
    \<Rightarrow> arena \<Rightarrow> Router res \<times> arena" where
  "router_build X T ps published rt context prev h =
     (let listen = show_ip (outbound_ip context);
          docs = (\<lambda>l. render_provider_docs T l listen (serve_port rt) (routing_secret context) (udp_relay_advertised context)) in
      case docs published of
        Inl e \<Rightarrow> (Inl e, h)
      | Inr filtered \<Rightarrow>
          (case (if ps = published then Inr filtered else docs ps) of
             Inl e \<Rightarrow> (Inl e, h)
           | Inr alldocs \<Rightarrow>
               (case build_loop X T rt prev ps (Map.empty, []) h of
                  (Inl e, _) \<Rightarrow> (Inl e, h)
                | (Inr (rs, ns), h) \<Rightarrow>
                    (Inr \<lparr>routes = rs, runtimes = ns, filtered_docs = filtered, all_docs = alldocs,
                       router_secret = routing_secret context, published_count = length published,
                       raw_filtered = raw_new T published, raw_all = raw_new T ps,
                       router_remote_raw = allow_remote_raw_provider rt\<rparr>, h))))"

definition router_docs :: "Router \<Rightarrow> bool \<Rightarrow> ProviderDocs" where
  "router_docs r include_all = (if include_all then all_docs r else filtered_docs r)"

definition router_authenticate :: "text_crates \<Rightarrow> Router \<Rightarrow> ustring \<Rightarrow> ustring \<Rightarrow> Route res" where
  "router_authenticate T r selector secret =
     (if \<not> ct_eq T (utf8 secret) (utf8 (router_secret r)) then Inl (Bail ''gateway authentication failed'')
      else ok_or (routes r selector) (Bail ''gateway authentication failed''))"

definition close_at :: "nat \<Rightarrow> arena \<Rightarrow> arena" where
  "close_at a h = h\<lparr>clients := (clients h)(a := map_option close_client (clients h a))\<rparr>"

definition shared_runtime :: "Router option \<Rightarrow> ustring \<times> NodeRuntime \<Rightarrow> bool" where
  "shared_runtime replacement e \<longleftrightarrow>
     (case Option.bind replacement (\<lambda>catalog. map_of (runtimes catalog) (fst e)) of
        None \<Rightarrow> False
      | Some other \<Rightarrow> r_client (n_route (snd e)) = r_client (n_route other))"

definition retire_exclusive_runtimes :: "Router \<Rightarrow> Router option \<Rightarrow> arena \<Rightarrow> arena" where
  "retire_exclusive_runtimes r replacement h =
     fold (\<lambda>e h. if shared_runtime replacement e then h else close_at (r_client (n_route (snd e))) h) (runtimes r) h"

subsection \<open>The manager\<close>

record CatalogStatus =
  started_from_cache :: bool
  last_attempt_at :: "nat option"
  last_success_at :: "nat option"
  last_error :: "ErrorKind option"
  refresh_failures :: nat
  cache_age_seconds :: "nat option"

definition catalog_status_default :: CatalogStatus where
  "catalog_status_default = \<lparr>started_from_cache = False, last_attempt_at = None, last_success_at = None,
     last_error = None, refresh_failures = 0, cache_age_seconds = None\<rparr>"

record GatewayManager =
  router :: "Router option"
  catalog_status :: CatalogStatus
  has_transport :: bool
  subscription :: "(UserInfo \<times> nat option) option"
  raw_last_good :: last_good

definition manager_new :: "Router \<Rightarrow> GatewayManager" where
  "manager_new r = \<lparr>router = Some r, catalog_status = catalog_status_default, has_transport = False,
     subscription = None, raw_last_good = Map.empty\<rparr>"

definition initialize_status :: "bool \<Rightarrow> nat option \<Rightarrow> GatewayManager \<Rightarrow> GatewayManager" where
  "initialize_status from_cache at m = m\<lparr>catalog_status :=
     (catalog_status m)\<lparr>started_from_cache := from_cache, last_success_at := at\<rparr>\<rparr>"

definition refresh_started :: "nat \<Rightarrow> GatewayManager \<Rightarrow> GatewayManager" where
  "refresh_started now m = m\<lparr>catalog_status := (catalog_status m)\<lparr>last_attempt_at := Some now\<rparr>\<rparr>"

text \<open>The error arrives classified.\<close>

definition refresh_finished :: "ErrorKind option \<Rightarrow> nat \<Rightarrow> GatewayManager \<Rightarrow> GatewayManager" where
  "refresh_finished error now m =
     (let s = (catalog_status m)\<lparr>last_error := error\<rparr> in
      m\<lparr>catalog_status := (if error \<noteq> None then s\<lparr>refresh_failures := refresh_failures s + 1\<rparr>
                          else s\<lparr>last_success_at := Some now\<rparr>)\<rparr>)"

definition manager_authenticate :: "text_crates \<Rightarrow> GatewayManager \<Rightarrow> ustring \<Rightarrow> ustring \<Rightarrow> Route res" where
  "manager_authenticate T m selector secret =
     and_then (ok_or (router m) (Bail ''gateway is closed'')) (\<lambda>r. router_authenticate T r selector secret)"

definition manager_provider :: "GatewayManager \<Rightarrow> bool \<Rightarrow> bool \<Rightarrow> bytes res" where
  "manager_provider m include_all socks =
     ok_or (map_option (\<lambda>r. docs_surge (router_docs r include_all) socks) (router m)) (Bail ''gateway unavailable'')"

definition manager_clash_provider :: "GatewayManager \<Rightarrow> bool \<Rightarrow> bool \<Rightarrow> bytes res" where
  "manager_clash_provider m include_all socks =
     ok_or (map_option (\<lambda>r. docs_clash (router_docs r include_all) socks) (router m)) (Bail ''gateway unavailable'')"

definition raw_peer_allowed :: "ip \<Rightarrow> bool \<Rightarrow> bool" where
  "raw_peer_allowed peer allow_remote \<longleftrightarrow> allow_remote
     \<or> (case peer of
          V4 a \<Rightarrow> v4_loopback a
        | V6 a \<Rightarrow> a = 1 \<or> (case to_ipv4_mapped a of Some b \<Rightarrow> v4_loopback b | None \<Rightarrow> False))"

definition raw_provider_allowed :: "GatewayManager \<Rightarrow> ip \<Rightarrow> bool res" where
  "raw_provider_allowed m peer =
     and_then (ok_or (router m) (Bail ''gateway is closed'')) (\<lambda>r. Inr (raw_peer_allowed peer (router_remote_raw r)))"

text \<open>Without a transport every lookup fails.\<close>

definition manager_raw_provider ::
  "GatewayManager \<Rightarrow> bool \<Rightarrow> ip \<Rightarrow> (ustring \<times> ip list option) list \<Rightarrow> bytes option res \<times> GatewayManager" where
  "manager_raw_provider m include_all peer tasks =
     (case router m of
        None \<Rightarrow> (Inl (Bail ''gateway is closed''), m)
      | Some r \<Rightarrow>
          if \<not> raw_peer_allowed peer (router_remote_raw r) then (Inr None, m)
          else
            let nodes = (if include_all then raw_all r else raw_filtered r);
                lookups = (if has_transport m then tasks else map (\<lambda>(h, _). (h, None)) tasks) in
            case raw_render nodes lookups (raw_last_good m) of (document, lg) \<Rightarrow>
              (Inr (Some document), m\<lparr>raw_last_good := lg\<rparr>))"

definition update_subscription :: "UserInfo option \<Rightarrow> nat option \<Rightarrow> GatewayManager \<Rightarrow> GatewayManager" where
  "update_subscription info fetched_at m = m\<lparr>subscription := map_option (\<lambda>i. (i, fetched_at)) info\<rparr>"

definition subscription_header :: "GatewayManager \<Rightarrow> nat \<Rightarrow> ustring option" where
  "subscription_header m now = Option.bind (subscription m) (\<lambda>(info, at). userinfo_header info at now)"

definition manager_replace :: "Router \<Rightarrow> GatewayManager \<times> arena \<Rightarrow> unit res \<times> GatewayManager \<times> arena" where
  "manager_replace replacement s =
     (case s of (m, h) \<Rightarrow>
        let prev = router m; m = m\<lparr>router := Some replacement\<rparr> in
        case prev of
          None \<Rightarrow> (Inl (Bail ''gateway is closed''), m, h)
        | Some p \<Rightarrow> (Inr (), m, retire_exclusive_runtimes p (Some replacement) h))"

definition manager_close :: "GatewayManager \<times> arena \<Rightarrow> GatewayManager \<times> arena" where
  "manager_close s =
     (case s of (m, h) \<Rightarrow>
        let prev = router m; m = m\<lparr>subscription := None, router := None\<rparr> in
        case prev of
          None \<Rightarrow> (m, h)
        | Some p \<Rightarrow> (m, retire_exclusive_runtimes p None h))"

text \<open>A forced refresh: whether the gate is free, the channel, and what comes back.\<close>

datatype refresh_reply = ReplyTimeout | ReplyDropped | Reply bool

definition refresh_provider :: "bool \<Rightarrow> bool option \<Rightarrow> refresh_reply \<Rightarrow> unit res" where
  "refresh_provider gate_free sender reply =
     (if \<not> gate_free then Inl (Bail ''provider refresh is busy'')
      else if sender \<noteq> Some True then Inl (Bail ''provider refresh unavailable'')
      else (case reply of
              ReplyTimeout \<Rightarrow> Inl (Bail ''provider refresh timed out'')
            | ReplyDropped \<Rightarrow> Inl (Bail ''provider refresh unavailable'')
            | Reply ok \<Rightarrow> if \<not> ok then Inl (Bail ''provider refresh failed'') else Inr ()))"

text \<open>Which nodes the service publishes, \<open>published_proxies\<close> of \<open>src/cli.rs\<close>.\<close>

definition published_proxies :: "text_crates \<Rightarrow> Proxy list \<Rightarrow> bool \<Rightarrow> NodeFilter \<Rightarrow> Proxy list res" where
  "published_proxies T ps include_all f = (if include_all then Inr ps else filtered_proxies T ps f)"

subsection \<open>Building keeps the router in step with the arena\<close>

abbreviation runtime_address :: "ustring \<times> NodeRuntime \<Rightarrow> nat" where
  "runtime_address e \<equiv> r_client (n_route (snd e))"

definition addresses :: "Router option \<Rightarrow> nat set" where
  "addresses r = (case r of None \<Rightarrow> {} | Some r \<Rightarrow> runtime_address ` set (runtimes r))"

definition arena_wf :: "arena \<Rightarrow> bool" where
  "arena_wf h \<longleftrightarrow> (\<forall>a \<ge> next_address h. clients h a = None)"

text \<open>Routes and runtimes describe the same nodes, one runtime per name and one client per runtime.\<close>

definition entries_ok :: "text_crates \<Rightarrow> (ustring \<rightharpoonup> Route) \<Rightarrow> (ustring \<times> NodeRuntime) list \<Rightarrow> bool" where
  "entries_ok T rs ns \<longleftrightarrow> distinct (map fst ns) \<and> distinct (map runtime_address ns)
     \<and> (\<forall>e \<in> set ns. name (n_proxy (snd e)) = fst e \<and> r_udp (n_route (snd e)) = udp (n_proxy (snd e))
          \<and> (\<exists>s. node_selector T (fst e) = Inr s \<and> rs s = Some (n_route (snd e))))
     \<and> (\<forall>s r. rs s = Some r \<longrightarrow> (\<exists>e \<in> set ns. node_selector T (fst e) = Inr s \<and> n_route (snd e) = r))"

definition router_wf :: "text_crates \<Rightarrow> Router \<Rightarrow> bool" where
  "router_wf T r \<longleftrightarrow> entries_ok T (routes r) (runtimes r)"

definition prev_ok :: "text_crates \<Rightarrow> Router option \<Rightarrow> arena \<Rightarrow> bool" where
  "prev_ok T prev h \<longleftrightarrow> (\<forall>r. prev = Some r \<longrightarrow> router_wf T r) \<and> (\<forall>a \<in> addresses prev. a < next_address h)"

text \<open>What the arena holds for a node after the loop has passed it: its old runtime when it has one, a new client otherwise.\<close>

definition entry_made :: "crypto \<Rightarrow> RuntimeConfig \<Rightarrow> Router option \<Rightarrow> arena \<Rightarrow> arena \<Rightarrow> ustring \<times> NodeRuntime \<Rightarrow> bool" where
  "entry_made X rt prev h0 h e \<longleftrightarrow>
     (case existing_runtime prev (n_proxy (snd e)) of
        Some n \<Rightarrow> n = snd e
      | None \<Rightarrow> next_address h0 \<le> runtime_address e \<and>
          (\<exists>c. clients h (runtime_address e) = Some c \<and> new_with_node_dial_limit X (node_options rt (n_proxy (snd e))) = Inr c))"

definition loop_inv ::
  "crypto \<Rightarrow> text_crates \<Rightarrow> RuntimeConfig \<Rightarrow> Router option \<Rightarrow> arena
    \<Rightarrow> (ustring \<rightharpoonup> Route) \<times> (ustring \<times> NodeRuntime) list \<Rightarrow> arena \<Rightarrow> bool" where
  "loop_inv X T rt prev h0 st h \<longleftrightarrow>
     entries_ok T (fst st) (snd st) \<and> arena_wf h \<and> next_address h0 \<le> next_address h
     \<and> (\<forall>a < next_address h0. clients h a = clients h0 a)
     \<and> (\<forall>e \<in> set (snd st). entry_made X rt prev h0 h e \<and> runtime_address e < next_address h)
     \<and> (\<forall>a. next_address h0 \<le> a \<and> a < next_address h \<longrightarrow> a \<in> runtime_address ` set (snd st))"

lemma existing_runtime_Some:
  assumes "existing_runtime prev p = Some n" "prev_ok T prev h"
  shows "n_proxy n = p" "\<exists>r. prev = Some r \<and> (name p, n) \<in> set (runtimes r)" "r_udp (n_route n) = udp p"
    "r_client (n_route n) < next_address h"
proof -
  obtain r where r: "prev = Some r" "map_of (runtimes r) (name p) = Some n" and p: "n_proxy n = p"
    using assms(1) by (auto simp: existing_runtime_def bind_eq_Some_conv split: if_splits)
  have m: "(name p, n) \<in> set (runtimes r)" using map_of_SomeD [OF r(2)] .
  then show "\<exists>r. prev = Some r \<and> (name p, n) \<in> set (runtimes r)" using r(1) by blast
  show "n_proxy n = p" by (rule p)
  show "r_udp (n_route n) = udp p" "r_client (n_route n) < next_address h"
    using assms(2) r(1) m p by (force simp: prev_ok_def router_wf_def entries_ok_def addresses_def)+
qed

lemma update_fresh: "k \<notin> fst ` set al \<Longrightarrow> AList.update k v al = al @ [(k, v)]"
  by (induction al) auto

lemma entries_ok_add:
  assumes "entries_ok T rs ns" "node_selector T (name p) = Inr s" "rs s = None"
    "n_proxy n = p" "r_udp (n_route n) = udp p" "r_client (n_route n) \<notin> runtime_address ` set ns"
  shows "AList.update (name p) n ns = ns @ [(name p, n)]"
    "entries_ok T (rs(s \<mapsto> n_route n)) (ns @ [(name p, n)])"
proof -
  have nm: "name p \<notin> fst ` set ns" using assms(1-3) by (force simp: entries_ok_def)
  then show "AList.update (name p) n ns = ns @ [(name p, n)]" by (rule update_fresh)
  let ?ns = "ns @ [(name p, n)]" and ?rs = "rs(s \<mapsto> n_route n)"
  have "distinct (map fst ?ns)" "distinct (map runtime_address ?ns)"
    using assms(1,6) nm by (simp_all add: entries_ok_def)
  moreover have "\<exists>s'. node_selector T (fst e) = Inr s' \<and> ?rs s' = Some (n_route (snd e))" if "e \<in> set ?ns" for e
  proof (cases "e \<in> set ns")
    case True
    then obtain s' where "node_selector T (fst e) = Inr s'" "rs s' = Some (n_route (snd e))"
      using assms(1) unfolding entries_ok_def by blast
    then show ?thesis using assms(3) by (intro exI [of _ s']) auto
  qed (use that assms(2) in simp)
  moreover have "name (n_proxy (snd e)) = fst e \<and> r_udp (n_route (snd e)) = udp (n_proxy (snd e))" if "e \<in> set ?ns" for e
    using that assms(1,4,5) by (auto simp: entries_ok_def)
  moreover have "\<exists>e \<in> set ?ns. node_selector T (fst e) = Inr s' \<and> n_route (snd e) = r" if "?rs s' = Some r" for s' r
    using that assms(1,2) by (cases "s' = s") (auto simp: entries_ok_def)
  ultimately show "entries_ok T ?rs ?ns" unfolding entries_ok_def by blast
qed

lemma new_runtime_Inr:
  assumes "new_runtime X T rt p h = (Inr n, h')"
  obtains c where "n = \<lparr>n_proxy = p, n_route = \<lparr>r_client = next_address h, r_udp = udp p\<rparr>\<rparr>"
    "new_with_node_dial_limit X (node_options rt p) = Inr c"
    "h' = h\<lparr>clients := (clients h)(next_address h \<mapsto> c), next_address := Suc (next_address h)\<rparr>"
  using assms by (auto simp: new_runtime_def split: sum.splits)

lemma loop_inv_existing:
  assumes inv: "loop_inv X T rt prev h0 (rs, ns) h" and prev: "prev_ok T prev h0"
    and n: "existing_runtime prev p = Some n" and s: "node_selector T (name p) = Inr s" "rs s = None"
  shows "loop_inv X T rt prev h0 (rs(s \<mapsto> n_route n), ns @ [(name p, n)]) h
    \<and> AList.update (name p) n ns = ns @ [(name p, n)]"
proof -
  note ex = existing_runtime_Some [OF n prev]
  have ok: "entries_ok T rs ns" using inv by (simp add: loop_inv_def)
  have "r_client (n_route n) \<noteq> runtime_address e" if e: "e \<in> set ns" for e
  proof
    assume eq: "r_client (n_route n) = runtime_address e"
    have made: "entry_made X rt prev h0 h e" using inv e by (simp add: loop_inv_def)
    then obtain k where k: "existing_runtime prev (n_proxy (snd e)) = Some k" "k = snd e"
      using ex(4) eq by (auto simp: entry_made_def split: option.splits)
    obtain r where r: "prev = Some r" "(name p, n) \<in> set (runtimes r)" using ex(2) by blast
    have "(name (n_proxy (snd e)), snd e) \<in> set (runtimes r)"
      using existing_runtime_Some(2) [OF k(1) prev] k(2) r(1) by auto
    moreover have "inj_on runtime_address (set (runtimes r))"
      using prev r(1) by (simp add: prev_ok_def router_wf_def entries_ok_def distinct_map)
    ultimately have "(name (n_proxy (snd e)), snd e) = (name p, n)"
      using r(2) eq by (elim inj_onD) simp_all
    then have "name (n_proxy (snd e)) = name p" by (metis prod.inject)
    then have "name p = fst e" using ok e by (simp add: entries_ok_def)
    then show False using ok e s by (auto simp: entries_ok_def)
  qed
  then have fresh: "r_client (n_route n) \<notin> runtime_address ` set ns" by auto
  note add = entries_ok_add [OF ok s ex(1) ex(3) fresh]
  have "entry_made X rt prev h0 h (name p, n)" using n ex(1) by (simp add: entry_made_def)
  with inv add ex(4) show ?thesis by (auto simp: loop_inv_def)
qed

lemma entry_made_extend:
  "entry_made X rt prev h0 h e \<Longrightarrow> runtime_address e < next_address h
    \<Longrightarrow> (\<And>a. a < next_address h \<Longrightarrow> clients h' a = clients h a) \<Longrightarrow> entry_made X rt prev h0 h' e"
  by (auto simp: entry_made_def split: option.splits)

lemma loop_inv_new:
  assumes inv: "loop_inv X T rt prev h0 (rs, ns) h" and n: "existing_runtime prev p = None"
    "new_runtime X T rt p h = (Inr n, h')" and s: "node_selector T (name p) = Inr s" "rs s = None"
  shows "loop_inv X T rt prev h0 (rs(s \<mapsto> n_route n), ns @ [(name p, n)]) h'
    \<and> AList.update (name p) n ns = ns @ [(name p, n)]"
proof -
  obtain c where c: "n = \<lparr>n_proxy = p, n_route = \<lparr>r_client = next_address h, r_udp = udp p\<rparr>\<rparr>"
    "new_with_node_dial_limit X (node_options rt p) = Inr c"
    and h': "h' = h\<lparr>clients := (clients h)(next_address h \<mapsto> c), next_address := Suc (next_address h)\<rparr>"
    using new_runtime_Inr [OF n(2)] .
  have ok: "entries_ok T rs ns" and lt: "\<forall>e \<in> set ns. runtime_address e < next_address h"
    using inv by (simp_all add: loop_inv_def)
  have "r_client (n_route n) \<notin> runtime_address ` set ns" using lt c(1) by fastforce
  note add = entries_ok_add [OF ok s _ _ this]
  have "entry_made X rt prev h0 h' (name p, n)"
    using n(1) c h' inv by (simp add: entry_made_def loop_inv_def)
  moreover have "entry_made X rt prev h0 h' e" if "e \<in> set ns" for e
    by (rule entry_made_extend [of X rt prev h0 h]) (use inv that in \<open>auto simp: loop_inv_def h'\<close>)
  moreover have "arena_wf h'" using inv by (auto simp: loop_inv_def arena_wf_def h')
  ultimately show ?thesis
    using inv add c by (auto simp: loop_inv_def h' less_Suc_eq)
qed

lemma build_loop_inv:
  assumes "build_loop X T rt prev ps (rs, ns) h = (Inr (rs', ns'), h')"
    "loop_inv X T rt prev h0 (rs, ns) h" "prev_ok T prev h0"
  shows "loop_inv X T rt prev h0 (rs', ns') h' \<and> map (n_proxy \<circ> snd) ns' = map (n_proxy \<circ> snd) ns @ ps"
  using assms
proof (induction ps arbitrary: rs ns h)
  case (Cons p ps)
  obtain n h1 where n1: "node_runtime X T rt prev p h = (Inr n, h1)"
    and rest: "(case node_selector T (name p) of Inl e \<Rightarrow> (Inl e, h1) | Inr selector \<Rightarrow>
       if rs selector \<noteq> None then (Inl (Bail ''gateway selector collision''), h1)
       else build_loop X T rt prev ps (rs(selector \<mapsto> n_route n), AList.update (name p) n ns) h1) = (Inr (rs', ns'), h')"
    using Cons.prems(1) by (auto simp only: build_loop.simps res_simps)
  obtain s where n: "node_runtime X T rt prev p h = (Inr n, h1)" "node_selector T (name p) = Inr s" "rs s = None"
    and rec: "build_loop X T rt prev ps (rs(s \<mapsto> n_route n), AList.update (name p) n ns) h1 = (Inr (rs', ns'), h')"
    using n1 rest by (cases "node_selector T (name p)") (auto split: if_splits)
  have "loop_inv X T rt prev h0 (rs(s \<mapsto> n_route n), ns @ [(name p, n)]) h1
      \<and> AList.update (name p) n ns = ns @ [(name p, n)] \<and> n_proxy n = p"
  proof (cases "existing_runtime prev p")
    case None
    then have new: "new_runtime X T rt p h = (Inr n, h1)" using n(1) by (simp add: node_runtime_def)
    then have "n_proxy n = p" by (auto elim: new_runtime_Inr)
    then show ?thesis using loop_inv_new [OF Cons.prems(2) None new n(2,3)] by simp
  next
    case (Some k)
    then have "k = n" "h1 = h" using n(1) by (simp_all add: node_runtime_def)
    then show ?thesis
      using loop_inv_existing [OF Cons.prems(2,3) Some n(2,3)] existing_runtime_Some(1) [OF Some Cons.prems(3)] by simp
  qed
  then show ?case using Cons.IH [of "rs(s \<mapsto> n_route n)" "ns @ [(name p, n)]" h1] rec Cons.prems(3)
    by (simp del: fun_upd_apply)
qed simp

lemma router_build_Inr:
  assumes "router_build X T ps published rt context prev h = (Inr r, h')" "arena_wf h" "prev_ok T prev h"
  shows "loop_inv X T rt prev h (routes r, runtimes r) h'" "map (n_proxy \<circ> snd) (runtimes r) = ps"
    "router_secret r = routing_secret context"
proof -
  obtain rs ns where l: "build_loop X T rt prev ps (Map.empty, []) h = (Inr (rs, ns), h')"
    and r: "routes r = rs" "runtimes r = ns" "router_secret r = routing_secret context"
    using assms(1) by (auto simp: router_build_def Let_def split: sum.splits prod.splits if_splits)
  have "loop_inv X T rt prev h (Map.empty, []) h"
    using assms(2) by (auto simp: loop_inv_def entries_ok_def)
  from build_loop_inv [OF l this assms(3)] r
  show "loop_inv X T rt prev h (routes r, runtimes r) h'" "map (n_proxy \<circ> snd) (runtimes r) = ps"
    "router_secret r = routing_secret context" by simp_all
qed

lemma router_build_Inl: "router_build X T ps published rt context prev h = (Inl e, h') \<Longrightarrow> h' = h"
  by (auto simp: router_build_def Let_def split: sum.splits prod.splits if_splits)

subsection \<open>Retiring clients\<close>

lemma retire_fold_fields:
  "closed (fold (\<lambda>e. retire (i_physical e)) es c) = closed c"
  "options (fold (\<lambda>e. retire (i_physical e)) es c) = options c"
  by (induction es arbitrary: c) (simp_all add: retire_def)

lemma close_client_closed [simp]: "closed (close_client c)" "options (close_client c) = options c"
  by (simp_all add: close_client_def close_drain_def retire_fold_fields)

lemma close_client_again [simp]: "close_client (close_client c) = close_client c"
  by (simp add: close_client_def [of "close_client c"])

definition exclusive :: "Router \<Rightarrow> Router option \<Rightarrow> nat set" where
  "exclusive r replacement = runtime_address ` {e \<in> set (runtimes r). \<not> shared_runtime replacement e}"

lemma close_at_simps [simp]:
  "clients (close_at a h) b = (if b = a then map_option close_client (clients h b) else clients h b)"
  "next_address (close_at a h) = next_address h"
  by (simp_all add: close_at_def)

lemma retire_exclusive_clients:
  "clients (retire_exclusive_runtimes r replacement h) a =
     (if a \<in> exclusive r replacement then map_option close_client (clients h a) else clients h a)"
  "next_address (retire_exclusive_runtimes r replacement h) = next_address h"
proof -
  let ?step = "\<lambda>e h. if shared_runtime replacement e then h else close_at (runtime_address e) h"
  have *: "clients (fold ?step es h) a =
      (if a \<in> runtime_address ` {e \<in> set es. \<not> shared_runtime replacement e}
       then map_option close_client (clients h a) else clients h a)
    \<and> next_address (fold ?step es h) = next_address h" for es h
    by (induction es arbitrary: h) (auto simp: option.map_comp comp_def)
  show "clients (retire_exclusive_runtimes r replacement h) a =
     (if a \<in> exclusive r replacement then map_option close_client (clients h a) else clients h a)"
    "next_address (retire_exclusive_runtimes r replacement h) = next_address h"
    using * [of "runtimes r" h] by (simp_all add: retire_exclusive_runtimes_def exclusive_def)
qed

lemma new_client_fields:
  "new_with_node_dial_limit X opts = Inr c \<Longrightarrow> \<not> closed c \<and> options c = opts \<and> idle c = []"
  by (auto simp: new_with_node_dial_limit_def res_simps split: if_splits)

text \<open>After a build, a runtime of the old router is shared exactly when the new one has its address.\<close>

lemma shared_iff_address:
  assumes inv: "loop_inv X T rt prev h (routes r, runtimes r) h'" and wf: "router_wf T old" "\<forall>a \<in> addresses (Some old). a < next_address h"
    and prev: "prev = None \<or> prev = Some old" and e: "e \<in> set (runtimes old)"
  shows "shared_runtime (Some r) e \<longleftrightarrow> runtime_address e \<in> addresses (Some r)"
proof
  assume "shared_runtime (Some r) e"
  then obtain other where "map_of (runtimes r) (fst e) = Some other" "runtime_address e = r_client (n_route other)"
    by (auto simp: shared_runtime_def split: option.splits)
  then show "runtime_address e \<in> addresses (Some r)"
    by (auto simp: addresses_def dest!: map_of_SomeD intro: rev_image_eqI)
next
  assume "runtime_address e \<in> addresses (Some r)"
  then obtain f where f: "f \<in> set (runtimes r)" "runtime_address e = runtime_address f" by (auto simp: addresses_def)
  have ok: "prev_ok T prev h" using wf prev by (auto simp: prev_ok_def addresses_def)
  have "runtime_address f < next_address h" using wf(2) e f(2) by (auto simp: addresses_def)
  then obtain n where n: "existing_runtime prev (n_proxy (snd f)) = Some n" "n = snd f"
    using inv f(1) by (auto simp: loop_inv_def entry_made_def split: option.splits)
  obtain q where q: "prev = Some q" "(name (n_proxy (snd f)), snd f) \<in> set (runtimes q)"
    using existing_runtime_Some(2) [OF n(1) ok] n(2) by blast
  have "q = old" using q(1) prev by simp
  moreover have "fst f = name (n_proxy (snd f))" using inv f(1) by (simp add: loop_inv_def entries_ok_def)
  ultimately have "f \<in> set (runtimes old)" using q(2) by (metis prod.collapse)
  moreover have "inj_on runtime_address (set (runtimes old))"
    using wf(1) by (simp add: router_wf_def entries_ok_def distinct_map)
  ultimately have "f = e" using e f(2) by (metis inj_onD)
  moreover have "map_of (runtimes r) (fst f) = Some (snd f)"
    using inv f(1) by (simp add: loop_inv_def entries_ok_def)
  ultimately show "shared_runtime (Some r) e" by (simp add: shared_runtime_def)
qed

subsection \<open>Reachable states of the gateway\<close>

definition empty_arena :: arena where
  "empty_arena = \<lparr>clients = Map.empty, next_address = 0\<rparr>"

text \<open>
  The service owns the manager and runs one reload or refresh at a time: it builds the new router against the
  current one, with or without reusing its runtimes, and installs it. In between, sessions use
  their clients, which neither closes nor reopens them, and other requests touch the rest
  of the manager.
\<close>

inductive gateway_reach :: "crypto \<Rightarrow> text_crates \<Rightarrow> GatewayManager \<times> arena \<Rightarrow> bool" for X T where
  start: "router_build X T ps published rt context None empty_arena = (Inr r, h) \<Longrightarrow> gateway_reach X T (manager_new r, h)"
| install: "gateway_reach X T (m, h) \<Longrightarrow> router m = Some cur \<Longrightarrow> prev = None \<or> prev = Some cur
    \<Longrightarrow> router_build X T ps published rt context prev h = (Inr r, h')
    \<Longrightarrow> manager_replace r (m, h') = (res, s) \<Longrightarrow> gateway_reach X T s"
| failed: "gateway_reach X T (m, h) \<Longrightarrow> router_build X T ps published rt context prev h = (Inl e, h')
    \<Longrightarrow> gateway_reach X T (m, h')"
| session: "gateway_reach X T (m, h) \<Longrightarrow> clients h a = Some c \<Longrightarrow> closed c' = closed c \<Longrightarrow> options c' = options c
    \<Longrightarrow> gateway_reach X T (m, h\<lparr>clients := (clients h)(a \<mapsto> c')\<rparr>)"
| touch: "gateway_reach X T (m, h) \<Longrightarrow> router m' = router m \<Longrightarrow> gateway_reach X T (m', h)"
| closing: "gateway_reach X T s \<Longrightarrow> gateway_reach X T (manager_close s)"

inductive_cases gateway_reachE: "gateway_reach X T s"

definition open_at :: "arena \<Rightarrow> nat \<Rightarrow> bool" where
  "open_at h a \<longleftrightarrow> (\<exists>c. clients h a = Some c \<and> \<not> closed c)"

definition gateway_inv :: "text_crates \<Rightarrow> GatewayManager \<times> arena \<Rightarrow> bool" where
  "gateway_inv T s \<longleftrightarrow> arena_wf (snd s) \<and> prev_ok T (router (fst s)) (snd s)
     \<and> {a. open_at (snd s) a} = addresses (router (fst s))
     \<and> (\<forall>r e. router (fst s) = Some r \<and> e \<in> set (runtimes r) \<longrightarrow>
          (\<exists>c. clients (snd s) (runtime_address e) = Some c \<and> psk (options c) = proxy_psk (n_proxy (snd e))))"

lemma gateway_invI:
  assumes "arena_wf h" "prev_ok T (router m) h" "{a. open_at h a} = addresses (router m)"
    "\<And>r e. router m = Some r \<Longrightarrow> e \<in> set (runtimes r) \<Longrightarrow>
       \<exists>c. clients h (runtime_address e) = Some c \<and> psk (options c) = proxy_psk (n_proxy (snd e))"
  shows "gateway_inv T (m, h)"
  using assms unfolding gateway_inv_def fst_conv snd_conv by blast

lemma gateway_invD:
  assumes "gateway_inv T (m, h)"
  shows "arena_wf h" "prev_ok T (router m) h" "{a. open_at h a} = addresses (router m)"
    "router m = Some r \<Longrightarrow> e \<in> set (runtimes r) \<Longrightarrow>
       \<exists>c. clients h (runtime_address e) = Some c \<and> psk (options c) = proxy_psk (n_proxy (snd e))"
  using assms unfolding gateway_inv_def fst_conv snd_conv by blast+

lemma open_at_bound: "open_at h a \<Longrightarrow> arena_wf h \<Longrightarrow> a < next_address h"
  by (rule ccontr) (auto simp: open_at_def arena_wf_def)

text \<open>The state between a build and the retirement: what the new router holds is open.\<close>

lemma built_entry_open:
  assumes inv: "loop_inv X T rt prev h (routes r, runtimes r) h'" and prev: "prev = None \<or> prev = cur"
    and g: "gateway_inv T (m, h)" "router m = cur" and f: "f \<in> set (runtimes r)"
  shows "\<exists>c. clients h' (runtime_address f) = Some c \<and> \<not> closed c \<and> psk (options c) = proxy_psk (n_proxy (snd f))"
    "runtime_address f < next_address h'"
proof -
  have ok: "prev_ok T prev h" using g prev by (auto simp: gateway_inv_def prev_ok_def addresses_def)
  have made: "entry_made X rt prev h h' f" and lt: "runtime_address f < next_address h'"
    using inv f by (simp_all add: loop_inv_def)
  show "runtime_address f < next_address h'" by (rule lt)
  show "\<exists>c. clients h' (runtime_address f) = Some c \<and> \<not> closed c \<and> psk (options c) = proxy_psk (n_proxy (snd f))"
  proof (cases "existing_runtime prev (n_proxy (snd f))")
    case None
    with made obtain c where "clients h' (runtime_address f) = Some c"
      "new_with_node_dial_limit X (node_options rt (n_proxy (snd f))) = Inr c" by (auto simp: entry_made_def)
    then show ?thesis using new_client_fields [of X _ c] by (auto simp: node_options_def)
  next
    case (Some n)
    then have n: "n = snd f" using made by (simp add: entry_made_def)
    obtain q where q: "prev = Some q" "(name (n_proxy (snd f)), snd f) \<in> set (runtimes q)"
      using existing_runtime_Some(2) [OF Some ok] n by blast
    then have cur: "router m = Some q" using prev g(2) by auto
    then have "runtime_address f \<in> addresses (router m)" using q(2) by (auto simp: addresses_def intro: rev_image_eqI)
    then have "open_at h (runtime_address f)" using g(1) by (auto simp: gateway_inv_def)
    moreover have "\<exists>c. clients h (runtime_address f) = Some c \<and> psk (options c) = proxy_psk (n_proxy (snd f))"
      using g(1) cur q(2) by (fastforce simp: gateway_inv_def)
    moreover have "clients h' (runtime_address f) = clients h (runtime_address f)"
      using inv existing_runtime_Some(4) [OF Some ok] n by (simp add: loop_inv_def)
    ultimately show ?thesis by (auto simp: open_at_def)
  qed
qed

lemma gateway_inv_install:
  assumes g: "gateway_inv T (m, h)" "router m = Some cur" and prev: "prev = None \<or> prev = Some cur"
    and b: "router_build X T ps published rt context prev h = (Inr r, h')"
  shows "gateway_inv T (m\<lparr>router := Some r\<rparr>, retire_exclusive_runtimes cur (Some r) h')"
proof -
  have ok: "prev_ok T prev h" and cok: "prev_ok T (Some cur) h" and wf: "arena_wf h"
    and op: "{a. open_at h a} = addresses (Some cur)"
    using g prev by (auto simp: gateway_inv_def prev_ok_def addresses_def)
  note inv = router_build_Inr(1) [OF b wf ok]
  have cwf: "router_wf T cur" "\<forall>a \<in> addresses (Some cur). a < next_address h" using cok by (simp_all add: prev_ok_def)
  have lti: "next_address h \<le> next_address h'" "\<And>a. a < next_address h \<Longrightarrow> clients h' a = clients h a"
    "arena_wf h'" "\<And>a. next_address h \<le> a \<Longrightarrow> a < next_address h' \<Longrightarrow> a \<in> addresses (Some r)"
    using inv by (auto simp: loop_inv_def addresses_def)
  have excl: "a \<notin> exclusive cur (Some r) \<longleftrightarrow> a \<notin> addresses (Some cur) \<or> a \<in> addresses (Some r)" for a
    using shared_iff_address [OF inv cwf prev] by (auto simp: exclusive_def addresses_def)
  note bo = built_entry_open [OF inv prev g]
  let ?h = "retire_exclusive_runtimes cur (Some r) h'"
  have "open_at ?h a \<longleftrightarrow> open_at h' a \<and> a \<notin> exclusive cur (Some r)" for a
    by (auto simp: open_at_def retire_exclusive_clients)
  moreover have "open_at h' a" if "a \<in> addresses (Some r)" for a
    using that bo(1) by (fastforce simp: addresses_def open_at_def)
  moreover have "a \<in> addresses (Some r) \<or> a \<in> addresses (Some cur)" if "open_at h' a" for a
  proof (cases "a < next_address h")
    case True
    with that op lti(2) show ?thesis by (auto simp: open_at_def)
  next
    case False
    moreover have "a < next_address h'" using open_at_bound [OF that lti(3)] .
    ultimately show ?thesis using lti(4) by simp
  qed
  ultimately have "{a. open_at ?h a} = addresses (Some r)" using excl by blast
  moreover have "arena_wf ?h" using lti(3) by (simp add: arena_wf_def retire_exclusive_clients)
  moreover have "prev_ok T (Some r) ?h"
    using inv bo(2) by (auto simp: prev_ok_def router_wf_def loop_inv_def addresses_def retire_exclusive_clients)
  moreover have "\<exists>c. clients ?h (runtime_address e) = Some c \<and> psk (options c) = proxy_psk (n_proxy (snd e))"
    if "e \<in> set (runtimes r)" for e
    using bo(1) [OF that] by (auto simp: retire_exclusive_clients)
  ultimately show ?thesis by (auto simp: gateway_inv_def)
qed

lemma gateway_inv_start:
  assumes "router_build X T ps published rt context None empty_arena = (Inr r, h)"
  shows "gateway_inv T (manager_new r, h)"
proof -
  have wf: "arena_wf empty_arena" "prev_ok T None empty_arena"
    by (simp_all add: arena_wf_def empty_arena_def prev_ok_def addresses_def)
  note inv = router_build_Inr(1) [OF assms wf]
  have "gateway_inv T ((manager_new r)\<lparr>router := None\<rparr>, empty_arena)"
    using wf by (auto simp: gateway_inv_def open_at_def empty_arena_def addresses_def)
  note bo = built_entry_open [OF inv _ this]
  have "a \<in> addresses (Some r)" if "open_at h a" for a
    using open_at_bound [OF that] inv by (auto simp: loop_inv_def addresses_def empty_arena_def)
  moreover have "open_at h a" if "a \<in> addresses (Some r)" for a
    using that bo(1) by (fastforce simp: addresses_def open_at_def)
  moreover have "prev_ok T (Some r) h"
    using inv bo(2) by (auto simp: prev_ok_def router_wf_def loop_inv_def addresses_def)
  moreover have "arena_wf h" using inv by (simp add: loop_inv_def)
  moreover have "router (manager_new r) = Some r" by (simp add: manager_new_def)
  ultimately show ?thesis using bo(1) by (intro gateway_invI) (auto simp only: option.inject, blast+)
qed

lemma gateway_inv_close: "gateway_inv T s \<Longrightarrow> gateway_inv T (manager_close s)"
proof (cases "router (fst s)")
  case (Some r)
  assume inv: "gateway_inv T s"
  obtain m h where s: "s = (m, h)" by fastforce
  let ?h = "retire_exclusive_runtimes r None h"
  have "exclusive r None = addresses (Some r)" by (auto simp: exclusive_def shared_runtime_def addresses_def)
  then have "\<not> open_at ?h a" for a
    using inv Some s by (auto simp: gateway_inv_def open_at_def retire_exclusive_clients)
  then show ?thesis using inv Some s
    by (auto simp: gateway_inv_def manager_close_def arena_wf_def retire_exclusive_clients prev_ok_def addresses_def)
qed (auto simp: gateway_inv_def manager_close_def addresses_def prev_ok_def case_prod_beta split: prod.splits)

lemma gateway_inv_router: "router m' = router m \<Longrightarrow> gateway_inv T (m', h) = gateway_inv T (m, h)"
  by (simp only: gateway_inv_def fst_conv snd_conv)

lemma gateway_inv_session:
  assumes "gateway_inv T (m, h)" "clients h a = Some c" "closed c' = closed c" "options c' = options c"
  shows "gateway_inv T (m, h\<lparr>clients := (clients h)(a \<mapsto> c')\<rparr>)"
proof -
  let ?h = "h\<lparr>clients := (clients h)(a \<mapsto> c')\<rparr>"
  have "open_at ?h b = open_at h b" for b using assms(2,3) by (auto simp: open_at_def)
  moreover have "arena_wf ?h" using assms(1,2) by (auto simp: gateway_inv_def arena_wf_def)
  moreover have same: "(\<exists>d. clients ?h b = Some d \<and> psk (options d) = k) = (\<exists>d. clients h b = Some d \<and> psk (options d) = k)" for b k
    using assms(2,4) by auto
  note D = gateway_invD [OF assms(1)]
  show ?thesis
  proof (rule gateway_invI)
    fix r e assume "router m = Some r" "e \<in> set (runtimes r)"
    then show "\<exists>c. clients ?h (runtime_address e) = Some c \<and> psk (options c) = proxy_psk (n_proxy (snd e))"
      using D(4) same by blast
  qed (use D calculation in \<open>simp_all add: prev_ok_def\<close>)
qed

lemma gateway_reach_inv: "gateway_reach X T s \<Longrightarrow> gateway_inv T s"
proof (induction rule: gateway_reach.induct)
  case (install m h cur prev ps published rt ctx r h' res s)
  then have "s = (m\<lparr>router := Some r\<rparr>, retire_exclusive_runtimes cur (Some r) h')"
    by (simp add: manager_replace_def Let_def)
  then show ?case using gateway_inv_install [OF install.IH install.hyps(2-4)] by simp
next
  case (failed m h ps published rt ctx prev e h')
  then show ?case using router_build_Inl by blast
next
  case (touch m h m')
  then show ?case using gateway_inv_router by blast
qed (auto intro: gateway_inv_start gateway_inv_close gateway_inv_session)

text \<open>
  C11: However reloads, refreshes, sessions and the shutdown follow each other, the open clients are
  exactly those of the installed router: none is leaked when its node leaves the catalog or
  changes, none is closed while its node is still routed, and none is open after the gateway closed.
  Each client holds the key of its node.
\<close>

theorem gateway_clients_follow_router:
  assumes "gateway_reach X T (m, h)"
  shows "{a. open_at h a} = addresses (router m)
    \<and> (\<forall>r e. router m = Some r \<and> e \<in> set (runtimes r) \<longrightarrow>
        (\<exists>c. clients h (runtime_address e) = Some c \<and> psk (options c) = proxy_psk (n_proxy (snd e))))"
  using gateway_invD(3,4) [OF gateway_reach_inv [OF assms]] by blast

lemma manager_authenticate_Inr:
  assumes "ct_eq_law T" "list_all scalar secret" "list_all scalar (router_secret r)" "router m = Some r"
  shows "manager_authenticate T m selector secret = Inr route \<longleftrightarrow> secret = router_secret r \<and> routes r selector = Some route"
  using assms utf8_inj by (auto simp: manager_authenticate_def router_authenticate_def ct_eq_law_def res_simps)

text \<open>
  C12: Authentication succeeds only with the routing secret and the selector of a node of the installed catalog, and
  then gives the route of exactly that node: an open client with the node's key, and UDP as the node
  allows it.
\<close>

theorem gateway_authenticates_nodes:
  assumes "ct_eq_law T" "gateway_reach X T (m, h)" "list_all scalar secret"
    "\<forall>r. router m = Some r \<longrightarrow> list_all scalar (router_secret r)"
  shows "manager_authenticate T m selector secret = Inr route \<longleftrightarrow>
    (\<exists>r e c. router m = Some r \<and> secret = router_secret r \<and> e \<in> set (runtimes r)
       \<and> node_selector T (name (n_proxy (snd e))) = Inr selector \<and> route = n_route (snd e)
       \<and> r_udp route = udp (n_proxy (snd e)) \<and> clients h (r_client route) = Some c \<and> \<not> closed c
       \<and> psk (options c) = proxy_psk (n_proxy (snd e)))"
proof (cases "router m")
  case None
  then show ?thesis by (simp add: manager_authenticate_def)
next
  case (Some r)
  have inv: "gateway_inv T (m, h)" using gateway_reach_inv [OF assms(2)] .
  then have ok: "entries_ok T (routes r) (runtimes r)" using Some by (simp add: gateway_inv_def prev_ok_def router_wf_def)
  have cl: "\<exists>c. clients h (runtime_address e) = Some c \<and> \<not> closed c \<and> psk (options c) = proxy_psk (n_proxy (snd e))"
    if e: "e \<in> set (runtimes r)" for e
  proof -
    have "runtime_address e \<in> addresses (router m)" using Some e by (auto simp: addresses_def)
    then have "open_at h (runtime_address e)" using gateway_invD(3) [OF inv] by blast
    then show ?thesis using gateway_invD(4) [OF inv Some e] by (auto simp: open_at_def)
  qed
  have e: "fst e = name (n_proxy (snd e))" "r_udp (n_route (snd e)) = udp (n_proxy (snd e))"
    "\<exists>s. node_selector T (fst e) = Inr s \<and> routes r s = Some (n_route (snd e))"
    if "e \<in> set (runtimes r)" for e using ok that unfolding entries_ok_def by metis+
  have of_route: "\<exists>e \<in> set (runtimes r). node_selector T (fst e) = Inr selector \<and> n_route (snd e) = route"
    if "routes r selector = Some route" using ok that unfolding entries_ok_def by blast
  have "list_all scalar (router_secret r)" using assms(4) Some by simp
  note auth = manager_authenticate_Inr [OF assms(1,3) this Some]
  show ?thesis
  proof
    assume "manager_authenticate T m selector secret = Inr route"
    then have sec: "secret = router_secret r" "routes r selector = Some route" using auth by blast+
    from of_route [OF sec(2)] obtain f where f: "f \<in> set (runtimes r)" "node_selector T (fst f) = Inr selector" "n_route (snd f) = route"
      by blast
    with e [OF f(1)] cl [OF f(1)] sec(1) Some
    show "\<exists>r e c. router m = Some r \<and> secret = router_secret r \<and> e \<in> set (runtimes r)
       \<and> node_selector T (name (n_proxy (snd e))) = Inr selector \<and> route = n_route (snd e)
       \<and> r_udp route = udp (n_proxy (snd e)) \<and> clients h (r_client route) = Some c \<and> \<not> closed c
       \<and> psk (options c) = proxy_psk (n_proxy (snd e))" by (intro exI [of _ r] exI [of _ f]) auto
  next
    assume "\<exists>r e c. router m = Some r \<and> secret = router_secret r \<and> e \<in> set (runtimes r)
       \<and> node_selector T (name (n_proxy (snd e))) = Inr selector \<and> route = n_route (snd e)
       \<and> r_udp route = udp (n_proxy (snd e)) \<and> clients h (r_client route) = Some c \<and> \<not> closed c
       \<and> psk (options c) = proxy_psk (n_proxy (snd e))"
    then obtain f where f: "f \<in> set (runtimes r)" "secret = router_secret r"
      "node_selector T (name (n_proxy (snd f))) = Inr selector" "route = n_route (snd f)" using Some by auto
    then have "routes r selector = Some route" using e(1,3) [OF f(1)] by auto
    then show "manager_authenticate T m selector secret = Inr route" using auth f(2) by blast
  qed
qed

subsection \<open>A validated catalog can be published\<close>

definition runtime_ok :: "RuntimeConfig \<Rightarrow> bool" where
  "runtime_ok rt \<longleftrightarrow> serve_port rt \<noteq> 0 \<and> 0 < request_timeout rt \<and> request_timeout rt \<le> secs 120
     \<and> 0 < reuse_max_idle rt \<and> reuse_max_idle rt \<le> 128 \<and> 0 < reuse_max_uses rt \<and> reuse_max_uses rt \<le> 1024
     \<and> 0 < reuse_idle_timeout rt \<and> reuse_idle_timeout rt \<le> secs 600"

definition catalog_ok :: "text_crates \<Rightarrow> Proxy list \<Rightarrow> bool" where
  "catalog_ok T ps \<longleftrightarrow> ps \<noteq> [] \<and> distinct (map name ps)
     \<and> (\<forall>p \<in> set ps. validate T p = Inr () \<and> list_all scalar (name p))"

lemma selector_fresh:
  assumes "b64url_laws T" "\<forall>q \<in> set (p # ps). validate T q = Inr () \<and> list_all scalar (name q)" "distinct (map name (p # ps))"
    "node_selector T (name p) = Inr s" "q \<in> set ps" "node_selector T (name q) = Inr t"
  shows "t \<noteq> s"
proof -
  have "name q \<noteq> name p" using assms(3) imageI [OF assms(5), of name] by auto
  then show ?thesis using selector_inj [OF assms(1) _ _ assms(4), of "name q"] assms(2,5,6) by auto
qed

lemma render_entries_total:
  assumes "b64url_laws T" "\<forall>p \<in> set ps. validate T p = Inr () \<and> list_all scalar (name p)" "distinct (map name ps)"
    "\<forall>p \<in> set ps. \<forall>s. node_selector T (name p) = Inr s \<longrightarrow> s \<notin> sel"
  shows "\<exists>es. render_entries T c sel ps = Inr es"
  using assms(2-)
proof (induction ps arbitrary: sel)
  case (Cons p ps)
  obtain s where s: "node_selector T (name p) = Inr s" using Cons.prems(1) validate_accepted(3) by fastforce
  have "\<forall>q \<in> set ps. \<forall>t. node_selector T (name q) = Inr t \<longrightarrow> t \<notin> insert s sel"
    using selector_fresh [OF assms(1) Cons.prems(1,2) s] Cons.prems(3) by simp
  then obtain es where "render_entries T c (insert s sel) ps = Inr es" using Cons.IH [of "insert s sel"] Cons.prems by auto
  then show ?case using s Cons.prems(3) by auto
qed simp

lemma render_docs_total:
  assumes "b64url_laws T" "catalog_ok T ps" "\<not> is_unspecified (V4 a)" "\<not> is_multicast (V4 a)" "prt \<noteq> 0"
    "is_safe_credential secret"
  shows "\<exists>d. render_provider_docs T ps (show_ip (V4 a)) prt secret adv = Inr d"
proof -
  have chk: "check_provider e1 e2 e3 e4 ps (show_v4 a) prt secret = Inr ()" for e1 e2 e3 e4
    using assms(2-) by (simp add: check_provider_def parse_ip_show_v4 catalog_ok_def)
  have "\<exists>es. render_entries T c {} ps = Inr es" for c
    using render_entries_total [OF assms(1)] assms(2) by (simp add: catalog_ok_def)
  then obtain es es' where "render_entries T ''Surge provider selector collision'' {} ps = Inr es"
    "render_entries T ''Clash provider selector collision'' {} ps = Inr es'" by blast
  then show ?thesis by (simp add: render_provider_docs_def surge_render_def clash_render_def chk)
qed

lemma node_runtime_total:
  assumes "validate T p = Inr ()" "runtime_ok rt"
  shows "\<exists>n h'. node_runtime X T rt prev p h = (Inr n, h')"
proof -
  have "dialer_new_with_context T p (request_timeout rt) = Inr ()"
    using assms validate_accepted [OF assms(1)] by (auto simp: dialer_new_with_context_def runtime_ok_def)
  moreover have "\<exists>c. new_with_node_dial_limit X (node_options rt p) = Inr c"
    using assms(2) validate_accepted(4) [OF assms(1)]
    by (auto simp: new_with_node_dial_limit_def node_options_def runtime_ok_def identity_key_new_def Let_def secs_def)
  ultimately show ?thesis by (auto simp: node_runtime_def new_runtime_def split: option.split)
qed

lemma build_loop_total:
  assumes "b64url_laws T" "\<forall>p \<in> set ps. validate T p = Inr () \<and> list_all scalar (name p)" "distinct (map name ps)"
    "runtime_ok rt" "\<forall>p \<in> set ps. \<forall>s. node_selector T (name p) = Inr s \<longrightarrow> rs s = None"
  shows "\<exists>x h'. build_loop X T rt prev ps (rs, ns) h = (Inr x, h')"
  using assms(2,3,5)
proof (induction ps arbitrary: rs ns h)
  case (Cons p ps)
  obtain s where s: "node_selector T (name p) = Inr s" using Cons.prems(1) validate_accepted(3) by fastforce
  obtain n h1 where n: "node_runtime X T rt prev p h = (Inr n, h1)"
    using node_runtime_total [OF _ assms(4)] Cons.prems(1) by fastforce
  have "\<forall>q \<in> set ps. \<forall>t. node_selector T (name q) = Inr t \<longrightarrow> (rs(s \<mapsto> n_route n)) t = None"
  proof (intro ballI allI impI)
    fix q t assume q: "q \<in> set ps" "node_selector T (name q) = Inr t"
    then have "t \<noteq> s" using selector_fresh [OF assms(1) Cons.prems(1,2) s] by simp
    then show "(rs(s \<mapsto> n_route n)) t = None" using Cons.prems(3) q by simp
  qed
  from Cons.IH [OF _ _ this] Cons.prems s n show ?case by (simp del: fun_upd_apply)
qed simp

lemma router_build_total:
  assumes "b64url_laws T" "catalog_ok T ps" "catalog_ok T published" "runtime_ok rt"
    "outbound_ip context = V4 a" "\<not> is_unspecified (V4 a)" "\<not> is_multicast (V4 a)"
    "is_safe_credential (routing_secret context)"
  shows "\<exists>r h'. router_build X T ps published rt context prev h = (Inr r, h')"
proof -
  have prt: "serve_port rt \<noteq> 0" using assms(4) by (simp add: runtime_ok_def)
  obtain d d' where docs: "render_provider_docs T published (show_ip (V4 a)) (serve_port rt) (routing_secret context)
      (udp_relay_advertised context) = Inr d"
    "render_provider_docs T ps (show_ip (V4 a)) (serve_port rt) (routing_secret context)
      (udp_relay_advertised context) = Inr d'"
    using render_docs_total [OF assms(1) _ assms(6,7) prt assms(8)] assms(2,3) by blast
  obtain rs ns h' where "build_loop X T rt prev ps (Map.empty, []) h = (Inr (rs, ns), h')"
    using build_loop_total [OF assms(1) _ _ assms(4), of ps Map.empty] assms(2)
    by (auto simp: catalog_ok_def) (metis surj_pair)
  then show ?thesis using docs assms(5) by (auto simp: router_build_def Let_def)
qed

lemma catalog_ok_parsed:
  assumes "managed_parse T Y content = Inr ps" "\<forall>p \<in> set ps. list_all scalar (name p)"
  shows "catalog_ok T ps"
  using managed_parse_valid [OF assms(1)] assms(2) by (simp add: catalog_ok_def)

lemma catalog_ok_published:
  assumes "catalog_ok T ps" "published_proxies T ps include_all f = Inr published"
  shows "catalog_ok T published"
  using assms by (auto simp: catalog_ok_def published_proxies_def filtered_proxies_def Let_def distinct_map_filter
      split: if_splits)

text \<open>
  A catalog that the tolerant parser accepts can always be published and routed: with settings in
  their ranges, a specific IPv4 address and a usable secret, building the router never fails, whichever
  router it replaces and whatever the filter keeps.
\<close>

lemma parsed_catalog_builds:
  assumes "b64url_laws T" "managed_parse T Y content = Inr ps" "\<forall>p \<in> set ps. list_all scalar (name p)"
    "published_proxies T ps include_all f = Inr published" "runtime_ok rt"
    "outbound_ip context = V4 a" "\<not> is_unspecified (V4 a)" "\<not> is_multicast (V4 a)"
    "is_safe_credential (routing_secret context)"
  shows "\<exists>r h'. router_build X T ps published rt context prev h = (Inr r, h')"
proof -
  have c: "catalog_ok T ps" using catalog_ok_parsed [OF assms(2,3)] .
  show ?thesis by (rule router_build_total [OF assms(1) c catalog_ok_published [OF c assms(4)] assms(5-9)])
qed

subsection \<open>Closing and reopening\<close>

text \<open>
  Closing is final for everything the manager answers: no client stays open, nobody authenticates, no document and
  no subscription header is served.
\<close>

lemma gateway_close_is_complete:
  assumes "gateway_reach X T s" "manager_close s = (m, h)"
  shows "(\<forall>a. \<not> open_at h a) \<and> manager_authenticate T m selector secret = Inl (Bail ''gateway is closed'')
    \<and> manager_provider m b socks = Inl (Bail ''gateway unavailable'')
    \<and> manager_clash_provider m b socks = Inl (Bail ''gateway unavailable'')
    \<and> fst (manager_raw_provider m b peer tasks) = Inl (Bail ''gateway is closed'') \<and> subscription_header m now = None"
proof -
  have "gateway_inv T (m, h)" using gateway_reach_inv [OF gateway_reach.closing [OF assms(1)]] assms(2) by simp
  moreover have "router m = None" "subscription m = None"
    using assms(2) by (auto simp: manager_close_def Let_def split: prod.splits option.splits)
  ultimately show ?thesis
    using gateway_invD(3) [of T m h]
    by (auto simp: addresses_def manager_authenticate_def manager_provider_def manager_clash_provider_def
        manager_raw_provider_def subscription_header_def)
qed

text \<open>
  Replacing the router of a closed gateway reports that the gateway is closed, but the router has been installed
  all the same: the gateway answers again, although the caller was told that it is closed.
\<close>

lemma replace_reopens_closed_gateway:
  assumes "router m = None" "manager_replace r (m, h) = (res, m', h')"
  shows "res = Inl (Bail ''gateway is closed'') \<and> router m' = Some r \<and> h' = h
    \<and> manager_authenticate T m' selector secret = router_authenticate T r selector secret"
  using assms by (auto simp: manager_replace_def Let_def manager_authenticate_def)

subsection \<open>Sample instances\<close>

definition sample_runtime :: RuntimeConfig where
  "sample_runtime = \<lparr>access_token = ustr ''t'', app_secret = ustr ''s'', api_base_url = [], api_fallback_urls = [],
     node_filter = \<lparr>flines = [], fregions = [], finclude = [], fexclude = []\<rparr>, listen_address = V4 2130706433,
     serve_port = 8080, map_base_port = 9000, request_timeout = secs 10, tcp_idle_timeout = secs 300,
     udp_idle_timeout = secs 60, allow_remote_access = False, allow_remote_raw_provider = False,
     socks_username = [], socks_password = [], max_client_connections = 10, dial_concurrency = 4,
     per_node_dial_concurrency = 2, reuse_max_idle = 2, reuse_max_uses = 8, reuse_idle_timeout = secs 30,
     perf_trace_sample_every = 0\<rparr>"

definition sample_context :: GatewayContext where
  "sample_context = \<lparr>outbound_ip = V4 2130706433, udp_relay_advertised = True, routing_secret = ustr ''s'', dial_limit = 0\<rparr>"

lemma sample_runtime_ok: "runtime_ok sample_runtime"
  by (simp add: runtime_ok_def sample_runtime_def secs_def)

lemma sample_context_ok:
  "outbound_ip sample_context = V4 2130706433" "\<not> is_unspecified (V4 2130706433)" "\<not> is_multicast (V4 2130706433)"
  "is_safe_credential (routing_secret sample_context)" "list_all scalar (routing_secret sample_context)"
  by (simp_all add: sample_context_def is_safe_credential_def str_len_def utf8_def utf8_char_def ustr_def
      url_safe_char_def ascii_defs scalar_def)

lemma good_proxy_valid: "validate sample_text (good_proxy [88]) = Inr ()"
proof -
  have "parse_ech_config sample_text (nibbles [0, 2, 1, 1]) = Inr [0, 2, 1, 1]"
    using unat_from_be16 [of 0 2]
    by (simp add: parse_ech_config_def ech_config_from_list_def sample_text_def MAX_ECH_CONFIG_LENGTH_def
        str_len_def utf8_def utf8_char_def)
  then show ?thesis
    using sample_selector_X
    by (simp add: validate_def good_proxy_def ustr_def str_trim_def trim_by_Nil_iff is_whitespace_def)
qed

lemma sample_catalog_ok: "catalog_ok sample_text [good_proxy [88]]"
  using good_proxy_valid by (simp add: catalog_ok_def good_proxy_def scalar_def)

lemma sample_build:
  "\<exists>r h. router_build sample_crypto sample_text [good_proxy [88]] [good_proxy [88]] sample_runtime sample_context prev h0 = (Inr r, h)"
  by (rule router_build_total [OF sample_b64url_laws sample_catalog_ok sample_catalog_ok sample_runtime_ok sample_context_ok(1-4)])

lemma sample_reach:
  obtains r h e where "gateway_reach sample_crypto sample_text (manager_new r, h)" "router_secret r = ustr ''s''"
    "runtimes r = [e]" "n_proxy (snd e) = good_proxy [88]"
proof -
  obtain r h where b: "router_build sample_crypto sample_text [good_proxy [88]] [good_proxy [88]] sample_runtime sample_context
      None empty_arena = (Inr r, h)" using sample_build by blast
  have "arena_wf empty_arena" "prev_ok sample_text None empty_arena"
    by (simp_all add: arena_wf_def empty_arena_def prev_ok_def addresses_def)
  from router_build_Inr(2,3) [OF b this] have "map (n_proxy \<circ> snd) (runtimes r) = [good_proxy [88]]"
    "router_secret r = ustr ''s''" by (simp_all add: sample_context_def)
  then show thesis using that gateway_reach.start [OF b] by (auto simp: map_eq_Cons_conv)
qed

theorem gateway_clients_follow_router_witness:
  "\<exists>m h a. gateway_reach sample_crypto sample_text (m, h) \<and> {a. open_at h a} = addresses (router m) \<and> open_at h a"
proof -
  obtain r h e where g: "gateway_reach sample_crypto sample_text (manager_new r, h)" "runtimes r = [e]"
    using sample_reach by metis
  from gateway_clients_follow_router [OF g(1)] have "{a. open_at h a} = addresses (router (manager_new r))" by blast
  moreover have "runtime_address e \<in> addresses (router (manager_new r))" using g(2) by (simp add: manager_new_def addresses_def)
  ultimately show ?thesis using g(1) by blast
qed

theorem gateway_authenticates_nodes_witness:
  "\<exists>m h route. gateway_reach sample_crypto sample_text (m, h)
    \<and> manager_authenticate sample_text m (NODE_SELECTOR_PREFIX @ nibbles [88]) (ustr ''s'') = Inr route"
proof -
  obtain r h e where g: "gateway_reach sample_crypto sample_text (manager_new r, h)" "router_secret r = ustr ''s''"
    "runtimes r = [e]" "n_proxy (snd e) = good_proxy [88]" using sample_reach by metis
  have sc: "list_all scalar (ustr ''s'')" by (simp add: ustr_def scalar_def)
  then have all: "\<forall>r'. router (manager_new r) = Some r' \<longrightarrow> list_all scalar (router_secret r')" using g(2) by (simp add: manager_new_def)
  have inv: "gateway_inv sample_text (manager_new r, h)" using gateway_reach_inv [OF g(1)] .
  have rt: "router (manager_new r) = Some r" by (simp add: manager_new_def)
  have e: "e \<in> set (runtimes r)" using g(3) by simp
  have "runtime_address e \<in> addresses (router (manager_new r))" using rt e by (simp add: addresses_def)
  then have "open_at h (runtime_address e)" using gateway_invD(3) [OF inv] by blast
  then obtain c where "clients h (runtime_address e) = Some c" "\<not> closed c"
    "psk (options c) = proxy_psk (n_proxy (snd e))" using gateway_invD(4) [OF inv rt e] by (auto simp: open_at_def)
  moreover have "r_udp (n_route (snd e)) = udp (n_proxy (snd e))"
    using gateway_invD(2) [OF inv] rt e by (auto simp: prev_ok_def router_wf_def entries_ok_def)
  moreover have "node_selector sample_text (name (n_proxy (snd e))) = Inr (NODE_SELECTOR_PREFIX @ nibbles [88])"
    using sample_selector_X g(4) by (simp add: good_proxy_def)
  ultimately have "manager_authenticate sample_text (manager_new r) (NODE_SELECTOR_PREFIX @ nibbles [88]) (ustr ''s'') = Inr (n_route (snd e))"
    using rt e g(2) by (subst gateway_authenticates_nodes [OF sample_ct_eq_law g(1) sc all]) metis
  then show ?thesis using g(1) by blast
qed

definition one_yaml :: "(Proxy option list, Proxy option) yaml" where
  "one_yaml = \<lparr>documents = (\<lambda>_. [[Some (good_proxy [88]), None]]), remote_proxies = Some, proxy_value = (\<lambda>v. v)\<rparr>"

lemma parsed_catalog_builds_witness:
  "\<exists>ps r h. managed_parse sample_text one_yaml [1] = Inr ps
    \<and> router_build sample_crypto sample_text ps ps sample_runtime sample_context None empty_arena = (Inr r, h)"
proof -
  have p: "managed_parse sample_text one_yaml [1] = Inr [good_proxy [88]]"
    using good_proxy_valid
    by (simp add: managed_parse_def one_yaml_def MAX_MANAGED_CONFIG_BYTES_def from_value_def config_validate_def)
  have "published_proxies sample_text [good_proxy [88]] True (node_filter sample_runtime) = Inr [good_proxy [88]]"
    by (simp add: published_proxies_def)
  from parsed_catalog_builds [OF sample_b64url_laws p _ this sample_runtime_ok sample_context_ok(1-4)] p
  show ?thesis by (auto simp: good_proxy_def scalar_def)
qed

lemma gateway_close_is_complete_witness:
  "\<exists>s m h. gateway_reach sample_crypto sample_text s \<and> manager_close s = (m, h)
    \<and> manager_authenticate sample_text m [] [] = Inl (Bail ''gateway is closed'')"
proof -
  obtain r h where g: "gateway_reach sample_crypto sample_text (manager_new r, h)" using sample_reach by metis
  obtain m h' where c: "manager_close (manager_new r, h) = (m, h')" by fastforce
  show ?thesis using gateway_close_is_complete [OF g c] g c by blast
qed

lemma replace_reopens_closed_gateway_witness:
  "\<exists>m h r m'. router m = None \<and> fst (manager_replace r (m, h)) = Inl (Bail ''gateway is closed'')
    \<and> m' = fst (snd (manager_replace r (m, h))) \<and> router m' = Some r"
proof -
  obtain r h where "gateway_reach sample_crypto sample_text (manager_new r, h)" using sample_reach by metis
  let ?m = "(manager_new r)\<lparr>router := None\<rparr>"
  obtain res m' h' where c: "manager_replace r (?m, h) = (res, m', h')" by (metis prod_cases3)
  have "router ?m = None" by simp
  with replace_reopens_closed_gateway [OF this c] c show ?thesis
    by (intro exI [of _ ?m] exI [of _ h] exI [of _ r] exI [of _ m']) simp
qed

end
