(* ===== verification/Relay.thy ===== *)
theory Relay
  imports Gateway
begin

text \<open>
  The relay of \<open>src/socks5.rs\<close> between a client and a Snell session: the upload and the download loop,
  how \<open>drive_relay\<close> combines them, and the idle timeout. The two loops run concurrently: an
  execution is a list of turns, each one iteration of a loop or a timer, in any order.
\<close>

subsection \<open>Turns of the relay\<close>

datatype UploadEnd = ClientEof | Stopped

datatype phase =
    Both                \<comment> \<open>both loops run\<close>
  | UploadDone          \<comment> \<open>the client half-closed; the download goes on\<close>
  | Stopping            \<comment> \<open>the download has ended; the upload was asked to stop\<close>
  | Ended bool bool     \<comment> \<open>\<open>(clean, close_write_sent)\<close>\<close>

record relay_state =
  rl_client :: source
  rl_output :: sink
  rl_session :: snell_session
  rl_counters :: "Counters option"
  rl_phase :: phase

definition set_writer :: "record_writer \<Rightarrow> snell_session \<Rightarrow> snell_session" where
  "set_writer w s = s\<lparr>s_physical := (s_physical s)\<lparr>p_writer := w\<rparr>\<rparr>"

definition upload_turn :: "crypto \<Rightarrow> relay_state \<Rightarrow> UploadEnd res option \<times> relay_state" where
  "upload_turn X st =
     (case read_some 32768 (rl_client st) of
        (Inl e, src) \<Rightarrow> (Some (Inl e), st\<lparr>rl_client := src\<rparr>)
      | (Inr c, src) \<Rightarrow>
          if c = [] then
            (case close_write X (rl_session st) of
               (Inl e, s) \<Rightarrow> (Some (Inl e), st\<lparr>rl_client := src, rl_session := s\<rparr>)
             | (Inr _, s) \<Rightarrow> (Some (Inr ClientEof), st\<lparr>rl_client := src, rl_session := s\<rparr>))
          else
            (case write_application X c (p_writer (s_physical (rl_session st)), rl_counters st) of
               (Inl e, (w, a)) \<Rightarrow>
                 (Some (Inl e), st\<lparr>rl_client := src, rl_session := set_writer w (rl_session st), rl_counters := a\<rparr>)
             | (Inr _, (w, a)) \<Rightarrow>
                 (None, st\<lparr>rl_client := src, rl_session := set_writer w (rl_session st), rl_counters := a\<rparr>)))"

definition download_turn :: "crypto \<Rightarrow> relay_state \<Rightarrow> unit res option \<times> relay_state" where
  "download_turn X st =
     (case session_read_chunk X (rl_session st, rl_counters st) of
        (Inl e, (s, a)) \<Rightarrow> (Some (Inl e), st\<lparr>rl_session := s, rl_counters := a\<rparr>)
      | (Inr c, (s, a)) \<Rightarrow>
          if c = [] then
            (case shutdown_sink (rl_output st) of
               (r, out) \<Rightarrow> (Some r, st\<lparr>rl_session := s, rl_counters := a, rl_output := out\<rparr>))
          else
            (case write_all c (rl_output st) of
               (Inl e, out) \<Rightarrow> (Some (Inl e), st\<lparr>rl_session := s, rl_counters := a, rl_output := out\<rparr>)
             | (Inr _, out) \<Rightarrow> (None, st\<lparr>rl_session := s, rl_counters := a, rl_output := out\<rparr>)))"

datatype turn = UploadTurn | DownloadTurn | StopTurn | StopTimeout | IdleTimeout

text \<open>\<open>drive_relay\<close> and \<open>until_idle\<close>: what an iteration that ends does to the relay.\<close>

definition relay_step :: "crypto \<Rightarrow> turn \<Rightarrow> relay_state \<Rightarrow> relay_state" where
  "relay_step X t st =
     (case (rl_phase st, t) of
        (Ended _ _, _) \<Rightarrow> st
      | (_, IdleTimeout) \<Rightarrow> st\<lparr>rl_phase := Ended False False\<rparr>
      | (Both, UploadTurn) \<Rightarrow>
          (case upload_turn X st of
             (None, st) \<Rightarrow> st
           | (Some (Inr ClientEof), st) \<Rightarrow> st\<lparr>rl_phase := UploadDone\<rparr>
           | (Some _, st) \<Rightarrow> st\<lparr>rl_phase := Ended False False\<rparr>)
      | (Both, DownloadTurn) \<Rightarrow>
          (case download_turn X st of
             (None, st) \<Rightarrow> st
           | (Some (Inr _), st) \<Rightarrow> st\<lparr>rl_phase := Stopping\<rparr>
           | (Some (Inl _), st) \<Rightarrow> st\<lparr>rl_phase := Ended False False\<rparr>)
      | (UploadDone, DownloadTurn) \<Rightarrow>
          (case download_turn X st of
             (None, st) \<Rightarrow> st
           | (Some r, st) \<Rightarrow> st\<lparr>rl_phase := Ended (is_ok r) True\<rparr>)
      | (Stopping, UploadTurn) \<Rightarrow>
          (case upload_turn X st of
             (None, st) \<Rightarrow> st
           | (Some (Inr ClientEof), st) \<Rightarrow> st\<lparr>rl_phase := Ended True True\<rparr>
           | (Some (Inr Stopped), st) \<Rightarrow> st\<lparr>rl_phase := Ended True False\<rparr>
           | (Some (Inl _), st) \<Rightarrow> st\<lparr>rl_phase := Ended False False\<rparr>)
      | (Stopping, StopTurn) \<Rightarrow> st\<lparr>rl_phase := Ended True False\<rparr>
      | (Stopping, StopTimeout) \<Rightarrow> st\<lparr>rl_phase := Ended False False\<rparr>
      | _ \<Rightarrow> st)"

definition relay_start :: "source \<Rightarrow> sink \<Rightarrow> snell_session \<Rightarrow> Counters option \<Rightarrow> relay_state" where
  "relay_start client output s a =
     \<lparr>rl_client = client, rl_output = output, rl_session = s, rl_counters = a, rl_phase = Both\<rparr>"

definition relay_run :: "crypto \<Rightarrow> turn list \<Rightarrow> relay_state \<Rightarrow> relay_state" where
  "relay_run X ts st = fold (relay_step X) ts st"

text \<open>
  The whole relay along a schedule; \<open>None\<close> is a schedule in which it has not ended. The last two arguments of \<open>finish\<close>'s
  environment are the time and whether its close handshake times out.
\<close>

definition relay ::
  "crypto \<Rightarrow> turn list \<Rightarrow> nat \<Rightarrow> bool \<Rightarrow> source \<Rightarrow> sink \<Rightarrow> snell_session \<Rightarrow> Counters option \<Rightarrow> snell_client
   \<Rightarrow> (unit res \<times> relay_state \<times> snell_client) option" where
  "relay X ts now close_timed_out client output s a c =
     (let st = relay_run X ts (relay_start client output s a) in
      case rl_phase st of
        Ended clean close_write_sent \<Rightarrow>
          Some (if clean then Inr () else Inl (Bail ''SOCKS5 relay ended with an error''), st,
                finish X now close_timed_out clean close_write_sent (rl_session st) c)
      | _ \<Rightarrow> None)"

subsection \<open>The idle timer\<close>

text \<open>
  Times are nanoseconds since the start. \<open>touch\<close> stores whole milliseconds, capped at 64 bits; \<open>touches\<close> lists
  the times at which data moved, and the timer reads the value stored last.
\<close>

definition touch_millis :: "nat \<Rightarrow> nat" where
  "touch_millis t = min (t div 1000000) (2 ^ 64 - 1)"

definition last_millis :: "nat list \<Rightarrow> nat \<Rightarrow> nat" where
  "last_millis touches now =
     (let done_touches = filter (\<lambda>t. t \<le> now) touches in
      if done_touches = [] then 0 else touch_millis (Max (set done_touches)))"

definition idle_deadline :: "nat list \<Rightarrow> nat \<Rightarrow> nat \<Rightarrow> nat" where
  "idle_deadline touches timeout now = last_millis touches now * 1000000 + timeout"

lemma last_millis_bound: "last_millis touches now * 1000000 \<le> Max (insert 0 (set touches))"
proof -
  let ?d = "filter (\<lambda>t. t \<le> now) touches"
  show ?thesis
  proof (cases "?d = []")
    case False
    then have "set ?d \<noteq> {}" by (simp only: set_empty not_False_eq_True)
    then have "Max (set ?d) \<in> set ?d" by (intro Max_in) simp_all
    then have "Max (set ?d) \<le> Max (insert 0 (set touches))" by (intro Max_ge) auto
    moreover have "touch_millis (Max (set ?d)) * 1000000 \<le> Max (set ?d)"
    proof -
      have "touch_millis (Max (set ?d)) \<le> Max (set ?d) div 1000000" by (simp add: touch_millis_def)
      then have "touch_millis (Max (set ?d)) * 1000000 \<le> Max (set ?d) div 1000000 * 1000000" by (rule mult_le_mono1)
      also have "\<dots> \<le> Max (set ?d)" by (rule div_times_less_eq_dividend)
      finally show ?thesis .
    qed
    ultimately show ?thesis using False by (simp add: last_millis_def Let_def)
  qed (simp add: last_millis_def Let_def)
qed

function idle_wait :: "nat list \<Rightarrow> nat \<Rightarrow> nat \<Rightarrow> nat" where
  "idle_wait touches timeout now =
     (let deadline = idle_deadline touches timeout now in
      if deadline \<le> now then now else idle_wait touches timeout deadline)"
  by pat_completeness auto
termination
proof (relation "measure (\<lambda>(touches, timeout, now). Max (insert 0 (set touches)) + timeout - now)")
  fix touches timeout now deadline
  assume "deadline = idle_deadline touches timeout now" "\<not> deadline \<le> now"
  then show "((touches, timeout, deadline), touches, timeout, now)
      \<in> measure (\<lambda>(touches, timeout, now). Max (insert 0 (set touches)) + timeout - now)"
    using last_millis_bound [of touches now] unfolding idle_deadline_def by simp
qed simp

declare idle_wait.simps [simp del]

lemma last_millis_recent:
  assumes "t \<in> set touches" "t \<le> now" "\<forall>t \<in> set touches. t < 2 ^ 64 * 1000000"
  shows "t < last_millis touches now * 1000000 + 1000000"
proof -
  let ?d = "filter (\<lambda>t. t \<le> now) touches" and ?m = "Max (set (filter (\<lambda>t. t \<le> now) touches))"
  have d: "t \<in> set ?d" using assms(1,2) by simp
  then have ne: "?d \<noteq> []" by force
  have "?m \<in> set ?d" using d by (intro Max_in) auto
  then have "?m < 2 ^ 64 * 1000000" using assms(3) by simp
  then have "?m div 1000000 < 2 ^ 64" by (rule less_mult_imp_div_less)
  then have "touch_millis ?m = ?m div 1000000" by (simp add: touch_millis_def)
  moreover have "t \<le> ?m" using d by (intro Max_ge) simp_all
  then have "t div 1000000 \<le> ?m div 1000000" by (rule div_le_mono)
  ultimately have "t div 1000000 \<le> last_millis touches now" using ne by (simp add: last_millis_def Let_def)
  moreover have "t < t div 1000000 * 1000000 + 1000000"
    using div_mult_mod_eq [of t 1000000] mod_less_divisor [of 1000000 t] by linarith
  ultimately show ?thesis by (meson add_le_mono1 less_le_trans mult_le_mono1)
qed

text \<open>
  The idle timer never cuts a relay that moves data: when it fires, no data has moved for the
  timeout less the millisecond that the stored times are rounded by; and it fires at the latest one timeout after the last data.
\<close>

lemma idle_fires_after_silence:
  assumes "\<forall>t \<in> set touches. t < 2 ^ 64 * 1000000"
  shows "(\<forall>t \<in> set touches. t \<le> idle_wait touches timeout now \<longrightarrow> t + timeout < idle_wait touches timeout now + 1000000)
    \<and> idle_wait touches timeout now \<le> max now (Max (insert 0 (set touches)) + timeout)"
  using assms
proof (induction touches timeout now rule: idle_wait.induct)
  case (1 touches timeout now)
  let ?d = "idle_deadline touches timeout now"
  have dl: "?d \<le> Max (insert 0 (set touches)) + timeout"
    using last_millis_bound [of touches now] by (simp add: idle_deadline_def)
  show ?case
  proof (cases "?d \<le> now")
    case True
    then have w: "idle_wait touches timeout now = now" by (simp add: idle_wait.simps Let_def)
    have "t + timeout < now + 1000000" if "t \<in> set touches" "t \<le> now" for t
      using last_millis_recent [OF that "1.prems"] True unfolding idle_deadline_def by linarith
    then show ?thesis using w by auto
  next
    case False
    then have w: "idle_wait touches timeout now = idle_wait touches timeout ?d"
      by (subst idle_wait.simps) (simp add: Let_def)
    show ?thesis using "1.IH" [OF refl False "1.prems"] dl unfolding w by (simp add: le_max_iff_disj)
  qed
qed

lemma idle_fires_after_silence_witness:
  "idle_wait [3000000] 10000000 0 \<le> 13000000"
  using idle_fires_after_silence [of "[3000000]" 10000000 0] by simp

subsection \<open>What a clean relay has moved\<close>

fun write_chunks :: "crypto \<Rightarrow> bytes list \<Rightarrow> record_writer \<Rightarrow> unit res \<times> record_writer" where
  "write_chunks X [] w = (Inr (), w)"
| "write_chunks X (c # cs) w = st_then (write_payload X c w) (\<lambda>_ w. write_chunks X cs w)"

fun chunk_reads :: "crypto \<Rightarrow> bytes list \<Rightarrow> snell_reader \<Rightarrow> snell_reader \<Rightarrow> bool" where
  "chunk_reads X [] r r' = (r' = r)"
| "chunk_reads X (d # ds) r r' =
     (case read_application_chunk X r of (Inr c, r1) \<Rightarrow> c = d \<and> d \<noteq> [] \<and> chunk_reads X ds r1 r' | (Inl _, _) \<Rightarrow> False)"

lemma write_chunks_snoc:
  "write_chunks X cs w = (Inr (), w1) \<Longrightarrow> write_payload X c w1 = (Inr (), w2) \<Longrightarrow> write_chunks X (cs @ [c]) w = (Inr (), w2)"
  by (induction cs arbitrary: w) (auto simp: res_simps)

lemma chunk_reads_snoc:
  "chunk_reads X ds r r1 \<Longrightarrow> read_application_chunk X r1 = (Inr d, r2) \<Longrightarrow> d \<noteq> [] \<Longrightarrow> chunk_reads X (ds @ [d]) r r2"
  by (induction ds arbitrary: r) (auto split: sum.splits prod.splits)

abbreviation rl_writer :: "relay_state \<Rightarrow> record_writer" where
  "rl_writer st \<equiv> p_writer (s_physical (rl_session st))"

abbreviation rl_reader :: "relay_state \<Rightarrow> snell_reader" where
  "rl_reader st \<equiv> p_reader (s_physical (rl_session st))"

text \<open>
  The upload has written the chunks \<open>cs\<close>, and is not closed; or all of the client's data and is closed. The
  download has handed the client the chunks \<open>ds\<close>, and is not finished; or all of the server's data and is finished.
\<close>

definition upload_open :: "crypto \<Rightarrow> relay_state \<Rightarrow> relay_state \<Rightarrow> bool" where
  "upload_open X st0 st \<longleftrightarrow> (\<exists>cs. source_bytes (rl_client st0) = concat cs @ source_bytes (rl_client st)
     \<and> healthy (rl_client st0) = healthy (rl_client st) \<and> write_chunks X cs (rl_writer st0) = (Inr (), rl_writer st))"

definition upload_closed :: "crypto \<Rightarrow> relay_state \<Rightarrow> relay_state \<Rightarrow> bool" where
  "upload_closed X st0 st \<longleftrightarrow> (\<exists>cs w. source_bytes (rl_client st0) = concat cs \<and> healthy (rl_client st0)
     \<and> write_chunks X cs (rl_writer st0) = (Inr (), w)
     \<and> (\<exists>s. close_write X (set_writer w (rl_session st0)) = (Inr (), s) \<and> p_writer (s_physical s) = rl_writer st))"

definition download_open :: "crypto \<Rightarrow> relay_state \<Rightarrow> relay_state \<Rightarrow> bool" where
  "download_open X st0 st \<longleftrightarrow> (\<exists>ds. chunk_reads X ds (rl_reader st0) (rl_reader st)
     \<and> accepted (rl_output st) = accepted (rl_output st0) @ concat ds)"

definition download_finished :: "crypto \<Rightarrow> relay_state \<Rightarrow> relay_state \<Rightarrow> bool" where
  "download_finished X st0 st \<longleftrightarrow> (\<exists>ds r. chunk_reads X ds (rl_reader st0) r
     \<and> read_application_chunk X r = (Inr [], rl_reader st)
     \<and> delivered (rl_output st) = accepted (rl_output st0) @ concat ds \<and> shut (rl_output st))"

definition same_session :: "relay_state \<Rightarrow> relay_state \<Rightarrow> bool" where
  "same_session st0 st \<longleftrightarrow> s_reusable (rl_session st) = s_reusable (rl_session st0) \<and> s_uses (rl_session st) = s_uses (rl_session st0)"

definition relay_inv :: "crypto \<Rightarrow> relay_state \<Rightarrow> relay_state \<Rightarrow> bool" where
  "relay_inv X st0 st \<longleftrightarrow> same_session st0 st \<and>
     (case rl_phase st of
        Both \<Rightarrow> upload_open X st0 st \<and> download_open X st0 st
      | UploadDone \<Rightarrow> upload_closed X st0 st \<and> download_open X st0 st
      | Stopping \<Rightarrow> upload_open X st0 st \<and> download_finished X st0 st
      | Ended True b \<Rightarrow> (if b then upload_closed X st0 st else upload_open X st0 st) \<and> download_finished X st0 st
      | Ended False b \<Rightarrow> True)"

lemmas relay_sides = upload_open_def upload_closed_def download_open_def download_finished_def same_session_def

lemma close_write_fields:
  assumes "close_write X s = (r, s')"
  shows "p_reader (s_physical s') = p_reader (s_physical s)" "s_reusable s' = s_reusable s" "s_uses s' = s_uses s"
  using assms by (auto simp: close_write_def split: prod.splits)

lemma close_write_writer:
  "close_write X s = (Inr (), s') \<Longrightarrow> s_reusable t = s_reusable s \<Longrightarrow>
     \<exists>t'. close_write X (set_writer (p_writer (s_physical s)) t) = (Inr (), t') \<and> p_writer (s_physical t') = p_writer (s_physical s')"
  by (auto simp: close_write_def set_writer_def split: prod.splits)

lemma upload_turn_cases:
  assumes "upload_turn X st = (r, st')"
  shows "rl_reader st' = rl_reader st \<and> rl_output st' = rl_output st \<and> rl_phase st' = rl_phase st \<and> same_session st st'"
    "r = None \<Longrightarrow> \<exists>c. c \<noteq> [] \<and> read_some 32768 (rl_client st) = (Inr c, rl_client st')
       \<and> write_payload X c (rl_writer st) = (Inr (), rl_writer st')"
    "r = Some (Inr e) \<Longrightarrow> e = ClientEof \<and> read_some 32768 (rl_client st) = (Inr [], rl_client st')
       \<and> close_write X (rl_session st) = (Inr (), rl_session st')"
proof -
  obtain rd src where rd: "read_some 32768 (rl_client st) = (rd, src)" by fastforce
  obtain cr cs where cr: "close_write X (rl_session st) = (cr, cs)" by fastforce
  note cf = close_write_fields [OF cr]
  obtain wr w where wr: "write_payload X (projr rd) (rl_writer st) = (wr, w)" by fastforce
  show "rl_reader st' = rl_reader st \<and> rl_output st' = rl_output st \<and> rl_phase st' = rl_phase st \<and> same_session st st'"
    using assms rd cr cf wr
    by (cases rd; cases cr; cases wr) (auto simp: upload_turn_def same_session_def set_writer_def write_application_def split: if_splits)
  show "\<exists>c. c \<noteq> [] \<and> read_some 32768 (rl_client st) = (Inr c, rl_client st')
       \<and> write_payload X c (rl_writer st) = (Inr (), rl_writer st')" if "r = None"
    using assms rd cr wr that
    by (cases rd; cases cr; cases wr) (auto simp: upload_turn_def set_writer_def write_application_def split: if_splits)
  show "e = ClientEof \<and> read_some 32768 (rl_client st) = (Inr [], rl_client st')
       \<and> close_write X (rl_session st) = (Inr (), rl_session st')" if "r = Some (Inr e)"
    using assms rd cr wr that
    by (cases rd; cases cr; cases wr) (auto simp: upload_turn_def set_writer_def write_application_def split: if_splits)
qed

lemma download_turn_cases:
  assumes "download_turn X st = (r, st')"
  shows "rl_writer st' = rl_writer st \<and> rl_client st' = rl_client st \<and> rl_phase st' = rl_phase st \<and> same_session st st'"
    "r = None \<Longrightarrow> \<exists>c. c \<noteq> [] \<and> read_application_chunk X (rl_reader st) = (Inr c, rl_reader st')
       \<and> accepted (rl_output st') = accepted (rl_output st) @ c"
    "r = Some (Inr u) \<Longrightarrow> read_application_chunk X (rl_reader st) = (Inr [], rl_reader st')
       \<and> delivered (rl_output st') = accepted (rl_output st) \<and> shut (rl_output st')"
  using assms
  by (auto simp: download_turn_def session_read_chunk_def same_session_def shutdown_sink_def res_simps
      dest: write_all_accepted flush_delivered split: prod.splits sum.splits if_splits)

lemma upload_side_cong:
  "rl_client st' = rl_client st \<Longrightarrow> rl_writer st' = rl_writer st \<Longrightarrow> upload_open X st0 st' = upload_open X st0 st"
  "rl_client st' = rl_client st \<Longrightarrow> rl_writer st' = rl_writer st \<Longrightarrow> upload_closed X st0 st' = upload_closed X st0 st"
  by (simp_all add: upload_open_def upload_closed_def)

lemma download_side_cong:
  "rl_reader st' = rl_reader st \<Longrightarrow> rl_output st' = rl_output st \<Longrightarrow> download_open X st0 st' = download_open X st0 st"
  "rl_reader st' = rl_reader st \<Longrightarrow> rl_output st' = rl_output st \<Longrightarrow> download_finished X st0 st' = download_finished X st0 st"
  by (simp_all add: download_open_def download_finished_def)

lemma upload_more:
  assumes "upload_open X st0 st" "upload_turn X st = (None, st')"
  shows "upload_open X st0 st'"
proof -
  obtain cs where cs: "source_bytes (rl_client st0) = concat cs @ source_bytes (rl_client st)"
    "healthy (rl_client st0) = healthy (rl_client st)" "write_chunks X cs (rl_writer st0) = (Inr (), rl_writer st)"
    using assms(1) by (auto simp: upload_open_def)
  obtain c where c: "c \<noteq> []" "read_some 32768 (rl_client st) = (Inr c, rl_client st')"
    "write_payload X c (rl_writer st) = (Inr (), rl_writer st')"
    using upload_turn_cases(2) [OF assms(2) refl] by blast
  show ?thesis unfolding upload_open_def
    using cs read_some_bytes [OF c(2,1)] read_some_healthy_iff [OF c(2)] write_chunks_snoc [OF cs(3) c(3)]
    by (intro exI [of _ "cs @ [c]"]) simp
qed

lemma upload_eof:
  assumes "upload_open X st0 st" "same_session st0 st" "upload_turn X st = (Some (Inr e), st')"
  shows "e = ClientEof" "upload_closed X st0 st'"
proof -
  note u = upload_turn_cases(3) [OF assms(3) refl]
  show "e = ClientEof" using u by blast
  obtain cs where cs: "source_bytes (rl_client st0) = concat cs @ source_bytes (rl_client st)"
    "healthy (rl_client st0) = healthy (rl_client st)" "write_chunks X cs (rl_writer st0) = (Inr (), rl_writer st)"
    using assms(1) by (auto simp: upload_open_def)
  have "source_bytes (rl_client st) = [] \<and> healthy (rl_client st)" using read_some_eof [of 32768 "rl_client st"] u by auto
  moreover have "\<exists>s. close_write X (set_writer (rl_writer st) (rl_session st0)) = (Inr (), s) \<and> p_writer (s_physical s) = rl_writer st'"
    using close_write_writer [of X "rl_session st" "rl_session st'" "rl_session st0"] u assms(2)
    by (simp add: same_session_def)
  ultimately show "upload_closed X st0 st'" unfolding upload_closed_def using cs by auto
qed

lemma download_more:
  assumes "download_open X st0 st" "download_turn X st = (None, st')"
  shows "download_open X st0 st'"
proof -
  obtain ds where ds: "chunk_reads X ds (rl_reader st0) (rl_reader st)" "accepted (rl_output st) = accepted (rl_output st0) @ concat ds"
    using assms(1) by (auto simp: download_open_def)
  obtain c where c: "c \<noteq> []" "read_application_chunk X (rl_reader st) = (Inr c, rl_reader st')"
    "accepted (rl_output st') = accepted (rl_output st) @ c"
    using download_turn_cases(2) [OF assms(2) refl] by blast
  show ?thesis unfolding download_open_def
    using ds c chunk_reads_snoc [OF ds(1) c(2,1)] by (intro exI [of _ "ds @ [c]"]) simp
qed

lemma download_eof:
  "download_open X st0 st \<Longrightarrow> download_turn X st = (Some (Inr u), st') \<Longrightarrow> download_finished X st0 st'"
  using download_turn_cases(3) [of X st "Some (Inr u)" st' u] by (auto simp: download_open_def download_finished_def)

lemma same_session_trans: "same_session a b \<Longrightarrow> same_session b c \<Longrightarrow> same_session a c"
  by (simp add: same_session_def)

lemma phase_sides [simp]:
  "upload_open X st0 (st\<lparr>rl_phase := p\<rparr>) = upload_open X st0 st" "upload_closed X st0 (st\<lparr>rl_phase := p\<rparr>) = upload_closed X st0 st"
  "download_open X st0 (st\<lparr>rl_phase := p\<rparr>) = download_open X st0 st"
  "download_finished X st0 (st\<lparr>rl_phase := p\<rparr>) = download_finished X st0 st"
  "same_session st0 (st\<lparr>rl_phase := p\<rparr>) = same_session st0 st"
  by (simp_all add: relay_sides)

text \<open>An upload turn leaves the download alone and a download turn the upload.\<close>

lemma upload_turn_keeps:
  assumes "upload_turn X st = (r, st')"
  shows "download_open X st0 st' = download_open X st0 st" "download_finished X st0 st' = download_finished X st0 st"
    "same_session st0 st \<Longrightarrow> same_session st0 st'" "rl_phase st' = rl_phase st"
  using upload_turn_cases(1) [OF assms] download_side_cong same_session_trans by blast+

lemma download_turn_keeps:
  assumes "download_turn X st = (r, st')"
  shows "upload_open X st0 st' = upload_open X st0 st" "upload_closed X st0 st' = upload_closed X st0 st"
    "same_session st0 st \<Longrightarrow> same_session st0 st'" "rl_phase st' = rl_phase st"
  using download_turn_cases(1) [OF assms] upload_side_cong same_session_trans by blast+

lemma relay_step_inv:
  assumes inv: "relay_inv X st0 st"
  shows "relay_inv X st0 (relay_step X t st)"
proof -
  obtain ur ust where u: "upload_turn X st = (ur, ust)" by fastforce
  obtain dr dst where d: "download_turn X st = (dr, dst)" by fastforce
  note keep = upload_turn_keeps [OF u] download_turn_keeps [OF d]
  have ss: "same_session st0 st" using inv by (simp add: relay_inv_def)
  have more: "ur = None \<Longrightarrow> upload_open X st0 st \<Longrightarrow> upload_open X st0 ust"
    "dr = None \<Longrightarrow> download_open X st0 st \<Longrightarrow> download_open X st0 dst"
    "\<And>e. ur = Some (Inr e) \<Longrightarrow> upload_open X st0 st \<Longrightarrow> upload_closed X st0 ust \<and> e = ClientEof"
    "\<And>v. dr = Some (Inr v) \<Longrightarrow> download_open X st0 st \<Longrightarrow> download_finished X st0 dst"
    using upload_more download_more upload_eof [OF _ ss] download_eof u d by blast+
  show ?thesis
  proof (cases "rl_phase st")
    case Both
    with inv have o: "upload_open X st0 st" "download_open X st0 st" by (simp_all add: relay_inv_def)
    show ?thesis
    proof (cases t)
      case UploadTurn
      with Both u o keep more ss show ?thesis
        by (cases ur) (auto simp: relay_step_def relay_inv_def split: sum.splits UploadEnd.splits)
    next
      case DownloadTurn
      with Both d o keep more ss show ?thesis
        by (cases dr) (auto simp: relay_step_def relay_inv_def split: sum.splits)
    qed (use Both inv ss in \<open>simp_all add: relay_step_def relay_inv_def\<close>)
  next
    case UploadDone
    with inv have o: "upload_closed X st0 st" "download_open X st0 st" by (simp_all add: relay_inv_def)
    show ?thesis
    proof (cases t)
      case DownloadTurn
      with UploadDone d o keep more ss show ?thesis
        by (cases dr) (auto simp: relay_step_def relay_inv_def is_ok_def split: sum.splits bool.splits)
    qed (use UploadDone inv ss in \<open>simp_all add: relay_step_def relay_inv_def\<close>)
  next
    case Stopping
    with inv have o: "upload_open X st0 st" "download_finished X st0 st" by (simp_all add: relay_inv_def)
    show ?thesis
    proof (cases t)
      case UploadTurn
      with Stopping u o keep more ss show ?thesis
        by (cases ur) (auto simp: relay_step_def relay_inv_def split: sum.splits UploadEnd.splits)
    qed (use Stopping inv ss in \<open>simp_all add: relay_step_def relay_inv_def\<close>)
  next
    case (Ended c b)
    with inv show ?thesis by (simp add: relay_step_def)
  qed
qed

lemma relay_run_inv: "relay_inv X st0 st \<Longrightarrow> relay_inv X st0 (relay_run X ts st)"
  unfolding relay_run_def by (induction ts arbitrary: st) (simp_all add: relay_step_inv)

lemma relay_start_inv: "relay_inv X (relay_start client output s a) (relay_start client output s a)"
proof -
  have "upload_open X st st" "download_open X st st" "same_session st st" for st
    by (auto simp: relay_sides intro: exI [of _ "[]"])
  then show ?thesis by (simp add: relay_inv_def relay_start_def)
qed

lemma chunk_reads_all:
  "chunk_reads X ds r r1 \<Longrightarrow> read_application_chunk X r1 = (Inr [], r2)
    \<Longrightarrow> read_chunks X (Suc (length ds)) r = (Some (Inr (concat ds)), r2)"
proof (induction ds arbitrary: r)
  case (Cons d ds)
  then obtain r' where "read_application_chunk X r = (Inr d, r')" "d \<noteq> []" "chunk_reads X ds r' r1"
    by (auto split: prod.splits sum.splits)
  with Cons.IH [of r'] Cons.prems(2) show ?case by (simp del: read_chunks.simps add: read_chunks.simps(2) [of X "Suc (length ds)" r])
qed simp

lemma read_chunks_unique:
  "read_chunks X n r = (Some (Inr d), r') \<Longrightarrow> read_chunks X m r = (Some (Inr d'), r'') \<Longrightarrow> d' = d \<and> r'' = r'"
proof (induction n arbitrary: m r d d')
  case (Suc n)
  then obtain k where m: "m = Suc k" by (cases m) auto
  show ?case
    using Suc m by (auto split: sum.splits prod.splits if_splits option.splits)
qed simp

text \<open>
  C13: A relay that ends without an error has lost nothing. The client has been given exactly what the
  session delivers up to the server's end of data, and its side was shut down after it. In the
  other direction, either the client half-closed and everything it sent was written to the session, in order, followed
  by the close; or the relay stopped the upload between writes, and the session holds an initial part of what the client sent.
\<close>

theorem relay_loses_nothing:
  assumes "relay X ts now close_timed_out client output s a c = Some (Inr (), st, c')"
  shows "(\<exists>data n. read_chunks X n (p_reader (s_physical s)) = (Some (Inr data), rl_reader st)
        \<and> delivered (rl_output st) = accepted output @ data \<and> shut (rl_output st))
    \<and> (\<exists>cs w b. rl_phase st = Ended True b \<and> write_chunks X cs (p_writer (s_physical s)) = (Inr (), w)
        \<and> (if b then source_bytes client = concat cs \<and> healthy client
             \<and> (\<exists>s'. close_write X (set_writer w s) = (Inr (), s') \<and> p_writer (s_physical s') = rl_writer st)
           else source_bytes client = concat cs @ source_bytes (rl_client st) \<and> rl_writer st = w))"
proof -
  let ?st0 = "relay_start client output s a"
  obtain b where st: "st = relay_run X ts ?st0" and p: "rl_phase st = Ended True b"
    using assms by (auto simp: relay_def Let_def split: phase.splits if_splits)
  have "relay_inv X ?st0 st" unfolding st by (rule relay_run_inv [OF relay_start_inv])
  then have down: "download_finished X ?st0 st" and up: "if b then upload_closed X ?st0 st else upload_open X ?st0 st"
    using p by (simp_all add: relay_inv_def)
  have s0: "rl_reader ?st0 = p_reader (s_physical s)" "rl_writer ?st0 = p_writer (s_physical s)" "rl_output ?st0 = output"
    "rl_client ?st0 = client" "rl_session ?st0 = s" by (simp_all add: relay_start_def)
  from down obtain ds r where ds: "chunk_reads X ds (p_reader (s_physical s)) r" "read_application_chunk X r = (Inr [], rl_reader st)"
    "delivered (rl_output st) = accepted output @ concat ds" "shut (rl_output st)"
    unfolding download_finished_def s0 by blast
  have "\<exists>data n. read_chunks X n (p_reader (s_physical s)) = (Some (Inr data), rl_reader st)
      \<and> delivered (rl_output st) = accepted output @ data \<and> shut (rl_output st)"
    using chunk_reads_all [OF ds(1,2)] ds(3,4) by blast
  moreover have "\<exists>cs w. write_chunks X cs (p_writer (s_physical s)) = (Inr (), w)
      \<and> (if b then source_bytes client = concat cs \<and> healthy client
             \<and> (\<exists>s'. close_write X (set_writer w s) = (Inr (), s') \<and> p_writer (s_physical s') = rl_writer st)
         else source_bytes client = concat cs @ source_bytes (rl_client st) \<and> rl_writer st = w)"
    using up unfolding upload_closed_def upload_open_def s0 by (cases b) auto
  ultimately show ?thesis using p by blast
qed

subsection \<open>The relay ends\<close>

text \<open>Reading consumes records, or takes from what is buffered.\<close>

abbreviation input_left :: "snell_reader \<Rightarrow> nat" where
  "input_left r \<equiv> length (rr_reader (records r))"

definition consumed :: "snell_reader \<Rightarrow> snell_reader \<Rightarrow> bool" where
  "consumed r r' \<longleftrightarrow> input_left r' < input_left r \<or> (input_left r' = input_left r \<and> length (unread r') \<le> length (unread r))"

lemma consumed_trans: "consumed r s \<Longrightarrow> consumed s t \<Longrightarrow> consumed r t"
  by (auto simp: consumed_def)

lemma read_exact_consumes:
  "read_exact_payload_into X n r = (Inr bs, r') \<Longrightarrow> consumed r r'"
proof (induction X n r arbitrary: bs r' rule: read_exact_payload_into.induct)
  case (1 X n r)
  consider (enough) "\<not> buffered_remaining r < n" | (fill) "buffered_remaining r < n" "buffered_remaining r = 0"
    | (grow) "buffered_remaining r < n" "buffered_remaining r \<noteq> 0" by blast
  then show ?case
  proof cases
    case enough
    then have "read_exact_payload_into X n r = (Inr (take n (drop (buffered_offset r) (buffered r))),
            r\<lparr>buffered_offset := buffered_offset r + n\<rparr>)" by (subst read_exact_payload_into.simps) simp
    with "1.prems" show ?thesis by (auto simp: unread_def consumed_def)
  next
    case fill
    then obtain r1 where f: "fill_buffer X r = (Inr Payload, r1)" "read_exact_payload_into X n r1 = (Inr bs, r')"
      using "1.prems" by (subst (asm) read_exact_payload_into.simps) (auto split: prod.splits sum.splits RecordKind.splits)
    have "consumed r r1" using fill_buffer_shrinks [OF f(1)] by (simp add: consumed_def)
    with "1.IH"(1) [OF fill f(1) [symmetric] refl refl f(2)] show ?thesis by (metis consumed_trans)
  next
    case grow
    then obtain p r1 where f: "reader_read_frame X r = (Inr p, r1)"
      "read_exact_payload_into X n (r1\<lparr>buffered := buffered r1 @ p\<rparr>) = (Inr bs, r')"
      using "1.prems" by (subst (asm) read_exact_payload_into.simps) (auto split: prod.splits sum.splits)
    have "consumed r (r1\<lparr>buffered := buffered r1 @ p\<rparr>)" using reader_read_frame_shrinks [OF f(1)] by (simp add: consumed_def)
    with "1.IH"(2) [OF grow f(1) [symmetric] refl f(2)] show ?thesis by (metis consumed_trans)
  qed
qed

lemma consumed_flags [simp]:
  "consumed (r\<lparr>reply_pending := b\<rparr>) r' = consumed r r'" "consumed r r"
  by (simp_all add: consumed_def unread_def)

lemma ensure_reply_consumes: "ensure_reply X r = (Inr (), r') \<Longrightarrow> consumed r r'"
  by (auto simp: ensure_reply_def read_reply_def res_simps split: option.splits if_splits sum.splits prod.splits
      dest!: read_exact_consumes)

lemma wait_payload_consumes:
  "wait_payload X r = (Inr b, r') \<Longrightarrow> consumed r r' \<and> (b \<longrightarrow> unread r' \<noteq> [])"
proof (induction X r rule: wait_payload.induct)
  case (1 X r)
  show ?case
  proof (cases "buffered_remaining r = 0")
    case False
    with "1.prems" have "r' = r" by (subst (asm) wait_payload.simps) simp
    with False show ?thesis by (simp add: buffered_remaining_unread)
  next
    case True
    obtain k r1 where f: "fill_buffer X r = (k, r1)" by fastforce
    show ?thesis
    proof (cases k)
      case (Inr kind)
      then have c: "consumed r r1" using fill_buffer_shrinks f by (simp add: consumed_def)
      have c': "consumed r (r1\<lparr>server_eof := True\<rparr>)" using c by (simp add: consumed_def unread_def)
      show ?thesis
        using "1.prems" "1.IH" [OF _ f [symmetric] Inr] True f Inr c c' consumed_trans
        by (cases kind) (subst (asm) wait_payload.simps, auto)+
    qed (use "1.prems" True f in \<open>subst (asm) wait_payload.simps, simp\<close>)
  qed
qed

definition reader_weight :: "snell_reader \<Rightarrow> nat" where
  "reader_weight r = 2 * input_left r + (if unread r = [] then 0 else 1)"

lemma chunk_consumes:
  assumes "read_application_chunk X r = (Inr c, r')" "c \<noteq> []"
  shows "reader_weight r' < reader_weight r"
proof -
  obtain r1 r2 where r1: "ensure_reply X r = (Inr (), r1)" and r2: "wait_payload X r1 = (Inr True, r2)"
    and r': "r' = r2\<lparr>buffered_offset := length (buffered r2)\<rparr>"
    using assms by (auto simp: read_application_chunk_def res_simps split: if_splits)
  have "consumed r r2" "unread r2 \<noteq> []"
    using ensure_reply_consumes [OF r1] wait_payload_consumes [OF r2] consumed_trans by auto
  moreover have "unread r' = []" "input_left r' = input_left r2" by (simp_all add: r' unread_def)
  ultimately show ?thesis by (auto simp: consumed_def reader_weight_def)
qed

definition relay_weight :: "relay_state \<Rightarrow> nat" where
  "relay_weight st = (case rl_phase st of
     Both \<Rightarrow> 2 + source_size (rl_client st) + reader_weight (rl_reader st)
   | UploadDone \<Rightarrow> 1 + reader_weight (rl_reader st)
   | Stopping \<Rightarrow> 1 + source_size (rl_client st)
   | Ended _ _ \<Rightarrow> 0)"

lemma upload_step_weight:
  "relay_weight (relay_step X UploadTurn st) \<le> relay_weight st
    \<and> (rl_phase st = Both \<or> rl_phase st = Stopping \<longrightarrow> relay_weight (relay_step X UploadTurn st) < relay_weight st)"
proof -
  obtain ur ust where u: "upload_turn X st = (ur, ust)" by fastforce
  note same = upload_turn_cases(1) [OF u]
  have "source_size (rl_client ust) < source_size (rl_client st)" if "ur = None"
    using upload_turn_cases(2) [OF u that] read_some_size [of 32768 "rl_client st"] by auto
  with u same show ?thesis
    by (cases "rl_phase st"; cases ur)
      (auto simp: relay_step_def relay_weight_def split: sum.splits UploadEnd.splits)
qed

lemma download_step_weight:
  "relay_weight (relay_step X DownloadTurn st) \<le> relay_weight st
    \<and> (rl_phase st = Both \<or> rl_phase st = UploadDone \<longrightarrow> relay_weight (relay_step X DownloadTurn st) < relay_weight st)"
proof -
  obtain dr dst where d: "download_turn X st = (dr, dst)" by fastforce
  note same = download_turn_cases(1) [OF d]
  have "reader_weight (rl_reader dst) < reader_weight (rl_reader st)" if "dr = None"
    using download_turn_cases(2) [OF d that] chunk_consumes by blast
  with d same show ?thesis
    by (cases "rl_phase st"; cases dr) (auto simp: relay_step_def relay_weight_def split: sum.splits)
qed

lemma relay_weight_zero: "relay_weight st = 0 \<Longrightarrow> \<exists>clean b. rl_phase st = Ended clean b"
  by (cases "rl_phase st") (auto simp: relay_weight_def)

lemma round_weight:
  "relay_weight (relay_run X [UploadTurn, DownloadTurn] st) \<le> relay_weight st - 1"
proof -
  let ?u = "relay_step X UploadTurn st"
  have r: "relay_run X [UploadTurn, DownloadTurn] st = relay_step X DownloadTurn ?u" by (simp add: relay_run_def)
  show ?thesis
  proof (cases "rl_phase st = UploadDone")
    case True
    then have "?u = st" by (simp add: relay_step_def)
    then have "relay_weight (relay_run X [UploadTurn, DownloadTurn] st) < relay_weight st"
      using download_step_weight [of X st] True r by simp
    then show ?thesis by linarith
  next
    case False
    then consider "rl_phase st = Both \<or> rl_phase st = Stopping" | "relay_weight st = 0"
      by (cases "rl_phase st") (auto simp: relay_weight_def)
    then show ?thesis
    proof cases
      case 1
      then have "relay_weight ?u < relay_weight st" using upload_step_weight [of X st] by blast
      moreover have "relay_weight (relay_step X DownloadTurn ?u) \<le> relay_weight ?u" using download_step_weight by blast
      ultimately show ?thesis unfolding r by linarith
    next
      case 2
      moreover have "relay_weight ?u \<le> relay_weight st" using upload_step_weight by blast
      moreover have "relay_weight (relay_step X DownloadTurn ?u) \<le> relay_weight ?u" using download_step_weight by blast
      ultimately show ?thesis unfolding r by linarith
    qed
  qed
qed

lemma rounds_weight:
  "relay_weight (relay_run X (concat (replicate n [UploadTurn, DownloadTurn])) st) \<le> relay_weight st - n"
proof (induction n arbitrary: st)
  case (Suc n)
  let ?st = "relay_run X [UploadTurn, DownloadTurn] st"
  have "relay_run X (concat (replicate (Suc n) [UploadTurn, DownloadTurn])) st
      = relay_run X (concat (replicate n [UploadTurn, DownloadTurn])) ?st" by (simp add: relay_run_def)
  then have "relay_weight (relay_run X (concat (replicate (Suc n) [UploadTurn, DownloadTurn])) st) \<le> relay_weight ?st - n"
    using Suc.IH [of ?st] by simp
  also have "\<dots> \<le> relay_weight st - 1 - n" using round_weight [of X st] by (rule diff_le_mono)
  finally show ?case by simp
qed (simp add: relay_run_def)

text \<open>
  C14: The relay ends. When the two loops take turns, it has ended after a number of rounds bounded by what
  the client and the server send, without any timer.
\<close>

theorem relay_ends:
  assumes "2 + source_size client + reader_weight (p_reader (s_physical s)) \<le> n"
  shows "\<exists>r st c'. relay X (concat (replicate n [UploadTurn, DownloadTurn])) now close_timed_out client output s a c = Some (r, st, c')"
proof -
  let ?st = "relay_run X (concat (replicate n [UploadTurn, DownloadTurn])) (relay_start client output s a)"
  have "relay_weight (relay_start client output s a) \<le> n"
    using assms by (simp add: relay_weight_def relay_start_def)
  then have "relay_weight ?st = 0" using rounds_weight [of X n "relay_start client output s a"] by simp
  then show ?thesis using relay_weight_zero [of ?st] by (auto simp: relay_def Let_def)
qed

subsection \<open>A concrete relay\<close>

lemma download_turn_chunk:
  assumes "read_application_chunk X (rl_reader st) = (Inr c, r')" "reliable (rl_output st)"
  shows "\<exists>st'. download_turn X st = (if c = [] then Some (Inr ()) else None, st') \<and> rl_reader st' = r'
    \<and> reliable (rl_output st')"
  using assms
  by (auto simp: download_turn_def session_read_chunk_def write_all_reliable shutdown_sink_def flush_reliable)

lemma downloads_reach_stopping:
  "read_chunks X n (rl_reader st) = (Some (Inr d), r') \<Longrightarrow> reliable (rl_output st) \<Longrightarrow> rl_phase st = Both
    \<Longrightarrow> \<exists>k. rl_phase (relay_run X (replicate k DownloadTurn) st) = Stopping"
proof (induction n arbitrary: st d)
  case (Suc n)
  obtain c r1 where c: "read_application_chunk X (rl_reader st) = (Inr c, r1)"
    using Suc.prems(1) by (auto split: prod.splits sum.splits)
  obtain st' where st': "download_turn X st = (if c = [] then Some (Inr ()) else None, st')" "rl_reader st' = r1"
    "reliable (rl_output st')" using download_turn_chunk [OF c Suc.prems(2)] by blast
  have ph: "rl_phase st' = Both" using download_turn_cases(1) [OF st'(1)] Suc.prems(3) by simp
  show ?case
  proof (cases "c = []")
    case True
    then have "rl_phase (relay_run X (replicate 1 DownloadTurn) st) = Stopping"
      using st'(1) Suc.prems(3) by (simp add: relay_run_def relay_step_def)
    then show ?thesis by blast
  next
    case False
    then obtain d' where "read_chunks X n (rl_reader st') = (Some (Inr d'), r')"
      using Suc.prems(1) c st'(2) by (auto split: prod.splits option.splits sum.splits)
    from Suc.IH [OF this st'(3) ph] obtain k where "rl_phase (relay_run X (replicate k DownloadTurn) st') = Stopping" by blast
    moreover have "relay_step X DownloadTurn st = st'" using st'(1) False Suc.prems(3) by (simp add: relay_step_def)
    ultimately have "rl_phase (relay_run X (replicate (Suc k) DownloadTurn) st) = Stopping" by (simp add: relay_run_def)
    then show ?thesis by blast
  qed
qed simp

definition demo_session :: "snell_reader \<Rightarrow> snell_session" where
  "demo_session r = \<lparr>s_physical = \<lparr>p_reader = r, p_writer = demo_writer,
     p_local_addr = \<lparr>sa_ip = V4 0, sa_port = 0\<rparr>, p_generation = 0\<rparr>, s_uses = 1, s_reusable = False\<rparr>"

definition demo_client :: snell_client where
  "demo_client = \<lparr>options = demo_options, c_identity = \<lparr>identity = [], authentication_key = []\<rparr>, idle = [], closed = False, retired = []\<rparr>"

theorem relay_loses_nothing_witness:
  "\<exists>ts bs st c'. relay sample_crypto ts 0 False [Data [7]] fresh_sink (demo_session (reader_over (reader_new bs [112]))) None demo_client
      = Some (Inr (), st, c') \<and> delivered (rl_output st) = [104, 105]"
proof -
  let ?fs = "[(None, [0, 104], 0), (Some of_nat, [105], 2)]"
  obtain bs w' where e: "encode_frames sample_crypto (?fs @ [(None, [], 0)]) demo_writer = (Inr bs, w')"
    using demo_frames by auto
  let ?r = "reader_over (reader_new bs [112])"
  have "\<exists>r'. read_chunks sample_crypto (length [104, 105 :: byte] + 2) ?r = (Some (Inr [104, 105]), r') \<and> server_eof r'
    \<and> rr_reader (records r') = [] \<and> in_step sample_crypto w' (records r') \<and> unread r' = []"
    by (rule session_stream [OF sample_aead_laws _ _ e])
      (simp_all add: reader_over_def demo_in_step frame_payload_def, simp add: reader_new_def)
  then obtain r' where r': "read_chunks sample_crypto (length [104, 105 :: byte] + 2) ?r = (Some (Inr [104, 105]), r')" by blast
  let ?st0 = "relay_start [Data [7]] fresh_sink (demo_session ?r) None"
  have "rl_reader ?st0 = ?r" "reliable (rl_output ?st0)" "rl_phase ?st0 = Both"
    by (simp_all add: relay_start_def demo_session_def)
  then obtain k where k: "rl_phase (relay_run sample_crypto (replicate k DownloadTurn) ?st0) = Stopping"
    using downloads_reach_stopping [of sample_crypto "length [104, 105 :: byte] + 2" ?st0] r' by metis
  let ?ts = "replicate k DownloadTurn @ [StopTurn]"
  have "rl_phase (relay_run sample_crypto ?ts ?st0) = Ended True False"
    using k by (simp add: relay_run_def relay_step_def)
  then obtain st c' where st: "relay sample_crypto ?ts 0 False [Data [7]] fresh_sink (demo_session ?r) None demo_client = Some (Inr (), st, c')"
    by (simp add: relay_def Let_def)
  from relay_loses_nothing [OF st] obtain data n where
    "read_chunks sample_crypto n ?r = (Some (Inr data), rl_reader st)" "delivered (rl_output st) = data"
    by (auto simp: demo_session_def)
  with read_chunks_unique [OF r'] have "delivered (rl_output st) = [104, 105]" by simp
  with st show ?thesis by blast
qed

theorem relay_ends_witness:
  "\<exists>r st c'. relay sample_crypto (concat (replicate 6 [UploadTurn, DownloadTurn])) 0 False [Data [7]] fresh_sink
      (demo_session (reader_over (reader_new [] [112]))) None demo_client = Some (r, st, c')"
  by (rule relay_ends) (simp add: demo_session_def reader_weight_def reader_over_def reader_new_def unread_def)

end
