(* ===== verification/Http_Body.thy ===== *)
theory Http_Body
  imports Relay
begin

text \<open>
  Request bodies of \<open>src/http_proxy.rs\<close>: how \<open>forward_body\<close> copies exactly one body, of a given framing, from a
  buffered reader to the upstream, and a reference reading of the three framings on the bytes alone. A reader is what it has
  buffered and the source behind it; the sink is any state with a \<open>send\<close> operation, the trait \<open>BodySink\<close>.
\<close>

definition BODY_BATCH_SIZE :: nat where "BODY_BATCH_SIZE = 32768"
definition CHUNK_LINE_LIMIT :: nat where "CHUNK_LINE_LIMIT = 4096"
definition TRAILER_LIMIT :: nat where "TRAILER_LIMIT = 8192"

abbreviation crlf :: bytes where "crlf \<equiv> [13, 10]"

datatype BodyFraming = Empty | Length nat | Chunked

subsection \<open>The copying loops\<close>

record 's body_state =
  bs_buf :: bytes
  bs_src :: source
  bs_out :: bytes
  bs_sink :: 's

type_synonym 's send_op = "bytes \<Rightarrow> 's \<Rightarrow> unit res \<times> 's"

definition send_output :: "'s send_op \<Rightarrow> 's body_state \<Rightarrow> unit res \<times> 's body_state" where
  "send_output send st =
     (case send (bs_out st) (bs_sink st) of
        (Inl e, k) \<Rightarrow> (Inl e, st\<lparr>bs_sink := k\<rparr>)
      | (Inr _, k) \<Rightarrow> (Inr (), st\<lparr>bs_sink := k, bs_out := []\<rparr>))"

definition fill_buf :: "'s body_state \<Rightarrow> unit res \<times> 's body_state" where
  "fill_buf st =
     (if bs_buf st \<noteq> [] then (Inr (), st)
      else case read_some BODY_BATCH_SIZE (bs_src st) of
        (Inl e, src) \<Rightarrow> (Inl e, st\<lparr>bs_src := src\<rparr>)
      | (Inr c, src) \<Rightarrow> (Inr (), st\<lparr>bs_buf := c, bs_src := src\<rparr>))"

definition fill_body :: "'s send_op \<Rightarrow> 's body_state \<Rightarrow> bytes res \<times> 's body_state" where
  "fill_body send st =
     st_then (if bs_buf st = [] \<and> bs_out st \<noteq> [] then send_output send st else (Inr (), st)) (\<lambda>_ st.
     st_then (fill_buf st) (\<lambda>_ st.
     if bs_buf st = [] then (Inl (Bail ''unexpected EOF in HTTP request body''), st) else (Inr (bs_buf st), st)))"

lemma fill_body_buf: "fill_body send st = (Inr b, st') \<Longrightarrow> b = bs_buf st' \<and> b \<noteq> []"
  by (auto simp: fill_body_def res_simps split: if_splits)

definition input_size :: "'s body_state \<Rightarrow> nat" where
  "input_size st = length (bs_buf st) + source_size (bs_src st)"

lemma read_some_weight:
  "read_some n s = (Inr c, s') \<Longrightarrow> length c + source_size s' \<le> source_size s"
  by (induction n s rule: read_some.induct) (auto split: if_splits)

lemma send_output_input: "send_output send st = (r, st') \<Longrightarrow> bs_buf st' = bs_buf st \<and> bs_src st' = bs_src st"
  by (auto simp: send_output_def split: prod.splits sum.splits)

lemma fill_buf_input: "fill_buf st = (Inr x, st') \<Longrightarrow> input_size st' \<le> input_size st"
  using read_some_weight [of BODY_BATCH_SIZE "bs_src st"]
  by (auto simp: fill_buf_def input_size_def split: if_splits prod.splits sum.splits)

lemma fill_body_input: "fill_body send st = (Inr b, st') \<Longrightarrow> input_size st' \<le> input_size st"
  by (auto simp: fill_body_def res_simps input_size_def split: if_splits dest!: fill_buf_input send_output_input)

text \<open>One iteration of \<open>copy_body_bytes\<close>, giving the number of bytes it took, and of \<open>read_body_line\<close>.\<close>

definition copy_step :: "'s send_op \<Rightarrow> nat \<Rightarrow> 's body_state \<Rightarrow> nat res \<times> 's body_state" where
  "copy_step send remaining st =
     st_then (fill_body send st) (\<lambda>buf st.
     let n = min (length buf) remaining; st = st\<lparr>bs_out := bs_out st @ take n buf, bs_buf := drop n buf\<rparr> in
     st_then (if BODY_BATCH_SIZE \<le> length (bs_out st) then send_output send st else (Inr (), st)) (\<lambda>_ st.
     (Inr n, st)))"

definition line_step :: "'s send_op \<Rightarrow> nat \<Rightarrow> bytes \<Rightarrow> 's body_state \<Rightarrow> (bytes \<times> bool) res \<times> 's body_state" where
  "line_step send limit line st =
     st_then (fill_body send st) (\<lambda>buf st.
     let (n, finished) = (case position (\<lambda>b. b = 10) buf of Some i \<Rightarrow> (i + 1, True) | None \<Rightarrow> (length buf, False)) in
     if limit < length line + n then (Inl (Bail ''HTTP request chunk line is too long''), st)
     else (Inr (line @ take n buf, finished), st\<lparr>bs_buf := drop n buf\<rparr>))"

lemma copy_step_input:
  assumes "copy_step send remaining st = (Inr n, st')" "remaining \<noteq> 0"
  shows "n \<noteq> 0" "n \<le> remaining" "input_size st' < input_size st"
proof -
  obtain buf st1 where f: "fill_body send st = (Inr buf, st1)" and n: "n = min (length buf) remaining"
    and st': "bs_buf st' = drop n buf" "bs_src st' = bs_src st1"
    using assms(1) by (auto simp: copy_step_def res_simps Let_def split: if_splits dest!: send_output_input)
  show "n \<noteq> 0" "n \<le> remaining" using n fill_body_buf [OF f] assms(2) by auto
  have "0 < length buf" using fill_body_buf [OF f] by blast
  then show "input_size st' < input_size st"
    using st' fill_body_buf [OF f] fill_body_input [OF f] \<open>n \<noteq> 0\<close>
    by (simp add: input_size_def del: length_greater_0_conv)
qed

lemma line_step_input:
  assumes "line_step send limit line st = (Inr r, st')"
  shows "input_size st' < input_size st"
proof -
  obtain buf st1 where f: "fill_body send st = (Inr buf, st1)" using assms by (auto simp: line_step_def res_simps)
  have buf: "0 < length buf" using fill_body_buf [OF f] by blast
  let ?n = "case position (\<lambda>b. b = 10) buf of Some i \<Rightarrow> i + 1 | None \<Rightarrow> length buf"
  have "?n \<noteq> 0" "st' = st1\<lparr>bs_buf := drop ?n buf\<rparr>"
    using assms f buf by (auto simp: line_step_def Let_def split: if_splits option.splits)
  then show ?thesis using buf fill_body_buf [OF f] fill_body_input [OF f]
    by (simp add: input_size_def del: length_greater_0_conv)
qed

function copy_body_bytes :: "'s send_op \<Rightarrow> nat \<Rightarrow> 's body_state \<Rightarrow> unit res \<times> 's body_state" where
  "copy_body_bytes send remaining st =
     (if remaining = 0 then (Inr (), st)
      else case copy_step send remaining st of
        (Inl e, st) \<Rightarrow> (Inl e, st)
      | (Inr n, st) \<Rightarrow> copy_body_bytes send (remaining - n) st)"
  by pat_completeness auto
termination
  by (relation "measure (\<lambda>(_, remaining, _). remaining)") (auto dest!: copy_step_input(1) [OF sym])

function read_body_line :: "'s send_op \<Rightarrow> nat \<Rightarrow> bytes \<Rightarrow> 's body_state \<Rightarrow> bytes res \<times> 's body_state" where
  "read_body_line send limit line st =
     (case line_step send limit line st of
        (Inl e, st) \<Rightarrow> (Inl e, st)
      | (Inr (line, finished), st) \<Rightarrow>
          if \<not> finished then read_body_line send limit line st
          else if \<not> ends_with crlf line then (Inl (Bail ''HTTP request chunk line is malformed''), st)
          else (Inr line, st))"
  by pat_completeness auto
termination
  by (relation "measure (\<lambda>(_, _, _, st). input_size st)") (auto dest!: line_step_input [OF sym])

declare copy_body_bytes.simps [simp del] read_body_line.simps [simp del]

definition chunk_size_digits :: "bytes \<Rightarrow> ustring" where
  "chunk_size_digits line =
     (let line = take (length line - 2) line;
          sz = (case position (\<lambda>b. b = 59) line of Some i \<Rightarrow> take i line | None \<Rightarrow> line) in
      map unat (trim_end_by (\<lambda>b. b = 32 \<or> b = 9) sz))"

definition parse_chunk_size :: "bytes \<Rightarrow> nat res" where
  "parse_chunk_size line =
     (let sz = chunk_size_digits line in
      if sz = [] \<or> 15 < length sz \<or> \<not> list_all ascii_hexdigit sz
      then Inl (Bail ''HTTP request chunk size is invalid'')
      else Inr (digits_val 16 0 sz))"

text \<open>Every line that is read shortens the input, so the loops over lines end.\<close>

lemma read_body_line_input:
  "read_body_line send limit line st = (Inr l, st') \<Longrightarrow> input_size st' < input_size st"
proof (induction send limit line st rule: read_body_line.induct)
  case (1 send limit line st)
  then obtain line' finished st1 where s: "line_step send limit line st = (Inr (line', finished), st1)"
    by (subst (asm) (2) read_body_line.simps) (auto split: prod.splits sum.splits)
  note lt = line_step_input [OF s]
  show ?case
  proof (cases finished)
    case True
    then show ?thesis using "1.prems" s lt by (subst (asm) read_body_line.simps) (auto split: if_splits)
  next
    case False
    then have "read_body_line send limit line' st1 = (Inr l, st')"
      using "1.prems" s by (subst (asm) read_body_line.simps) simp
    with "1.IH" [OF s [symmetric] refl refl] False lt show ?thesis by force
  qed
qed

lemma copy_body_bytes_input:
  "copy_body_bytes send remaining st = (Inr x, st') \<Longrightarrow> input_size st' \<le> input_size st"
proof (induction send remaining st rule: copy_body_bytes.induct)
  case (1 send remaining st)
  show ?case
  proof (cases "remaining = 0")
    case True
    with "1.prems" show ?thesis by (simp add: copy_body_bytes.simps)
  next
    case False
    then obtain n st1 where s: "copy_step send remaining st = (Inr n, st1)"
      and r: "copy_body_bytes send (remaining - n) st1 = (Inr x, st')"
      using "1.prems" by (subst (asm) copy_body_bytes.simps) (auto split: prod.splits sum.splits)
    from "1.IH" [OF False s [symmetric] refl r] copy_step_input(3) [OF s False] show ?thesis by simp
  qed
qed

function copy_trailers :: "'s send_op \<Rightarrow> nat \<Rightarrow> 's body_state \<Rightarrow> unit res \<times> 's body_state" where
  "copy_trailers send trailer_bytes st =
     (case read_body_line send TRAILER_LIMIT [] st of
        (Inl e, st) \<Rightarrow> (Inl e, st)
      | (Inr line, st) \<Rightarrow>
          if TRAILER_LIMIT < trailer_bytes + length line then (Inl (Bail ''HTTP request trailers are too large''), st)
          else if line = crlf then (Inr (), st\<lparr>bs_out := bs_out st @ line\<rparr>)
          else copy_trailers send (trailer_bytes + length line) (st\<lparr>bs_out := bs_out st @ line\<rparr>))"
  by pat_completeness auto
termination
  by (relation "measure (\<lambda>(_, _, st). input_size st)")
    (auto dest!: read_body_line_input [OF sym] simp: input_size_def)

text \<open>One chunk: its size line, its data and the line end after it; \<open>False\<close> is the last chunk, of size zero.\<close>

definition copy_chunk :: "'s send_op \<Rightarrow> 's body_state \<Rightarrow> bool res \<times> 's body_state" where
  "copy_chunk send st =
     st_then (read_body_line send CHUNK_LINE_LIMIT [] st) (\<lambda>line st.
     st_then (parse_chunk_size line, st) (\<lambda>sz st.
     let st = st\<lparr>bs_out := bs_out st @ line\<rparr> in
     if sz = 0 then (Inr False, st)
     else
       st_then (copy_body_bytes send sz st) (\<lambda>_ st.
       st_then (read_body_line send 2 [] st) (\<lambda>line st.
       if line \<noteq> crlf then (Inl (Bail ''HTTP request chunk is malformed''), st)
       else (Inr True, st\<lparr>bs_out := bs_out st @ line\<rparr>)))))"

lemma input_size_out [simp]: "input_size (st\<lparr>bs_out := b\<rparr>) = input_size st"
  by (simp add: input_size_def)

lemma copy_chunk_input: "copy_chunk send st = (Inr b, st') \<Longrightarrow> input_size st' < input_size st"
  by (auto simp: copy_chunk_def res_simps Let_def split: if_splits
      dest!: read_body_line_input copy_body_bytes_input)

function copy_chunks :: "'s send_op \<Rightarrow> 's body_state \<Rightarrow> unit res \<times> 's body_state" where
  "copy_chunks send st =
     (case copy_chunk send st of
        (Inl e, st) \<Rightarrow> (Inl e, st)
      | (Inr again, st) \<Rightarrow> if again then copy_chunks send st else copy_trailers send 0 st)"
  by pat_completeness auto
termination
  by (relation "measure (\<lambda>(_, st). input_size st)") (auto dest!: copy_chunk_input [OF sym])

declare copy_trailers.simps [simp del] copy_chunks.simps [simp del]

text \<open>The state starts with the head as pending output.\<close>

definition forward_body :: "'s send_op \<Rightarrow> BodyFraming \<Rightarrow> bytes \<Rightarrow> bytes \<Rightarrow> source \<Rightarrow> 's \<Rightarrow> unit res \<times> 's body_state" where
  "forward_body send framing head buf src k =
     st_then (let st = \<lparr>bs_buf = buf, bs_src = src, bs_out = head, bs_sink = k\<rparr> in
              case framing of
                Empty \<Rightarrow> (Inr (), st)
              | Length n \<Rightarrow> copy_body_bytes send n st
              | Chunked \<Rightarrow> copy_chunks send st) (\<lambda>_ st.
     if bs_out st \<noteq> [] then send_output send st else (Inr (), st))"

subsection \<open>A reference reading of a body\<close>

definition ref_line :: "nat \<Rightarrow> bytes \<Rightarrow> (bytes \<times> bytes) option" where
  "ref_line limit b =
     (case position (\<lambda>c. c = 10) b of
        None \<Rightarrow> None
      | Some i \<Rightarrow> if limit < i + 1 \<or> \<not> ends_with crlf (take (i + 1) b) then None else Some (take (i + 1) b, drop (i + 1) b))"

lemma ref_line_shorter: "ref_line limit b = Some (l, r) \<Longrightarrow> b = l @ r \<and> l \<noteq> []"
  by (auto simp: ref_line_def position_Some_iff split: option.splits if_splits)

function ref_trailers :: "nat \<Rightarrow> bytes \<Rightarrow> (bytes \<times> bytes) option" where
  "ref_trailers used b =
     (case ref_line TRAILER_LIMIT b of
        None \<Rightarrow> None
      | Some (line, r) \<Rightarrow>
          if TRAILER_LIMIT < used + length line then None
          else if line = crlf then Some (line, r)
          else map_option (\<lambda>(t, r). (line @ t, r)) (ref_trailers (used + length line) r))"
  by pat_completeness auto
termination by (relation "measure (\<lambda>(_, b). length b)") (auto dest!: ref_line_shorter)

definition ref_chunk :: "bytes \<Rightarrow> (bool \<times> bytes \<times> bytes) option" where
  "ref_chunk b =
     Option.bind (ref_line CHUNK_LINE_LIMIT b) (\<lambda>(line, r).
     case parse_chunk_size line of
       Inl _ \<Rightarrow> None
     | Inr sz \<Rightarrow>
         if sz = 0 then Some (False, line, r)
         else if take 2 (drop sz r) = crlf then Some (True, line @ take sz r @ crlf, drop (sz + 2) r)
         else None)"

lemma ref_chunk_shorter: "ref_chunk b = Some (again, c, r) \<Longrightarrow> b = c @ r \<and> c \<noteq> []"
proof -
  have data: "take n r @ crlf @ drop (n + 2) r = r" if "take 2 (drop n r) = crlf" for n and r :: bytes
  proof -
    have "take n r @ take 2 (drop n r) @ drop 2 (drop n r) = r" by (simp only: append_take_drop_id)
    then show ?thesis using that by (simp add: add.commute)
  qed
  assume a: "ref_chunk b = Some (again, c, r)"
  then obtain line r1 where l: "ref_line CHUNK_LINE_LIMIT b = Some (line, r1)" by (auto simp: ref_chunk_def bind_eq_Some_conv)
  obtain sz where z: "parse_chunk_size line = Inr sz" using a l by (cases "parse_chunk_size line") (auto simp: ref_chunk_def)
  show ?thesis
    using a l z ref_line_shorter [OF l] data [of sz r1] by (auto simp: ref_chunk_def split: if_splits)
qed

function ref_chunks :: "bytes \<Rightarrow> (bytes \<times> bytes) option" where
  "ref_chunks b =
     (case ref_chunk b of
        None \<Rightarrow> None
      | Some (again, c, r) \<Rightarrow> map_option (\<lambda>(t, r). (c @ t, r)) (if again then ref_chunks r else ref_trailers 0 r))"
  by pat_completeness auto
termination by (relation "measure length") (auto dest!: ref_chunk_shorter)

declare ref_trailers.simps [simp del] ref_chunks.simps [simp del]

fun ref_body :: "BodyFraming \<Rightarrow> bytes \<Rightarrow> (bytes \<times> bytes) option" where
  "ref_body Empty b = Some ([], b)"
| "ref_body (Length n) b = (if n \<le> length b then Some (take n b, drop n b) else None)"
| "ref_body Chunked b = ref_chunks b"

lemma position_first: "(\<forall>y \<in> set a. \<not> p y) \<Longrightarrow> p x \<Longrightarrow> position p (a @ x # b) = Some (length a)"
  by (induction a) auto

lemma ref_line_intro:
  assumes "10 \<notin> set a" "length a < limit" "ends_with crlf (a @ [10])"
  shows "ref_line limit (a @ 10 # r) = Some (a @ [10], r)"
proof -
  have "position (\<lambda>c. c = 10) (a @ 10 # r) = Some (length a)" using assms(1) by (intro position_first) auto
  then show ?thesis using assms by (simp add: ref_line_def)
qed

lemma ref_line_short: "10 \<notin> set b \<Longrightarrow> ref_line limit b = None"
  using position_None_iff [of "\<lambda>c. c = 10" b] by (auto simp: ref_line_def)

lemma ref_line_long:
  assumes "10 \<notin> set a" "limit < length a + 1 \<or> \<not> ends_with crlf (a @ [10])"
  shows "ref_line limit (a @ 10 # r) = None"
proof -
  have "position (\<lambda>c. c = 10) (a @ 10 # r) = Some (length a)" using assms(1) by (intro position_first) auto
  then show ?thesis using assms by (auto simp: ref_line_def)
qed

lemma ref_line_too_long:
  assumes "10 \<notin> set a" "limit < length a"
  shows "ref_line limit (a @ r) = None"
proof (cases "10 \<in> set r")
  case True
  then obtain r1 r2 where "r = r1 @ 10 # r2" "10 \<notin> set r1" by (meson split_list_first)
  then show ?thesis using ref_line_long [of "a @ r1" limit r2] assms by simp
qed (use assms in \<open>simp add: ref_line_short\<close>)

lemma ref_line_two:
  "ref_line 2 b = Some (l, r) \<longleftrightarrow> l = crlf \<and> b = crlf @ r"
proof
  assume a: "ref_line 2 b = Some (l, r)"
  then have "length l \<le> 2" "ends_with crlf l" by (auto simp: ref_line_def split: option.splits if_splits)
  then have "l = crlf" by (auto simp: ends_with_iff)
  then show "l = crlf \<and> b = crlf @ r" using ref_line_shorter [OF a] by simp
next
  assume "l = crlf \<and> b = crlf @ r"
  then show "ref_line 2 b = Some (l, r)" using ref_line_intro [of "[13]" 2 r] by (simp add: ends_with_iff)
qed

lemma ref_line_two_None: "ref_line 2 b = None \<Longrightarrow> take 2 b \<noteq> crlf"
  using ref_line_two [of b crlf "drop 2 b"] append_take_drop_id [of 2 b] by (metis option.distinct(1))

subsection \<open>What is sent is what is read\<close>

text \<open>The interface of a body sink: \<open>wrote k k' b\<close> says that between the states \<open>k\<close> and \<open>k'\<close> the bytes \<open>b\<close> were sent.\<close>

locale body_sink =
  fixes send :: "'s send_op"
    and wrote :: "'s \<Rightarrow> 's \<Rightarrow> bytes \<Rightarrow> bool"
  assumes wrote_nil: "wrote k k []"
    and wrote_trans: "wrote k k1 a \<Longrightarrow> wrote k1 k2 b \<Longrightarrow> wrote k k2 (a @ b)"
    and send_wrote: "send c k = (Inr (), k') \<Longrightarrow> wrote k k' c"

definition avail :: "'s body_state \<Rightarrow> bytes" where
  "avail st = bs_buf st @ source_bytes (bs_src st)"

text \<open>From \<open>st\<close> to \<open>st'\<close> the bytes \<open>c\<close> were taken from the reader and \<open>e\<close> was put out.\<close>

definition moved :: "('s \<Rightarrow> 's \<Rightarrow> bytes \<Rightarrow> bool) \<Rightarrow> 's body_state \<Rightarrow> 's body_state \<Rightarrow> bytes \<Rightarrow> bytes \<Rightarrow> bool" where
  "moved wrote st st' c e \<longleftrightarrow>
     avail st = c @ avail st' \<and> healthy (bs_src st') = healthy (bs_src st)
     \<and> (\<exists>a. wrote (bs_sink st) (bs_sink st') a \<and> bs_out st @ e = a @ bs_out st')"

definition failing :: "'s send_op \<Rightarrow> error \<Rightarrow> bool" where
  "failing send e \<longleftrightarrow> (\<exists>c k k'. send c k = (Inl e, k'))"

context body_sink
begin

lemma moved_refl: "moved wrote st st [] []"
  using wrote_nil by (auto simp: moved_def)

lemma moved_trans:
  assumes "moved wrote st st1 c1 e1" "moved wrote st1 st2 c2 e2"
  shows "moved wrote st st2 (c1 @ c2) (e1 @ e2)"
proof -
  obtain a1 a2 where "wrote (bs_sink st) (bs_sink st1) a1" "bs_out st @ e1 = a1 @ bs_out st1"
    "wrote (bs_sink st1) (bs_sink st2) a2" "bs_out st1 @ e2 = a2 @ bs_out st2"
    using assms by (auto simp: moved_def)
  then have "wrote (bs_sink st) (bs_sink st2) (a1 @ a2)" "bs_out st @ e1 @ e2 = (a1 @ a2) @ bs_out st2"
    using wrote_trans by (simp_all, metis append.assoc)
  then show ?thesis using assms by (auto simp: moved_def)
qed

lemma moved_out: "moved wrote st (st\<lparr>bs_out := bs_out st @ e\<rparr>) [] e"
  using wrote_nil by (auto simp: moved_def avail_def)

lemma moved_take: "bs_buf st = c @ r \<Longrightarrow> moved wrote st (st\<lparr>bs_buf := r\<rparr>) c []"
  using wrote_nil by (auto simp: moved_def avail_def)

lemma send_output_moved: "send_output send st = (Inr x, st') \<Longrightarrow> moved wrote st st' [] []"
  using send_wrote by (auto simp: send_output_def moved_def avail_def split: prod.splits sum.splits)

lemma fill_buf_moved: "fill_buf st = (Inr x, st') \<Longrightarrow> moved wrote st st' [] []"
  using wrote_nil read_some_bytes [of BODY_BATCH_SIZE "bs_src st"] read_some_eof [of BODY_BATCH_SIZE "bs_src st"]
    read_some_healthy_iff [of BODY_BATCH_SIZE "bs_src st"]
  by (fastforce simp: fill_buf_def moved_def avail_def BODY_BATCH_SIZE_def split: if_splits prod.splits sum.splits)

lemma fill_body_moved: "fill_body send st = (Inr b, st') \<Longrightarrow> moved wrote st st' [] []"
  using moved_trans [of st _ "[]" "[]" _ "[]" "[]"] moved_refl
  by (auto simp: fill_body_def res_simps split: if_splits dest!: send_output_moved fill_buf_moved)

lemma copy_step_moved:
  assumes "copy_step send n st = (Inr k, st')"
  shows "\<exists>c. length c = k \<and> moved wrote st st' c c"
proof -
  obtain buf st1 where f: "fill_body send st = (Inr buf, st1)" and k: "k = min (length buf) n"
    using assms by (auto simp: copy_step_def res_simps Let_def)
  let ?st2 = "st1\<lparr>bs_out := bs_out st1 @ take k buf, bs_buf := drop k buf\<rparr>"
  have b: "buf = bs_buf st1" using fill_body_buf [OF f] by simp
  have "moved wrote st1 (st1\<lparr>bs_out := bs_out st1 @ take k buf\<rparr>) [] (take k buf)" by (rule moved_out)
  moreover have "moved wrote (st1\<lparr>bs_out := bs_out st1 @ take k buf\<rparr>) ?st2 (take k buf) []"
    by (rule moved_take [of "st1\<lparr>bs_out := bs_out st1 @ take k buf\<rparr>" "take k buf" "drop k buf", simplified]) (simp add: b)
  ultimately have "moved wrote st1 ?st2 (take k buf) (take k buf)" using moved_trans by fastforce
  moreover have "moved wrote ?st2 st' [] []"
    using assms f k moved_refl by (auto simp: copy_step_def res_simps Let_def split: if_splits dest!: send_output_moved)
  ultimately have "moved wrote st1 st' (take k buf) (take k buf)" using moved_trans by fastforce
  then have "moved wrote st st' (take k buf) (take k buf)" using fill_body_moved [OF f] moved_trans by fastforce
  then show ?thesis using k by (intro exI [of _ "take k buf"]) simp
qed

lemma copy_body_bytes_moved:
  "copy_body_bytes send n st = (Inr x, st') \<Longrightarrow> \<exists>c. length c = n \<and> moved wrote st st' c c"
proof (induction n arbitrary: st rule: less_induct)
  case (less n)
  show ?case
  proof (cases "n = 0")
    case True
    with less.prems show ?thesis using moved_refl by (simp add: copy_body_bytes.simps)
  next
    case False
    then obtain k st1 where s: "copy_step send n st = (Inr k, st1)" and r: "copy_body_bytes send (n - k) st1 = (Inr x, st')"
      using less.prems by (subst (asm) copy_body_bytes.simps) (auto split: prod.splits sum.splits)
    note k = copy_step_input [OF s False]
    then obtain c1 c2 where "length c1 = k" "moved wrote st st1 c1 c1" "length c2 = n - k" "moved wrote st1 st' c2 c2"
      using copy_step_moved [OF s] less.IH [OF _ r] False by auto
    then show ?thesis using moved_trans k(2) by (intro exI [of _ "c1 @ c2"]) auto
  qed
qed

lemma line_step_moved:
  assumes "line_step send limit line st = (Inr (l, fin), st')"
  shows "\<exists>b. l = line @ b \<and> length l \<le> limit \<and> moved wrote st st' b []
    \<and> (if fin then \<exists>a. b = a @ [10] \<and> 10 \<notin> set a else 10 \<notin> set b)"
proof -
  obtain buf st1 where f: "fill_body send st = (Inr buf, st1)" using assms by (auto simp: line_step_def res_simps)
  let ?n = "case position (\<lambda>b. b = 10) buf of Some i \<Rightarrow> i + 1 | None \<Rightarrow> length buf"
  have r: "l = line @ take ?n buf" "length l \<le> limit" "st' = st1\<lparr>bs_buf := drop ?n buf\<rparr>"
    "fin \<longleftrightarrow> position (\<lambda>b. b = 10) buf \<noteq> None"
    using assms f by (auto simp: line_step_def Let_def split: if_splits option.splits)
  have "moved wrote st1 st' (take ?n buf) []" unfolding r(3) using fill_body_buf [OF f] by (intro moved_take) simp
  then have "moved wrote st st' (take ?n buf) []" using fill_body_moved [OF f] moved_trans by fastforce
  moreover have "if fin then \<exists>a. take ?n buf = a @ [10] \<and> 10 \<notin> set a else 10 \<notin> set (take ?n buf)"
  proof (cases "position (\<lambda>b. b = 10) buf")
    case (Some i)
    then have "i < length buf" "buf ! i = 10" "10 \<notin> set (take i buf)"
      by (auto simp: position_Some_iff in_set_conv_nth)
    then show ?thesis using Some r(4) by (simp add: take_Suc_conv_app_nth)
  next
    case None
    then show ?thesis using r(4) position_None_iff [of "\<lambda>b. b = 10" buf] by auto
  qed
  ultimately show ?thesis using r(1,2) by blast
qed

lemma read_body_line_moved:
  "read_body_line send limit line st = (Inr l, st') \<Longrightarrow> 10 \<notin> set line
    \<Longrightarrow> \<exists>b. l = line @ b \<and> moved wrote st st' b [] \<and> ref_line limit (line @ avail st) = Some (l, avail st')"
proof (induction "input_size st" arbitrary: line st rule: less_induct)
  case less
  obtain l1 fin st1 where s: "line_step send limit line st = (Inr (l1, fin), st1)"
    using less.prems(1) by (subst (asm) read_body_line.simps) (auto split: prod.splits sum.splits)
  from line_step_moved [OF s] obtain b where b: "l1 = line @ b" "length l1 \<le> limit" "moved wrote st st1 b []"
    "if fin then \<exists>a. b = a @ [10] \<and> 10 \<notin> set a else 10 \<notin> set b" by blast
  then have av: "avail st = b @ avail st1" by (simp add: moved_def)
  show ?case
  proof (cases fin)
    case True
    then obtain a where a: "b = a @ [10]" "10 \<notin> set a" using b by auto
    have l: "l = l1" "st' = st1" "ends_with crlf l1"
      using less.prems(1) s True by (subst (asm) read_body_line.simps, auto split: if_splits)+
    have "ref_line limit ((line @ a) @ 10 # avail st1) = Some ((line @ a) @ [10], avail st1)"
      using l(3) b a less.prems(2) by (intro ref_line_intro) auto
    then show ?thesis using l b a av by auto
  next
    case False
    then have "read_body_line send limit l1 st1 = (Inr l, st')"
      using less.prems(1) s by (subst (asm) read_body_line.simps) simp
    moreover have "10 \<notin> set l1" using b False less.prems(2) by auto
    ultimately obtain c where "l = l1 @ c" "moved wrote st1 st' c []" "ref_line limit (l1 @ avail st1) = Some (l, avail st')"
      using less.hyps [OF line_step_input [OF s]] by blast
    then show ?thesis using moved_trans [OF b(3)] b(1) av by (intro exI [of _ "b @ c"]) auto
  qed
qed

lemma fill_body_err:
  assumes "fill_body send st = (Inl e, st')"
  shows "failing send e \<or> \<not> healthy (bs_src st) \<or> avail st = []"
proof -
  have buf: "healthy (bs_src u) \<Longrightarrow> \<exists>v. fill_buf u = (Inr (), v) \<and> (bs_buf v = [] \<longrightarrow> avail u = [])" for u :: "'s body_state"
    using read_some_healthy [of "bs_src u" BODY_BATCH_SIZE] read_some_eof [of BODY_BATCH_SIZE "bs_src u"]
    by (fastforce simp: fill_buf_def avail_def BODY_BATCH_SIZE_def)
  let ?r = "if bs_buf st = [] \<and> bs_out st \<noteq> [] then send_output send st else (Inr (), st)"
  show ?thesis
  proof (cases "fst ?r")
    case (Inl e')
    then have "send_output send st = (Inl e, st')"
      using assms by (cases "send_output send st") (auto simp: fill_body_def split: if_splits)
    then show ?thesis by (auto simp: send_output_def failing_def split: prod.splits sum.splits)
  next
    case (Inr x)
    then obtain u where u: "?r = (Inr x, u)" by (cases ?r) auto
    then have same: "bs_src u = bs_src st" "avail u = avail st"
      by (auto simp: avail_def split: if_splits dest!: send_output_input)
    show ?thesis
    proof (cases "healthy (bs_src st)")
      case True
      then obtain v where "fill_buf u = (Inr (), v)" "bs_buf v = [] \<longrightarrow> avail u = []" using buf [of u] same by auto
      then show ?thesis using assms same unfolding fill_body_def u by (auto split: if_splits)
    qed simp
  qed
qed

lemma copy_step_err:
  "copy_step send n st = (Inl e, st') \<Longrightarrow> failing send e \<or> \<not> healthy (bs_src st) \<or> avail st = []"
  by (auto simp: copy_step_def res_simps Let_def split: if_splits dest!: fill_body_err)
    (auto simp: send_output_def failing_def split: prod.splits sum.splits)

lemma copy_body_bytes_err:
  "copy_body_bytes send n st = (Inl e, st') \<Longrightarrow> failing send e \<or> \<not> healthy (bs_src st) \<or> length (avail st) < n"
proof (induction n arbitrary: st rule: less_induct)
  case (less n)
  have n: "n \<noteq> 0" using less.prems by (subst (asm) copy_body_bytes.simps) (auto split: if_splits)
  show ?case
  proof (cases "fst (copy_step send n st)")
    case (Inl e')
    then have "copy_step send n st = (Inl e, st')"
      using less.prems n by (subst (asm) copy_body_bytes.simps) (auto split: prod.splits)
    then show ?thesis using copy_step_err n by fastforce
  next
    case (Inr k)
    then obtain st1 where s: "copy_step send n st = (Inr k, st1)" by (cases "copy_step send n st") auto
    then have r: "copy_body_bytes send (n - k) st1 = (Inl e, st')"
      using less.prems n by (subst (asm) copy_body_bytes.simps) simp
    note k = copy_step_input [OF s n]
    obtain c where c: "length c = k" "moved wrote st st1 c c" using copy_step_moved [OF s] by blast
    have "n - k < n" using k by simp
    from less.IH [OF this r] c k show ?thesis by (auto simp: moved_def)
  qed
qed

lemma line_step_err:
  assumes "line_step send limit line st = (Inl e, st')" "10 \<notin> set line"
  shows "failing send e \<or> \<not> healthy (bs_src st) \<or> ref_line limit (line @ avail st) = None"
proof (cases "fst (fill_body send st)")
  case (Inl e')
  then have "fill_body send st = (Inl e, st')" using assms(1) by (cases "fill_body send st") (auto simp: line_step_def)
  then show ?thesis using fill_body_err ref_line_short [OF assms(2)] by fastforce
next
  case (Inr buf)
  then obtain st1 where f: "fill_body send st = (Inr buf, st1)" by (cases "fill_body send st") auto
  have av: "avail st = buf @ source_bytes (bs_src st1)"
    using fill_body_moved [OF f] fill_body_buf [OF f] by (simp add: moved_def avail_def)
  show ?thesis
  proof (cases "position (\<lambda>b. b = 10) buf")
    case (Some i)
    then have i: "i < length buf" "buf ! i = 10" "10 \<notin> set (take i buf)"
      by (auto simp: position_Some_iff in_set_conv_nth)
    have "limit < length line + i + 1"
      using assms(1) f Some by (auto simp: line_step_def split: if_splits)
    moreover have "avail st = take i buf @ 10 # drop (Suc i) buf @ source_bytes (bs_src st1)"
      using i av id_take_nth_drop [of i buf] by simp
    ultimately show ?thesis
      using ref_line_long [of "line @ take i buf" limit "drop (Suc i) buf @ source_bytes (bs_src st1)"] i assms(2) by simp
  next
    case None
    then have "limit < length (line @ buf)" "10 \<notin> set (line @ buf)"
      using assms f position_None_iff [of "\<lambda>b. b = 10" buf] by (auto simp: line_step_def split: if_splits)
    then show ?thesis using ref_line_too_long [of "line @ buf" limit "source_bytes (bs_src st1)"] av by simp
  qed
qed

lemma read_body_line_err:
  "read_body_line send limit line st = (Inl e, st') \<Longrightarrow> 10 \<notin> set line
    \<Longrightarrow> failing send e \<or> \<not> healthy (bs_src st) \<or> ref_line limit (line @ avail st) = None"
proof (induction "input_size st" arbitrary: line st rule: less_induct)
  case less
  show ?case
  proof (cases "fst (line_step send limit line st)")
    case (Inl e')
    then have "line_step send limit line st = (Inl e, st')"
      using less.prems by (subst (asm) read_body_line.simps) (auto split: prod.splits)
    then show ?thesis using less.prems(2) by (rule line_step_err)
  next
    case (Inr r)
    obtain l1 fin st1 where s: "line_step send limit line st = (Inr (l1, fin), st1)"
      using Inr by (cases "line_step send limit line st"; cases r) auto
    from line_step_moved [OF s] obtain b where b: "l1 = line @ b" "moved wrote st st1 b []"
      "if fin then \<exists>a. b = a @ [10] \<and> 10 \<notin> set a else 10 \<notin> set b" by blast
    then have av: "avail st = b @ avail st1" "healthy (bs_src st1) = healthy (bs_src st)" by (simp_all add: moved_def)
    show ?thesis
    proof (cases fin)
      case True
      then obtain a where a: "b = a @ [10]" "10 \<notin> set a" using b by auto
      have "\<not> ends_with crlf l1"
        using less.prems(1) s True by (subst (asm) read_body_line.simps) (auto split: if_splits)
      then show ?thesis using ref_line_long [of "line @ a" limit "avail st1"] a b av less.prems(2) by simp
    next
      case False
      then have "read_body_line send limit l1 st1 = (Inl e, st')"
        using less.prems(1) s by (subst (asm) read_body_line.simps) simp
      moreover have "10 \<notin> set l1" using b False less.prems(2) by auto
      ultimately show ?thesis using less.hyps [OF line_step_input [OF s]] av b by fastforce
    qed
  qed
qed

lemmas whole_line_moved = read_body_line_moved [where line = "[]", simplified]
lemmas whole_line_err = read_body_line_err [where line = "[]", simplified]

lemma line_out_moved:
  assumes "read_body_line send limit [] st = (Inr l, st1)"
  shows "moved wrote st (st1\<lparr>bs_out := bs_out st1 @ l\<rparr>) l l" "ref_line limit (avail st) = Some (l, avail st1)"
  using whole_line_moved [OF assms] moved_trans [of st st1 l "[]" "st1\<lparr>bs_out := bs_out st1 @ l\<rparr>" "[]" l] moved_out [of st1 l]
  by auto

lemma avail_out [simp]: "avail (st\<lparr>bs_out := b\<rparr>) = avail st"
  by (simp add: avail_def)

lemma copy_trailers_moved:
  "copy_trailers send used st = (Inr x, st') \<Longrightarrow> \<exists>t. ref_trailers used (avail st) = Some (t, avail st') \<and> moved wrote st st' t t"
proof (induction "input_size st" arbitrary: used st rule: less_induct)
  case less
  obtain l st1 where l: "read_body_line send TRAILER_LIMIT [] st = (Inr l, st1)"
    using less.prems by (subst (asm) copy_trailers.simps) (auto split: prod.splits sum.splits)
  note m = line_out_moved [OF l]
  have lim: "\<not> TRAILER_LIMIT < used + length l"
    using less.prems l by (subst (asm) copy_trailers.simps) (auto split: if_splits)
  show ?case
  proof (cases "l = crlf")
    case True
    then have "st' = st1\<lparr>bs_out := bs_out st1 @ l\<rparr>"
      using less.prems l lim by (subst (asm) copy_trailers.simps) auto
    then show ?thesis using m True lim by (subst ref_trailers.simps) auto
  next
    case False
    let ?st1 = "st1\<lparr>bs_out := bs_out st1 @ l\<rparr>"
    have r: "copy_trailers send (used + length l) ?st1 = (Inr x, st')"
      using less.prems l lim False by (subst (asm) copy_trailers.simps) auto
    have "input_size ?st1 < input_size st" using read_body_line_input [OF l] by simp
    from less.hyps [OF this r] obtain t where
      t: "ref_trailers (used + length l) (avail st1) = Some (t, avail st')" "moved wrote ?st1 st' t t" by auto
    then show ?thesis using m moved_trans [OF m(1) t(2)] False lim
      by (subst ref_trailers.simps) (auto intro!: exI [of _ "l @ t"])
  qed
qed

lemma copy_trailers_err:
  "copy_trailers send used st = (Inl e, st') \<Longrightarrow> failing send e \<or> \<not> healthy (bs_src st) \<or> ref_trailers used (avail st) = None"
proof (induction "input_size st" arbitrary: used st rule: less_induct)
  case less
  show ?case
  proof (cases "fst (read_body_line send TRAILER_LIMIT [] st)")
    case (Inl e')
    then have "read_body_line send TRAILER_LIMIT [] st = (Inl e, st')"
      using less.prems by (subst (asm) copy_trailers.simps) (auto split: prod.splits)
    then show ?thesis using whole_line_err ref_trailers.simps [of used "avail st"] by fastforce
  next
    case (Inr l)
    then obtain st1 where l: "read_body_line send TRAILER_LIMIT [] st = (Inr l, st1)"
      by (cases "read_body_line send TRAILER_LIMIT [] st") auto
    note m = line_out_moved [OF l]
    let ?st1 = "st1\<lparr>bs_out := bs_out st1 @ l\<rparr>"
    show ?thesis
    proof (cases "TRAILER_LIMIT < used + length l")
      case True
      then show ?thesis using m by (subst ref_trailers.simps) simp
    next
      case False
      then have ne: "l \<noteq> crlf" and r: "copy_trailers send (used + length l) ?st1 = (Inl e, st')"
        using less.prems l by (subst (asm) copy_trailers.simps, auto split: if_splits)+
      have "input_size ?st1 < input_size st" using read_body_line_input [OF l] by simp
      from less.hyps [OF this r] m ne False show ?thesis by (subst ref_trailers.simps) (auto simp: moved_def)
    qed
  qed
qed

lemma copy_chunk_moved:
  assumes "copy_chunk send st = (Inr again, st')"
  shows "\<exists>c. ref_chunk (avail st) = Some (again, c, avail st') \<and> moved wrote st st' c c"
proof -
  obtain l st1 sz where l: "read_body_line send CHUNK_LINE_LIMIT [] st = (Inr l, st1)" and z: "parse_chunk_size l = Inr sz"
    using assms by (auto simp: copy_chunk_def res_simps)
  let ?st1 = "st1\<lparr>bs_out := bs_out st1 @ l\<rparr>"
  note m = line_out_moved [OF l]
  show ?thesis
  proof (cases "sz = 0")
    case True
    then show ?thesis using assms l z m by (auto simp: copy_chunk_def Let_def ref_chunk_def)
  next
    case False
    then obtain st2 st3 where c: "copy_body_bytes send sz ?st1 = (Inr (), st2)"
      and e: "read_body_line send 2 [] st2 = (Inr crlf, st3)" and st': "st' = st3\<lparr>bs_out := bs_out st3 @ crlf\<rparr>" and again
      using assms l z by (auto simp: copy_chunk_def Let_def res_simps split: if_splits)
    obtain d where d: "length d = sz" "moved wrote ?st1 st2 d d" using copy_body_bytes_moved [OF c] by blast
    note m2 = line_out_moved [OF e]
    have "moved wrote st st' (l @ d @ crlf) (l @ d @ crlf)"
      using moved_trans [OF m(1) moved_trans [OF d(2) m2(1)]] by (simp add: st')
    moreover have "avail st1 = d @ crlf @ avail st'" using d m2 by (simp add: moved_def st')
    ultimately show ?thesis using m z False d(1) \<open>again\<close> by (simp add: ref_chunk_def)
  qed
qed

lemma copy_chunk_err:
  assumes "copy_chunk send st = (Inl e, st')"
  shows "failing send e \<or> \<not> healthy (bs_src st) \<or> ref_chunk (avail st) = None"
proof -
  consider "read_body_line send CHUNK_LINE_LIMIT [] st = (Inl e, st')"
    | l where "read_body_line send CHUNK_LINE_LIMIT [] st = (Inr l, st')" "parse_chunk_size l = Inl e"
    | l st1 sz where "read_body_line send CHUNK_LINE_LIMIT [] st = (Inr l, st1)" "parse_chunk_size l = Inr sz" "sz \<noteq> 0"
        "copy_body_bytes send sz (st1\<lparr>bs_out := bs_out st1 @ l\<rparr>) = (Inl e, st')"
    | l st1 sz st2 where "read_body_line send CHUNK_LINE_LIMIT [] st = (Inr l, st1)" "parse_chunk_size l = Inr sz" "sz \<noteq> 0"
        "copy_body_bytes send sz (st1\<lparr>bs_out := bs_out st1 @ l\<rparr>) = (Inr (), st2)"
        "read_body_line send 2 [] st2 = (Inl e, st') \<or> (\<exists>l. read_body_line send 2 [] st2 = (Inr l, st') \<and> l \<noteq> crlf)"
    using assms by (auto simp: copy_chunk_def Let_def res_simps split: if_splits)
  then show ?thesis
  proof cases
    case 1
    then show ?thesis using whole_line_err by (fastforce simp: ref_chunk_def)
  next
    case 2
    then show ?thesis using line_out_moved(2) [OF 2(1)] by (simp add: ref_chunk_def)
  next
    case (3 l st1 sz)
    note m = line_out_moved [OF 3(1)]
    from copy_body_bytes_err [OF 3(4)] m have "failing send e \<or> \<not> healthy (bs_src st) \<or> length (avail st1) < sz"
      by (auto simp: moved_def)
    then show ?thesis using 3 m by (auto simp: ref_chunk_def)
  next
    case (4 l st1 sz st2)
    note m = line_out_moved [OF 4(1)]
    obtain d where d: "length d = sz" "moved wrote (st1\<lparr>bs_out := bs_out st1 @ l\<rparr>) st2 d d"
      using copy_body_bytes_moved [OF 4(4)] by blast
    have "failing send e \<or> \<not> healthy (bs_src st2) \<or> ref_line 2 (avail st2) = None"
      using 4(5) whole_line_err line_out_moved(2) ref_line_two by metis
    moreover have "healthy (bs_src st2) = healthy (bs_src st)" "avail st1 = d @ avail st2" using m d by (auto simp: moved_def)
    ultimately show ?thesis using 4 m d(1) ref_line_two_None by (auto simp: ref_chunk_def)
  qed
qed

lemma copy_chunks_moved:
  "copy_chunks send st = (Inr x, st') \<Longrightarrow> \<exists>t. ref_chunks (avail st) = Some (t, avail st') \<and> moved wrote st st' t t"
proof (induction "input_size st" arbitrary: st rule: less_induct)
  case less
  obtain again st1 where k: "copy_chunk send st = (Inr again, st1)"
    using less.prems by (subst (asm) copy_chunks.simps) (auto split: prod.splits sum.splits)
  from copy_chunk_moved [OF k] obtain c where c: "ref_chunk (avail st) = Some (again, c, avail st1)" "moved wrote st st1 c c" by blast
  have "\<exists>t. (if again then ref_chunks (avail st1) else ref_trailers 0 (avail st1)) = Some (t, avail st') \<and> moved wrote st1 st' t t"
    using less.prems less.hyps [OF copy_chunk_input [OF k]] copy_trailers_moved k
    by (subst (asm) copy_chunks.simps) (auto split: if_splits)
  then show ?case using c moved_trans [OF c(2)] by (subst ref_chunks.simps) fastforce
qed

lemma copy_chunks_err:
  "copy_chunks send st = (Inl e, st') \<Longrightarrow> failing send e \<or> \<not> healthy (bs_src st) \<or> ref_chunks (avail st) = None"
proof (induction "input_size st" arbitrary: st rule: less_induct)
  case less
  show ?case
  proof (cases "fst (copy_chunk send st)")
    case (Inl e')
    then have "copy_chunk send st = (Inl e, st')"
      using less.prems by (subst (asm) copy_chunks.simps) (auto split: prod.splits)
    then show ?thesis using copy_chunk_err ref_chunks.simps [of "avail st"] by fastforce
  next
    case (Inr again)
    then obtain st1 where k: "copy_chunk send st = (Inr again, st1)" by (cases "copy_chunk send st") auto
    from copy_chunk_moved [OF k] obtain c where c: "ref_chunk (avail st) = Some (again, c, avail st1)"
      "healthy (bs_src st1) = healthy (bs_src st)" by (auto simp: moved_def)
    have "failing send e \<or> \<not> healthy (bs_src st1) \<or> (if again then ref_chunks (avail st1) else ref_trailers 0 (avail st1)) = None"
      using less.prems less.hyps [OF copy_chunk_input [OF k]] copy_trailers_err k
      by (subst (asm) copy_chunks.simps) (auto split: if_splits)
    then show ?thesis using c by (subst ref_chunks.simps) auto
  qed
qed

lemma forward_body_sound:
  assumes "forward_body send framing head buf src k = (Inr x, st')"
  shows "\<exists>body. ref_body framing (buf @ source_bytes src) = Some (body, avail st') \<and> wrote k (bs_sink st') (head @ body)"
proof -
  let ?st = "\<lparr>bs_buf = buf, bs_src = src, bs_out = head, bs_sink = k\<rparr>"
  have av: "avail ?st = buf @ source_bytes src" by (simp add: avail_def)
  obtain st1 where c: "(case framing of Empty \<Rightarrow> (Inr (), ?st) | Length n \<Rightarrow> copy_body_bytes send n ?st | Chunked \<Rightarrow> copy_chunks send ?st)
      = (Inr (), st1)" and e: "(if bs_out st1 \<noteq> [] then send_output send st1 else (Inr (), st1)) = (Inr x, st')"
    using assms by (auto simp: forward_body_def res_simps Let_def)
  have "\<exists>body. ref_body framing (avail ?st) = Some (body, avail st1) \<and> moved wrote ?st st1 body body"
  proof (cases framing)
    case Empty
    then show ?thesis using c moved_refl by auto
  next
    case (Length n)
    then obtain d where "length d = n" "moved wrote ?st st1 d d" using c copy_body_bytes_moved by fastforce
    then show ?thesis using Length by (auto simp: moved_def)
  next
    case Chunked
    then show ?thesis using c copy_chunks_moved by fastforce
  qed
  then obtain body where b: "ref_body framing (avail ?st) = Some (body, avail st1)" "moved wrote ?st st1 body body" by blast
  moreover have "moved wrote st1 st' [] []" "bs_out st' = []"
    using e moved_refl send_output_moved by (auto simp: send_output_def split: if_splits prod.splits sum.splits)
  moreover have "avail st1 = avail st'" using \<open>moved wrote st1 st' [] []\<close> by (simp add: moved_def)
  moreover have "moved wrote ?st st' body body" using moved_trans [OF b(2) \<open>moved wrote st1 st' [] []\<close>] by simp
  ultimately show ?thesis unfolding av by (auto simp: moved_def)
qed

lemma forward_body_error:
  assumes "forward_body send framing head buf src k = (Inl e, st')"
  shows "failing send e \<or> \<not> healthy src \<or> ref_body framing (buf @ source_bytes src) = None"
proof -
  let ?st = "\<lparr>bs_buf = buf, bs_src = src, bs_out = head, bs_sink = k\<rparr>"
  have av: "avail ?st = buf @ source_bytes src" by (simp add: avail_def)
  have fl: "send_output send u = (Inl e, v) \<Longrightarrow> failing send e" for u v
    by (auto simp: send_output_def failing_def split: prod.splits sum.splits)
  consider "(case framing of Empty \<Rightarrow> (Inr (), ?st) | Length n \<Rightarrow> copy_body_bytes send n ?st | Chunked \<Rightarrow> copy_chunks send ?st) = (Inl e, st')"
    | "failing send e" using assms fl by (auto simp: forward_body_def res_simps Let_def split: if_splits)
  then show ?thesis
  proof cases
    case 1
    show ?thesis
    proof (cases framing)
      case (Length n)
      then show ?thesis using copy_body_bytes_err [of n ?st e st'] av 1 by auto
    next
      case Chunked
      then show ?thesis using copy_chunks_err [of ?st e st'] av 1 by auto
    qed (use 1 in simp)
  qed simp
qed

end

subsection \<open>The sink of a forwarded request\<close>

text \<open>\<open>ActiveSink\<close>: the writing half of the session; its touches are the touches of the relay.\<close>

definition active_send :: "crypto \<Rightarrow> (record_writer \<times> Counters option) send_op" where
  "active_send X content k = (case write_application X content k of (r, k) \<Rightarrow> (and_then r (\<lambda>_. Inr ()), k))"

definition active_wrote :: "crypto \<Rightarrow> record_writer \<times> Counters option \<Rightarrow> record_writer \<times> Counters option \<Rightarrow> bytes \<Rightarrow> bool" where
  "active_wrote X k k' b \<longleftrightarrow> (\<exists>cs. concat cs = b \<and> write_chunks X cs (fst k) = (Inr (), fst k'))"

lemma write_chunks_append:
  "write_chunks X cs w = (Inr (), w1) \<Longrightarrow> write_chunks X ds w1 = (Inr (), w2) \<Longrightarrow> write_chunks X (cs @ ds) w = (Inr (), w2)"
  by (induction cs arbitrary: w) (auto simp: res_simps)

lemma active_send_payload: "active_send X c k = (Inr (), k') \<Longrightarrow> write_payload X c (fst k) = (Inr (), fst k')"
  by (auto simp: active_send_def write_application_def split: prod.splits sum.splits)

interpretation active: body_sink "active_send X" "active_wrote X" for X
proof
  show "active_wrote X k k []" for k by (auto simp: active_wrote_def intro!: exI [of _ "[]"])
  show "active_wrote X k k2 (a @ b)" if w: "active_wrote X k k1 a" "active_wrote X k1 k2 b" for k k1 k2 a b
  proof -
    obtain cs ds where "concat cs = a" "write_chunks X cs (fst k) = (Inr (), fst k1)" "concat ds = b"
      "write_chunks X ds (fst k1) = (Inr (), fst k2)" using w by (auto simp: active_wrote_def)
    then show ?thesis unfolding active_wrote_def by (intro exI [of _ "cs @ ds"]) (simp add: write_chunks_append)
  qed
  show "active_wrote X k k' c" if "active_send X c k = (Inr (), k')" for c k k'
    unfolding active_wrote_def using active_send_payload [OF that] by (intro exI [of _ "[c]"]) simp
qed

text \<open>
  C17: A forwarded request carries its head and exactly one body. Whatever pieces the client's bytes arrive in, the upstream
  is sent the head followed by the body that the framing delimits in those bytes, and everything after the body
  stays unread. The copy fails only if the upstream or the client fails, or if the bytes hold no body of that framing.
\<close>

theorem forward_body_exact:
  "case forward_body (active_send X) framing head buf src (w, a) of
     (Inr _, st') \<Rightarrow> \<exists>body cs. ref_body framing (buf @ source_bytes src) = Some (body, avail st')
       \<and> concat cs = head @ body \<and> write_chunks X cs w = (Inr (), fst (bs_sink st'))
   | (Inl e, st') \<Rightarrow> (\<exists>c k k'. active_send X c k = (Inl e, k')) \<or> \<not> healthy src
       \<or> ref_body framing (buf @ source_bytes src) = None"
proof -
  obtain r st' where f: "forward_body (active_send X) framing head buf src (w, a) = (r, st')" by fastforce
  show ?thesis
  proof (cases r)
    case (Inr x)
    then show ?thesis using active.forward_body_sound [of X framing head buf src "(w, a)" x st'] f
      by (auto simp: active_wrote_def)
  next
    case (Inl e)
    then show ?thesis using active.forward_body_error [of X framing head buf src "(w, a)" e st'] f
      by (auto simp: failing_def)
  qed
qed

theorem forward_body_exact_witness:
  "case forward_body (active_send sample_crypto) (Length 2) [5] [7] [Data [8, 9]] (demo_writer, None) of
     (Inr _, st') \<Rightarrow> avail st' = [9] \<and> (\<exists>cs. concat cs = [5, 7, 8] \<and> write_chunks sample_crypto cs demo_writer = (Inr (), fst (bs_sink st')))
   | (Inl e, st') \<Rightarrow> \<exists>c k k'. active_send sample_crypto c k = (Inl e, k')"
  using forward_body_exact [where X = sample_crypto and framing = "Length 2" and head = "[5]" and buf = "[7]"
      and src = "[Data [8, 9]]" and w = demo_writer and a = None]
  by (auto split: prod.splits sum.splits)

text \<open>Chunk sizes have at most 15 digits, so that they fit 64 bits and \<open>from_str_radix\<close> does not fail.\<close>

lemma digits_val_bound:
  "list_all (\<lambda>c. digit_val c < 16) ds \<Longrightarrow> digits_val 16 acc ds < (acc + 1) * 16 ^ length ds"
proof (induction ds arbitrary: acc)
  case (Cons c ds)
  have "digits_val 16 (acc * 16 + digit_val c) ds < (acc * 16 + digit_val c + 1) * 16 ^ length ds" using Cons by simp
  also have "\<dots> \<le> (acc * 16 + 16) * 16 ^ length ds" using Cons.prems by (intro mult_le_mono1) simp
  finally show ?case by (simp add: algebra_simps)
qed simp

lemma parse_chunk_size_bound:
  assumes "parse_chunk_size line = Inr n"
  shows "n < 2 ^ 60"
proof -
  let ?ds = "chunk_size_digits line"
  have ds: "length ?ds \<le> 15" "list_all ascii_hexdigit ?ds" "n = digits_val 16 0 ?ds"
    using assms by (auto simp: parse_chunk_size_def Let_def split: if_splits)
  have "digit_val c < 16" if "ascii_hexdigit c" for c using that by (auto simp: digit_val_def ascii_defs)
  then have "list_all (\<lambda>c. digit_val c < 16) ?ds" using ds(2) by (auto simp: list_all_iff)
  then have "n < 16 ^ length ?ds" using digits_val_bound [of ?ds 0] ds(3) by simp
  also have "\<dots> \<le> 16 ^ 15" using ds(1) by (intro power_increasing) auto
  finally show ?thesis by simp
qed

end
