(* ===== verification/Socks5.thy ===== *)
theory Socks5
  imports Relay
begin

text \<open>
  The SOCKS5 side of \<open>src/socks5.rs\<close>: greeting, authentication, requests and replies, CONNECT, and UDP associations with
  their datagram format, port selection and source pinning. What a client sends during the handshake is the list
  of bytes still to come; a connection that ends early is an I/O error.
\<close>

definition VERSION :: byte where "VERSION = 5"
definition METHOD_NO_AUTH :: byte where "METHOD_NO_AUTH = 0"
definition METHOD_USERNAME_PASSWORD :: byte where "METHOD_USERNAME_PASSWORD = 2"
definition METHOD_UNAVAILABLE :: byte where "METHOD_UNAVAILABLE = 255"
definition COMMAND_CONNECT :: byte where "COMMAND_CONNECT = 1"
definition COMMAND_UDP_ASSOCIATE :: byte where "COMMAND_UDP_ASSOCIATE = 3"

lemmas socks_consts = VERSION_def METHOD_NO_AUTH_def METHOD_USERNAME_PASSWORD_def METHOD_UNAVAILABLE_def
  COMMAND_CONNECT_def COMMAND_UDP_ASSOCIATE_def

subsection \<open>The client connection\<close>

record conn =
  c_in :: bytes
  c_out :: sink

definition recv :: "nat \<Rightarrow> conn \<Rightarrow> bytes res \<times> conn" where
  "recv n c = (case read_exact n (c_in c) of
      None \<Rightarrow> (Inl Io, c\<lparr>c_in := []\<rparr>)
    | Some (b, r) \<Rightarrow> (Inr b, c\<lparr>c_in := r\<rparr>))"

definition recv_u8 :: "conn \<Rightarrow> byte res \<times> conn" where
  "recv_u8 c = st_then (recv 1 c) (\<lambda>b c. (Inr (b ! 0), c))"

definition recv_u16 :: "conn \<Rightarrow> u16 res \<times> conn" where
  "recv_u16 c = st_then (recv 2 c) (\<lambda>b c. (Inr (from_be16 (b ! 0) (b ! 1)), c))"

definition send :: "bytes \<Rightarrow> conn \<Rightarrow> unit res \<times> conn" where
  "send b c = (case write_all b (c_out c) of (r, out) \<Rightarrow> (r, c\<lparr>c_out := out\<rparr>))"

definition context_err :: "string \<Rightarrow> 'a res \<times> 's \<Rightarrow> 'a res \<times> 's" where
  "context_err msg r = (case r of (x, s) \<Rightarrow> (map_err (\<lambda>_. Bail msg) x, s))"

subsection \<open>Modes and authentication\<close>

record Credentials =
  cr_username :: ustring
  cr_password :: ustring

text \<open>The cell of a dedicated listener holds its current route.\<close>

datatype Mode = Dynamic GatewayManager | Fixed Route "Credentials option"

definition fixed_replace :: "Route \<Rightarrow> Route \<Rightarrow> Route \<times> Route" where
  "fixed_replace route cell = (cell, route)"

fun requires_auth :: "Mode \<Rightarrow> bool" where
  "requires_auth (Dynamic m) = True"
| "requires_auth (Fixed route credentials) = (credentials \<noteq> None)"

fun authenticate :: "text_crates \<Rightarrow> Mode \<Rightarrow> ustring \<Rightarrow> ustring \<Rightarrow> Route res" where
  "authenticate T (Dynamic m) username password = manager_authenticate T m username password"
| "authenticate T (Fixed route (Some expected)) username password =
     (if \<not> ct_eq T (utf8 username) (utf8 (cr_username expected)) \<or> \<not> ct_eq T (utf8 password) (utf8 (cr_password expected))
      then Inl (Bail ''gateway authentication failed'')
      else Inr route)"
| "authenticate T (Fixed route None) username password = Inr route"

subsection \<open>The handshake\<close>

record Request =
  command :: byte
  req_host :: ustring
  req_port :: u16

definition read_credentials :: "conn \<Rightarrow> (ustring \<times> ustring) res \<times> conn" where
  "read_credentials c =
     st_then (context_err ''read SOCKS5 authentication header'' (recv 2 c)) (\<lambda>header c.
     if header ! 0 \<noteq> 1 \<or> header ! 1 = 0
     then st_then (send [1, 1] c) (\<lambda>_ c. (Inl (Bail ''SOCKS5 authentication request is invalid''), c))
     else
       st_then (recv (unat (header ! 1)) c) (\<lambda>username c.
       st_then (recv_u8 c) (\<lambda>password_length c.
       if password_length = 0
       then st_then (send [1, 1] c) (\<lambda>_ c. (Inl (Bail ''SOCKS5 password is empty''), c))
       else
         st_then (recv (unat password_length) c) (\<lambda>password c.
         (Inr (from_utf8_lossy username, from_utf8_lossy password), c)))))"

definition read_host :: "byte \<Rightarrow> conn \<Rightarrow> ustring res \<times> conn" where
  "read_host address_type c =
     (if address_type = 1 then st_then (recv 4 c) (\<lambda>octets c. (Inr (show_v4 (v4_of_octets octets)), c))
      else if address_type = 4 then st_then (recv 16 c) (\<lambda>octets c. (Inr (show_v6 (v6_of_octets octets)), c))
      else if address_type = 3 then
        st_then (recv_u8 c) (\<lambda>len c.
        if unat len = 0 then (Inl (Bail ''SOCKS5 domain is empty''), c)
        else st_then (recv (unat len) c) (\<lambda>domain c. (Inr (from_utf8_lossy domain), c)))
      else (Inl (Bail ''SOCKS5 address type is unsupported''), c))"

definition read_request :: "conn \<Rightarrow> Request res \<times> conn" where
  "read_request c =
     st_then (context_err ''read SOCKS5 request'' (recv 4 c)) (\<lambda>header c.
     if header ! 0 \<noteq> VERSION \<or> header ! 2 \<noteq> 0 then (Inl (Bail ''SOCKS5 request is invalid''), c)
     else
       st_then (read_host (header ! 3) c) (\<lambda>host c.
       st_then (recv_u16 c) (\<lambda>port c.
       if port = 0 \<and> header ! 1 \<noteq> COMMAND_UDP_ASSOCIATE then (Inl (Bail ''SOCKS5 target port is zero''), c)
       else (Inr \<lparr>command = header ! 1, req_host = host, req_port = port\<rparr>, c))))"

definition negotiate_and_read_request ::
  "text_crates \<Rightarrow> Mode \<Rightarrow> byte \<Rightarrow> conn \<Rightarrow> (Route \<times> Request) res \<times> conn" where
  "negotiate_and_read_request T md ver c =
     (if ver \<noteq> VERSION then (Inl (Bail ''SOCKS5 greeting is invalid''), c)
      else
        st_then (context_err ''read SOCKS5 greeting'' (recv_u8 c)) (\<lambda>method_count c.
        if method_count = 0 then (Inl (Bail ''SOCKS5 greeting is invalid''), c)
        else
          st_then (context_err ''read SOCKS5 methods'' (recv (unat method_count) c)) (\<lambda>methods c.
          let selected = (if requires_auth md then METHOD_USERNAME_PASSWORD else METHOD_NO_AUTH) in
          if selected \<notin> set methods
          then st_then (send [VERSION, METHOD_UNAVAILABLE] c) (\<lambda>_ c.
                 (Inl (Bail ''SOCKS5 client did not offer the required authentication''), c))
          else
            st_then (send [VERSION, selected] c) (\<lambda>_ c.
            st_then (if requires_auth md then
                       st_then (read_credentials c) (\<lambda>(username, password) c.
                       case authenticate T md username password of
                         Inr route \<Rightarrow> (Inr route, c)
                       | Inl _ \<Rightarrow> st_then (send [1, 1] c) (\<lambda>_ c. (Inl (Bail ''SOCKS5 authentication failed''), c)))
                     else (case md of Fixed route _ \<Rightarrow> (Inr route, c) | Dynamic _ \<Rightarrow> (Inl (Bail ''unreachable''), c))) (\<lambda>route c.
            st_then (if requires_auth md then send [1, 0] c else (Inr (), c)) (\<lambda>_ c.
            st_then (read_request c) (\<lambda>request c. (Inr (route, request), c))))))))"

definition encode_address :: "socket_addr \<Rightarrow> bytes" where
  "encode_address a = (case sa_ip a of V4 x \<Rightarrow> 1 # v4_octets x | V6 x \<Rightarrow> 4 # v6_octets x) @ to_be16 (sa_port a)"

definition write_reply :: "byte \<Rightarrow> socket_addr option \<Rightarrow> conn \<Rightarrow> unit res \<times> conn" where
  "write_reply status address c =
     send ([VERSION, status, 0] @ encode_address (case address of Some a \<Rightarrow> a | None \<Rightarrow> \<lparr>sa_ip = V4 0, sa_port = 0\<rparr>)) c"

subsection \<open>Datagrams\<close>

definition decode_target :: "bytes \<Rightarrow> nat \<Rightarrow> (ustring \<times> nat) res" where
  "decode_target packet offset =
     (if packet ! 3 = 1 then
        (if length packet < offset + 4 + 2 then Inl (Bail ''SOCKS5 UDP datagram is truncated'')
         else Inr (show_v4 (v4_of_octets (take 4 (drop offset packet))), offset + 4))
      else if packet ! 3 = 4 then
        (if length packet < offset + 16 + 2 then Inl (Bail ''SOCKS5 UDP datagram is truncated'')
         else Inr (show_v6 (v6_of_octets (take 16 (drop offset packet))), offset + 16))
      else if packet ! 3 = 3 then
        (if length packet \<le> offset then Inl (Bail ''SOCKS5 UDP datagram is truncated'')
         else
           let len = unat (packet ! offset); offset = offset + 1 in
           if len = 0 \<or> length packet < offset + len + 2 then Inl (Bail ''SOCKS5 UDP datagram is truncated'')
           else Inr (from_utf8_lossy (take len (drop offset packet)), offset + len))
      else Inl (Bail ''SOCKS5 address type is unsupported''))"

definition decode_datagram :: "bytes \<Rightarrow> (ustring \<times> u16 \<times> bytes) res" where
  "decode_datagram packet =
     (if length packet < 4 \<or> packet ! 0 \<noteq> 0 \<or> packet ! 1 \<noteq> 0 then Inl (Bail ''SOCKS5 UDP header is invalid'')
      else if packet ! 2 \<noteq> 0 then Inl (Bail ''fragmented SOCKS5 UDP datagrams are unsupported'')
      else
        and_then (decode_target packet 4) (\<lambda>(host, offset).
        if length packet < offset + 2 then Inl (Bail ''SOCKS5 UDP datagram is truncated'')
        else
          let port = from_be16 (packet ! offset) (packet ! (offset + 1)) in
          if port = 0 then Inl (Bail ''SOCKS5 target port is zero'')
          else Inr (host, port, drop (offset + 2) packet)))"

definition encode_datagram :: "socket_addr \<Rightarrow> bytes \<Rightarrow> bytes" where
  "encode_datagram address payload = [0, 0, 0] @ encode_address address @ payload"

subsection \<open>The relay socket\<close>

record UdpRelay =
  bind_address :: ip
  advertise_address :: ip
  port_range :: "UdpPortRange option"
  next_port :: u64

definition udp_relay_ephemeral :: "ip \<Rightarrow> UdpRelay" where
  "udp_relay_ephemeral a = \<lparr>bind_address = a, advertise_address = a, port_range = None, next_port = 0\<rparr>"

definition udp_relay_fixed :: "ip \<Rightarrow> ip \<Rightarrow> UdpPortRange \<Rightarrow> UdpRelay res" where
  "udp_relay_fixed bind adv rng =
     (if is_unspecified bind \<or> is_multicast bind
      then Inl (Bail ''SOCKS5 UDP bind address must be a specific, non-multicast IP'')
      else if is_unspecified adv \<or> is_multicast adv
      then Inl (Bail ''SOCKS5 UDP advertise address must be a specific, non-multicast IP'')
      else if is_ipv4 bind \<noteq> is_ipv4 adv
      then Inl (Bail ''SOCKS5 UDP bind and advertise addresses must use the same IP family'')
      else Inr \<lparr>bind_address = bind, advertise_address = adv, port_range = Some rng, next_port = 0\<rparr>)"

text \<open>
  \<open>attempt\<close> is what binding a port gives, \<open>assigned\<close> the port the system assigned when it was asked for port 0. The
  counter is a 64-bit atomic.
\<close>

datatype bind_result = Bound | AddrInUse | BindFailed

fun bind_loop :: "(u16 \<Rightarrow> bind_result) \<Rightarrow> UdpPortRange \<Rightarrow> nat \<Rightarrow> nat list \<Rightarrow> (nat \<times> u16) res" where
  "bind_loop attempt rng first [] = Inl (Bail ''all configured SOCKS5 UDP relay ports are in use'')"
| "bind_loop attempt rng first (offset # offsets) =
     (let index = (first + offset) mod port_count rng; prt = range_start rng + of_nat index in
      case attempt prt of
        Bound \<Rightarrow> Inr (index, prt)
      | AddrInUse \<Rightarrow> bind_loop attempt rng first offsets
      | BindFailed \<Rightarrow> Inl (Bail ''listen for SOCKS5 UDP relay''))"

definition udp_bind ::
  "(u16 \<Rightarrow> bind_result) \<Rightarrow> u16 option \<Rightarrow> UdpRelay \<Rightarrow> (socket_addr \<times> socket_addr) res \<times> UdpRelay" where
  "udp_bind attempt assigned r =
     (case port_range r of
        None \<Rightarrow>
          (if attempt 0 \<noteq> Bound then Inl (Bail ''listen for SOCKS5 UDP relay'')
           else (case assigned of
                   None \<Rightarrow> Inl Io
                 | Some p \<Rightarrow> Inr (\<lparr>sa_ip = bind_address r, sa_port = p\<rparr>, \<lparr>sa_ip = advertise_address r, sa_port = p\<rparr>)), r)
      | Some rng \<Rightarrow>
          let count = port_count rng;
              first = unat (next_port r) mod count;
              r = r\<lparr>next_port := next_port r + 1\<rparr> in
          (case bind_loop attempt rng first [0..<count] of
            Inl e \<Rightarrow> (Inl e, r)
          | Inr (index, prt) \<Rightarrow>
              (Inr (\<lparr>sa_ip = bind_address r, sa_port = prt\<rparr>, \<lparr>sa_ip = advertise_address r, sa_port = prt\<rparr>),
               r\<lparr>next_port := of_nat (index + 1)\<rparr>)))"

subsection \<open>UDP associations\<close>

record association =
  ua_client :: "socket_addr option"
  ua_upstream :: packet_session
  ua_counters :: "Counters option"
  ua_sent :: "(socket_addr \<times> bytes) list"
  ua_touches :: nat
  ua_ended :: bool

fun is_datagram_error :: "error \<Rightarrow> bool" where
  "is_datagram_error (DatagramError e) = True"
| "is_datagram_error e = False"

text \<open>One iteration of \<open>udp_client_loop\<close> on a datagram.\<close>

definition client_datagram :: "crypto \<Rightarrow> ip option \<Rightarrow> socket_addr \<Rightarrow> bytes \<Rightarrow> association \<Rightarrow> association" where
  "client_datagram X control_ip src packet st =
     (if \<not> (case control_ip of None \<Rightarrow> True | Some a \<Rightarrow> sa_ip src = a) then st
      else
        let first = (case ua_client st of None \<Rightarrow> src | Some a \<Rightarrow> a); st = st\<lparr>ua_client := Some first\<rparr> in
        if first \<noteq> src then st
        else
          case decode_datagram packet of
            Inl _ \<Rightarrow> st
          | Inr (host, prt, payload) \<Rightarrow>
              (case write_to_host X payload host prt (ua_upstream st, ua_counters st) of
                 (Inr _, (k, a)) \<Rightarrow> st\<lparr>ua_upstream := k, ua_counters := a, ua_touches := ua_touches st + 1\<rparr>
               | (Inl e, (k, a)) \<Rightarrow>
                   (let st = st\<lparr>ua_upstream := k, ua_counters := a\<rparr> in
                    if is_datagram_error e then st else st\<lparr>ua_ended := True\<rparr>)))"

text \<open>One iteration of \<open>udp_upstream_loop\<close>; \<open>send_ok\<close> is whether the local socket took the datagram.\<close>

definition upstream_datagram :: "crypto \<Rightarrow> bool \<Rightarrow> association \<Rightarrow> association" where
  "upstream_datagram X send_ok st =
     (case read_from X (ua_upstream st, ua_counters st) of
        (Inl e, (k, a)) \<Rightarrow>
          (let st = st\<lparr>ua_upstream := k, ua_counters := a\<rparr> in
           if is_datagram_error e then st else st\<lparr>ua_ended := True\<rparr>)
      | (Inr (src, payload), (k, a)) \<Rightarrow>
          (let st = st\<lparr>ua_upstream := k, ua_counters := a\<rparr> in
           case ua_client st of
             None \<Rightarrow> st
           | Some destination \<Rightarrow>
               if send_ok
               then st\<lparr>ua_sent := ua_sent st @ [(destination, encode_datagram src payload)], ua_touches := ua_touches st + 1\<rparr>
               else st))"

datatype udp_event = FromClient socket_addr bytes | FromUpstream bool | LocalError | ControlClosed | IdleExpired

definition udp_step :: "crypto \<Rightarrow> ip option \<Rightarrow> udp_event \<Rightarrow> association \<Rightarrow> association" where
  "udp_step X control_ip ev st =
     (if ua_ended st then st
      else case ev of
        FromClient src packet \<Rightarrow> client_datagram X control_ip src packet st
      | FromUpstream send_ok \<Rightarrow> upstream_datagram X send_ok st
      | _ \<Rightarrow> st\<lparr>ua_ended := True\<rparr>)"

definition udp_run :: "crypto \<Rightarrow> ip option \<Rightarrow> udp_event list \<Rightarrow> association \<Rightarrow> association" where
  "udp_run X control_ip evs st = fold (udp_step X control_ip) evs st"

record udp_env =
  ue_attempt :: "u16 \<Rightarrow> bind_result"
  ue_assigned :: "u16 option"
  ue_open :: open_env
  ue_peer :: "socket_addr option"
  ue_events :: "udp_event list"
  ue_counters :: "Counters option"

text \<open>The association, once it ends, is closed; \<open>None\<close> is a run in which it has not ended.\<close>

definition serve_udp_associate ::
  "crypto \<Rightarrow> udp_env \<Rightarrow> snell_client \<Rightarrow> UdpRelay \<Rightarrow> conn \<Rightarrow> (unit res \<times> association option \<times> conn \<times> UdpRelay) option" where
  "serve_udp_associate X env sc r c =
     (case udp_bind (ue_attempt env) (ue_assigned env) r of
        (Inl e, r) \<Rightarrow> (case write_reply 1 None c of (Inl e', c) \<Rightarrow> Some (Inl e', None, c, r) | (Inr _, c) \<Rightarrow> Some (Inl e, None, c, r))
      | (Inr (_, advertised), r) \<Rightarrow>
          (case dial_udp X sc (ue_open env) of
             Inl _ \<Rightarrow>
               (case write_reply 1 None c of
                  (Inl e', c) \<Rightarrow> Some (Inl e', None, c, r)
                | (Inr _, c) \<Rightarrow> Some (Inl (Bail ''open upstream UDP association''), None, c, r))
           | Inr k \<Rightarrow>
               (case write_reply 0 (Some advertised) c of
                  (Inl e', c) \<Rightarrow> Some (Inl e', None, c, r)
                | (Inr _, c) \<Rightarrow>
                    let st = udp_run X (map_option sa_ip (ue_peer env)) (ue_events env)
                      \<lparr>ua_client = None, ua_upstream = k, ua_counters = ue_counters env, ua_sent = [], ua_touches = 0, ua_ended = False\<rparr> in
                    if ua_ended st then Some (Inr (), Some (st\<lparr>ua_upstream := packet_close (ua_upstream st)\<rparr>), c, r) else None)))"

subsection \<open>CONNECT and dispatch\<close>

record tunnel_env =
  te_clock :: "nat \<Rightarrow> nat"
  te_probe :: probe
  te_generation :: u64
  te_open :: open_env
  te_turns :: "turn list"
  te_now :: nat
  te_close_timeout :: bool
  te_later :: source
  te_counters :: "Counters option"

text \<open>What the client sends after the handshake is the rest of its bytes, then \<open>te_later\<close>.\<close>

definition serve_connect ::
  "crypto \<Rightarrow> tunnel_env \<Rightarrow> snell_client \<Rightarrow> Request \<Rightarrow> conn \<Rightarrow> (unit res \<times> conn \<times> relay_state option \<times> snell_client) option" where
  "serve_connect X env sc request c =
     (case dial_tcp X (req_host request) (req_port request) (te_clock env) (te_probe env) (te_generation env) (te_open env) sc of
        (Inl _, sc) \<Rightarrow>
          (case write_reply 5 None c of
             (Inl e, c) \<Rightarrow> Some (Inl e, c, None, sc)
           | (Inr _, c) \<Rightarrow> Some (Inl (Bail ''open upstream tunnel''), c, None, sc))
      | (Inr s, sc) \<Rightarrow>
          (case write_reply 0 (Some (p_local_addr (s_physical s))) c of
             (Inl e, c) \<Rightarrow> Some (Inl e, c, None, sc)
           | (Inr _, c) \<Rightarrow>
               (case relay X (te_turns env) (te_now env) (te_close_timeout env) (Data (c_in c) # te_later env) (c_out c) s
                       (te_counters env) sc of
                  None \<Rightarrow> None
                | Some (r, st, sc) \<Rightarrow> Some (r, c\<lparr>c_in := [], c_out := rl_output st\<rparr>, Some st, sc))))"

datatype served =
    Refused error conn
  | Tunnel "unit res" conn "relay_state option"
  | Association "unit res" conn "association option"

definition serve_socks5 ::
  "crypto \<Rightarrow> text_crates \<Rightarrow> bool \<Rightarrow> tunnel_env \<Rightarrow> udp_env \<Rightarrow> Mode \<Rightarrow> UdpRelay \<Rightarrow> arena \<Rightarrow> byte \<Rightarrow> conn
   \<Rightarrow> (served \<times> UdpRelay \<times> arena) option" where
  "serve_socks5 X T timed_out te ue md r h ver c =
     (if timed_out then Some (Refused (Bail ''SOCKS5 handshake timed out'') c, r, h)
      else case negotiate_and_read_request T md ver c of
        (Inl e, c) \<Rightarrow> Some (Refused e c, r, h)
      | (Inr (route, request), c) \<Rightarrow>
          (case clients h (r_client route) of
             None \<Rightarrow> None
           | Some sc \<Rightarrow>
               if command request = COMMAND_CONNECT then
                 (case serve_connect X te sc request c of
                    None \<Rightarrow> None
                  | Some (res, c, st, sc) \<Rightarrow> Some (Tunnel res c st, r, h\<lparr>clients := (clients h)(r_client route \<mapsto> sc)\<rparr>))
               else if command request = COMMAND_UDP_ASSOCIATE then
                 (if \<not> r_udp route then
                    (case write_reply 7 None c of
                       (Inl e, c) \<Rightarrow> Some (Refused e c, r, h)
                     | (Inr _, c) \<Rightarrow> Some (Refused (Bail ''SOCKS5 UDP ASSOCIATE is disabled'') c, r, h))
                  else
                    (case serve_udp_associate X ue sc r c of
                       None \<Rightarrow> None
                     | Some (res, st, c, r) \<Rightarrow> Some (Association res c st, r, h)))
               else
                 (case write_reply 7 None c of
                    (Inl e, c) \<Rightarrow> Some (Refused e c, r, h)
                  | (Inr _, c) \<Rightarrow> Some (Refused (Bail ''SOCKS5 command is unsupported'') c, r, h))))"

subsection \<open>The handshake accepts what a client sends\<close>

text \<open>What a client sends after the version byte: its methods, its credentials and its request.\<close>

datatype target = TargetIp ip | TargetName ustring

definition client_greeting :: "bytes \<Rightarrow> bytes" where
  "client_greeting methods = of_nat (length methods) # methods"

definition client_credentials :: "bytes \<Rightarrow> bytes \<Rightarrow> bytes" where
  "client_credentials username password =
     [1, of_nat (length username)] @ username @ [of_nat (length password)] @ password"

fun client_target :: "target \<Rightarrow> bytes" where
  "client_target (TargetIp (V4 a)) = 1 # v4_octets a"
| "client_target (TargetIp (V6 a)) = 4 # v6_octets a"
| "client_target (TargetName n) = [3, of_nat (length (utf8 n))] @ utf8 n"

fun target_text :: "target \<Rightarrow> ustring" where
  "target_text (TargetIp a) = show_ip a"
| "target_text (TargetName n) = n"

definition client_request :: "byte \<Rightarrow> target \<Rightarrow> u16 \<Rightarrow> bytes" where
  "client_request cmd t prt = [VERSION, cmd, 0] @ client_target t @ to_be16 prt"

definition short_text :: "ustring \<Rightarrow> bool" where
  "short_text s \<longleftrightarrow> list_all scalar s \<and> s \<noteq> [] \<and> length (utf8 s) \<le> 255"

fun target_ok :: "target \<Rightarrow> bool" where
  "target_ok (TargetIp a) = True"
| "target_ok (TargetName n) = short_text n"

lemma recv_append: "n = length a \<Longrightarrow> recv n \<lparr>c_in = a @ r, c_out = out\<rparr> = (Inr a, \<lparr>c_in = r, c_out = out\<rparr>)"
  by (simp add: recv_def)

lemma recv_u8_Cons [simp]: "recv_u8 \<lparr>c_in = b # r, c_out = out\<rparr> = (Inr b, \<lparr>c_in = r, c_out = out\<rparr>)"
  using recv_append [of 1 "[b]" r out] by (simp add: recv_u8_def)

lemma recv_u16_append [simp]: "recv_u16 \<lparr>c_in = to_be16 w @ r, c_out = out\<rparr> = (Inr w, \<lparr>c_in = r, c_out = out\<rparr>)"
  using recv_append [of 2 "to_be16 w" r out] by (simp add: recv_u16_def to_be16_two)

lemma context_err_simps [simp]:
  "context_err m (Inr x, s) = (Inr x, s)" "context_err m (Inl e, s) = (Inl (Bail m), s)"
  by (simp_all add: context_err_def)

lemma send_reliable:
  "reliable out \<Longrightarrow> send b \<lparr>c_in = i, c_out = out\<rparr> = (Inr (), \<lparr>c_in = i, c_out = out\<lparr>pending := pending out @ b\<rparr>\<rparr>)"
  by (simp add: send_def write_all_reliable)

lemma unat_len: "n \<le> 255 \<Longrightarrow> unat (of_nat n :: byte) = n"
  by (simp add: unat_of_nat_byte)

lemma len_nonzero: "n \<noteq> 0 \<Longrightarrow> n \<le> 255 \<Longrightarrow> (of_nat n :: byte) \<noteq> 0"
  using unat_len [of n] by (metis unsigned_0)

lemma utf8_nonempty: "short_text s \<Longrightarrow> length (utf8 s) \<noteq> 0"
  using from_utf8_lossy_utf8 [of s] from_utf8_lossy.simps [of "[]"] by (auto simp: short_text_def)

lemma read_host_target:
  assumes "target_ok t"
  shows "\<exists>ty body. client_target t = ty # body
    \<and> read_host ty \<lparr>c_in = body @ r, c_out = out\<rparr> = (Inr (target_text t), \<lparr>c_in = r, c_out = out\<rparr>)"
proof (cases t)
  case (TargetIp a)
  then show ?thesis by (cases a) (simp_all add: read_host_def recv_append)
next
  case (TargetName n)
  then have n: "short_text n" using assms by simp
  then have "unat (of_nat (length (utf8 n)) :: byte) = length (utf8 n)" by (simp add: short_text_def unat_len)
  moreover have "from_utf8_lossy (utf8 n) = n" using n by (simp add: short_text_def from_utf8_lossy_utf8)
  ultimately show ?thesis using TargetName utf8_nonempty [OF n] by (simp add: read_host_def recv_append)
qed

lemma read_request_prints:
  assumes "target_ok t" "prt \<noteq> 0 \<or> cmd = COMMAND_UDP_ASSOCIATE"
  shows "read_request \<lparr>c_in = client_request cmd t prt @ r, c_out = out\<rparr>
    = (Inr \<lparr>command = cmd, req_host = target_text t, req_port = prt\<rparr>, \<lparr>c_in = r, c_out = out\<rparr>)"
proof -
  obtain ty body where t: "client_target t = ty # body"
    "read_host ty \<lparr>c_in = body @ to_be16 prt @ r, c_out = out\<rparr> = (Inr (target_text t), \<lparr>c_in = to_be16 prt @ r, c_out = out\<rparr>)"
    using read_host_target [OF assms(1), of "to_be16 prt @ r" out] by auto
  have "recv 4 \<lparr>c_in = client_request cmd t prt @ r, c_out = out\<rparr>
      = (Inr [VERSION, cmd, 0, ty], \<lparr>c_in = body @ to_be16 prt @ r, c_out = out\<rparr>)"
    using recv_append [of 4 "[VERSION, cmd, 0, ty]" "body @ to_be16 prt @ r" out] by (simp add: client_request_def t)
  then show ?thesis using t(2) assms(2) by (auto simp: read_request_def)
qed

lemma read_credentials_prints:
  assumes "short_text u" "short_text p"
  shows "read_credentials \<lparr>c_in = client_credentials (utf8 u) (utf8 p) @ r, c_out = out\<rparr> = (Inr (u, p), \<lparr>c_in = r, c_out = out\<rparr>)"
proof -
  let ?n = "of_nat (length (utf8 u)) :: byte" and ?m = "of_nat (length (utf8 p)) :: byte"
  have len: "unat ?n = length (utf8 u)" "unat ?m = length (utf8 p)" "?n \<noteq> 0" "?m \<noteq> 0"
    using assms utf8_nonempty [OF assms(1)] utf8_nonempty [OF assms(2)]
    by (simp_all add: short_text_def unat_len len_nonzero)
  have "recv 2 \<lparr>c_in = client_credentials (utf8 u) (utf8 p) @ r, c_out = out\<rparr>
      = (Inr [1, ?n], \<lparr>c_in = utf8 u @ ?m # utf8 p @ r, c_out = out\<rparr>)"
    using recv_append [of 2 "[1, ?n]" "utf8 u @ ?m # utf8 p @ r" out] by (simp add: client_credentials_def)
  then show ?thesis
    using len assms by (simp add: read_credentials_def recv_append short_text_def from_utf8_lossy_utf8)
qed

text \<open>
  The handshake accepts exactly what a client sends. For any list of methods with the required one, any
  credentials and any target, the server chooses the method, checks the credentials and reads the request back as it was meant,
  leaving what follows for the relay; when the credentials are wrong it answers so and ends.
\<close>

lemma handshake_roundtrip:
  assumes methods: "(if requires_auth md then METHOD_USERNAME_PASSWORD else METHOD_NO_AUTH) \<in> set methods" "length methods \<le> 255"
    and creds: "short_text u" "short_text p"
    and request: "target_ok t" "prt \<noteq> 0 \<or> cmd = COMMAND_UDP_ASSOCIATE"
    and out: "reliable out"
  shows "negotiate_and_read_request T md VERSION
      \<lparr>c_in = client_greeting methods @ (if requires_auth md then client_credentials (utf8 u) (utf8 p) else []) @ client_request cmd t prt @ rest,
       c_out = out\<rparr>
    = (case authenticate T md u p of
         Inr route \<Rightarrow> (Inr (route, \<lparr>command = cmd, req_host = target_text t, req_port = prt\<rparr>),
           \<lparr>c_in = rest, c_out = out\<lparr>pending := pending out @ (if requires_auth md then [5, 2, 1, 0] else [5, 0])\<rparr>\<rparr>)
       | Inl _ \<Rightarrow> (Inl (Bail ''SOCKS5 authentication failed''),
           \<lparr>c_in = client_request cmd t prt @ rest, c_out = out\<lparr>pending := pending out @ [5, 2, 1, 1]\<rparr>\<rparr>))"
proof -
  let ?k = "of_nat (length methods) :: byte"
  let ?auth = "if requires_auth md then client_credentials (utf8 u) (utf8 p) else []"
  let ?r = "?auth @ client_request cmd t prt @ rest"
  have "length methods \<noteq> 0" using methods(1) by auto
  then have k: "unat ?k = length methods" "?k \<noteq> 0" using methods(2) by (simp_all only: unat_len len_nonzero not_False_eq_True)
  have m: "recv (unat ?k) \<lparr>c_in = methods @ ?r, c_out = out\<rparr> = (Inr methods, \<lparr>c_in = ?r, c_out = out\<rparr>)"
    using recv_append [of "unat ?k" methods ?r out] k(1) by simp
  show ?thesis
  proof (cases "requires_auth md")
    case True
    then show ?thesis
      using methods m k creds request out
      by (simp add: negotiate_and_read_request_def client_greeting_def send_reliable
          read_credentials_prints read_request_prints Let_def socks_consts split: sum.splits)
  next
    case False
    then obtain route where "md = Fixed route None" by (cases md) auto
    then show ?thesis
      using False methods m k request out
      by (simp add: negotiate_and_read_request_def client_greeting_def send_reliable
          read_request_prints Let_def socks_consts)
  qed
qed

definition sample_route :: Route where
  "sample_route = \<lparr>r_client = 0, r_udp = True\<rparr>"

lemma handshake_roundtrip_witness:
  "negotiate_and_read_request sample_text (Fixed sample_route (Some \<lparr>cr_username = [117], cr_password = [112]\<rparr>)) VERSION
      \<lparr>c_in = client_greeting [0, 2] @ client_credentials (utf8 [117]) (utf8 [112]) @ client_request 1 (TargetName [97]) 80 @ [9],
       c_out = fresh_sink\<rparr>
    = (Inr (sample_route, \<lparr>command = 1, req_host = [97], req_port = 80\<rparr>), \<lparr>c_in = [9], c_out = fresh_sink\<lparr>pending := [5, 2, 1, 0]\<rparr>\<rparr>)"
  using handshake_roundtrip [of "Fixed sample_route (Some \<lparr>cr_username = [117], cr_password = [112]\<rparr>)" "[0, 2]" "[117]" "[112]"
      "TargetName [97]" 80 1 fresh_sink sample_text "[9]"]
  by (simp add: short_text_def scalar_def utf8_def utf8_char_def METHOD_USERNAME_PASSWORD_def sample_text_def)

subsection \<open>Nothing is served without credentials\<close>

lemma recv_iff [res_simps]:
  "recv n c = (Inr b, c') \<longleftrightarrow> c_in c = b @ c_in c' \<and> length b = n \<and> c' = c\<lparr>c_in := c_in c'\<rparr>"
  by (auto simp: recv_def read_exact_Some read_exact_None split: option.splits)

lemma context_err_iff [res_simps]: "context_err m r = (Inr x, s) \<longleftrightarrow> r = (Inr x, s)"
  by (cases r) (auto simp: context_err_def res_simps)

lemma recv_u8_iff [res_simps]: "recv_u8 c = (Inr b, c') \<longleftrightarrow> c_in c = b # c_in c' \<and> c' = c\<lparr>c_in := c_in c'\<rparr>"
  by (auto simp: recv_u8_def res_simps length_Suc_conv)

lemma send_in: "send b c = (r, c') \<Longrightarrow> c_in c' = c_in c"
  by (auto simp: send_def split: prod.splits)

lemma read_credentials_shape:
  assumes "read_credentials c = (Inr (u, p), c')"
  shows "\<exists>ub pb. c_in c = client_credentials ub pb @ c_in c' \<and> u = from_utf8_lossy ub \<and> p = from_utf8_lossy pb"
proof -
  obtain h ub n pb where h: "c_in c = h @ ub @ n # pb @ c_in c'" "length h = 2" "h ! 0 = 1" "length ub = unat (h ! 1)"
    "length pb = unat n" "u = from_utf8_lossy ub" "p = from_utf8_lossy pb"
    using assms by (auto simp: read_credentials_def res_simps split: if_splits)
  obtain a b where "h = [a, b]" using h(2) by (auto simp: length_Suc_conv numeral_2_eq_2)
  then have "c_in c = client_credentials ub pb @ c_in c'" using h by (simp add: client_credentials_def)
  then show ?thesis using h by blast
qed

lemma accept_or_refuse:
  "(case x of Inl _ \<Rightarrow> st_then r (\<lambda>_ c. (Inl e, c)) | Inr y \<Rightarrow> (Inr y, c)) = (Inr z, c') \<longleftrightarrow> x = Inr z \<and> c' = c"
  by (cases x) (auto simp: res_simps)

lemma negotiate_authenticates:
  assumes "negotiate_and_read_request T md ver c = (Inr (route, request), c')" "requires_auth md"
  shows "\<exists>methods ub pb rest. c_in c = client_greeting methods @ client_credentials ub pb @ rest
    \<and> authenticate T md (from_utf8_lossy ub) (from_utf8_lossy pb) = Inr route"
proof -
  obtain n methods c3 u p c4 where *: "c_in c = n # methods @ c_in c3" "length methods = unat n"
    "read_credentials c3 = (Inr (u, p), c4)" "authenticate T md u p = Inr route"
    using assms
    by (auto simp: negotiate_and_read_request_def res_simps accept_or_refuse Let_def dest!: send_in split: if_splits) metis
  from read_credentials_shape [OF this(3)] obtain ub pb where
    "c_in c3 = client_credentials ub pb @ c_in c4" "u = from_utf8_lossy ub" "p = from_utf8_lossy pb" by blast
  moreover have "of_nat (length methods) = n" using *(2) by simp
  ultimately have "c_in c = client_greeting methods @ client_credentials ub pb @ c_in c4"
    using * by (simp add: client_greeting_def)
  then show ?thesis using \<open>u = _\<close> \<open>p = _\<close> *(4) by blast
qed

fun is_refused :: "served \<Rightarrow> bool" where
  "is_refused (Refused e c) = True"
| "is_refused s = False"

text \<open>
  On a listener that requires authentication nothing is served without it. Whatever bytes arrive, either the
  connection is refused and no client and no UDP port of the program is touched, or the bytes began with a greeting
  and credentials which the mode accepts for the route that is served; and a UDP association needs a route with UDP enabled.
\<close>

lemma served_only_with_credentials:
  assumes "serve_socks5 X T timed_out te ue md r h ver c = Some (s, r', h')" "requires_auth md"
  shows "(is_refused s \<and> r' = r \<and> h' = h)
    \<or> (\<exists>methods ub pb rest route. c_in c = client_greeting methods @ client_credentials ub pb @ rest
        \<and> authenticate T md (from_utf8_lossy ub) (from_utf8_lossy pb) = Inr route
        \<and> (\<forall>a. a \<noteq> r_client route \<longrightarrow> clients h' a = clients h a)
        \<and> (case s of Association _ _ _ \<Rightarrow> r_udp route | _ \<Rightarrow> r' = r))"
proof (cases "is_refused s")
  case True
  then show ?thesis using assms(1)
    by (auto simp: serve_socks5_def split: if_splits sum.splits option.splits prod.splits)
next
  case False
  obtain nr c1 where n: "negotiate_and_read_request T md ver c = (nr, c1)" by fastforce
  then obtain route request where nr: "nr = Inr (route, request)"
    using assms(1) False by (auto simp: serve_socks5_def split: if_splits sum.splits)
  have "(\<forall>a. a \<noteq> r_client route \<longrightarrow> clients h' a = clients h a)
      \<and> (case s of Association _ _ _ \<Rightarrow> r_udp route | _ \<Rightarrow> r' = r)"
    using assms(1) False n nr
    by (auto simp: serve_socks5_def split: if_splits option.splits sum.splits prod.splits)
  then show ?thesis using negotiate_authenticates [OF n [unfolded nr] assms(2)] by blast
qed

definition sample_mode :: Mode where
  "sample_mode = Fixed sample_route (Some \<lparr>cr_username = [117], cr_password = [112]\<rparr>)"

definition sample_conn :: conn where
  "sample_conn = \<lparr>c_in = [1, 2, 1, 1, 117, 1, 112, 5, 3, 0, 1, 0, 0, 0, 0, 0, 0], c_out = fresh_sink\<rparr>"

definition busy_udp :: "open_env \<Rightarrow> udp_env" where
  "busy_udp oe = \<lparr>ue_attempt = \<lambda>_. AddrInUse, ue_assigned = None, ue_open = oe, ue_peer = None, ue_events = [], ue_counters = None\<rparr>"

definition sample_arena :: arena where
  "sample_arena = \<lparr>clients = [0 \<mapsto> demo_client], next_address = 1\<rparr>"

subsection \<open>Datagrams\<close>

lemma decode_prints:
  assumes "prt \<noteq> 0" "target_ok t"
  shows "decode_datagram ([0, 0, 0] @ client_target t @ to_be16 prt @ payload) = Inr (target_text t, prt, payload)"
proof (cases t)
  case (TargetIp a)
  then show ?thesis using assms(1)
    by (cases a) (simp_all add: decode_datagram_def decode_target_def to_be16_two nth_append Let_def)
next
  case (TargetName n)
  then have n: "short_text n" using assms by simp
  then have "unat (of_nat (length (utf8 n)) :: byte) = length (utf8 n)" by (simp add: short_text_def unat_len)
  moreover have "from_utf8_lossy (utf8 n) = n" using n by (simp add: short_text_def from_utf8_lossy_utf8)
  moreover have "drop (7 + length (utf8 n)) (0 # 0 # 0 # 3 # b # utf8 n @ hi16 prt # lo16 prt # payload) = payload" for b
    by (simp add: drop_Cons' numeral_eq_Suc)
  ultimately show ?thesis using TargetName utf8_nonempty [OF n] assms(1)
    by (simp add: decode_datagram_def decode_target_def to_be16_two nth_append Let_def)
qed

lemma encode_datagram_target:
  "encode_datagram a payload = [0, 0, 0] @ client_target (TargetIp (sa_ip a)) @ to_be16 (sa_port a) @ payload"
  by (cases "sa_ip a") (simp_all add: encode_datagram_def encode_address_def)

text \<open>
  What the server sends back to a UDP client decodes to the source address and the payload, for IPv4 and IPv6, and
  a client's datagram for a name or an address decodes to the target, the port and the payload.
\<close>

lemma datagram_roundtrip:
  assumes "prt \<noteq> 0" "target_ok t" "sa_port a \<noteq> 0"
  shows "decode_datagram ([0, 0, 0] @ client_target t @ to_be16 prt @ payload) = Inr (target_text t, prt, payload)
    \<and> decode_datagram (encode_datagram a payload) = Inr (show_ip (sa_ip a), sa_port a, payload)"
  using decode_prints [OF assms(1,2)] decode_prints [OF assms(3), of "TargetIp (sa_ip a)" payload] encode_datagram_target
  by simp

lemma datagram_roundtrip_witness:
  "decode_datagram ([0, 0, 0] @ client_target (TargetName [97]) @ to_be16 53 @ [7]) = Inr ([97], 53, [7])
    \<and> decode_datagram (encode_datagram \<lparr>sa_ip = V4 1, sa_port = 53\<rparr> [8]) = Inr (show_ip (V4 1), 53, [8])"
  using datagram_roundtrip [of 53 "TargetName [97]" "\<lparr>sa_ip = V4 1, sa_port = 53\<rparr>" "[7]"]
    datagram_roundtrip [of 53 "TargetName [97]" "\<lparr>sa_ip = V4 1, sa_port = 53\<rparr>" "[8]"]
  by (simp add: short_text_def scalar_def utf8_def utf8_char_def)

subsection \<open>Port selection\<close>

lemma bind_loop_Inr:
  "bind_loop attempt rng first offs = Inr (i, p) \<Longrightarrow> \<exists>k \<in> set offs. i = (first + k) mod port_count rng
    \<and> p = range_start rng + of_nat i \<and> attempt p = Bound"
  by (induction offs) (auto simp: Let_def split: bind_result.splits)

lemma bind_loop_Inl:
  "bind_loop attempt rng first offs = Inl e \<Longrightarrow>
    (\<exists>k \<in> set offs. attempt (range_start rng + of_nat ((first + k) mod port_count rng)) = BindFailed)
    \<or> (\<forall>k \<in> set offs. attempt (range_start rng + of_nat ((first + k) mod port_count rng)) = AddrInUse)"
  by (induction offs) (auto simp: Let_def split: bind_result.splits)

text \<open>The sum \<open>range.start + index as u16\<close> does not overflow.\<close>

lemma port_in_range:
  assumes "range_ok rng" "i < port_count rng"
  shows "unat (range_start rng + of_nat i) = unat (range_start rng) + i"
    and "range_start rng \<le> range_start rng + of_nat i" "range_start rng + of_nat i \<le> range_end rng"
proof -
  have lim: "unat (range_start rng) + i < 65536" "i \<le> unat (range_end rng) - unat (range_start rng)"
    and le: "unat (range_start rng) \<le> unat (range_end rng)"
    using port_count_range [OF assms(1)] assms by (auto simp: range_ok_def word_le_nat_alt)
  then have "unat (of_nat i :: u16) = i" by (simp add: unat_of_nat)
  with lim show u: "unat (range_start rng + of_nat i) = unat (range_start rng) + i" by (simp add: unat_word_ariths)
  show "range_start rng \<le> range_start rng + of_nat i" "range_start rng + of_nat i \<le> range_end rng"
    using u lim le by (simp_all only: word_le_nat_alt le_add1)
qed

lemma rotation_covers:
  assumes "j < (n :: nat)"
  shows "\<exists>k < n. (first + k) mod n = j"
proof -
  have "(first + (n - first mod n + j) mod n) mod n = (first mod n + (n - first mod n + j)) mod n"
    by (simp add: mod_simps)
  also have "first mod n + (n - first mod n + j) = n + j" using mod_less_divisor [of n first] assms by linarith
  also have "(n + j) mod n = j" using assms by simp
  finally show ?thesis using assms by (intro exI [of _ "(n - first mod n + j) mod n"]) simp
qed

text \<open>
  The relay port is in the configured range. Binding takes a free port of the range and advertises that
  port on the configured address, and the next association starts after it; it fails only when binding fails for
  another reason than a port in use, or when every port of the range is in use. No port number wraps around.
\<close>

lemma udp_bind_in_range:
  assumes "range_ok rng" "port_range r = Some rng" "udp_bind attempt assigned r = (res, r')"
  shows "case res of
      Inr (local, advertised) \<Rightarrow> range_start rng \<le> sa_port local \<and> sa_port local \<le> range_end rng \<and> attempt (sa_port local) = Bound
        \<and> sa_ip local = bind_address r \<and> advertised = \<lparr>sa_ip = advertise_address r, sa_port = sa_port local\<rparr>
        \<and> unat (next_port r') = unat (sa_port local) - unat (range_start rng) + 1
    | Inl e \<Rightarrow> (\<exists>p. range_start rng \<le> p \<and> p \<le> range_end rng \<and> attempt p = BindFailed)
        \<or> (\<forall>p. range_start rng \<le> p \<longrightarrow> p \<le> range_end rng \<longrightarrow> attempt p = AddrInUse)"
proof -
  let ?n = "port_count rng" and ?first = "unat (next_port r) mod port_count rng"
  have n: "0 < ?n" "?n \<le> 65536" using port_count_range [OF assms(1)] by (simp_all add: port_count_def)
  show ?thesis
  proof (cases "bind_loop attempt rng ?first [0..<?n]")
    case (Inr ip)
    obtain i p where ip: "ip = (i, p)" by fastforce
    then obtain i_lt: "i < ?n" and p: "p = range_start rng + of_nat i" "attempt p = Bound"
      using bind_loop_Inr [OF Inr [unfolded ip]] n by auto
    have "unat (of_nat (i + 1) :: u64) = i + 1" using i_lt n by (simp add: unat_of_nat del: of_nat_add of_nat_Suc)
    then show ?thesis
      using assms(2,3) Inr ip p port_in_range [OF assms(1) i_lt]
      by (auto simp: udp_bind_def Let_def simp del: of_nat_add of_nat_Suc)
  next
    case (Inl e)
    have "(\<exists>p. range_start rng \<le> p \<and> p \<le> range_end rng \<and> attempt p = BindFailed)
        \<or> (\<forall>p. range_start rng \<le> p \<longrightarrow> p \<le> range_end rng \<longrightarrow> attempt p = AddrInUse)"
    proof (cases "\<exists>k \<in> set [0..<?n]. attempt (range_start rng + of_nat ((?first + k) mod ?n)) = BindFailed")
      case True
      then show ?thesis using port_in_range [OF assms(1)] n by (meson mod_less_divisor)
    next
      case False
      then have used: "\<forall>k < ?n. attempt (range_start rng + of_nat ((?first + k) mod ?n)) = AddrInUse"
        using bind_loop_Inl [OF Inl] by auto
      have "attempt p = AddrInUse" if p: "range_start rng \<le> p" "p \<le> range_end rng" for p
      proof -
        let ?j = "unat p - unat (range_start rng)"
        have "?j < ?n" using p port_count_range(1) [OF assms(1)] by (simp add: word_le_nat_alt)
        then obtain k where "k < ?n" "(?first + k) mod ?n = ?j" using rotation_covers by blast
        moreover have "range_start rng + of_nat ?j = p"
          using p(1) by (simp add: of_nat_diff word_le_nat_alt)
        ultimately show ?thesis using used by metis
      qed
      then show ?thesis by blast
    qed
    then show ?thesis using assms(2,3) Inl by (auto simp: udp_bind_def Let_def)
  qed
qed

lemma udp_bind_in_range_witness:
  "\<exists>l a r'. udp_bind (\<lambda>p. if p = 4000 then AddrInUse else Bound) None
      \<lparr>bind_address = V4 1, advertise_address = V4 2, port_range = Some \<lparr>range_start = 4000, range_end = 4009\<rparr>, next_port = 0\<rparr>
    = (Inr (l, a), r') \<and> 4000 < sa_port l \<and> sa_port l \<le> 4009 \<and> sa_ip a = V4 2"
proof -
  let ?rng = "\<lparr>range_start = 4000, range_end = 4009\<rparr> :: UdpPortRange" and ?att = "\<lambda>p :: u16. if p = 4000 then AddrInUse else Bound"
  let ?r = "\<lparr>bind_address = V4 1, advertise_address = V4 2, port_range = Some ?rng, next_port = 0\<rparr>"
  obtain res r' where b: "udp_bind ?att None ?r = (res, r')" by fastforce
  have "range_ok ?rng" by (simp add: range_ok_def port_count_def)
  note this = udp_bind_in_range [OF this _ b]
  moreover have "\<not> (\<forall>p. 4000 \<le> p \<longrightarrow> p \<le> 4009 \<longrightarrow> ?att p = AddrInUse)" by (auto intro: exI [of _ "4001 :: u16"])
  moreover have "?att p \<noteq> BindFailed" for p by simp
  ultimately obtain l a where "res = Inr (l, a)" "4000 \<le> sa_port l" "sa_port l \<le> 4009" "?att (sa_port l) = Bound" "sa_ip a = V4 2"
    by (cases res) (auto split: prod.splits if_splits)
  moreover from this have "4000 < sa_port l" by (metis bind_result.distinct(1) order_le_imp_less_or_eq)
  ultimately show ?thesis using b by blast
qed

subsection \<open>Who uses an association\<close>

text \<open>The source an association belongs to: the first whose address is that of the control connection.\<close>

definition from_control :: "ip option \<Rightarrow> socket_addr \<Rightarrow> bool" where
  "from_control control_ip src \<longleftrightarrow> (case control_ip of None \<Rightarrow> True | Some a \<Rightarrow> sa_ip src = a)"

fun owner_of :: "ip option \<Rightarrow> udp_event list \<Rightarrow> socket_addr option" where
  "owner_of control_ip [] = None"
| "owner_of control_ip (FromClient src packet # evs) =
     (if from_control control_ip src then Some src else owner_of control_ip evs)"
| "owner_of control_ip (ev # evs) = owner_of control_ip evs"

fun foreign :: "socket_addr option \<Rightarrow> udp_event \<Rightarrow> bool" where
  "foreign own (FromClient src packet) = (own \<noteq> Some src)"
| "foreign own ev = False"

definition owner :: "ip option \<Rightarrow> udp_event list \<Rightarrow> association \<Rightarrow> socket_addr option" where
  "owner control_ip evs st = (case ua_client st of Some a \<Rightarrow> Some a | None \<Rightarrow> owner_of control_ip evs)"

definition pinned :: "ip option \<Rightarrow> association \<Rightarrow> bool" where
  "pinned control_ip st \<longleftrightarrow> (\<forall>a. ua_client st = Some a \<longrightarrow> from_control control_ip a)
     \<and> (\<forall>m \<in> set (ua_sent st). ua_client st = Some (fst m))"

lemma client_datagram_client:
  "ua_client (client_datagram X control_ip src packet st) =
     (if ua_client st = None \<and> from_control control_ip src then Some src else ua_client st)"
  "ua_sent (client_datagram X control_ip src packet st) = ua_sent st"
  by (auto simp: client_datagram_def from_control_def Let_def split: option.splits sum.splits prod.splits)

lemma upstream_datagram_client:
  "ua_client (upstream_datagram X ok st) = ua_client st"
  "m \<in> set (ua_sent (upstream_datagram X ok st)) \<Longrightarrow> m \<in> set (ua_sent st) \<or> ua_client st = Some (fst m)"
  by (auto simp: upstream_datagram_def Let_def split: option.splits sum.splits prod.splits if_splits)

lemma pinned_step: "pinned control_ip st \<Longrightarrow> pinned control_ip (udp_step X control_ip ev st)"
  by (cases ev) (auto simp: udp_step_def pinned_def client_datagram_client upstream_datagram_client(1)
      split: if_splits dest: upstream_datagram_client(2))

lemma pinned_run: "pinned control_ip st \<Longrightarrow> pinned control_ip (udp_run X control_ip evs st)"
  unfolding udp_run_def by (induction evs arbitrary: st) (auto simp: pinned_step)

lemma foreign_step:
  assumes "foreign (owner control_ip (ev # evs) st) ev"
  shows "udp_step X control_ip ev st = st"
proof (cases ev)
  case (FromClient src packet)
  then show ?thesis using assms
    by (cases "ua_client st") (auto simp: udp_step_def client_datagram_def owner_def from_control_def split: if_splits option.splits)
qed (use assms in auto)

lemma owner_step:
  assumes "\<not> ua_ended st"
  shows "owner control_ip evs (udp_step X control_ip ev st) = owner control_ip (ev # evs) st"
  using assms upstream_datagram_client(1) [of X _ st]
  by (cases ev) (auto simp: udp_step_def owner_def client_datagram_client split: option.splits)

lemma udp_run_ended: "ua_ended st \<Longrightarrow> udp_run X control_ip evs st = st"
  unfolding udp_run_def by (induction evs) (auto simp: udp_step_def)

lemma foreign_ignored:
  "udp_run X control_ip evs st = udp_run X control_ip (filter (\<lambda>ev. \<not> foreign (owner control_ip evs st) ev) evs) st"
proof (induction evs arbitrary: st)
  case (Cons ev evs)
  show ?case
  proof (cases "ua_ended st")
    case False
    let ?st = "udp_step X control_ip ev st"
    have "udp_run X control_ip (ev # evs) st = udp_run X control_ip evs ?st" by (simp add: udp_run_def)
    also have "\<dots> = udp_run X control_ip (filter (\<lambda>e. \<not> foreign (owner control_ip (ev # evs) st) e) evs) ?st"
      using Cons.IH [of ?st] owner_step [OF False] by simp
    also have "\<dots> = udp_run X control_ip (filter (\<lambda>e. \<not> foreign (owner control_ip (ev # evs) st) e) (ev # evs)) st"
      using foreign_step [of control_ip ev evs st X] by (auto simp: udp_run_def)
    finally show ?thesis .
  qed (simp add: udp_run_ended)
qed (simp add: udp_run_def)

text \<open>
  C15: A UDP association serves one client. It belongs to the first source with the address of the control
  connection: datagrams of all other sources have no effect at all, whatever they contain and however they are interleaved
  with the others, and everything that comes back from the server is sent to that source alone.
\<close>

theorem association_serves_its_owner:
  assumes "ua_client st = None" "ua_sent st = []"
  shows "udp_run X control_ip evs st = udp_run X control_ip (filter (\<lambda>ev. \<not> foreign (owner_of control_ip evs) ev) evs) st
    \<and> (\<forall>m \<in> set (ua_sent (udp_run X control_ip evs st)).
         ua_client (udp_run X control_ip evs st) = Some (fst m) \<and> from_control control_ip (fst m))"
proof -
  have "pinned control_ip (udp_run X control_ip evs st)" by (rule pinned_run) (simp add: pinned_def assms)
  then show ?thesis using foreign_ignored [of X control_ip evs st] assms(1) by (auto simp: pinned_def owner_def)
qed

definition sample_association :: association where
  "sample_association = \<lparr>ua_client = None,
     ua_upstream = \<lparr>k_reader = reader_over (reader_new [] [112]), k_writer = demo_writer, k_local_addr = \<lparr>sa_ip = V4 0, sa_port = 0\<rparr>\<rparr>,
     ua_counters = None, ua_sent = [], ua_touches = 0, ua_ended = False\<rparr>"

theorem association_serves_its_owner_witness:
  "udp_run sample_crypto (Some (V4 1)) [FromClient \<lparr>sa_ip = V4 9, sa_port = 7\<rparr> [0, 0, 0, 1], FromClient \<lparr>sa_ip = V4 1, sa_port = 5\<rparr> [],
      FromClient \<lparr>sa_ip = V4 1, sa_port = 6\<rparr> [1], FromUpstream True] sample_association
    = udp_run sample_crypto (Some (V4 1)) [FromClient \<lparr>sa_ip = V4 1, sa_port = 5\<rparr> [], FromUpstream True] sample_association"
  using association_serves_its_owner [of sample_association sample_crypto "Some (V4 1)" "[FromClient \<lparr>sa_ip = V4 9, sa_port = 7\<rparr> [0, 0, 0, 1],
      FromClient \<lparr>sa_ip = V4 1, sa_port = 5\<rparr> [], FromClient \<lparr>sa_ip = V4 1, sa_port = 6\<rparr> [1], FromUpstream True]"]
  by (simp add: sample_association_def from_control_def)

end
