(* ===== verification/Http_Request.thy ===== *)
theory Http_Request
  imports Http_Body Socks5
begin

text \<open>
  Requests of \<open>src/http_proxy.rs\<close>: reading the head, credentials, CONNECT targets, and how an absolute-form request is
  rewritten for the origin with its body framing. \<open>Url::parse\<close> of the \<open>url\<close> crate is a parameter.
\<close>

subsection \<open>Lines and header fields\<close>

text \<open>\<open>str::split\<close> with the separator CRLF.\<close>

fun split_crlf :: "ustring \<Rightarrow> ustring list" where
  "split_crlf [] = [[]]"
| "split_crlf [c] = [[c]]"
| "split_crlf (c # d # s) =
     (if c = 13 \<and> d = 10 then [] # split_crlf s
      else (case split_crlf (d # s) of [] \<Rightarrow> [[c]] | w # ws \<Rightarrow> (c # w) # ws))"

abbreviation ucrlf :: ustring where "ucrlf \<equiv> [13, 10]"

definition blank :: "uchar \<Rightarrow> bool" where
  "blank c \<longleftrightarrow> c = 32 \<or> c = 9"

text \<open>\<open>splitn(3, ' ')\<close>: the first piece, and the second and the rest where there are any.\<close>

definition splitn3 :: "ustring \<Rightarrow> ustring \<times> (ustring \<times> ustring option) option" where
  "splitn3 s = (case split_once 32 s of
      None \<Rightarrow> (s, None)
    | Some (a, r) \<Rightarrow> (case split_once 32 r of None \<Rightarrow> (a, Some (r, None)) | Some (b, c) \<Rightarrow> (a, Some (b, Some c))))"

text \<open>Where a window of bytes first occurs.\<close>

fun find_sub :: "'a list \<Rightarrow> 'a list \<Rightarrow> nat option" where
  "find_sub p [] = (if p = [] then Some 0 else None)"
| "find_sub p (c # cs) = (if starts_with p (c # cs) then Some 0 else map_option Suc (find_sub p cs))"

subsection \<open>Targets and credentials\<close>

definition parse_connect_target :: "ustring \<Rightarrow> (ustring \<times> u16) res" where
  "parse_connect_target target =
     (case strip_prefix [91] target of
        Some rest \<Rightarrow>
          and_then (ok_or (split_once 93 rest) (Bail ''HTTP CONNECT target is invalid'')) (\<lambda>(host, rest).
          and_then (ok_or (strip_prefix [58] rest) (Bail ''HTTP CONNECT target is invalid'')) (\<lambda>prt.
          and_then (ok_or (parse_u16 prt) (Bail ''HTTP CONNECT port is invalid'')) (\<lambda>prt.
          if host = [] \<or> prt = 0 then Inl (Bail ''HTTP CONNECT target is invalid'') else Inr (host, prt))))
      | None \<Rightarrow>
          and_then (ok_or (rsplit_once 58 target) (Bail ''HTTP CONNECT target is invalid'')) (\<lambda>(host, prt).
          and_then (ok_or (parse_u16 prt) (Bail ''HTTP CONNECT port is invalid'')) (\<lambda>prt.
          if host = [] \<or> 58 \<in> set host \<or> prt = 0 then Inl (Bail ''HTTP CONNECT target is invalid'') else Inr (host, prt))))"

fun parse_basic_proxy_auth :: "text_crates \<Rightarrow> ustring list \<Rightarrow> (ustring \<times> ustring) option" where
  "parse_basic_proxy_auth T [] = None"
| "parse_basic_proxy_auth T (header # headers) =
     (case split_once 58 header of
        None \<Rightarrow> parse_basic_proxy_auth T headers
      | Some (nm, v) \<Rightarrow>
          if \<not> eq_ignore_ascii_case nm (ustr ''proxy-authorization'') then parse_basic_proxy_auth T headers
          else (case split_whitespace v of
              scheme # encoded # rest \<Rightarrow>
                if \<not> eq_ignore_ascii_case scheme (ustr ''basic'') \<or> rest \<noteq> [] then parse_basic_proxy_auth T headers
                else Option.bind (b64_decode T encoded) (\<lambda>d. Option.bind (from_utf8 d) (split_once 58))
            | _ \<Rightarrow> None))"

subsection \<open>Framing\<close>

definition request_framing :: "ustring \<Rightarrow> ustring list \<Rightarrow> ustring list \<Rightarrow> BodyFraming res" where
  "request_framing ver content_lengths transfer_codings =
     (if transfer_codings \<noteq> [] then
        (if content_lengths \<noteq> [] then Inl (Bail ''HTTP request has both Transfer-Encoding and Content-Length'')
         else if \<not> eq_ignore_ascii_case ver (ustr ''HTTP/1.1'') then Inl (Bail ''HTTP/1.0 request uses Transfer-Encoding'')
         else if [] \<in> set transfer_codings then Inl (Bail ''HTTP request Transfer-Encoding is invalid'')
         else if length (filter (\<lambda>c. eq_ignore_ascii_case c (ustr ''chunked'')) transfer_codings) \<noteq> 1
           \<or> \<not> eq_ignore_ascii_case (last transfer_codings) (ustr ''chunked'')
         then Inl (Bail ''HTTP request transfer coding is unsupported'')
         else Inr Chunked)
      else (case content_lengths of
          [] \<Rightarrow> Inr Empty
        | first # _ \<Rightarrow>
            if first = [] \<or> \<not> list_all ascii_digit first \<or> (\<exists>v \<in> set content_lengths. v \<noteq> first)
            then Inl (Bail ''HTTP request Content-Length is invalid'')
            else
              and_then (ok_or (parse_u64 first) (Bail ''HTTP request Content-Length is invalid'')) (\<lambda>n.
              Inr (if n = 0 then Empty else Length n))))"

definition is_framing_header :: "ustring \<Rightarrow> bool" where
  "is_framing_header nm \<longleftrightarrow>
     list_ex (eq_ignore_ascii_case nm) (map ustr [''host'', ''content-length'', ''transfer-encoding''])"

definition is_hop_by_hop :: "ustring \<Rightarrow> bool \<Rightarrow> bool" where
  "is_hop_by_hop nm upgrade \<longleftrightarrow>
     list_ex (eq_ignore_ascii_case nm)
       (map ustr [''connection'', ''keep-alive'', ''proxy-connection'', ''proxy-authorization'', ''te''])
     \<or> (\<not> upgrade \<and> eq_ignore_ascii_case nm (ustr ''upgrade''))"

subsection \<open>Rewriting\<close>

datatype Host = Domain ustring | Ipv4 "32 word" | Ipv6 "128 word"

record Url =
  u_scheme :: ustring
  u_host :: "Host option"
  u_port :: "u16 option"
  u_path :: ustring
  u_query :: "ustring option"

record ForwardedRequest =
  fw_head :: bytes
  fw_framing :: BodyFraming
  fw_upgrade :: bool

type_synonym field = "ustring \<times> ustring \<times> ustring"

fun parse_fields :: "ustring list \<Rightarrow> field list res" where
  "parse_fields [] = Inr []"
| "parse_fields (header # headers) =
     (if header \<noteq> [] \<and> blank (hd header) then Inl (Bail ''HTTP request header line folding is not supported'')
      else case split_once 58 header of
        None \<Rightarrow> parse_fields headers
      | Some (nm, v) \<Rightarrow>
          if nm = [] \<or> blank (last nm) then Inl (Bail ''HTTP request header name is invalid'')
          else and_then (parse_fields headers) (\<lambda>flds. Inr ((header, nm, trim_by blank v) # flds)))"

definition named :: "field list \<Rightarrow> ustring \<Rightarrow> ustring list" where
  "named flds wanted =
     concat (map (\<lambda>(_, nm, v). if eq_ignore_ascii_case nm wanted then map (trim_by blank) (split_char 44 v) else []) flds)"

definition upgrade_requested :: "field list \<Rightarrow> bool" where
  "upgrade_requested flds \<longleftrightarrow>
     list_ex (\<lambda>opt. eq_ignore_ascii_case opt (ustr ''upgrade'')) (named flds (ustr ''connection''))
     \<and> list_ex (\<lambda>(_, nm, _). eq_ignore_ascii_case nm (ustr ''upgrade'')) flds"

definition forwarded_field :: "field list \<Rightarrow> bool \<Rightarrow> field \<Rightarrow> bool" where
  "forwarded_field flds upgrade fld =
     (case fld of (_, nm, _) \<Rightarrow>
        \<not> (is_hop_by_hop nm upgrade
           \<or> (\<not> (upgrade \<and> eq_ignore_ascii_case nm (ustr ''upgrade'')) \<and> \<not> is_framing_header nm
              \<and> list_ex (\<lambda>opt. eq_ignore_ascii_case opt nm) (named flds (ustr ''connection'')))))"

definition url_host_text :: "Host option \<Rightarrow> ustring res" where
  "url_host_text h = (case h of
      Some (Domain d) \<Rightarrow> Inr d
    | Some (Ipv4 a) \<Rightarrow> Inr (show_v4 a)
    | Some (Ipv6 a) \<Rightarrow> Inr (show_v6 a)
    | None \<Rightarrow> Inl (Bail ''HTTP proxy URL is missing a host''))"

definition url_origin :: "Url \<Rightarrow> ustring" where
  "url_origin u =
     (let p = (if u_path u = [] then [47] else u_path u) in
      case u_query u of Some q \<Rightarrow> p @ [63] @ q | None \<Rightarrow> p)"

definition forwarded_text :: "ustring \<Rightarrow> ustring \<Rightarrow> ustring \<Rightarrow> field list \<Rightarrow> bool \<Rightarrow> ustring" where
  "forwarded_text meth origin ver flds upgrade =
     meth @ [32] @ origin @ [32] @ ver @ ucrlf
     @ concat (map (\<lambda>(header, _, _). header @ ucrlf) (filter (forwarded_field flds upgrade) flds))
     @ (if upgrade then ustr ''Connection: Upgrade, close'' else ustr ''Connection: close'') @ ucrlf @ ucrlf"

definition rewrite_absolute_request ::
  "(ustring \<Rightarrow> Url option) \<Rightarrow> ustring \<Rightarrow> ustring list \<Rightarrow> (ustring \<times> u16 \<times> ForwardedRequest) res" where
  "rewrite_absolute_request url_parse request_line headers =
     (case splitn3 request_line of
        (meth, None) \<Rightarrow> Inl (Bail ''HTTP proxy request line is invalid'')
      | (meth, Some (target, v)) \<Rightarrow>
          let ver = (case v of Some x \<Rightarrow> x | None \<Rightarrow> ustr ''HTTP/1.1'') in
          and_then (ok_or (url_parse target) (Bail ''HTTP proxy URL is invalid'')) (\<lambda>url.
          if u_scheme url \<noteq> ustr ''http'' then Inl (Bail ''HTTP proxy only forwards http:// URLs'')
          else
            and_then (url_host_text (u_host url)) (\<lambda>host.
            let prt = (case u_port url of Some p \<Rightarrow> p | None \<Rightarrow> 80) in
            if prt = 0 then Inl (Bail ''HTTP proxy port is invalid'')
            else
              and_then (parse_fields headers) (\<lambda>flds.
              and_then (request_framing ver (named flds (ustr ''content-length'')) (named flds (ustr ''transfer-encoding''))) (\<lambda>framing.
              let upgrade = upgrade_requested flds in
              Inr (host, prt, \<lparr>fw_head = utf8 (forwarded_text meth (url_origin url) ver flds upgrade),
                fw_framing = framing, fw_upgrade = upgrade\<rparr>))))))"

subsection \<open>The whole request\<close>

record ParsedRequest =
  pr_host :: ustring
  pr_port :: u16
  pr_credentials :: "(ustring \<times> ustring) option"
  pr_forwarded :: "ForwardedRequest option"
  pr_leftover :: bytes

definition parse_request_line ::
  "(ustring \<Rightarrow> Url option) \<Rightarrow> ustring \<Rightarrow> ustring list \<Rightarrow> (ustring \<times> ustring) option \<Rightarrow> ParsedRequest res" where
  "parse_request_line url_parse request_line headers credentials =
     (case split_whitespace request_line of
        meth # target # _ # _ \<Rightarrow>
          if eq_ignore_ascii_case meth (ustr ''CONNECT'') then
            and_then (parse_connect_target target) (\<lambda>(host, prt).
            Inr \<lparr>pr_host = host, pr_port = prt, pr_credentials = credentials, pr_forwarded = None, pr_leftover = []\<rparr>)
          else
            and_then (rewrite_absolute_request url_parse request_line headers) (\<lambda>(host, prt, forwarded).
            Inr \<lparr>pr_host = host, pr_port = prt, pr_credentials = credentials, pr_forwarded = Some forwarded, pr_leftover = []\<rparr>)
      | _ \<Rightarrow> Inl (Bail ''HTTP proxy request line is invalid''))"

definition head_end :: bytes where
  "head_end = [13, 10, 13, 10]"

function read_request_head :: "bytes \<Rightarrow> source \<Rightarrow> bytes res \<times> source" where
  "read_request_head request src =
     (if str_contains head_end request then (Inr request, src)
      else case read_some 1024 src of
        (Inl e, src) \<Rightarrow> (Inl e, src)
      | (Inr c, src) \<Rightarrow>
          if c = [] then (Inl (Bail ''unexpected EOF in HTTP proxy request''), src)
          else if 8192 < length (request @ c) then (Inl (Bail ''HTTP proxy request headers are too large''), src)
          else read_request_head (request @ c) src)"
  by pat_completeness auto
termination
  by (relation "measure (\<lambda>(_, src). source_size src)") (auto dest!: read_some_size [OF sym])

declare read_request_head.simps [simp del]

definition parse_request_head :: "text_crates \<Rightarrow> (ustring \<Rightarrow> Url option) \<Rightarrow> bytes \<Rightarrow> ParsedRequest res" where
  "parse_request_head T url_parse request =
     and_then (ok_or (find_sub head_end request) (Bail ''HTTP proxy request is truncated'')) (\<lambda>split.
     case split_crlf (from_utf8_lossy (take split request)) of
       [] \<Rightarrow> Inl (Bail ''HTTP proxy request line is missing'')
     | request_line # headers \<Rightarrow>
         and_then (parse_request_line url_parse request_line headers (parse_basic_proxy_auth T headers)) (\<lambda>parsed.
         Inr (parsed\<lparr>pr_leftover := drop (split + 4) request\<rparr>)))"

definition read_proxy_request ::
  "text_crates \<Rightarrow> (ustring \<Rightarrow> Url option) \<Rightarrow> byte \<Rightarrow> source \<Rightarrow> ParsedRequest res \<times> source" where
  "read_proxy_request T url_parse first_byte src =
     st_then (read_request_head [first_byte] src) (\<lambda>request src. (parse_request_head T url_parse request, src))"

subsection \<open>Lines of text\<close>

fun no_crlf :: "ustring \<Rightarrow> bool" where
  "no_crlf [] = True"
| "no_crlf [c] = True"
| "no_crlf (c # d # s) = (\<not> (c = 13 \<and> d = 10) \<and> no_crlf (d # s))"

lemma no_crlf_append:
  "no_crlf (a @ b) \<longleftrightarrow> no_crlf a \<and> no_crlf b \<and> \<not> (a \<noteq> [] \<and> b \<noteq> [] \<and> last a = 13 \<and> hd b = 10)"
  by (induction a rule: no_crlf.induct) (auto, (cases b; auto)+)

lemma no_crlf_none: "13 \<notin> set s \<or> 10 \<notin> set s \<Longrightarrow> no_crlf s"
  by (induction s rule: no_crlf.induct) auto

lemma split_crlf_nonempty [simp]: "split_crlf s \<noteq> []"
  by (induction s rule: split_crlf.induct) (auto split: list.splits)

lemma split_crlf_piece: "w \<in> set (split_crlf s) \<Longrightarrow> no_crlf w"
proof (induction s arbitrary: w rule: split_crlf.induct)
  case (3 c d s)
  show ?case
  proof (cases "c = 13 \<and> d = 10")
    case True
    then show ?thesis using 3 by auto
  next
    case False
    obtain v vs where v: "split_crlf (d # s) = v # vs" by (cases "split_crlf (d # s)") auto
    have "v = [] \<or> hd v = d"
      using v by (cases s) (auto split: if_splits list.splits)
    moreover have "no_crlf v" using 3(2) [OF False] v by auto
    ultimately have "no_crlf (c # v)" using False v by (cases v) auto
    then show ?thesis using 3 False v by auto
  qed
qed auto

lemma split_crlf_append: "no_crlf a \<Longrightarrow> split_crlf (a @ 13 # 10 # b) = a # split_crlf b"
  by (induction a rule: no_crlf.induct) auto

lemma split_crlf_concat:
  "\<forall>h \<in> set hs. no_crlf h \<Longrightarrow> split_crlf (concat (map (\<lambda>h. h @ ucrlf) hs) @ t) = hs @ split_crlf t"
  by (induction hs) (auto simp: split_crlf_append)

lemma split_once_parts: "split_once d s = Some (a, b) \<Longrightarrow> s = a @ d # b \<and> d \<notin> set a"
  by (auto simp: split_once_Some)

lemma no_crlf_parts: "no_crlf (a @ d # b) \<Longrightarrow> no_crlf a \<and> no_crlf b"
  using no_crlf_append [of a "d # b"] by (cases b) auto

lemma no_crlf_joined: "no_crlf a \<Longrightarrow> no_crlf b \<Longrightarrow> no_crlf (a @ 32 # b)"
  by (cases b) (auto simp: no_crlf_append)

lemma splitn3_parts:
  assumes "splitn3 s = (a, Some (b, v))" "no_crlf s"
  shows "32 \<notin> set a" "no_crlf a" "v = Some c \<Longrightarrow> no_crlf c"
proof -
  obtain r where r: "split_once 32 s = Some (a, r)" and v: "v = Some c \<Longrightarrow> split_once 32 r = Some (b, c)" for c
    using assms(1) by (auto simp: splitn3_def split: option.splits)
  show "32 \<notin> set a" using split_once_parts [OF r] by blast
  have ar: "no_crlf a" "no_crlf r" using split_once_parts [OF r] assms(2) no_crlf_parts [of a 32 r] by auto
  then show "no_crlf a" by blast
  assume "v = Some c"
  then have "r = b @ 32 # c" using split_once_parts [OF v] by blast
  then show "no_crlf c" using ar(2) no_crlf_parts [of b 32 c] by simp
qed

lemma split_once_join: "d \<notin> set a \<Longrightarrow> split_once d (a @ d # b) = Some (a, b)"
  by (induction a) auto

lemma splitn3_join: "32 \<notin> set a \<Longrightarrow> 32 \<notin> set b \<Longrightarrow> splitn3 (a @ 32 # b @ 32 # c) = (a, Some (b, Some c))"
  by (simp add: splitn3_def split_once_join)

subsection \<open>Fields of the forwarded head\<close>

definition ok_field :: "field \<Rightarrow> bool" where
  "ok_field f \<longleftrightarrow> (case f of (h, n, v) \<Rightarrow> \<not> blank (hd h) \<and> n \<noteq> [] \<and> \<not> blank (last n)
     \<and> (\<exists>x. split_once 58 h = Some (n, x) \<and> v = trim_by blank x))"

lemma parse_fields_ok: "parse_fields hs = Inr flds \<Longrightarrow> list_all ok_field flds \<and> (\<forall>f \<in> set flds. fst f \<in> set hs)"
  by (induction hs arbitrary: flds)
    (fastforce simp: res_simps ok_field_def split: if_splits option.splits)+

lemma parse_fields_again: "list_all ok_field flds \<Longrightarrow> parse_fields (map fst flds) = Inr flds"
  by (induction flds) (auto simp: ok_field_def)

lemma named_filter:
  assumes "\<And>f. f \<in> set flds \<Longrightarrow> eq_ignore_ascii_case (fst (snd f)) wanted \<Longrightarrow> p f"
  shows "named (filter p flds) wanted = named flds wanted"
  using assms by (induction flds) (auto simp: named_def)

lemma framing_forwarded:
  assumes "wanted \<in> {ustr ''content-length'', ustr ''transfer-encoding''}" "eq_ignore_ascii_case (fst (snd f)) wanted"
  shows "forwarded_field flds upgrade f"
proof -
  let ?n = "fst (snd f)"
  have "is_framing_header ?n" using assms by (auto simp: is_framing_header_def)
  moreover have "\<not> eq_ignore_ascii_case ?n (ustr h)"
    if "h \<in> {''connection'', ''keep-alive'', ''proxy-connection'', ''proxy-authorization'', ''te'', ''upgrade''}" for h
  proof
    assume "eq_ignore_ascii_case ?n (ustr h)"
    then have "eq_ignore_ascii_case wanted (ustr h)" using assms(2) eq_ignore_ascii_case_trans eq_ignore_ascii_case_sym by blast
    then show False using assms(1) that
      by (auto simp: eq_ignore_ascii_case_def to_ascii_lowercase_def ustr_def ascii_lower_def)
  qed
  ultimately show ?thesis by (cases f) (auto simp: forwarded_field_def is_hop_by_hop_def)
qed

subsection \<open>Proxy and origin agree on the request\<close>

text \<open>
  The origin's reading of the forwarded head: lines end in CRLF, the first is the request line, fields go up to
  the empty line, and the framing follows from them by the same rules.
\<close>

definition origin_fields :: "ustring \<Rightarrow> field list res" where
  "origin_fields text = parse_fields (takeWhile (\<lambda>l. l \<noteq> []) (tl (split_crlf text)))"

definition origin_framing :: "ustring \<Rightarrow> BodyFraming res" where
  "origin_framing text =
     and_then (origin_fields text) (\<lambda>flds.
     case splitn3 (hd (split_crlf text)) of
       (_, Some (_, Some ver)) \<Rightarrow> request_framing ver (named flds (ustr ''content-length'')) (named flds (ustr ''transfer-encoding''))
     | _ \<Rightarrow> Inl (Bail ''invalid request line''))"

text \<open>
  What is used of \<open>Url::parse\<close>: paths and queries are percent-encoded, without spaces and control characters.
\<close>

definition url_laws :: "(ustring \<Rightarrow> Url option) \<Rightarrow> bool" where
  "url_laws url_parse \<longleftrightarrow> (\<forall>s u. url_parse s = Some u \<longrightarrow>
     (\<forall>c \<in> set (u_path u). 32 < c) \<and> (\<forall>q c. u_query u = Some q \<longrightarrow> c \<in> set q \<longrightarrow> 32 < c))"

lemma url_origin_chars: "url_laws P \<Longrightarrow> P s = Some u \<Longrightarrow> c \<in> set (url_origin u) \<Longrightarrow> 32 < c"
  by (auto simp: url_laws_def url_origin_def Let_def split: option.splits if_splits)

definition close_field :: "bool \<Rightarrow> field" where
  "close_field upgrade = (if upgrade then (ustr ''Connection: Upgrade, close'', ustr ''Connection'', ustr ''Upgrade, close'')
     else (ustr ''Connection: close'', ustr ''Connection'', ustr ''close''))"

lemma close_field_simps:
  "ok_field (close_field upgrade)" "no_crlf (fst (close_field upgrade))" "fst (close_field upgrade) \<noteq> []"
  "fst (snd (close_field upgrade)) = ustr ''Connection''"
  by (auto simp: close_field_def ok_field_def ustr_def blank_def trim_by_def trim_start_by_def trim_end_by_def)

lemma forwarded_text_lines:
  assumes "list_all ok_field flds" "\<forall>f \<in> set flds. no_crlf (fst f)"
    and "no_crlf meth" "no_crlf ver" "\<forall>c \<in> set origin. 32 < c" "32 \<notin> set meth"
  shows "hd (split_crlf (forwarded_text meth origin ver flds upgrade)) = meth @ 32 # origin @ 32 # ver"
    and "origin_fields (forwarded_text meth origin ver flds upgrade)
      = Inr (filter (forwarded_field flds upgrade) flds @ [close_field upgrade])"
proof -
  let ?kept = "filter (forwarded_field flds upgrade) flds" and ?line = "meth @ 32 # origin @ 32 # ver"
  let ?all = "?kept @ [close_field upgrade]"
  have ne: "fst f \<noteq> []" if "ok_field f" for f
  proof -
    obtain h n v where "f = (h, n, v)" by (cases f)
    with that show ?thesis by (cases h) (auto simp: ok_field_def)
  qed
  have "no_crlf origin" using assms(5) by (intro no_crlf_none) force
  then have line: "no_crlf ?line" using assms(3,4) by (intro no_crlf_joined) auto
  have "forwarded_text meth origin ver flds upgrade = ?line @ 13 # 10 # concat (map (\<lambda>h. h @ ucrlf) (map fst ?all)) @ ucrlf"
    by (auto simp: forwarded_text_def close_field_def o_def split_def)
  moreover have "split_crlf (concat (map (\<lambda>h. h @ ucrlf) (map fst ?all)) @ ucrlf) = map fst ?all @ split_crlf ucrlf"
    using assms(2) close_field_simps(2) by (intro split_crlf_concat) auto
  ultimately have sp: "split_crlf (forwarded_text meth origin ver flds upgrade) = ?line # map fst ?all @ [[], []]"
    using split_crlf_append [OF line] by simp
  then show "hd (split_crlf (forwarded_text meth origin ver flds upgrade)) = ?line" by simp
  have ok: "list_all ok_field ?all" using assms(1) close_field_simps(1) by (auto simp: list_all_iff)
  have "l \<noteq> []" if l: "l \<in> set (map fst ?all)" for l
  proof -
    from l have "l \<in> fst ` set ?all" by (simp only: set_map)
    then obtain f where "l = fst f" "f \<in> set ?all" by (rule imageE)
    moreover from this have "ok_field f" using ok by (simp only: list_all_iff)
    ultimately show ?thesis using ne by simp
  qed
  then have "takeWhile (\<lambda>l. l \<noteq> []) (map fst ?all @ [[], []]) = map fst ?all"
    by (subst takeWhile_append2) auto
  then show "origin_fields (forwarded_text meth origin ver flds upgrade) = Inr ?all"
    using sp parse_fields_again [OF ok] by (simp add: origin_fields_def)
qed

lemma rewritten_head:
  assumes "url_laws P" "rewrite_absolute_request P request_line headers = Inr (host, prt, fwd)"
    "no_crlf request_line" "\<forall>h \<in> set headers. no_crlf h"
  obtains meth origin ver flds where
    "fw_head fwd = utf8 (forwarded_text meth origin ver flds (fw_upgrade fwd))"
    "request_framing ver (named flds (ustr ''content-length'')) (named flds (ustr ''transfer-encoding'')) = Inr (fw_framing fwd)"
    "list_all ok_field flds" "\<forall>f \<in> set flds. no_crlf (fst f)"
    "no_crlf meth" "no_crlf ver" "\<forall>c \<in> set origin. 32 < c" "32 \<notin> set meth"
proof -
  obtain meth target v where sp: "splitn3 request_line = (meth, Some (target, v))"
    using assms(2) by (auto simp: rewrite_absolute_request_def split: prod.splits option.splits)
  let ?ver = "case v of Some x \<Rightarrow> x | None \<Rightarrow> ustr ''HTTP/1.1''"
  obtain url flds where u: "P target = Some url" and f: "parse_fields headers = Inr flds"
    and fr: "request_framing ?ver (named flds (ustr ''content-length'')) (named flds (ustr ''transfer-encoding'')) = Inr (fw_framing fwd)"
    and h: "fw_head fwd = utf8 (forwarded_text meth (url_origin url) ?ver flds (fw_upgrade fwd))"
    using assms(2) sp by (auto simp: rewrite_absolute_request_def res_simps Let_def split: if_splits)
  have "no_crlf ?ver" using splitn3_parts(3) [OF sp assms(3)]
    by (cases v) (auto simp: ustr_def intro: no_crlf_none)
  moreover have "\<forall>c \<in> set (url_origin url). 32 < c" using url_origin_chars [OF assms(1) u] by blast
  ultimately show thesis
    using that [OF h fr] parse_fields_ok [OF f] assms(4) splitn3_parts(1,2) [OF sp assms(3)] by blast
qed

lemma parsed_forward:
  assumes "parse_request_head T P request = Inr parsed" "pr_forwarded parsed = Some fwd"
  obtains request_line headers host prt where "rewrite_absolute_request P request_line headers = Inr (host, prt, fwd)"
    "no_crlf request_line" "\<forall>h \<in> set headers. no_crlf h"
proof -
  obtain n where n: "find_sub head_end request = Some n" using assms(1) by (auto simp: parse_request_head_def res_simps)
  obtain l hs where sp: "split_crlf (from_utf8_lossy (take n request)) = l # hs"
    by (cases "split_crlf (from_utf8_lossy (take n request))") auto
  then have "rewrite_absolute_request P l hs = Inr (pr_host parsed, pr_port parsed, fwd)"
    using assms n by (auto simp: parse_request_head_def parse_request_line_def res_simps split: list.splits if_splits)
  moreover have "no_crlf w" if "w \<in> set (l # hs)" for w using split_crlf_piece that sp by metis
  ultimately show thesis using that by auto
qed


text \<open>
  What is meant for the proxy stays with the proxy. A forwarded head never carries the proxy credentials nor any other
  header of the hop between the client and the proxy; its one \<open>Connection\<close> header is its last and asks the origin to close.
\<close>

lemma forwarded_head_is_clean:
  assumes "url_laws P" "parse_request_head T P request = Inr parsed" "pr_forwarded parsed = Some fwd"
  shows "\<exists>text kept. fw_head fwd = utf8 text \<and> origin_fields text = Inr (kept @ [close_field (fw_upgrade fwd)])
    \<and> (\<forall>f \<in> set kept. \<not> is_hop_by_hop (fst (snd f)) (fw_upgrade fwd))
    \<and> \<not> list_ex (\<lambda>f. list_ex (eq_ignore_ascii_case (fst (snd f))) [ustr ''proxy-authorization'', ustr ''connection'']) kept"
proof -
  obtain l hs host prt where r: "rewrite_absolute_request P l hs = Inr (host, prt, fwd)" "no_crlf l" "\<forall>h \<in> set hs. no_crlf h"
    using parsed_forward [OF assms(2,3)] .
  obtain meth origin ver flds where h: "fw_head fwd = utf8 (forwarded_text meth origin ver flds (fw_upgrade fwd))"
    and c: "list_all ok_field flds" "\<forall>f \<in> set flds. no_crlf (fst f)" "no_crlf meth" "no_crlf ver"
      "\<forall>c \<in> set origin. 32 < c" "32 \<notin> set meth"
    using rewritten_head [OF assms(1) r] .
  have "\<forall>f \<in> set (filter (forwarded_field flds (fw_upgrade fwd)) flds). \<not> is_hop_by_hop (fst (snd f)) (fw_upgrade fwd)"
    by (auto simp: forwarded_field_def)
  moreover from this have "\<not> list_ex (\<lambda>f. list_ex (eq_ignore_ascii_case (fst (snd f))) [ustr ''proxy-authorization'', ustr ''connection''])
      (filter (forwarded_field flds (fw_upgrade fwd)) flds)"
    by (auto simp: is_hop_by_hop_def list_ex_iff)
  ultimately show ?thesis using h forwarded_text_lines(2) [OF c, of "fw_upgrade fwd"] by blast
qed

subsection \<open>A concrete request\<close>

definition sample_url :: "ustring \<Rightarrow> Url option" where
  "sample_url t = (if t = ustr ''http://h/p'' then Some \<lparr>u_scheme = ustr ''http'', u_host = Some (Domain (ustr ''h'')), u_port = None,
     u_path = ustr ''/p'', u_query = None\<rparr> else None)"

lemma sample_url_laws: "url_laws sample_url"
  by (auto simp: url_laws_def sample_url_def ustr_def)

definition sample_request :: "ustring \<Rightarrow> bytes" where
  "sample_request header = map of_nat (ustr ''GET http://h/p HTTP/1.1'' @ ucrlf @ header @ ucrlf @ ucrlf)"

lemma sample_head:
  "find_sub head_end (sample_request (ustr ''Content-Length: 2'' @ ucrlf @ ustr ''Proxy-Authorization: x'')) = Some 66"
  by (simp add: sample_request_def ustr_def head_end_def starts_with_def)

lemma sample_lines: "split_crlf (ustr ''GET http://h/p HTTP/1.1'' @ ucrlf @ ustr ''Content-Length: 2'' @ ucrlf @ ustr ''Proxy-Authorization: x'')
  = [ustr ''GET http://h/p HTTP/1.1'', ustr ''Content-Length: 2'', ustr ''Proxy-Authorization: x'']"
  by (simp add: ustr_def)

lemmas text_eval = ustr_def eq_ignore_ascii_case_def to_ascii_lowercase_def ascii_lower_def split_whitespace_def is_whitespace_def
  blank_def trim_by_def trim_start_by_def trim_end_by_def split_char_def ascii_digit_def parse_u64_def parse_radix_def digit_val_def

lemma sample_line:
  "\<exists>fwd. parse_request_line sample_url (ustr ''GET http://h/p HTTP/1.1'') [ustr ''Content-Length: 2'', ustr ''Proxy-Authorization: x''] cr
    = Inr \<lparr>pr_host = ustr ''h'', pr_port = 80, pr_credentials = cr, pr_forwarded = Some fwd, pr_leftover = []\<rparr>
    \<and> fw_framing fwd = Length 2 \<and> \<not> fw_upgrade fwd"
  by (simp add: text_eval parse_request_line_def rewrite_absolute_request_def splitn3_def sample_url_def url_host_text_def
      named_def request_framing_def upgrade_requested_def Let_def)

lemma sample_parsed:
  "\<exists>parsed fwd. parse_request_head sample_text sample_url
       (sample_request (ustr ''Content-Length: 2'' @ ucrlf @ ustr ''Proxy-Authorization: x'')) = Inr parsed
     \<and> pr_forwarded parsed = Some fwd \<and> fw_framing fwd = Length 2 \<and> \<not> fw_upgrade fwd"
proof -
  let ?t = "ustr ''GET http://h/p HTTP/1.1'' @ ucrlf @ ustr ''Content-Length: 2'' @ ucrlf @ ustr ''Proxy-Authorization: x''"
  have a: "list_all (\<lambda>c. c < 128) ?t" by (simp add: ustr_def)
  then have "list_all scalar ?t" by (rule list.pred_mono_strong) (rule scalar_ascii)
  then have "from_utf8_lossy (map of_nat ?t) = ?t" using from_utf8_lossy_utf8 [of ?t] unfolding utf8_ascii [OF a] by blast
  moreover have "take 66 (sample_request (ustr ''Content-Length: 2'' @ ucrlf @ ustr ''Proxy-Authorization: x'')) = map of_nat ?t"
    by (simp add: sample_request_def ustr_def)
  ultimately have dec: "from_utf8_lossy (take 66 (sample_request (ustr ''Content-Length: 2'' @ ucrlf @ ustr ''Proxy-Authorization: x''))) = ?t"
    by (simp only:)
  show ?thesis
    using sample_line [of "parse_basic_proxy_auth sample_text [ustr ''Content-Length: 2'', ustr ''Proxy-Authorization: x'']"]
    unfolding parse_request_head_def sample_head ok_or_simps and_then_simps dec sample_lines list.case
    by (auto simp del: parse_basic_proxy_auth.simps)
qed


lemma forwarded_head_is_clean_witness:
  "\<exists>parsed fwd text kept. parse_request_head sample_text sample_url
       (sample_request (ustr ''Content-Length: 2'' @ ucrlf @ ustr ''Proxy-Authorization: x'')) = Inr parsed
     \<and> pr_forwarded parsed = Some fwd \<and> fw_head fwd = utf8 text \<and> origin_fields text = Inr (kept @ [close_field False])"
proof -
  obtain parsed fwd where p: "parse_request_head sample_text sample_url
       (sample_request (ustr ''Content-Length: 2'' @ ucrlf @ ustr ''Proxy-Authorization: x'')) = Inr parsed"
    "pr_forwarded parsed = Some fwd" "fw_upgrade fwd = False" using sample_parsed by blast
  with forwarded_head_is_clean [OF sample_url_laws p(1,2)] show ?thesis unfolding p(3) by blast
qed

end
