(* ===== verification/Http_Proxy.thy ===== *)
theory Http_Proxy
  imports Http_Request
begin

text \<open>
  Responses of \<open>src/http_proxy.rs\<close> and the proxy as a whole: finding and rewriting the response head, forwarding one
  request and its response, the handshake with authentication, and the choice between SOCKS5 and HTTP by the first byte.
\<close>

definition RESPONSE_HEAD_LIMIT :: nat where "RESPONSE_HEAD_LIMIT = 65536"

definition bstr :: "string \<Rightarrow> bytes" where
  "bstr s = map of_nat (ustr s)"

subsection \<open>Response heads\<close>

fun find_end :: "nat \<Rightarrow> bytes \<Rightarrow> nat option" where
  "find_end i [] = None"
| "find_end i (b # bs) =
     (if b = 10 \<and> take 1 bs = [10] then Some (i + 2)
      else if b = 10 \<and> take 2 bs = [13, 10] then Some (i + 3)
      else find_end (i + 1) bs)"

definition find_head_end :: "bytes \<Rightarrow> nat \<Rightarrow> nat option" where
  "find_head_end buffer from = find_end from (drop from buffer)"

abbreviation byte_digit :: "byte \<Rightarrow> bool" where
  "byte_digit b \<equiv> ascii_digit (unat b)"

definition is_interim_response :: "bytes \<Rightarrow> bool res" where
  "is_interim_response head =
     (if 12 \<le> length head \<and> take 5 head = bstr ''HTTP/'' \<and> byte_digit (head ! 5) \<and> head ! 6 = 46 \<and> byte_digit (head ! 7)
         \<and> head ! 8 = 32 \<and> list_all byte_digit (take 3 (drop 9 head))
      then (let status = take 3 (drop 9 head) in Inr (status ! 0 = 49 \<and> status \<noteq> bstr ''101''))
      else Inl (Bail ''HTTP response status line is invalid''))"

definition lower_bytes :: "bytes \<Rightarrow> bytes" where
  "lower_bytes s = map (\<lambda>b. of_nat (ascii_lower (unat b))) s"

definition ascii_space :: "byte \<Rightarrow> bool" where
  "ascii_space b \<longleftrightarrow> b \<in> {32, 9, 10, 12, 13}"

definition head_lines :: "bytes \<Rightarrow> bytes list" where
  "head_lines head =
     filter (\<lambda>l. l \<noteq> []) (map (\<lambda>l. case strip_suffix [13] l of Some t \<Rightarrow> t | None \<Rightarrow> l) (split_on (\<lambda>b. b = 10) head))"

definition name_of :: "bytes \<Rightarrow> bytes option" where
  "name_of line = map_option (\<lambda>i. lower_bytes (take i line)) (position (\<lambda>b. b = 58) line)"

definition close_options :: "bytes list \<Rightarrow> bytes list" where
  "close_options ls =
     concat (map (\<lambda>l. if name_of l = Some (bstr ''connection'')
                      then map (\<lambda>opt. lower_bytes (trim_by ascii_space opt)) (split_on (\<lambda>b. b = 44) (drop 11 l)) else []) ls)"

definition response_dropped :: "bytes list \<Rightarrow> bytes \<Rightarrow> bool" where
  "response_dropped opts nm \<longleftrightarrow>
     nm \<in> {bstr ''connection'', bstr ''keep-alive'', bstr ''proxy-connection''}
     \<or> (nm \<notin> {bstr ''content-length'', bstr ''transfer-encoding''} \<and> nm \<in> set opts)"

fun keep_lines :: "bytes list \<Rightarrow> bool \<Rightarrow> bytes list \<Rightarrow> bytes list" where
  "keep_lines opts keep [] = []"
| "keep_lines opts keep (l # ls) =
     (let keep = (if take 1 l \<noteq> [32] \<and> take 1 l \<noteq> [9]
                  then (case name_of l of None \<Rightarrow> True | Some nm \<Rightarrow> \<not> response_dropped opts nm) else keep) in
      if keep then l # keep_lines opts keep ls else keep_lines opts keep ls)"

definition close_response_head :: "bytes \<Rightarrow> bytes" where
  "close_response_head head =
     (let ls = head_lines head in
      concat (map (\<lambda>l. l @ crlf) (hd ls # keep_lines (close_options (tl ls)) True (tl ls)))
      @ bstr ''Connection: close'' @ crlf @ crlf)"

subsection \<open>Forwarding the response\<close>

lemma find_end_bound: "find_end i bs = Some n \<Longrightarrow> i + 2 \<le> n \<and> n \<le> i + length bs"
proof (induction i bs rule: find_end.induct)
  case (2 i b bs)
  have "1 \<le> length bs" if "take 1 bs = [10]" using that by (cases bs) auto
  moreover have "2 \<le> length bs" if "take 2 bs = [13, 10]" using that by (metis length_Cons length_take list.size(3) min.cobounded1 numeral_2_eq_2)
  ultimately show ?case using 2 by (auto split: if_splits)
qed simp

lemma find_head_end_bound: "find_head_end b from = Some n \<Longrightarrow> 0 < n \<and> n \<le> length b"
  using find_end_bound [of "from" "drop from b" n] by (cases "from \<le> length b") (auto simp: find_head_end_def)

text \<open>
  The state is that of a relay. A step of the loop is a read when the buffer holds no whole head, or it passes on an interim head;
  \<open>Some\<close> is the end of the loop.
\<close>

definition response_read :: "crypto \<Rightarrow> bytes \<Rightarrow> relay_state \<Rightarrow> bytes res \<times> relay_state" where
  "response_read X buffer st =
     (if RESPONSE_HEAD_LIMIT < length buffer then (Inl (Bail ''HTTP response header is too large''), st)
      else case session_read_chunk X (rl_session st, rl_counters st) of
        (Inl e, (s, a)) \<Rightarrow> (Inl e, st\<lparr>rl_session := s, rl_counters := a\<rparr>)
      | (Inr c, (s, a)) \<Rightarrow>
          if c = [] then (Inl (Bail ''HTTP response ended inside its header''), st\<lparr>rl_session := s, rl_counters := a\<rparr>)
          else (Inr (buffer @ c), st\<lparr>rl_session := s, rl_counters := a\<rparr>))"

definition client_write :: "bytes \<Rightarrow> relay_state \<Rightarrow> unit res \<times> relay_state" where
  "client_write b st = (case write_all b (rl_output st) of (r, out) \<Rightarrow> (r, st\<lparr>rl_output := out\<rparr>))"

lemma response_read_chunk:
  assumes "response_read X buffer st = (Inr b, st')"
  shows "\<exists>c. c \<noteq> [] \<and> b = buffer @ c \<and> read_application_chunk X (rl_reader st) = (Inr c, rl_reader st')
    \<and> rl_output st' = rl_output st"
  using assms
  by (auto simp: response_read_def session_read_chunk_def split: if_splits prod.splits sum.splits)

lemma response_read_less:
  "response_read X buffer st = (Inr b, st') \<Longrightarrow> reader_weight (rl_reader st') < reader_weight (rl_reader st)"
  using response_read_chunk [of X buffer st b st'] chunk_consumes by blast

lemma client_write_same: "client_write b st = (r, st') \<Longrightarrow> rl_session st' = rl_session st"
  by (auto simp: client_write_def split: prod.splits)

function forward_response_head :: "crypto \<Rightarrow> bytes \<Rightarrow> nat \<Rightarrow> relay_state \<Rightarrow> unit res \<times> relay_state" where
  "forward_response_head X buffer searched st =
     (case find_head_end buffer searched of
        None \<Rightarrow>
          (case response_read X buffer st of
             (Inl e, st) \<Rightarrow> (Inl e, st)
           | (Inr buffer', st) \<Rightarrow> forward_response_head X buffer' (length buffer - 2) st)
      | Some end_at \<Rightarrow>
          (case is_interim_response (take end_at buffer) of
             Inl e \<Rightarrow> (Inl e, st)
           | Inr True \<Rightarrow>
               (case client_write (take end_at buffer) st of
                  (Inl e, st) \<Rightarrow> (Inl e, st)
                | (Inr _, st) \<Rightarrow> forward_response_head X (drop end_at buffer) 0 st)
           | Inr False \<Rightarrow>
               st_then (client_write (close_response_head (take end_at buffer)) st) (\<lambda>_ st. client_write (drop end_at buffer) st)))"
  by pat_completeness auto
termination
  by (relation "measures [\<lambda>(X, buffer, searched, st). reader_weight (rl_reader st), \<lambda>(X, buffer, searched, st). length buffer]")
    (auto dest!: response_read_less [OF sym] client_write_same [OF sym] find_head_end_bound)

declare forward_response_head.simps [simp del]

lemma download_turn_less:
  "download_turn X st = (None, st') \<Longrightarrow> reader_weight (rl_reader st') < reader_weight (rl_reader st)"
  using download_turn_cases(2) [of X st None st'] chunk_consumes by blast

function download_all :: "crypto \<Rightarrow> relay_state \<Rightarrow> unit res \<times> relay_state" where
  "download_all X st = (case download_turn X st of (Some r, st) \<Rightarrow> (r, st) | (None, st) \<Rightarrow> download_all X st)"
  by pat_completeness auto
termination
  by (relation "measure (\<lambda>(X, st). reader_weight (rl_reader st))") (auto dest!: download_turn_less [OF sym])

declare download_all.simps [simp del]

text \<open>
  Which half of \<open>relay_one_request\<close> ends first, or that the relay fell silent; the state is what the loops that are then cut
  off leave behind.
\<close>

datatype race = UploadFirst relay_state | DownloadFirst relay_state | Silent relay_state

definition relay_one_request ::
  "crypto \<Rightarrow> race \<Rightarrow> nat \<Rightarrow> bool \<Rightarrow> ForwardedRequest \<Rightarrow> bytes \<Rightarrow> source \<Rightarrow> sink \<Rightarrow> snell_session \<Rightarrow> Counters option \<Rightarrow> snell_client
   \<Rightarrow> unit res \<times> relay_state \<times> snell_client" where
  "relay_one_request X race now close_timed_out fwd leftover client output s a c =
     (let (clean, st) = (case race of
        UploadFirst left_at \<Rightarrow>
          (case forward_body (active_send X) (fw_framing fwd) (fw_head fwd) [] (Data leftover # client) (p_writer (s_physical s), a) of
             (Inl e, b) \<Rightarrow> (False, left_at)
           | (Inr _, b) \<Rightarrow>
               (case st_then (forward_response_head X [] 0
                         (relay_start (bs_src b) output (set_writer (fst (bs_sink b)) s) (snd (bs_sink b))))
                       (\<lambda>_ st. download_all X st) of
                  (r, st) \<Rightarrow> (is_ok r, st)))
      | DownloadFirst left_at \<Rightarrow> (False, left_at)
      | Silent left_at \<Rightarrow> (False, left_at)) in
      (if clean then Inr () else Inl (Bail ''HTTP proxy relay ended with an error''), st,
       finish X now close_timed_out clean False (rl_session st) c))"

subsection \<open>The proxy\<close>

definition http_status :: "nat \<Rightarrow> string \<Rightarrow> (string \<times> string) list \<Rightarrow> bytes" where
  "http_status status reason headers =
     utf8 (ustr ''HTTP/1.1 '' @ show_nat status @ [32] @ ustr reason @ ucrlf @ ustr ''Content-Length: 0'' @ ucrlf
       @ ustr ''Connection: close'' @ ucrlf
       @ concat (map (\<lambda>(nm, v). ustr nm @ ustr '': '' @ ustr v @ ucrlf) headers) @ ucrlf)"

definition proxy_authentication_required :: bytes where
  "proxy_authentication_required =
     http_status 407 ''Proxy Authentication Required'' [(''Proxy-Authenticate'', ''Basic realm=\"oixc-proxy\"'')]"

definition http_route :: "text_crates \<Rightarrow> Mode \<Rightarrow> ParsedRequest \<Rightarrow> conn \<Rightarrow> Route res \<times> conn" where
  "http_route T md parsed c =
     (if requires_auth md then
        (case pr_credentials parsed of
           None \<Rightarrow> st_then (send proxy_authentication_required c) (\<lambda>_ c. (Inl (Bail ''HTTP proxy authentication required''), c))
         | Some (username, password) \<Rightarrow>
             (case authenticate T md username password of
                Inr route \<Rightarrow> (Inr route, c)
              | Inl e \<Rightarrow> st_then (send proxy_authentication_required c) (\<lambda>_ c. (Inl e, c))))
      else (case md of Fixed route _ \<Rightarrow> (Inr route, c) | Dynamic _ \<Rightarrow> (Inl (Bail ''unreachable''), c)))"

text \<open>Writing to the session before the relay starts.\<close>

definition session_send :: "crypto \<Rightarrow> bytes \<Rightarrow> snell_session \<times> Counters option \<Rightarrow> unit res \<times> (snell_session \<times> Counters option)" where
  "session_send X content st =
     (case st of (s, a) \<Rightarrow>
        case active_send X content (p_writer (s_physical s), a) of (r, (w, a)) \<Rightarrow> (r, (set_writer w s, a)))"

definition send_leftover :: "crypto \<Rightarrow> bytes \<Rightarrow> snell_session \<times> Counters option \<Rightarrow> unit res \<times> (snell_session \<times> Counters option)" where
  "send_leftover X leftover st = (if leftover \<noteq> [] then session_send X leftover st else (Inr (), st))"

text \<open>What happens on an established session; the first component of a result is \<open>None\<close> if the relay has not ended.\<close>

definition serve_upstream ::
  "crypto \<Rightarrow> tunnel_env \<Rightarrow> race \<Rightarrow> ParsedRequest \<Rightarrow> source \<Rightarrow> conn \<Rightarrow> snell_session \<Rightarrow> snell_client
   \<Rightarrow> (unit res \<times> conn \<times> relay_state option \<times> snell_client) option" where
  "serve_upstream X te race parsed src c s sc =
     (let opaque = (\<lambda>c st.
        case st_then st (\<lambda>_ st. send_leftover X (pr_leftover parsed) st) of
          (Inl e, _) \<Rightarrow> Some (Inl e, c, None, sc)
        | (Inr _, (s, a)) \<Rightarrow>
            (case relay X (te_turns te) (te_now te) (te_close_timeout te) src (c_out c) s a sc of
               None \<Rightarrow> None
             | Some (r, st, sc) \<Rightarrow> Some (r, c\<lparr>c_out := rl_output st\<rparr>, Some st, sc))) in
      case pr_forwarded parsed of
        None \<Rightarrow>
          (case send (bstr ''HTTP/1.1 200 Connection Established'' @ crlf @ crlf) c of
             (Inl e, c) \<Rightarrow> Some (Inl e, c, None, sc)
           | (Inr _, c) \<Rightarrow> opaque c (Inr (), (s, te_counters te)))
      | Some fwd \<Rightarrow>
          if fw_upgrade fwd then opaque c (session_send X (fw_head fwd) (s, te_counters te))
          else
            (case relay_one_request X race (te_now te) (te_close_timeout te) fwd (pr_leftover parsed) src (c_out c) s (te_counters te) sc of
               (r, st, sc) \<Rightarrow> Some (r, c\<lparr>c_out := rl_output st\<rparr>, Some st, sc)))"

definition http_serve ::
  "crypto \<Rightarrow> text_crates \<Rightarrow> (ustring \<Rightarrow> Url option) \<Rightarrow> bool \<Rightarrow> tunnel_env \<Rightarrow> race \<Rightarrow> Mode \<Rightarrow> arena \<Rightarrow> byte \<Rightarrow> conn
   \<Rightarrow> (served \<times> arena) option" where
  "http_serve X T url_parse timed_out te race md h first_byte c =
     (if timed_out then Some (Refused (Bail ''HTTP proxy handshake timed out'') c, h)
      else case read_proxy_request T url_parse first_byte (Data (c_in c) # te_later te) of
        (Inl e, _) \<Rightarrow> Some (Refused e (snd (send (http_status 400 ''Bad Request'' []) c)), h)
      | (Inr parsed, src) \<Rightarrow>
          (case http_route T md parsed c of
             (Inl e, c) \<Rightarrow> Some (Refused e c, h)
           | (Inr route, c) \<Rightarrow>
               (case clients h (r_client route) of
                  None \<Rightarrow> None
                | Some sc \<Rightarrow>
                    (case dial_tcp X (pr_host parsed) (pr_port parsed) (te_clock te) (te_probe te) (te_generation te) (te_open te) sc of
                       (Inl _, sc) \<Rightarrow>
                         (case send (http_status 502 ''Bad Gateway'' []) c of
                            (r, c) \<Rightarrow> Some (Tunnel (case r of Inl e \<Rightarrow> Inl e | Inr _ \<Rightarrow> Inl (Bail ''open upstream tunnel'')) c None,
                              h\<lparr>clients := (clients h)(r_client route \<mapsto> sc)\<rparr>))
                     | (Inr s, sc) \<Rightarrow>
                         (case serve_upstream X te race parsed src c s sc of
                            None \<Rightarrow> None
                          | Some (r, c, st, sc) \<Rightarrow> Some (Tunnel r c st, h\<lparr>clients := (clients h)(r_client route \<mapsto> sc)\<rparr>))))))"

text \<open>\<open>serve_connection\<close>; the handshake timeout is in nanoseconds, \<open>late_greeting\<close> and \<open>late_handshake\<close> are its elapsing.\<close>

definition serve_connection ::
  "crypto \<Rightarrow> text_crates \<Rightarrow> (ustring \<Rightarrow> Url option) \<Rightarrow> nat \<Rightarrow> bool \<Rightarrow> bool \<Rightarrow> tunnel_env \<Rightarrow> udp_env \<Rightarrow> race \<Rightarrow> Mode \<Rightarrow> UdpRelay
   \<Rightarrow> arena \<Rightarrow> conn \<Rightarrow> (served \<times> UdpRelay \<times> arena) option" where
  "serve_connection X T url_parse hs_timeout late_greeting late_handshake te ue race md r h c =
     (if hs_timeout = 0 \<or> secs 120 < hs_timeout then Some (Refused (Bail ''inbound handshake timeout is invalid'') c, r, h)
      else if late_greeting then Some (Refused (Bail ''inbound handshake timed out'') c, r, h)
      else case context_err ''read inbound greeting'' (recv_u8 c) of
        (Inl e, c) \<Rightarrow> Some (Refused e c, r, h)
      | (Inr first, c) \<Rightarrow>
          if first = VERSION then serve_socks5 X T late_handshake te ue md r h first c
          else if ascii_alphabetic (unat first) then
            map_option (\<lambda>(s, h). (s, r, h)) (http_serve X T url_parse late_handshake te race md h first c)
          else Some (Refused (Bail ''unrecognized inbound protocol'') c, r, h))"

subsection \<open>The response does not depend on its pieces\<close>

text \<open>The reference: on the whole response, interim heads pass as they are and the final head is rewritten.\<close>

function ref_response :: "bytes \<Rightarrow> bytes option" where
  "ref_response d =
     (case find_head_end d 0 of
        None \<Rightarrow> None
      | Some n \<Rightarrow>
          (case is_interim_response (take n d) of
             Inl _ \<Rightarrow> None
           | Inr True \<Rightarrow> map_option (\<lambda>r. take n d @ r) (ref_response (drop n d))
           | Inr False \<Rightarrow> Some (close_response_head (take n d) @ drop n d)))"
  by pat_completeness auto
termination by (relation "measure length") (auto dest!: find_head_end_bound)

declare ref_response.simps [simp del]

lemma find_end_extend: "find_end i b = Some n \<Longrightarrow> find_end i (b @ rest) = Some n"
proof (induction i b rule: find_end.induct)
  case (2 i x b)
  consider "b = []" | y where "b = [y]" | y z t where "b = y # z # t" by (cases b; cases "tl b") auto
  then show ?case using 2 by cases (auto split: if_splits)
qed simp

lemma find_end_resume:
  "find_end i b = None \<Longrightarrow> find_end i (b @ rest) = find_end (i + (length b - 2)) (drop (length b - 2) b @ rest)"
proof (induction i b rule: find_end.induct)
  case (2 i x b)
  consider "b = []" | y where "b = [y]" | y z t where "b = y # z # t" by (cases b; cases "tl b") auto
  then show ?case
  proof cases
    case (3 y z t)
    then have "find_end (i + 1) b = None" "\<not> (x = 10 \<and> (y = 10 \<or> y = 13 \<and> z = 10))"
      using "2.prems" by (auto split: if_splits)
    then show ?thesis using "2.IH" 3 by (auto simp: numeral_2_eq_2)
  qed auto
qed simp

text \<open>No head ends in the part of the buffer that has been searched, however the buffer goes on.\<close>

definition searched_ok :: "bytes \<Rightarrow> nat \<Rightarrow> bool" where
  "searched_ok buffer searched \<longleftrightarrow> searched \<le> length buffer - 2
     \<and> (\<forall>rest. find_head_end (buffer @ rest) 0 = find_head_end (buffer @ rest) searched)"

lemma searched_ok_start: "searched_ok buffer 0"
  by (simp add: searched_ok_def)

lemma searched_ok_rest:
  assumes "searched_ok buffer searched" "find_head_end buffer searched = None"
  shows "searched_ok (buffer @ c) (length buffer - 2)"
proof -
  have le: "searched \<le> length buffer - 2" using assms(1) by (simp add: searched_ok_def)
  have "find_head_end (buffer @ m) 0 = find_head_end (buffer @ m) (length buffer - 2)" for m
  proof -
    have "find_head_end (buffer @ m) 0 = find_end searched (drop searched buffer @ m)"
      using assms(1) le by (simp add: searched_ok_def find_head_end_def)
    also have "\<dots> = find_end (searched + (length (drop searched buffer) - 2)) (drop (length (drop searched buffer) - 2) (drop searched buffer) @ m)"
      using assms(2) by (intro find_end_resume) (simp add: find_head_end_def)
    also have "\<dots> = find_head_end (buffer @ m) (length buffer - 2)"
    proof -
      have "length buffer - searched - 2 + searched = length buffer - 2" using le by linarith
      then show ?thesis using le by (simp add: find_head_end_def add.commute)
    qed
    finally show ?thesis .
  qed
  then show ?thesis by (auto simp: searched_ok_def)
qed

lemma searched_ok_found:
  assumes "searched_ok buffer searched" "find_head_end buffer searched = Some n"
  shows "find_head_end (buffer @ rest) 0 = Some n" "n \<le> length buffer"
proof -
  have "find_end searched (drop searched buffer @ rest) = Some n"
    using assms(2) by (intro find_end_extend) (simp add: find_head_end_def)
  moreover have "searched - length buffer = 0" using assms(1) unfolding searched_ok_def by linarith
  ultimately show "find_head_end (buffer @ rest) 0 = Some n"
    using assms(1) by (simp add: searched_ok_def find_head_end_def)
  show "n \<le> length buffer" using find_head_end_bound [OF assms(2)] by simp
qed

lemma client_write_accepted:
  "client_write b st = (Inr x, st') \<Longrightarrow> accepted (rl_output st') = accepted (rl_output st) @ b \<and> rl_session st' = rl_session st"
  by (auto simp: client_write_def dest!: write_all_accepted split: prod.splits)

lemma response_head_forwarded:
  "forward_response_head X buffer searched st = (Inr x, st') \<Longrightarrow> searched_ok buffer searched \<Longrightarrow>
     \<exists>ds out. chunk_reads X ds (rl_reader st) (rl_reader st') \<and> accepted (rl_output st') = accepted (rl_output st) @ out
       \<and> (\<forall>rest. ref_response (buffer @ concat ds @ rest) = Some (out @ rest))"
proof (induction X buffer searched st rule: forward_response_head.induct)
  case (1 X buffer searched st)
  show ?case
  proof (cases "find_head_end buffer searched")
    case None
    then obtain b st1 where r: "response_read X buffer st = (Inr b, st1)"
      and f: "forward_response_head X b (length buffer - 2) st1 = (Inr x, st')"
      using "1.prems"(1) by (subst (asm) forward_response_head.simps) (auto split: prod.splits sum.splits)
    obtain c where c: "c \<noteq> []" "b = buffer @ c" "read_application_chunk X (rl_reader st) = (Inr c, rl_reader st1)"
      "rl_output st1 = rl_output st" using response_read_chunk [OF r] by blast
    have "searched_ok b (length buffer - 2)" unfolding c(2) by (rule searched_ok_rest [OF "1.prems"(2) None])
    from "1.IH"(1) [OF None r [symmetric] refl f this] obtain ds out where
      "chunk_reads X ds (rl_reader st1) (rl_reader st')" "accepted (rl_output st') = accepted (rl_output st1) @ out"
      "\<forall>rest. ref_response (b @ concat ds @ rest) = Some (out @ rest)" by blast
    then show ?thesis using c by (intro exI [of _ "c # ds"] exI [of _ out]) simp
  next
    case (Some n)
    note found = searched_ok_found [OF "1.prems"(2) Some]
    show ?thesis
    proof (cases "is_interim_response (take n buffer)")
      case (Inr interim)
      show ?thesis
      proof (cases interim)
        case True
        then obtain st1 where w: "client_write (take n buffer) st = (Inr (), st1)"
          and f: "forward_response_head X (drop n buffer) 0 st1 = (Inr x, st')"
          using "1.prems"(1) Some Inr by (subst (asm) forward_response_head.simps) (auto split: prod.splits sum.splits)
        from "1.IH"(2) [OF Some Inr eqTrueI [OF True] w [symmetric] refl f searched_ok_start] obtain ds out where
          d: "chunk_reads X ds (rl_reader st1) (rl_reader st')" "accepted (rl_output st') = accepted (rl_output st1) @ out"
          "\<forall>rest. ref_response (drop n buffer @ concat ds @ rest) = Some (out @ rest)" by blast
        have "ref_response (buffer @ concat ds @ rest) = Some ((take n buffer @ out) @ rest)" for rest
          using found Inr True d(3) by (subst ref_response.simps) simp
        then show ?thesis using d client_write_accepted [OF w]
          by (intro exI [of _ ds] exI [of _ "take n buffer @ out"]) simp
      next
        case False
        then obtain st1 where w: "client_write (close_response_head (take n buffer)) st = (Inr (), st1)"
          "client_write (drop n buffer) st1 = (Inr x, st')"
          using "1.prems"(1) Some Inr by (subst (asm) forward_response_head.simps) (auto simp: res_simps)
        have "ref_response (buffer @ rest) = Some ((close_response_head (take n buffer) @ drop n buffer) @ rest)" for rest
          using found Inr False by (subst ref_response.simps) simp
        then show ?thesis using client_write_accepted [OF w(1)] client_write_accepted [OF w(2)]
          by (intro exI [of _ "[]"] exI [of _ "close_response_head (take n buffer) @ drop n buffer"]) simp
      qed
    qed (use "1.prems"(1) Some in \<open>subst (asm) forward_response_head.simps, simp\<close>)
  qed
qed

lemma download_all_finishes:
  "download_all X st = (Inr x, st') \<Longrightarrow> \<exists>ds r. chunk_reads X ds (rl_reader st) r \<and> read_application_chunk X r = (Inr [], rl_reader st')
    \<and> delivered (rl_output st') = accepted (rl_output st) @ concat ds \<and> shut (rl_output st')"
proof (induction X st rule: download_all.induct)
  case (1 X st)
  obtain r st1 where d: "download_turn X st = (r, st1)" by fastforce
  show ?case
  proof (cases r)
    case None
    then have "download_all X st1 = (Inr x, st')" using "1.prems" d by (subst (asm) download_all.simps) simp
    from "1.IH" [OF d [symmetric] None this] obtain ds r' where
      "chunk_reads X ds (rl_reader st1) r'" "read_application_chunk X r' = (Inr [], rl_reader st')"
      "delivered (rl_output st') = accepted (rl_output st1) @ concat ds" "shut (rl_output st')" by blast
    moreover obtain c where "c \<noteq> []" "read_application_chunk X (rl_reader st) = (Inr c, rl_reader st1)"
      "accepted (rl_output st1) = accepted (rl_output st) @ c" using download_turn_cases(2) [OF d None] by blast
    ultimately show ?thesis by (intro exI [of _ "c # ds"] exI [of _ r']) simp
  next
    case (Some q)
    then have "q = Inr x" "st' = st1" using "1.prems" d by (subst (asm) download_all.simps, simp)+
    then show ?thesis using download_turn_cases(3) [OF d, of x] Some by (intro exI [of _ "[]"]) simp
  qed
qed

lemma response_read_writer: "response_read X buffer st = (r, st') \<Longrightarrow> rl_writer st' = rl_writer st"
  by (auto simp: response_read_def session_read_chunk_def split: if_splits prod.splits sum.splits)

lemma response_head_writer: "forward_response_head X buffer searched st = (Inr x, st') \<Longrightarrow> rl_writer st' = rl_writer st"
proof (induction X buffer searched st rule: forward_response_head.induct)
  case (1 X buffer searched st)
  show ?case
  proof (cases "find_head_end buffer searched")
    case None
    then obtain b st1 where r: "response_read X buffer st = (Inr b, st1)"
      and f: "forward_response_head X b (length buffer - 2) st1 = (Inr x, st')"
      using "1.prems" by (subst (asm) forward_response_head.simps) (auto split: prod.splits sum.splits)
    from "1.IH"(1) [OF None r [symmetric] refl f] response_read_writer [OF r] show ?thesis by simp
  next
    case (Some n)
    then obtain interim where Inr: "is_interim_response (take n buffer) = Inr interim"
      using "1.prems" by (subst (asm) forward_response_head.simps) (auto split: sum.splits)
    show ?thesis
    proof (cases interim)
      case True
      then obtain st1 where w: "client_write (take n buffer) st = (Inr (), st1)"
        and f: "forward_response_head X (drop n buffer) 0 st1 = (Inr x, st')"
        using "1.prems" Some Inr by (subst (asm) forward_response_head.simps) (auto split: prod.splits sum.splits)
      from "1.IH"(2) [OF Some Inr eqTrueI [OF True] w [symmetric] refl f] client_write_same [OF w] show ?thesis by simp
    next
      case False
      then show ?thesis using "1.prems" Some Inr
        by (subst (asm) forward_response_head.simps) (auto simp: res_simps dest!: client_write_same)
    qed
  qed
qed

lemma download_all_writer: "download_all X st = (r, st') \<Longrightarrow> rl_writer st' = rl_writer st"
proof (induction X st rule: download_all.induct)
  case (1 X st)
  obtain q st1 where d: "download_turn X st = (q, st1)" by fastforce
  show ?case using "1.prems" "1.IH" [OF d [symmetric]] download_turn_cases(1) [OF d] d
    by (subst (asm) download_all.simps) (auto split: option.splits)
qed

lemma chunk_reads_append:
  "chunk_reads X ds r r1 \<Longrightarrow> chunk_reads X es r1 r2 \<Longrightarrow> chunk_reads X (ds @ es) r r2"
  by (induction ds arbitrary: r) (auto split: prod.splits sum.splits)

text \<open>
  C18: A forwarded request that ends without an error is complete. The upstream was sent the head and exactly the body
  which the framing delimits in what the client sent, and the client has received the whole response, however it arrived in
  pieces: its interim heads as they were, its final head rewritten to close the connection, and its body unchanged.
\<close>

theorem one_request_is_complete:
  assumes "relay_one_request X race now close_timed_out fwd leftover client output s a c = (Inr (), st, c')"
  shows "(\<exists>body rest cs. ref_body (fw_framing fwd) (leftover @ source_bytes client) = Some (body, rest)
        \<and> concat cs = fw_head fwd @ body \<and> write_chunks X cs (p_writer (s_physical s)) = (Inr (), rl_writer st))
    \<and> (\<exists>n data out. read_chunks X n (p_reader (s_physical s)) = (Some (Inr data), rl_reader st)
        \<and> ref_response data = Some out \<and> delivered (rl_output st) = accepted output @ out \<and> shut (rl_output st))"
proof -
  let ?k = "(p_writer (s_physical s), a)"
  obtain left_at where race: "race = UploadFirst left_at"
    using assms by (cases race) (auto simp: relay_one_request_def)
  obtain x b where fb: "forward_body (active_send X) (fw_framing fwd) (fw_head fwd) [] (Data leftover # client) ?k = (Inr x, b)"
    using assms race by (auto simp: relay_one_request_def Let_def split: prod.splits sum.splits if_splits)
  let ?st0 = "relay_start (bs_src b) output (set_writer (fst (bs_sink b)) s) (snd (bs_sink b))"
  obtain st1 where hd: "forward_response_head X [] 0 ?st0 = (Inr (), st1)" and dl: "download_all X st1 = (Inr (), st)"
  proof -
    obtain r st2 where t: "st_then (forward_response_head X [] 0 ?st0) (\<lambda>_ st. download_all X st) = (r, st2)" by fastforce
    then have "r = Inr ()" "st2 = st" using assms race fb
      by (cases r; auto simp: relay_one_request_def Let_def split: if_splits)+
    then show thesis using t that by (auto simp: res_simps)
  qed
  have st0: "rl_reader ?st0 = p_reader (s_physical s)" "rl_output ?st0 = output" "rl_writer ?st0 = fst (bs_sink b)"
    by (simp_all add: relay_start_def set_writer_def)
  obtain ds out where d: "chunk_reads X ds (p_reader (s_physical s)) (rl_reader st1)" "accepted (rl_output st1) = accepted output @ out"
    "\<forall>rest. ref_response (concat ds @ rest) = Some (out @ rest)"
    using response_head_forwarded [OF hd searched_ok_start] unfolding st0 by auto
  obtain es r where e: "chunk_reads X es (rl_reader st1) r" "read_application_chunk X r = (Inr [], rl_reader st)"
    "delivered (rl_output st) = accepted (rl_output st1) @ concat es" "shut (rl_output st)"
    using download_all_finishes [OF dl] by blast
  have "\<exists>n. read_chunks X n (p_reader (s_physical s)) = (Some (Inr (concat (ds @ es))), rl_reader st)"
    using chunk_reads_all [OF chunk_reads_append [OF d(1) e(1)] e(2)] by blast
  moreover have "ref_response (concat (ds @ es)) = Some (out @ concat es)" using d(3) by simp
  moreover have "delivered (rl_output st) = accepted output @ out @ concat es" using d(2) e(3) by simp
  moreover have "rl_writer st = fst (bs_sink b)"
    using response_head_writer [OF hd] download_all_writer [OF dl] st0(3) by simp
  moreover obtain body where "ref_body (fw_framing fwd) (leftover @ source_bytes client) = Some (body, avail b)"
    "active_wrote X ?k (bs_sink b) (fw_head fwd @ body)"
    using active.forward_body_sound [OF fb] by auto
  ultimately show ?thesis using e(4) unfolding active_wrote_def fst_conv by metis
qed

subsection \<open>A concrete request\<close>

lemma client_write_reliable:
  "reliable (rl_output st) \<Longrightarrow> \<exists>st'. client_write b st = (Inr (), st') \<and> reliable (rl_output st') \<and> rl_session st' = rl_session st"
  by (simp add: client_write_def write_all_reliable)

lemma response_completes:
  "read_chunks X n (rl_reader st) = (Some (Inr data), r') \<Longrightarrow> reliable (rl_output st) \<Longrightarrow> searched_ok buffer searched
    \<Longrightarrow> ref_response (buffer @ data) \<noteq> None \<Longrightarrow> length (buffer @ data) \<le> RESPONSE_HEAD_LIMIT
    \<Longrightarrow> \<exists>st' m d. forward_response_head X buffer searched st = (Inr (), st') \<and> reliable (rl_output st')
         \<and> read_chunks X m (rl_reader st') = (Some (Inr d), r')"
proof (induction X buffer searched st arbitrary: n data rule: forward_response_head.induct)
  case (1 X buffer searched st)
  show ?case
  proof (cases "find_head_end buffer searched")
    case None
    have "find_head_end (buffer @ []) 0 = find_head_end (buffer @ []) searched"
      using "1.prems"(3) unfolding searched_ok_def by blast
    then have none: "ref_response buffer = None" using None by (subst ref_response.simps) simp
    obtain k c r1 where k: "n = Suc k" "read_application_chunk X (rl_reader st) = (Inr c, r1)"
      using "1.prems"(1) by (cases n) (auto split: prod.splits sum.splits)
    have ne: "c \<noteq> []" using "1.prems"(1,4) k none by auto
    obtain d where d: "read_chunks X k r1 = (Some (Inr d), r')" "data = c @ d"
      using "1.prems"(1) k ne by (auto split: prod.splits sum.splits option.splits)
    obtain st1 where r: "response_read X buffer st = (Inr (buffer @ c), st1)" "rl_reader st1 = r1" "rl_output st1 = rl_output st"
      using k(2) ne "1.prems"(5) by (simp add: response_read_def session_read_chunk_def)
    have "\<exists>st' m d. forward_response_head X (buffer @ c) (length buffer - 2) st1 = (Inr (), st') \<and> reliable (rl_output st')
        \<and> read_chunks X m (rl_reader st') = (Some (Inr d), r')"
      by (rule "1.IH"(1) [OF None r(1) [symmetric] refl]) (use d r searched_ok_rest [OF "1.prems"(3) None] "1.prems" in simp_all)
    then show ?thesis using None r(1) by (subst forward_response_head.simps) simp
  next
    case (Some i)
    note found = searched_ok_found [OF "1.prems"(3) Some]
    obtain interim where Inr: "is_interim_response (take i buffer) = Inr interim"
      using "1.prems"(4) found by (subst (asm) ref_response.simps) (auto split: sum.splits)
    show ?thesis
    proof (cases interim)
      case True
      obtain st1 where w: "client_write (take i buffer) st = (Inr (), st1)" "reliable (rl_output st1)" "rl_session st1 = rl_session st"
        using client_write_reliable [OF "1.prems"(2)] by blast
      have "ref_response (drop i buffer @ data) \<noteq> None"
        using "1.prems"(4) found Inr True by (subst (asm) ref_response.simps) auto
      then have "\<exists>st' m d. forward_response_head X (drop i buffer) 0 st1 = (Inr (), st') \<and> reliable (rl_output st')
          \<and> read_chunks X m (rl_reader st') = (Some (Inr d), r')"
        using "1.prems"(1,5) w searched_ok_start
        by (intro "1.IH"(2) [OF Some Inr eqTrueI [OF True] w(1) [symmetric] refl]) auto
      then show ?thesis using Some Inr True w(1) by (subst forward_response_head.simps) simp
    next
      case False
      obtain st1 where w: "client_write (close_response_head (take i buffer)) st = (Inr (), st1)" "reliable (rl_output st1)"
        "rl_session st1 = rl_session st" using client_write_reliable [OF "1.prems"(2)] by blast
      obtain st2 where w2: "client_write (drop i buffer) st1 = (Inr (), st2)" "reliable (rl_output st2)" "rl_session st2 = rl_session st1"
        using client_write_reliable [OF w(2)] by blast
      have "forward_response_head X buffer searched st = (Inr (), st2)"
        using Some Inr False w w2 by (subst forward_response_head.simps) simp
      then show ?thesis using w w2 "1.prems"(1) by metis
    qed
  qed
qed

lemma download_completes:
  "read_chunks X n (rl_reader st) = (Some (Inr d), r') \<Longrightarrow> reliable (rl_output st) \<Longrightarrow> \<exists>st'. download_all X st = (Inr (), st')"
proof (induction n arbitrary: st d)
  case (Suc n)
  obtain c r1 where c: "read_application_chunk X (rl_reader st) = (Inr c, r1)"
    using Suc.prems(1) by (auto split: prod.splits sum.splits)
  obtain st' where st': "download_turn X st = (if c = [] then Some (Inr ()) else None, st')" "rl_reader st' = r1"
    "reliable (rl_output st')" using download_turn_chunk [OF c Suc.prems(2)] by blast
  show ?case
  proof (cases "c = []")
    case True
    then show ?thesis using st' by (subst download_all.simps) simp
  next
    case False
    then obtain d' where "read_chunks X n (rl_reader st') = (Some (Inr d'), r')"
      using Suc.prems(1) c st'(2) by (auto split: prod.splits option.splits sum.splits)
    with Suc.IH [OF this st'(3)] st' False show ?thesis by (subst download_all.simps) simp
  qed
qed simp

lemma write_payload_total:
  assumes "seal_total X" "reliable (rw_writer w)"
  shows "\<exists>w'. write_payload X content w = (Inr (), w')"
proof -
  obtain f w1 where "payload_loop X (chunks MAX_RECORD_PAYLOAD_SIZE content) [] w = (Inr f, w1)" "reliable (rw_writer w1)"
    using payload_loop_total [OF assms, of "chunks MAX_RECORD_PAYLOAD_SIZE content" "[]"] chunks_bounds by blast
  then show ?thesis using write_and_flush_reliable [of w1 f "''write Snell record''"] by (auto simp: write_payload_def)
qed

definition sample_response :: bytes where
  "sample_response = bstr ''HTTP/1.1 200'' @ [10, 10, 104, 105]"

lemma sample_response_ref: "ref_response sample_response = Some (bstr ''HTTP/1.1 200'' @ crlf @ bstr ''Connection: close'' @ crlf @ crlf @ [104, 105])"
proof -
  have f: "find_head_end sample_response 0 = Some 14"
    by (simp add: sample_response_def find_head_end_def bstr_def ustr_def)
  have h: "take 14 sample_response = bstr ''HTTP/1.1 200'' @ [10, 10]" "drop 14 sample_response = [104, 105]"
    by (simp_all add: sample_response_def bstr_def ustr_def)
  have i: "is_interim_response (bstr ''HTTP/1.1 200'' @ [10, 10]) = Inr False"
    by (simp add: is_interim_response_def bstr_def ustr_def ascii_digit_def)
  have c: "close_response_head (bstr ''HTTP/1.1 200'' @ [10, 10]) = bstr ''HTTP/1.1 200'' @ crlf @ bstr ''Connection: close'' @ crlf @ crlf"
    by (simp add: close_response_head_def head_lines_def bstr_def ustr_def strip_suffix_def Let_def)
  show ?thesis by (subst ref_response.simps) (simp add: f h i c)
qed

theorem one_request_is_complete_witness:
  "\<exists>race bs st c'. relay_one_request sample_crypto race 0 False \<lparr>fw_head = [71], fw_framing = Empty, fw_upgrade = False\<rparr> [] [] fresh_sink
      (demo_session (reader_over (reader_new bs [112]))) None demo_client = (Inr (), st, c')
    \<and> delivered (rl_output st) = bstr ''HTTP/1.1 200'' @ crlf @ bstr ''Connection: close'' @ crlf @ crlf @ [104, 105]"
proof -
  let ?fs = "[(None, 0 # sample_response, 0)]" and ?fwd = "\<lparr>fw_head = [71], fw_framing = Empty, fw_upgrade = False\<rparr>"
  have "\<exists>bs w'. encode_frames sample_crypto (?fs @ [(None, [], 0)]) demo_writer = (Inr bs, w')"
    by (simp add: encode_frame_append_def MAX_RECORD_PAYLOAD_SIZE_def seal_def sample_crypto_def
        fill_random_def case_prod_unfold Let_def sample_response_def bstr_def ustr_def)
  then obtain bs w' where e: "encode_frames sample_crypto (?fs @ [(None, [], 0)]) demo_writer = (Inr bs, w')" by blast
  let ?r = "reader_over (reader_new bs [112])" and ?s = "demo_session (reader_over (reader_new bs [112]))"
  have "\<exists>r'. read_chunks sample_crypto (length sample_response + 2) ?r = (Some (Inr sample_response), r') \<and> server_eof r'
    \<and> rr_reader (records r') = [] \<and> in_step sample_crypto w' (records r') \<and> unread r' = []"
    by (rule session_stream [OF sample_aead_laws _ _ e])
      (simp_all add: reader_over_def demo_in_step frame_payload_def, simp add: reader_new_def)
  then obtain r' where r': "read_chunks sample_crypto (length sample_response + 2) ?r = (Some (Inr sample_response), r')" by blast
  obtain w1 where w1: "write_payload sample_crypto [71] demo_writer = (Inr (), w1)"
    using write_payload_total [OF sample_seal_total, of demo_writer] by (auto simp: demo_writer_def)
  let ?a = "record_bytes TcpUpload 1 None"
  have fb: "forward_body (active_send sample_crypto) Empty [71] [] [Data []] (p_writer (s_physical ?s), None)
      = (Inr (), \<lparr>bs_buf = [], bs_src = [Data []], bs_out = [], bs_sink = (w1, ?a)\<rparr>)"
    using w1 by (simp add: forward_body_def send_output_def active_send_def write_application_def demo_session_def)
  let ?st0 = "relay_start [Data []] fresh_sink (set_writer w1 ?s) ?a"
  have st0: "rl_reader ?st0 = ?r" "reliable (rl_output ?st0)" by (simp_all add: relay_start_def demo_session_def set_writer_def)
  have "length sample_response \<le> RESPONSE_HEAD_LIMIT"
    by (simp add: sample_response_def bstr_def ustr_def RESPONSE_HEAD_LIMIT_def)
  then obtain st1 m d where "forward_response_head sample_crypto [] 0 ?st0 = (Inr (), st1)" "reliable (rl_output st1)"
    "read_chunks sample_crypto m (rl_reader st1) = (Some (Inr d), r')"
    using response_completes [of sample_crypto "length sample_response + 2" ?st0 sample_response r' "[]" 0] r' st0 searched_ok_start
      sample_response_ref by (metis append_Nil option.distinct(1))
  moreover from this obtain st where "download_all sample_crypto st1 = (Inr (), st)" using download_completes by blast
  ultimately obtain c' where ok: "relay_one_request sample_crypto (UploadFirst ?st0) 0 False ?fwd [] [] fresh_sink ?s None demo_client = (Inr (), st, c')"
    using fb by (simp add: relay_one_request_def)
  from one_request_is_complete [OF this] obtain n data out where
    "read_chunks sample_crypto n (p_reader (s_physical ?s)) = (Some (Inr data), rl_reader st)" "ref_response data = Some out"
    "delivered (rl_output st) = accepted fresh_sink @ out" by blast
  moreover from this have "data = sample_response" using read_chunks_unique [OF r', of n data] by (simp add: demo_session_def)
  ultimately have "delivered (rl_output st) = bstr ''HTTP/1.1 200'' @ crlf @ bstr ''Connection: close'' @ crlf @ crlf @ [104, 105]"
    by (simp add: sample_response_ref)
  with ok show ?thesis by blast
qed

subsection \<open>Bare line feeds\<close>

definition bare_lf_header :: ustring where
  "bare_lf_header = ustr ''X: a'' @ [10] @ ustr ''Transfer-Encoding: chunked''"

lemma bare_lf_head: "find_sub head_end (sample_request bare_lf_header) = Some 56"
  by (simp add: sample_request_def bare_lf_header_def ustr_def head_end_def starts_with_def)

lemma bare_lf_line:
  "parse_request_line sample_url (ustr ''GET http://h/p HTTP/1.1'') [bare_lf_header] cr
    = Inr \<lparr>pr_host = ustr ''h'', pr_port = 80, pr_credentials = cr,
        pr_forwarded = Some \<lparr>fw_head = utf8 (ustr ''GET /p HTTP/1.1'' @ ucrlf @ bare_lf_header @ ucrlf @ ustr ''Connection: close'' @ ucrlf @ ucrlf),
          fw_framing = Empty, fw_upgrade = False\<rparr>, pr_leftover = []\<rparr>"
  by (simp add: text_eval parse_request_line_def rewrite_absolute_request_def splitn3_def sample_url_def url_host_text_def bare_lf_header_def
      named_def request_framing_def upgrade_requested_def Let_def forwarded_text_def forwarded_field_def is_hop_by_hop_def is_framing_header_def url_origin_def)

text \<open>
  C19: The proxy does not look for bare line feeds. A request whose header holds a line feed that is no line end for the
  proxy is forwarded as it is: the proxy takes it to have no body, while for a recipient that accepts a bare line feed as a line end, as
  the proxy itself does in responses, the forwarded head announces a chunked body.
\<close>

theorem bare_lf_hides_framing:
  "\<exists>parsed fwd. parse_request_head sample_text sample_url (sample_request bare_lf_header) = Inr parsed
     \<and> pr_forwarded parsed = Some fwd \<and> fw_framing fwd = Empty
     \<and> bstr ''Transfer-Encoding: chunked'' \<in> set (head_lines (fw_head fwd))"
proof -
  let ?t = "ustr ''GET http://h/p HTTP/1.1'' @ ucrlf @ bare_lf_header"
  let ?f = "ustr ''GET /p HTTP/1.1'' @ ucrlf @ bare_lf_header @ ucrlf @ ustr ''Connection: close'' @ ucrlf @ ucrlf"
  have a: "list_all (\<lambda>c. c < 128) ?t" by (simp add: ustr_def bare_lf_header_def)
  then have "list_all scalar ?t" by (rule list.pred_mono_strong) (rule scalar_ascii)
  then have "from_utf8_lossy (map of_nat ?t) = ?t" using from_utf8_lossy_utf8 [of ?t] unfolding utf8_ascii [OF a] by blast
  moreover have "take 56 (sample_request bare_lf_header) = map of_nat ?t"
    by (simp add: sample_request_def ustr_def bare_lf_header_def)
  ultimately have dec: "from_utf8_lossy (take 56 (sample_request bare_lf_header)) = ?t" by (simp only:)
  have sp: "split_crlf ?t = [ustr ''GET http://h/p HTTP/1.1'', bare_lf_header]" by (simp add: ustr_def bare_lf_header_def)
  have "list_all (\<lambda>c. c < 128) ?f" by (simp add: ustr_def bare_lf_header_def)
  then have "utf8 ?f = map of_nat ?f" by (rule utf8_ascii)
  moreover have "bstr ''Transfer-Encoding: chunked'' \<in> set (head_lines (map of_nat ?f))"
    by (simp add: head_lines_def ustr_def bstr_def bare_lf_header_def strip_suffix_def)
  ultimately have "bstr ''Transfer-Encoding: chunked'' \<in> set (head_lines (utf8 ?f))" by simp
  then show ?thesis
    unfolding parse_request_head_def bare_lf_head ok_or_simps and_then_simps dec sp list.case bare_lf_line by simp
qed

subsection \<open>Authentication\<close>

lemma http_served_authenticates:
  assumes "http_serve X T url_parse timed_out te race md h first_byte c = Some (s, h')" "requires_auth md"
  shows "(is_refused s \<and> h' = h)
    \<or> (\<exists>parsed src u p route. read_proxy_request T url_parse first_byte (Data (c_in c) # te_later te) = (Inr parsed, src)
        \<and> pr_credentials parsed = Some (u, p) \<and> authenticate T md u p = Inr route
        \<and> (\<forall>a. a \<noteq> r_client route \<longrightarrow> clients h' a = clients h a))"
proof (cases "is_refused s")
  case True
  then show ?thesis using assms(1)
    by (auto simp: http_serve_def split: if_splits sum.splits option.splits prod.splits)
next
  case False
  obtain pr src where r: "read_proxy_request T url_parse first_byte (Data (c_in c) # te_later te) = (pr, src)" by fastforce
  then obtain parsed where p: "pr = Inr parsed" using assms(1) False by (cases pr) (auto simp: http_serve_def split: if_splits)
  obtain ro c1 where ro: "http_route T md parsed c = (ro, c1)" by fastforce
  then obtain route where route: "ro = Inr route" using assms(1) False r p by (cases ro) (auto simp: http_serve_def split: if_splits)
  obtain u q where "pr_credentials parsed = Some (u, q)" "authenticate T md u q = Inr route"
    using ro route assms(2) by (auto simp: http_route_def res_simps split: option.splits sum.splits)
  moreover have "\<forall>a. a \<noteq> r_client route \<longrightarrow> clients h' a = clients h a"
    using assms(1) r p ro route by (auto simp: http_serve_def split: if_splits option.splits sum.splits prod.splits)
  ultimately show ?thesis using r p by blast
qed

end
