(* ===== verification/Api.thy ===== *)
theory Api
  imports Config Providers
begin

text \<open>
  The control plane client of \<open>src/api.rs\<close>: requests, their signatures, the checks of the answers and the fallback
  between API addresses. The HTTP client, the JSON decoder, \<open>age\<close> and \<open>url\<close> are parameters.
\<close>

subsection \<open>Classified failures\<close>

definition http_error_kind :: "u16 \<Rightarrow> ErrorKind" where
  "http_error_kind status =
     (if status = 401 then Authentication else if status = 403 then Forbidden else if status = 407 then ProxyAuthentication
      else if status = 429 then RateLimited else if 500 \<le> status \<and> status \<le> 599 then Server else InvalidResponse)"

text \<open>\<open>other\<close> classifies the errors of \<open>rustls\<close>, \<open>reqwest\<close> and \<open>io\<close>.\<close>

fun classify :: "(error \<Rightarrow> ErrorKind) \<Rightarrow> error \<Rightarrow> ErrorKind" where
  "classify other (ApiFailure k s t) = k"
| "classify other (WithContext c e) = (case c of ApiFailure k s t \<Rightarrow> k | _ \<Rightarrow> classify other e)"
| "classify other e = other e"

definition api_failure :: "ErrorKind \<Rightarrow> u16 option \<Rightarrow> error" where
  "api_failure kind status = ApiFailure kind status None"

definition retryable :: "(error \<Rightarrow> ErrorKind) \<Rightarrow> error \<Rightarrow> bool" where
  "retryable other e \<longleftrightarrow> classify other e \<in> {Timeout, Network, Server}"

subsection \<open>Requests and responses\<close>

record Url =
  url_scheme :: ustring
  url_host :: "ustring option"
  url_username :: ustring
  url_password :: "ustring option"
  url_path :: ustring
  url_query :: "ustring option"
  url_fragment :: "ustring option"

definition validate_api_url :: "Url \<Rightarrow> unit res" where
  "validate_api_url u =
     (if url_scheme u \<noteq> ustr ''https'' \<or> url_host u = None \<or> url_username u \<noteq> [] \<or> url_password u \<noteq> None
         \<or> url_query u \<noteq> None \<or> url_fragment u \<noteq> None
      then Inl (Bail ''API URL must be an absolute HTTPS URL without credentials, query, or fragment'')
      else Inr ())"

definition endpoint :: "Url \<Rightarrow> string \<Rightarrow> Url" where
  "endpoint u p = u\<lparr>url_path := ustr p, url_query := None, url_fragment := None\<rparr>"

definition MANAGED_NODES_PATH :: string where "MANAGED_NODES_PATH = ''/api/v1/managed/anywhere/direct''"
definition INFORMATION_PATH :: string where "INFORMATION_PATH = ''/api/v1/information''"
definition TOKEN_REBIND_PATH :: string where "TOKEN_REBIND_PATH = ''/api/v1/token/rebind''"
definition MAX_RESPONSE_BYTES :: nat where "MAX_RESPONSE_BYTES = 8388608"

datatype Method = GET | POST

record api_request =
  rq_method :: Method
  rq_url :: Url
  rq_bearer :: ustring
  rq_headers :: "(string \<times> ustring) list"
  rq_timeout :: nat

text \<open>
  A response: \<open>rs_retry_after\<close> and \<open>rs_signature\<close> are headers that are text; the body arrives in chunks, and may break off.
\<close>

record api_response =
  rs_status :: u16
  rs_retry_after :: "ustring option"
  rs_signature :: "ustring option"
  rs_chunks :: "bytes list"
  rs_broken :: "error option"

datatype Value = JNull | JBool bool | JNumber int | JString ustring | JArray "Value list" | JObject "(ustring \<times> Value) list"

record ManagedEnvelope =
  me_ret :: "32 word"
  me_msg :: ustring
  me_config :: ustring
  me_userinfo :: Value

text \<open>
  \<open>rebind_json\<close> decodes \<open>{ret, data: {token}}\<close>; \<open>age_stream\<close> is what \<open>age\<close> decrypts for an identity: nothing for an invalid
  payload, else the plaintext and the error it breaks off with.
\<close>

record api_crates =
  json_valid :: "bytes \<Rightarrow> bool"
  envelope_json :: "bytes \<Rightarrow> ManagedEnvelope option"
  rebind_json :: "bytes \<Rightarrow> (32 word \<times> ustring option) option"
  age_stream :: "bytes \<Rightarrow> bytes \<Rightarrow> (bytes \<times> error option) option"
  url_parts :: "ustring \<Rightarrow> Url"
  other_errors :: "error \<Rightarrow> ErrorKind"

definition ensure_success :: "api_response \<Rightarrow> unit res" where
  "ensure_success r =
     (if 200 \<le> rs_status r \<and> rs_status r < 300 then Inr ()
      else Inl (ApiFailure (http_error_kind (rs_status r)) (Some (rs_status r)) (Option.bind (rs_retry_after r) parse_u64)))"

fun read_limited :: "bytes \<Rightarrow> bytes list \<Rightarrow> error option \<Rightarrow> bytes res" where
  "read_limited body [] broken = (case broken of Some e \<Rightarrow> Inl e | None \<Rightarrow> Inr body)"
| "read_limited body (c # cs) broken =
     (if MAX_RESPONSE_BYTES < length body + length c then Inl (Bail ''response exceeds the limit'')
      else read_limited (body @ c) cs broken)"

definition read_limited_response :: "api_response \<Rightarrow> bytes res" where
  "read_limited_response r = read_limited [] (rs_chunks r) (rs_broken r)"

definition status_of_ret :: "32 word \<Rightarrow> u16 option" where
  "status_of_ret ret = (if 0 \<le> sint ret \<and> sint ret < 65536 then Some (ucast ret) else None)"

definition ret_failure :: "32 word \<Rightarrow> error" where
  "ret_failure ret = api_failure (http_error_kind (case status_of_ret ret of Some s \<Rightarrow> s | None \<Rightarrow> 0)) (status_of_ret ret)"

subsection \<open>Signatures\<close>

definition hmac_hex :: "crypto \<Rightarrow> text_crates \<Rightarrow> ustring \<Rightarrow> ustring \<Rightarrow> ustring" where
  "hmac_hex X T key message = hex_encode T (hmac_sha256 X (utf8 key) (utf8 message))"

definition request_signature :: "crypto \<Rightarrow> text_crates \<Rightarrow> ustring \<Rightarrow> ustring \<Rightarrow> ustring \<Rightarrow> ustring" where
  "request_signature X T secret stamp recipient = hmac_hex X T secret (stamp @ [46] @ recipient)"

definition verify_response_signature :: "crypto \<Rightarrow> text_crates \<Rightarrow> ustring \<Rightarrow> ustring \<Rightarrow> bytes \<Rightarrow> ustring \<Rightarrow> bool" where
  "verify_response_signature X T secret stamp body provided_hex =
     (case hex_decode T provided_hex of
        None \<Rightarrow> False
      | Some provided \<Rightarrow> hmac_sha256 X (utf8 secret) (utf8 stamp @ [46] @ body) = provided)"

definition decrypt_age :: "api_crates \<Rightarrow> bytes \<Rightarrow> bytes \<Rightarrow> bytes res" where
  "decrypt_age A ciphertext ident =
     (case age_stream A ident ciphertext of
        None \<Rightarrow> Inl (Bail ''decrypt API response: invalid age payload or wrong identity'')
      | Some (plain, broken) \<Rightarrow>
          if MAX_RESPONSE_BYTES < length plain then Inl (Bail ''decrypted response exceeds the limit'')
          else (case broken of Some e \<Rightarrow> Inl e | None \<Rightarrow> Inr plain))"

subsection \<open>The client\<close>

record Client =
  cl_base_url :: Url
  cl_fallback_urls :: "Url list"
  cl_access_token :: ustring
  cl_app_secret :: ustring
  cl_timeout :: nat

text \<open>\<open>source\<close> is the answer of \<open>NetworkSnapshot::preferred_source\<close>.\<close>

definition client_build :: "Url \<Rightarrow> ustring \<Rightarrow> ustring \<Rightarrow> nat \<Rightarrow> 'a res \<Rightarrow> Client res" where
  "client_build base_url token secret timeout source =
     and_then (validate_api_url base_url) (\<lambda>_.
     let token = str_trim token; secret = str_trim secret in
     if token = [] then Inl (Bail ''access token is required'')
     else if secret = [] then Inl (Bail ''app secret is required'')
     else if timeout = 0 \<or> secs 120 < timeout then Inl (Bail ''timeout must be between 1ns and 2m'')
     else
       and_then source (\<lambda>_.
       Inr \<lparr>cl_base_url = base_url, cl_fallback_urls = [], cl_access_token = token, cl_app_secret = secret, cl_timeout = timeout\<rparr>))"

fun check_fallback_urls :: "Url list \<Rightarrow> Url list \<Rightarrow> unit res" where
  "check_fallback_urls seen [] = Inr ()"
| "check_fallback_urls seen (u # us) =
     and_then (validate_api_url u) (\<lambda>_.
     if u \<in> set seen then Inl (Bail ''API URLs must be distinct'') else check_fallback_urls (seen @ [u]) us)"

definition with_fallback_urls :: "Url list \<Rightarrow> Client \<Rightarrow> Client res" where
  "with_fallback_urls urls c =
     (if 3 < length urls then Inl (Bail ''configure at most three API fallback URLs'')
      else and_then (check_fallback_urls [cl_base_url c] urls) (\<lambda>_. Inr (c\<lparr>cl_fallback_urls := urls\<rparr>)))"

definition api_client :: "api_crates \<Rightarrow> 'a res \<Rightarrow> RuntimeConfig \<Rightarrow> Client res" where
  "api_client A source rt =
     and_then (client_build (url_parts A (api_base_url rt)) (access_token rt) (app_secret rt) (request_timeout rt) source)
       (with_fallback_urls (map (url_parts A) (api_fallback_urls rt)))"

text \<open>
  The loop over the addresses. \<open>operation\<close> gives the result of an attempt, nothing when its budget elapses, and the time it takes.
  The second component lists the addresses that were tried with their budgets.
\<close>

definition attempt :: "'a res option \<Rightarrow> 'a res" where
  "attempt r = (case r of Some r \<Rightarrow> r | None \<Rightarrow> Inl (api_failure Timeout None))"

fun fallback_loop ::
  "(error \<Rightarrow> ErrorKind) \<Rightarrow> (Url \<Rightarrow> nat \<Rightarrow> 'a res option \<times> nat) \<Rightarrow> string \<Rightarrow> nat \<Rightarrow> Url list \<Rightarrow> 'a res \<times> (Url \<times> nat) list" where
  "fallback_loop other operation p remaining [] = (Inl (Bail ''primary API URL always exists''), [])"
| "fallback_loop other operation p remaining (base # rest) =
     (if remaining = 0 then (Inl (api_failure Timeout None), [])
      else
        let budget = remaining div length (base # rest); u = endpoint base p;
            (r, took) = operation u budget in
        case attempt r of
          Inr x \<Rightarrow> (Inr x, [(u, budget)])
        | Inl e \<Rightarrow>
            if rest \<noteq> [] \<and> retryable other e
            then (case fallback_loop other operation p (remaining - took) rest of (r, tried) \<Rightarrow> (r, (u, budget) # tried))
            else (Inl e, [(u, budget)]))"

definition with_fallback ::
  "(error \<Rightarrow> ErrorKind) \<Rightarrow> Client \<Rightarrow> string \<Rightarrow> (Url \<Rightarrow> nat \<Rightarrow> 'a res option \<times> nat) \<Rightarrow> 'a res \<times> (Url \<times> nat) list" where
  "with_fallback other c p operation = fallback_loop other operation p (cl_timeout c) (cl_base_url c # cl_fallback_urls c)"

text \<open>The HTTP client: what \<open>send\<close> returns and how long the exchange takes; \<open>None\<close> when it does not end within the budget.\<close>

type_synonym http = "api_request \<Rightarrow> api_response res option \<times> nat"

definition exchange :: "http \<Rightarrow> api_request \<Rightarrow> (api_response \<Rightarrow> 'a res) \<Rightarrow> 'a res option \<times> nat" where
  "exchange send rq k = (case send rq of (r, took) \<Rightarrow> (map_option (\<lambda>r. and_then r k) r, took))"

definition parse_information :: "api_crates \<Rightarrow> api_response \<Rightarrow> bytes res" where
  "parse_information A r =
     and_then (ensure_success r) (\<lambda>_.
     and_then (read_limited_response r) (\<lambda>body.
     if json_valid A body then Inr body else Inl (api_failure InvalidResponse None)))"

definition information :: "api_crates \<Rightarrow> http \<Rightarrow> Client \<Rightarrow> bytes res \<times> (Url \<times> nat) list" where
  "information A send c = with_fallback (other_errors A) c INFORMATION_PATH (\<lambda>u budget.
     exchange send \<lparr>rq_method = POST, rq_url = u, rq_bearer = cl_access_token c,
       rq_headers = [(''Accept'', ustr ''application/json'')], rq_timeout = budget\<rparr> (parse_information A))"

record ManagedResponse =
  mr_config :: bytes
  mr_userinfo :: "UserInfo option"

definition managed_response ::
  "crypto \<Rightarrow> text_crates \<Rightarrow> api_crates \<Rightarrow> Client \<Rightarrow> ustring \<Rightarrow> bytes \<Rightarrow> api_response \<Rightarrow> ManagedResponse res" where
  "managed_response X T A c stamp ident r =
     and_then (ensure_success r) (\<lambda>_.
     let signature = str_trim (case rs_signature r of Some v \<Rightarrow> v | None \<Rightarrow> []) in
     and_then (read_limited_response r) (\<lambda>body.
     and_then (ok_or (envelope_json A body) (api_failure InvalidResponse None)) (\<lambda>e.
     if me_ret e \<noteq> 200 then Inl (ret_failure (me_ret e))
     else if me_config e = [] then Inl (Bail ''managed API response has no encrypted data'')
     else if signature = [] then Inl (api_failure Signature None)
     else if \<not> verify_response_signature X T (cl_app_secret c) stamp (utf8 (me_config e)) signature
     then Inl (api_failure Signature None)
     else
       and_then (ok_or (b64_decode T (me_config e)) (Bail ''decode managed config: invalid Base64'')) (\<lambda>armored.
       if MAX_RESPONSE_BYTES < length armored then Inl (Bail ''decoded managed config exceeds the limit'')
       else
         and_then (decrypt_age A armored ident) (\<lambda>config.
         Inr \<lparr>mr_config = config, mr_userinfo = (case me_userinfo e of JString v \<Rightarrow> userinfo_parse v | _ \<Rightarrow> None)\<rparr>)))))"

definition managed_request :: "crypto \<Rightarrow> text_crates \<Rightarrow> Client \<Rightarrow> ustring \<Rightarrow> ustring \<Rightarrow> Url \<Rightarrow> nat \<Rightarrow> api_request" where
  "managed_request X T c stamp recipient u budget =
     \<lparr>rq_method = GET, rq_url = u, rq_bearer = cl_access_token c,
      rq_headers = [(''Accept'', ustr ''application/json''), (''X-Anywhere-Timestamp'', stamp),
        (''X-Anywhere-Age-Pubkey'', recipient),
        (''X-Anywhere-Signature'', request_signature X T (cl_app_secret c) stamp recipient)],
      rq_timeout = budget\<rparr>"

definition get_managed_config ::
  "crypto \<Rightarrow> text_crates \<Rightarrow> api_crates \<Rightarrow> http \<Rightarrow> Client \<Rightarrow> ustring \<Rightarrow> ustring \<Rightarrow> bytes \<Rightarrow> Url \<Rightarrow> nat \<Rightarrow> ManagedResponse res option \<times> nat" where
  "get_managed_config X T A send c stamp recipient ident u budget =
     exchange send (managed_request X T c stamp recipient u budget) (managed_response X T A c stamp ident)"

text \<open>\<open>identity\<close> and its public key \<open>recipient\<close> are generated, \<open>now\<close> is the time in seconds.\<close>

definition fetch_managed ::
  "crypto \<Rightarrow> text_crates \<Rightarrow> api_crates \<Rightarrow> http \<Rightarrow> nat \<Rightarrow> bytes \<times> ustring \<Rightarrow> Client \<Rightarrow> ManagedResponse res \<times> (Url \<times> nat) list" where
  "fetch_managed X T A send now key c =
     with_fallback (other_errors A) c MANAGED_NODES_PATH
       (get_managed_config X T A send c (show_nat now) (snd key) (fst key))"

definition dump_managed_config ::
  "crypto \<Rightarrow> text_crates \<Rightarrow> api_crates \<Rightarrow> http \<Rightarrow> nat \<Rightarrow> bytes \<times> ustring \<Rightarrow> Client \<Rightarrow> bytes res" where
  "dump_managed_config X T A send now key c = and_then (fst (fetch_managed X T A send now key c)) (\<lambda>r. Inr (mr_config r))"

definition token_char :: "byte \<Rightarrow> bool" where
  "token_char b \<longleftrightarrow> 33 \<le> b \<and> b \<le> 126"

definition parse_rebound_token :: "api_crates \<Rightarrow> bytes \<Rightarrow> ustring res" where
  "parse_rebound_token A body =
     and_then (ok_or (rebind_json A body) (api_failure InvalidResponse None)) (\<lambda>(ret, data).
     if ret \<noteq> 200 then Inl (ret_failure ret)
     else
       let token = str_trim (case data of Some t \<Rightarrow> t | None \<Rightarrow> []) in
       if token = [] \<or> \<not> list_all token_char (utf8 token) then Inl (api_failure InvalidResponse None) else Inr token)"

definition rebind_token :: "api_crates \<Rightarrow> http \<Rightarrow> Client \<Rightarrow> ustring res" where
  "rebind_token A send c =
     (case exchange send \<lparr>rq_method = POST, rq_url = endpoint (cl_base_url c) TOKEN_REBIND_PATH, rq_bearer = cl_access_token c,
         rq_headers = [(''Accept'', ustr ''application/json'')], rq_timeout = cl_timeout c\<rparr>
         (\<lambda>r. and_then (ensure_success r) (\<lambda>_. and_then (read_limited_response r) (parse_rebound_token A))) of
        (r, _) \<Rightarrow> attempt r)"


subsection \<open>Falling back\<close>

definition attempted :: "(Url \<Rightarrow> nat \<Rightarrow> 'a res option \<times> nat) \<Rightarrow> Url \<times> nat \<Rightarrow> 'a res" where
  "attempted operation t = attempt (fst (operation (fst t) (snd t)))"

definition skipped :: "(error \<Rightarrow> ErrorKind) \<Rightarrow> (Url \<Rightarrow> nat \<Rightarrow> 'a res option \<times> nat) \<Rightarrow> Url \<times> nat \<Rightarrow> bool" where
  "skipped other operation t \<longleftrightarrow> (case attempted operation t of Inl e \<Rightarrow> retryable other e | Inr _ \<Rightarrow> False)"

definition fallback_result ::
  "(error \<Rightarrow> ErrorKind) \<Rightarrow> (Url \<Rightarrow> nat \<Rightarrow> 'a res option \<times> nat) \<Rightarrow> nat \<Rightarrow> 'a res \<Rightarrow> (Url \<times> nat) list \<Rightarrow> bool" where
  "fallback_result other operation n r tried \<longleftrightarrow>
     (tried \<noteq> [] \<and> r = attempted operation (last tried) \<and> (length tried = n \<or> \<not> skipped other operation (last tried))
      \<or> r = Inl (api_failure Timeout None) \<and> length tried < n \<and> list_all (skipped other operation) tried)"

lemma fallback_loop_step:
  assumes "remaining \<noteq> 0" "t = (endpoint base p, remaining div length (base # rest))"
  shows "fallback_loop other operation p remaining (base # rest) =
    (if rest \<noteq> [] \<and> skipped other operation t
     then case fallback_loop other operation p (remaining - snd (operation (fst t) (snd t))) rest of (r, tried) \<Rightarrow> (r, t # tried)
     else (attempted operation t, [t]))"
  using assms(1) unfolding assms(2)
  by (auto simp: skipped_def attempted_def Let_def split: prod.split sum.split)

lemma fallback_loop_cases:
  assumes "fallback_loop other operation p remaining (base # rest) = (r, tried)"
    and t: "t = (endpoint base p, remaining div length (base # rest))"
  obtains (elapsed) "remaining = 0" "r = Inl (api_failure Timeout None)" "tried = []"
  | (final) "r = attempted operation t" "tried = [t]" "rest = [] \<or> \<not> skipped other operation t"
  | (next_url) tr where "rest \<noteq> []" "skipped other operation t" "tried = t # tr"
      "fallback_loop other operation p (remaining - snd (operation (fst t) (snd t))) rest = (r, tr)"
proof (cases "remaining = 0")
  case True
  then show thesis using assms(1) elapsed by simp
next
  case False
  note step = fallback_loop_step [OF False t, of other operation]
  show thesis
  proof (cases "rest \<noteq> [] \<and> skipped other operation t")
    case True
    obtain r' tr where "fallback_loop other operation p (remaining - snd (operation (fst t) (snd t))) rest = (r', tr)" by fastforce
    then show thesis using next_url [of tr] True assms(1) unfolding step by simp
  next
    case False
    then show thesis using final assms(1) unfolding step by (auto split: if_splits)
  qed
qed

lemma fallback_loop_spec:
  assumes "fallback_loop other operation p remaining urls = (r, tried)" "urls \<noteq> []"
  shows "map fst tried = map (\<lambda>u. endpoint u p) (take (length tried) urls) \<and> list_all (skipped other operation) (butlast tried)
    \<and> fallback_result other operation (length urls) r tried"
  using assms
proof (induction urls arbitrary: remaining r tried)
  case (Cons base rest)
  from Cons.prems(1) show ?case
  proof (cases rule: fallback_loop_cases [OF _ refl, consumes 1, case_names elapsed final next_url])
    case (next_url tr)
    from Cons.IH [OF next_url(4,1)] next_url show ?thesis by (auto simp: fallback_result_def)
  qed (auto simp: fallback_result_def)
qed simp

lemma fallback_loop_time:
  assumes "fallback_loop other operation p remaining urls = (r, tried)" "\<And>u b. snd (operation u b) \<le> b"
  shows "(\<Sum>t\<leftarrow>tried. snd (operation (fst t) (snd t))) \<le> remaining"
  using assms(1)
proof (induction urls arbitrary: remaining r tried)
  case (Cons base rest)
  have first: "snd (operation (endpoint base p) (remaining div length (base # rest))) \<le> remaining"
    using assms(2) div_le_dividend le_trans by blast
  from Cons.prems show ?case
  proof (cases rule: fallback_loop_cases [OF _ refl, consumes 1, case_names elapsed final next_url])
    case (next_url tr)
    from Cons.IH [OF next_url(4)] next_url(3) first show ?thesis by simp
  qed (use first in simp_all)
qed simp

lemma managed_response_Inr:
  assumes "managed_response X T A c stamp ident rs = Inr r"
  obtains body e armored where "read_limited_response rs = Inr body" "envelope_json A body = Some e" "me_ret e = 200"
    "hex_decode T (str_trim (case rs_signature rs of Some v \<Rightarrow> v | None \<Rightarrow> []))
       = Some (hmac_sha256 X (utf8 (cl_app_secret c)) (utf8 stamp @ [46] @ utf8 (me_config e)))"
    "b64_decode T (me_config e) = Some armored" "age_stream A ident armored = Some (mr_config r, None)"
    "length (mr_config r) \<le> MAX_RESPONSE_BYTES"
    "mr_userinfo r = (case me_userinfo e of JString v \<Rightarrow> userinfo_parse v | _ \<Rightarrow> None)"
  using assms
  by (auto simp: managed_response_def Let_def res_simps verify_response_signature_def decrypt_age_def
      split: if_splits option.splits)

lemma userinfo_parse_valid: "userinfo_parse v = Some u \<Longrightarrow> userinfo_valid u"
  by (auto simp: userinfo_parse_def Let_def split: if_splits bind_splits)

lemma fetch_managed_attempt:
  assumes "fetch_managed X T A send now key c = (Inr r, tried)"
  obtains u budget took rs where "(u, budget) \<in> set tried"
    "send (managed_request X T c (show_nat now) (snd key) u budget) = (Some (Inr rs), took)"
    "managed_response X T A c (show_nat now) (fst key) rs = Inr r"
proof -
  let ?op = "get_managed_config X T A send c (show_nat now) (snd key) (fst key)"
  from fallback_loop_spec assms have "fallback_result (other_errors A) ?op (Suc (length (cl_fallback_urls c))) (Inr r) tried"
    unfolding fetch_managed_def with_fallback_def by fastforce
  then have l: "tried \<noteq> []" "attempted ?op (last tried) = Inr r" by (auto simp: fallback_result_def)
  obtain u b where ub: "last tried = (u, b)" by fastforce
  obtain sr took where "send (managed_request X T c (show_nat now) (snd key) u b) = (sr, took)" by fastforce
  then show thesis using that [of u b] l ub last_in_set [OF l(1)]
    by (auto simp: attempted_def get_managed_config_def exchange_def attempt_def res_simps split: option.splits)
qed

text \<open>
  The addresses are tried in their order, each at most once, and the next one only after a timeout, a network failure or a server error. The result is that of the last
  attempt, unless the time ran out before the next one; a rejected token, a bad signature or an invalid answer is never taken to another
  address. When every attempt keeps to its budget, all of them together keep to the timeout.
\<close>

lemma fallback_tries_in_order:
  assumes "with_fallback other c p operation = (r, tried)"
  shows "map fst tried = map (\<lambda>u. endpoint u p) (take (length tried) (cl_base_url c # cl_fallback_urls c))
    \<and> list_all (skipped other operation) (butlast tried)
    \<and> (tried \<noteq> [] \<and> r = attempted operation (last tried)
         \<and> (length tried = Suc (length (cl_fallback_urls c)) \<or> \<not> skipped other operation (last tried))
       \<or> r = Inl (api_failure Timeout None) \<and> length tried \<le> length (cl_fallback_urls c) \<and> list_all (skipped other operation) tried)
    \<and> ((\<forall>u b. snd (operation u b) \<le> b) \<longrightarrow> (\<Sum>t\<leftarrow>tried. snd (operation (fst t) (snd t))) \<le> cl_timeout c)"
  using fallback_loop_spec [OF assms [unfolded with_fallback_def]] fallback_loop_time [OF assms [unfolded with_fallback_def]]
  by (auto simp: fallback_result_def less_Suc_eq_le)

text \<open>
  C23: A catalog is accepted only when it is authentic: it came in answer to a signed request with the token to one of the configured
  addresses, over a body whose configuration is authenticated, with the request's own time stamp, under the application secret, and it is what the fresh key decrypts.
  It is within the size limit, and the subscription data that come with it are valid.
\<close>

theorem managed_config_is_authentic:
  assumes "fetch_managed X T A send now key c = (Inr r, tried)"
  shows "\<exists>base budget took rs body e armored. base \<in> set (cl_base_url c # cl_fallback_urls c)
    \<and> send (managed_request X T c (show_nat now) (snd key) (endpoint base MANAGED_NODES_PATH) budget) = (Some (Inr rs), took)
    \<and> read_limited_response rs = Inr body \<and> envelope_json A body = Some e
    \<and> hex_decode T (str_trim (case rs_signature rs of Some v \<Rightarrow> v | None \<Rightarrow> []))
        = Some (hmac_sha256 X (utf8 (cl_app_secret c)) (utf8 (show_nat now) @ [46] @ utf8 (me_config e)))
    \<and> b64_decode T (me_config e) = Some armored \<and> age_stream A (fst key) armored = Some (mr_config r, None)
    \<and> length (mr_config r) \<le> MAX_RESPONSE_BYTES
    \<and> (case mr_userinfo r of Some i \<Rightarrow> userinfo_valid i | None \<Rightarrow> True)"
proof -
  obtain u budget took rs where u: "(u, budget) \<in> set tried"
    "send (managed_request X T c (show_nat now) (snd key) u budget) = (Some (Inr rs), took)"
    "managed_response X T A c (show_nat now) (fst key) rs = Inr r" using fetch_managed_attempt [OF assms] .
  have "map fst tried = map (\<lambda>u. endpoint u MANAGED_NODES_PATH) (take (length tried) (cl_base_url c # cl_fallback_urls c))"
    using fallback_loop_spec assms unfolding fetch_managed_def with_fallback_def by blast
  moreover have "u \<in> set (map fst tried)" using u(1) by force
  ultimately have "u \<in> (\<lambda>u. endpoint u MANAGED_NODES_PATH) ` set (take (length tried) (cl_base_url c # cl_fallback_urls c))"
    by (simp only: set_map)
  then obtain base where base: "base \<in> set (cl_base_url c # cl_fallback_urls c)" "u = endpoint base MANAGED_NODES_PATH"
    by (auto dest: in_set_takeD)
  have valid: "case (case me_userinfo e of JString v \<Rightarrow> userinfo_parse v | _ \<Rightarrow> None) of Some i \<Rightarrow> userinfo_valid i | None \<Rightarrow> True" for e
    using userinfo_parse_valid by (auto split: Value.split option.split)
  obtain body e armored where m: "read_limited_response rs = Inr body" "envelope_json A body = Some e"
    "hex_decode T (str_trim (case rs_signature rs of Some v \<Rightarrow> v | None \<Rightarrow> []))
       = Some (hmac_sha256 X (utf8 (cl_app_secret c)) (utf8 (show_nat now) @ [46] @ utf8 (me_config e)))"
    "b64_decode T (me_config e) = Some armored" "age_stream A (fst key) armored = Some (mr_config r, None)"
    "length (mr_config r) \<le> MAX_RESPONSE_BYTES"
    "mr_userinfo r = (case me_userinfo e of JString v \<Rightarrow> userinfo_parse v | _ \<Rightarrow> None)"
    using managed_response_Inr [OF u(3)] by blast
  show ?thesis
    by (rule exI [of _ base], rule exI [of _ budget], rule exI [of _ took], rule exI [of _ rs], rule exI [of _ body],
        rule exI [of _ e], rule exI [of _ armored]) (use m base u(2) valid [of e] in \<open>simp only: simp_thms\<close>)
qed

subsection \<open>A sample exchange\<close>

definition sample_url :: "string \<Rightarrow> Url" where
  "sample_url h = \<lparr>url_scheme = ustr ''https'', url_host = Some (ustr h), url_username = [], url_password = None,
     url_path = [47], url_query = None, url_fragment = None\<rparr>"

definition sample_api :: api_crates where
  "sample_api = \<lparr>json_valid = (\<lambda>_. True), envelope_json = (\<lambda>_. Some \<lparr>me_ret = 200, me_msg = [], me_config = nibbles [7], me_userinfo = JNull\<rparr>),
     rebind_json = (\<lambda>_. None), age_stream = (\<lambda>_ a. Some (a, None)), url_parts = (\<lambda>_. sample_url ''a''), other_errors = (\<lambda>_. Network)\<rparr>"

definition sample_client :: Client where
  "sample_client = \<lparr>cl_base_url = sample_url ''a'', cl_fallback_urls = [sample_url ''b''], cl_access_token = ustr ''t'',
     cl_app_secret = ustr ''s'', cl_timeout = 20\<rparr>"

definition sample_response :: api_response where
  "sample_response = \<lparr>rs_status = 200, rs_retry_after = None,
     rs_signature = Some (nibbles (hmac_sha256 sample_crypto (utf8 (ustr ''s'')) (utf8 (show_nat 5) @ [46] @ utf8 (nibbles [7])))),
     rs_chunks = [[1]], rs_broken = None\<rparr>"

text \<open>The first address is unreachable, the second one answers.\<close>

definition sample_http :: http where
  "sample_http rq = (if url_host (rq_url rq) = Some (ustr ''a'') then (Some (Inl Io), 1) else (Some (Inr sample_response), 1))"

lemma nibbles_no_space:
  assumes "c \<in> set (nibbles bs)"
  shows "\<not> is_whitespace c"
proof -
  have "url_safe_char c" using sample_b64url_laws assms by (auto simp: b64url_laws_def sample_text_def list_all_iff)
  then show ?thesis by (auto simp: url_safe_char_def ascii_defs is_whitespace_def)
qed

lemma nibbles_trim [simp]: "str_trim (nibbles bs) = nibbles bs"
  unfolding str_trim_def
proof (cases "nibbles bs = []")
  case False
  then show "trim_by is_whitespace (nibbles bs) = nibbles bs"
    using nibbles_no_space [of _ bs] by (intro trim_by_id) (auto simp: list.set_sel last_in_set)
qed (simp add: trim_by_def trim_start_by_def trim_end_by_def)

lemma nibbles_Nil: "nibbles bs = [] \<longleftrightarrow> bs = []"
  by (cases bs) simp_all

lemma sample_managed_response:
  assumes "cl_app_secret c = ustr ''s''" "envelope_json A = envelope_json sample_api" "age_stream A = age_stream sample_api"
  shows "managed_response sample_crypto sample_text A c (show_nat 5) ident sample_response = Inr \<lparr>mr_config = [7], mr_userinfo = None\<rparr>"
proof -
  have "nibbles (hmac_sha256 sample_crypto (utf8 (ustr ''s'')) (utf8 (show_nat 5) @ [46] @ utf8 (nibbles [7]))) \<noteq> []"
    using nibbles_Nil sample_digest_laws by (metis digest_laws_def list.size(3) zero_neq_numeral)
  then show ?thesis
    unfolding managed_response_def sample_response_def using assms
    by (simp add: ensure_success_def read_limited_response_def MAX_RESPONSE_BYTES_def sample_api_def
        verify_response_signature_def sample_text_def unnibbles_nibbles decrypt_age_def Let_def ustr_def nibbles_Nil del: nibbles.simps)
qed

lemma sample_host: "url_host (rq_url (managed_request X T c st rc (endpoint (sample_url h) p) n)) = Some (ustr h)"
  by (simp add: managed_request_def endpoint_def sample_url_def)

lemma sample_fetch:
  "fetch_managed sample_crypto sample_text sample_api sample_http 5 ([], []) sample_client
     = (Inr \<lparr>mr_config = [7], mr_userinfo = None\<rparr>,
        [(endpoint (sample_url ''a'') MANAGED_NODES_PATH, 20 div Suc (Suc 0)), (endpoint (sample_url ''b'') MANAGED_NODES_PATH, 19)])"
proof -
  have rs: "managed_response sample_crypto sample_text sample_api sample_client (show_nat 5) [] sample_response = Inr \<lparr>mr_config = [7], mr_userinfo = None\<rparr>"
    by (rule sample_managed_response) (simp_all add: sample_client_def)
  let ?get = "get_managed_config sample_crypto sample_text sample_api sample_http sample_client (show_nat 5) [] []"
  have a: "?get (endpoint (sample_url ''a'') MANAGED_NODES_PATH) n = (Some (Inl Io), 1)"
    and b: "?get (endpoint (sample_url ''b'') MANAGED_NODES_PATH) n = (Some (Inr \<lparr>mr_config = [7], mr_userinfo = None\<rparr>), 1)" for n
    unfolding get_managed_config_def exchange_def sample_http_def sample_host using rs by (simp_all add: ustr_def)
  have u: "cl_base_url sample_client = sample_url ''a''" "cl_fallback_urls sample_client = [sample_url ''b'']" "cl_timeout sample_client = 20"
    "retryable (other_errors sample_api) Io" by (simp_all add: sample_client_def retryable_def sample_api_def)
  show ?thesis
    unfolding fetch_managed_def with_fallback_def u by (simp add: a b attempt_def u)
qed

lemma fallback_tries_in_order_witness:
  "\<exists>r tried. with_fallback (\<lambda>_. Network) sample_client INFORMATION_PATH
      (\<lambda>u b. if url_host u = Some (ustr ''a'') then (Some (Inl Io), 1) else (Some (Inr ()), 1)) = (r, tried)
    \<and> length tried = 2 \<and> r = Inr ()"
proof -
  let ?op = "\<lambda>u b. if url_host u = Some (ustr ''a'') then (Some (Inl Io), 1) else (Some (Inr ()), 1)"
  have w: "with_fallback (\<lambda>_. Network) sample_client INFORMATION_PATH ?op
      = (Inr (), [(endpoint (sample_url ''a'') INFORMATION_PATH, 20 div Suc (Suc 0)), (endpoint (sample_url ''b'') INFORMATION_PATH, 19)])"
    by (simp add: with_fallback_def sample_client_def endpoint_def sample_url_def attempt_def retryable_def ustr_def)
  from fallback_tries_in_order [OF w] w show ?thesis by simp
qed

theorem managed_config_is_authentic_witness:
  "\<exists>r tried. fetch_managed sample_crypto sample_text sample_api sample_http 5 ([], []) sample_client = (Inr r, tried)
    \<and> mr_config r = [7] \<and> length (mr_config r) \<le> MAX_RESPONSE_BYTES"
proof -
  have "length [7 :: byte] \<le> MAX_RESPONSE_BYTES" using managed_config_is_authentic [OF sample_fetch] by (simp; blast)
  then show ?thesis using sample_fetch by simp
qed

end
