(* ===== verification/Config_File.thy ===== *)
theory Config_File
  imports Api
begin

text \<open>
  Reading the configuration: \<open>src/config.rs\<close>, and the replacement of the token in a configuration file of \<open>src/cli.rs\<close>.
  Files are entries with a mode and a content. The URL parser and the decoding of JSON are parameters, and so is
  the floating-point sum of a duration's terms. Scope identifiers of IPv6 socket addresses are accepted and not kept.
\<close>

unbundle bit_operations_syntax

subsection \<open>Socket addresses\<close>

definition read_port :: "ustring \<Rightarrow> (nat \<times> ustring) option" where
  "read_port s = Option.bind (read_given_char 58 s) (\<lambda>r. read_number 10 65535 (length r) True r)"

definition read_scope_id :: "ustring \<Rightarrow> ustring" where
  "read_scope_id s =
     (case Option.bind (read_given_char 37 s) (\<lambda>r. read_number 10 4294967295 (length r) True r) of
        None \<Rightarrow> s | Some (_, r) \<Rightarrow> r)"

definition read_socket_addr_v4 :: "ustring \<Rightarrow> (socket_addr \<times> ustring) option" where
  "read_socket_addr_v4 s =
     Option.bind (read_ipv4 s) (\<lambda>(os, r).
     Option.bind (read_port r) (\<lambda>(p, r).
     Some (\<lparr>sa_ip = V4 (v4_of_octets (map of_nat os)), sa_port = of_nat p\<rparr>, r)))"

definition read_socket_addr_v6 :: "ustring \<Rightarrow> (socket_addr \<times> ustring) option" where
  "read_socket_addr_v6 s =
     Option.bind (read_given_char 91 s) (\<lambda>r.
     Option.bind (read_ipv6 r) (\<lambda>(gs, r).
     Option.bind (read_given_char 93 (read_scope_id r)) (\<lambda>r.
     Option.bind (read_port r) (\<lambda>(p, r).
     Some (\<lparr>sa_ip = V6 (v6_of_groups gs), sa_port = of_nat p\<rparr>, r)))))"

definition parse_socket_addr :: "ustring \<Rightarrow> socket_addr option" where
  "parse_socket_addr s =
     (case (case read_socket_addr_v4 s of Some x \<Rightarrow> Some x | None \<Rightarrow> read_socket_addr_v6 s) of
        Some (a, r) \<Rightarrow> if r = [] then Some a else None
      | None \<Rightarrow> None)"

subsection \<open>Files\<close>

record fs_entry =
  fe_is_file :: bool
  fe_mode :: "32 word"
  fe_content :: bytes

type_synonym files = "ustring \<rightharpoonup> fs_entry"

definition require_private_file :: "files \<Rightarrow> ustring \<Rightarrow> bool \<Rightarrow> unit res" where
  "require_private_file fs p allow_insecure =
     and_then (ok_or (fs p) Io) (\<lambda>e.
     if \<not> fe_is_file e then Inl (Bail ''path is not a regular file'')
     else if \<not> allow_insecure \<and> (fe_mode e AND 511) AND 63 \<noteq> 0 then Inl (Bail ''expected 0600 or stricter'')
     else Inr ())"

definition read_limited_file :: "files \<Rightarrow> ustring \<Rightarrow> nat \<Rightarrow> bytes res" where
  "read_limited_file fs p mx =
     and_then (ok_or (fs p) Io) (\<lambda>e.
     let content = take (mx + 1) (fe_content e) in
     if mx < length content then Inl (Bail ''too large'') else Inr content)"

definition read_to_string :: "files \<Rightarrow> ustring \<Rightarrow> ustring res" where
  "read_to_string fs p = and_then (ok_or (fs p) Io) (\<lambda>e. ok_or (from_utf8 (fe_content e)) Io)"

subsection \<open>Durations\<close>

text \<open>The digits of a number, with at most one point.\<close>

fun number_prefix :: "bool \<Rightarrow> ustring \<Rightarrow> ustring" where
  "number_prefix dot_seen [] = []"
| "number_prefix dot_seen (c # cs) =
     (if ascii_digit c \<or> (\<not> dot_seen \<and> c = 46) then c # number_prefix (dot_seen \<or> c = 46) cs else [])"

definition unit_nanos :: "ustring \<Rightarrow> nat option" where
  "unit_nanos u =
     (if u = ustr ''ns'' then Some 1
      else if u = ustr ''us'' \<or> u = [181, 115] \<or> u = [956, 115] then Some 1000
      else if u = ustr ''ms'' then Some 1000000
      else if u = ustr ''s'' then Some 1000000000
      else if u = ustr ''m'' then Some 60000000000
      else if u = ustr ''h'' then Some 3600000000000
      else None)"

function duration_terms :: "ustring \<Rightarrow> (ustring \<times> nat) list option" where
  "duration_terms s =
     (if s = [] then Some []
      else
        let number = number_prefix False s; rest = drop (length number) s;
            u = takeWhile (\<lambda>c. \<not> ascii_digit c \<and> c \<noteq> 46) rest in
        if number = [] \<or> number = [46] then None
        else Option.bind (unit_nanos u) (\<lambda>n.
             map_option (Cons (number, n)) (duration_terms (drop (length u) rest))))"
  by pat_completeness auto
termination by (relation "measure length") auto

declare duration_terms.simps [simp del]

record config_crates =
  url_parse :: "ustring \<Rightarrow> ustring option"
  f64_nanos :: "(ustring \<times> nat) list \<Rightarrow> nat option"

definition parse_go_duration :: "config_crates \<Rightarrow> ustring \<Rightarrow> nat res" where
  "parse_go_duration K v =
     (if v = [] then Inl (Bail ''invalid duration'')
      else ok_or (Option.bind (duration_terms v) (f64_nanos K)) (Bail ''invalid duration''))"

definition parse_bounded_duration :: "config_crates \<Rightarrow> ustring \<Rightarrow> nat \<Rightarrow> nat \<Rightarrow> nat \<Rightarrow> nat res" where
  "parse_bounded_duration K v dflt mn mx =
     (if v = [] then Inr dflt
      else and_then (parse_go_duration K v) (\<lambda>d.
           if d < mn \<or> mx < d then Inl (Bail ''duration is outside the supported range'') else Inr d))"

definition bounded_value :: "nat \<Rightarrow> nat \<Rightarrow> nat \<Rightarrow> nat res" where
  "bounded_value v mn mx = (if v < mn \<or> mx < v then Inl (Bail ''value out of range'') else Inr v)"

definition bounded_or_default :: "nat \<Rightarrow> nat \<Rightarrow> nat \<Rightarrow> nat \<Rightarrow> nat res" where
  "bounded_or_default v dflt mn mx =
     (let v = (if v = 0 then dflt else v) in if v < mn \<or> mx < v then Inl (Bail ''value out of range'') else Inr v)"

definition nonzero_or :: "u16 \<Rightarrow> u16 \<Rightarrow> u16" where
  "nonzero_or v dflt = (if v = 0 then dflt else v)"

subsection \<open>From the file's fields to the settings\<close>

record FileConfig =
  fc_access_token :: ustring
  fc_access_token_file :: ustring
  fc_app_secret :: ustring
  fc_api_base_url :: ustring
  fc_api_fallback_urls :: "ustring list"
  fc_node_filter_lines :: ustring
  fc_node_filter_regions :: ustring
  fc_node_filter_include :: ustring
  fc_node_filter_exclude :: ustring
  fc_listen_address :: ustring
  fc_serve_port :: u16
  fc_map_base_port :: u16
  fc_request_timeout :: ustring
  fc_tcp_idle_timeout :: ustring
  fc_udp_idle_timeout :: ustring
  fc_allow_remote_access :: bool
  fc_allow_remote_raw_provider :: bool
  fc_socks_username :: ustring
  fc_socks_password_file :: ustring
  fc_max_client_connections :: nat
  fc_dial_concurrency :: nat
  fc_per_node_dial_concurrency :: nat
  fc_reuse_max_idle :: nat
  fc_reuse_max_uses :: nat
  fc_reuse_idle_timeout :: ustring
  fc_perf_trace_sample_every :: nat
  fc_allow_insecure_file_permissions :: bool

definition file_config_default :: FileConfig where
  "file_config_default =
     \<lparr>fc_access_token = [], fc_access_token_file = [], fc_app_secret = [], fc_api_base_url = [], fc_api_fallback_urls = [],
      fc_node_filter_lines = [], fc_node_filter_regions = [], fc_node_filter_include = [], fc_node_filter_exclude = [],
      fc_listen_address = [], fc_serve_port = 0, fc_map_base_port = 0, fc_request_timeout = [], fc_tcp_idle_timeout = [],
      fc_udp_idle_timeout = [], fc_allow_remote_access = False, fc_allow_remote_raw_provider = False, fc_socks_username = [],
      fc_socks_password_file = [], fc_max_client_connections = 0, fc_dial_concurrency = 0, fc_per_node_dial_concurrency = 0,
      fc_reuse_max_idle = 0, fc_reuse_max_uses = 0, fc_reuse_idle_timeout = [], fc_perf_trace_sample_every = 0,
      fc_allow_insecure_file_permissions = False\<rparr>"

definition DEFAULT_API_BASE_URL :: string where "DEFAULT_API_BASE_URL = ''https://oix-api.dler.io''"
definition DEFAULT_APP_SECRET :: string where "DEFAULT_APP_SECRET = ''4a7f27227e2779e5d3e9cd968ba06ceb''"
definition DEFAULT_LISTEN :: string where "DEFAULT_LISTEN = ''127.0.0.1:6172''"
definition DEFAULT_NODELIST_LISTEN :: string where "DEFAULT_NODELIST_LISTEN = ''127.0.0.1:6173''"
definition MAX_PROXY_CONFIG_BYTES :: nat where "MAX_PROXY_CONFIG_BYTES = 65536"

fun ip_is_loopback :: "ip \<Rightarrow> bool" where
  "ip_is_loopback (V4 a) = v4_loopback a"
| "ip_is_loopback (V6 a) = (a = 1)"

text \<open>\<open>resolve\<close> is \<open>resolve_path\<close> for the directory of the configuration.\<close>

definition resolve_token :: "files \<Rightarrow> (ustring \<Rightarrow> ustring) \<Rightarrow> FileConfig \<Rightarrow> ustring res" where
  "resolve_token fs resolve raw =
     (let inline = str_trim (fc_access_token raw); file_path = str_trim (fc_access_token_file raw) in
      if (inline = []) = (file_path = []) then Inl (Bail ''configure exactly one of accessToken or accessTokenFile'')
      else if inline \<noteq> [] then Inr inline
      else
        and_then (require_private_file fs (resolve file_path) (fc_allow_insecure_file_permissions raw)) (\<lambda>_.
        and_then (read_to_string fs (resolve file_path)) (\<lambda>token.
        let token = str_trim token in
        if token = [] then Inl (Bail ''access token file is empty'') else Inr token)))"

definition resolve_socks_credentials :: "files \<Rightarrow> (ustring \<Rightarrow> ustring) \<Rightarrow> FileConfig \<Rightarrow> (ustring \<times> ustring) res" where
  "resolve_socks_credentials fs resolve raw =
     (let username = str_trim (fc_socks_username raw); file_path = str_trim (fc_socks_password_file raw) in
      if username = [] \<and> file_path = [] then Inr ([], [])
      else if username = [] \<or> file_path = [] then Inl (Bail ''configure both socksUsername and socksPasswordFile'')
      else if 255 < str_len username then Inl (Bail ''socksUsername is longer than 255 bytes'')
      else
        and_then (require_private_file fs (resolve file_path) (fc_allow_insecure_file_permissions raw)) (\<lambda>_.
        and_then (read_to_string fs (resolve file_path)) (\<lambda>password.
        let password = str_trim password in
        if password = [] \<or> 255 < str_len password then Inl (Bail ''SOCKS5 password must contain 1 to 255 bytes'')
        else Inr (username, password))))"

fun parse_fallback_urls :: "config_crates \<Rightarrow> api_crates \<Rightarrow> ustring \<Rightarrow> ustring list \<Rightarrow> ustring list \<Rightarrow> ustring list res" where
  "parse_fallback_urls K A base seen [] = Inr seen"
| "parse_fallback_urls K A base seen (v # vs) =
     and_then (ok_or (url_parse K v) (Bail ''parse API fallback URL'')) (\<lambda>u.
     and_then (validate_api_url (url_parts A u)) (\<lambda>_.
     if u = base \<or> u \<in> set seen then Inl (Bail ''API URLs must be distinct'')
     else parse_fallback_urls K A base (seen @ [u]) vs))"

definition resolve_urls :: "config_crates \<Rightarrow> api_crates \<Rightarrow> FileConfig \<Rightarrow> (ustring \<times> ustring list) res" where
  "resolve_urls K A raw =
     and_then (ok_or (url_parse K (if fc_api_base_url raw = [] then ustr DEFAULT_API_BASE_URL else fc_api_base_url raw))
                 (Bail ''parse apiBaseURL'')) (\<lambda>base.
     and_then (validate_api_url (url_parts A base)) (\<lambda>_.
     if 3 < length (fc_api_fallback_urls raw) then Inl (Bail ''configure at most three API fallback URLs'')
     else and_then (parse_fallback_urls K A base [] (fc_api_fallback_urls raw)) (\<lambda>urls. Inr (base, urls))))"

definition resolve_listen :: "FileConfig \<Rightarrow> ip res" where
  "resolve_listen raw =
     and_then (ok_or (parse_ip (if fc_listen_address raw = [] then ustr ''127.0.0.1'' else fc_listen_address raw))
                 (Bail ''listenAddress must be a specific numeric IP'')) (\<lambda>a.
     if is_unspecified a then Inl (Bail ''listenAddress must be a specific numeric IP'') else Inr a)"

definition resolve_secret :: "FileConfig \<Rightarrow> ustring" where
  "resolve_secret raw = (if str_trim (fc_app_secret raw) = [] then ustr DEFAULT_APP_SECRET else str_trim (fc_app_secret raw))"

text \<open>The checks in the order of the source.\<close>

definition runtime_from_raw ::
  "text_crates \<Rightarrow> config_crates \<Rightarrow> api_crates \<Rightarrow> files \<Rightarrow> (ustring \<Rightarrow> ustring) \<Rightarrow> FileConfig \<Rightarrow> RuntimeConfig res" where
  "runtime_from_raw T K A fs resolve raw =
     and_then (resolve_token fs resolve raw) (\<lambda>token.
     and_then (resolve_urls K A raw) (\<lambda>(base, urls).
     and_then (parse_bounded_duration K (fc_request_timeout raw) (secs 15) 1 (secs 120)) (\<lambda>request.
     and_then (parse_bounded_duration K (fc_tcp_idle_timeout raw) (secs 3600) (secs 60) (secs (24 * 3600))) (\<lambda>tcp_idle.
     and_then (parse_bounded_duration K (fc_udp_idle_timeout raw) (secs 300) (secs 1) (secs (24 * 3600))) (\<lambda>udp_idle.
     and_then (parse_bounded_duration K (fc_reuse_idle_timeout raw) (secs 90) (secs 1) (secs 600)) (\<lambda>reuse_idle.
     and_then (resolve_listen raw) (\<lambda>address.
     and_then (resolve_socks_credentials fs resolve raw) (\<lambda>(username, password).
     if \<not> ip_is_loopback address \<and> \<not> fc_allow_remote_access raw
     then Inl (Bail ''non-loopback listenAddress requires allowRemoteAccess'')
     else if \<not> ip_is_loopback address \<and> (username = [] \<or> password = [])
     then Inl (Bail ''non-loopback listenAddress requires SOCKS5 authentication'')
     else
       and_then (filter_new T (fc_node_filter_lines raw) (fc_node_filter_regions raw) (fc_node_filter_include raw) (fc_node_filter_exclude raw)) (\<lambda>nf.
       and_then (bounded_or_default (fc_max_client_connections raw) 256 1 4096) (\<lambda>connections.
       and_then (bounded_or_default (fc_dial_concurrency raw) 32 1 1024) (\<lambda>dials.
       and_then (bounded_or_default (fc_per_node_dial_concurrency raw) 8 1 128) (\<lambda>node_dials.
       and_then (bounded_or_default (fc_reuse_max_idle raw) 8 1 128) (\<lambda>idle_max.
       and_then (bounded_or_default (fc_reuse_max_uses raw) 32 1 1024) (\<lambda>uses_max.
       and_then (bounded_value (fc_perf_trace_sample_every raw) 0 1000000) (\<lambda>perf.
       Inr \<lparr>access_token = token, app_secret = resolve_secret raw, api_base_url = base, api_fallback_urls = urls, node_filter = nf,
         listen_address = address, serve_port = nonzero_or (fc_serve_port raw) 6172, map_base_port = nonzero_or (fc_map_base_port raw) 7200,
         request_timeout = request, tcp_idle_timeout = tcp_idle, udp_idle_timeout = udp_idle,
         allow_remote_access = fc_allow_remote_access raw, allow_remote_raw_provider = fc_allow_remote_raw_provider raw,
         socks_username = username, socks_password = password, max_client_connections = connections, dial_concurrency = dials,
         per_node_dial_concurrency = node_dials, reuse_max_idle = idle_max, reuse_max_uses = uses_max,
         reuse_idle_timeout = reuse_idle, perf_trace_sample_every = perf\<rparr>)))))))))))))))"

text \<open>\<open>decode\<close> stands for the JSON decoder, which rejects unknown fields and trailing data.\<close>

definition load_json_config ::
  "text_crates \<Rightarrow> config_crates \<Rightarrow> api_crates \<Rightarrow> files \<Rightarrow> (ustring \<Rightarrow> ustring) \<Rightarrow> (bytes \<Rightarrow> FileConfig option) \<Rightarrow> ustring \<Rightarrow> RuntimeConfig res" where
  "load_json_config T K A fs resolve decode p =
     and_then (require_private_file fs p True) (\<lambda>_.
     and_then (read_limited_file fs p 1048576) (\<lambda>content.
     and_then (ok_or (decode content) (Bail ''decode config'')) (\<lambda>raw.
     and_then (if fc_allow_insecure_file_permissions raw then Inr () else require_private_file fs p False) (\<lambda>_.
     runtime_from_raw T K A fs resolve raw))))"

definition load_token_file ::
  "text_crates \<Rightarrow> config_crates \<Rightarrow> api_crates \<Rightarrow> files \<Rightarrow> (ustring \<Rightarrow> ustring) \<Rightarrow> ustring \<Rightarrow> RuntimeConfig res" where
  "load_token_file T K A fs resolve p = runtime_from_raw T K A fs resolve (file_config_default\<lparr>fc_access_token_file := p\<rparr>)"

subsection \<open>The service configuration file\<close>

definition allowed_keys :: "ustring list" where
  "allowed_keys = map ustr [''token'', ''api-base-url'', ''api-fallback-urls'', ''node-filter-lines'', ''node-filter-regions'',
     ''node-filter-include'', ''node-filter-exclude'', ''listen'', ''socks5-listen'', ''nodelist-listen'',
     ''allow-remote-raw-provider'', ''outbound-ip'', ''udp-port-range'', ''udp-advertise-address'', ''node-refresh-interval'',
     ''request-timeout'', ''tcp-idle-timeout'', ''udp-idle-timeout'', ''max-client-connections'', ''dial-concurrency'',
     ''per-node-dial-concurrency'', ''reuse-max-idle'', ''reuse-max-uses'', ''reuse-idle-timeout'', ''perf-trace-sample-every'']"

fun parse_config_lines :: "(ustring \<rightharpoonup> ustring) \<Rightarrow> ustring list \<Rightarrow> (ustring \<rightharpoonup> ustring) res" where
  "parse_config_lines vs [] = Inr vs"
| "parse_config_lines vs (l # ls) =
     (let line = str_trim l in
      if line = [] \<or> starts_with [35] line then parse_config_lines vs ls
      else (case split_once 61 line of
              None \<Rightarrow> Inl (Bail ''proxy config line must use key=value'')
            | Some (k, v) \<Rightarrow>
                let k = str_trim k; v = str_trim v in
                if k = [] \<or> v = [] then Inl (Bail ''proxy config line must use key=value'')
                else if k \<notin> set allowed_keys then Inl (Bail ''proxy config line has unknown key'')
                else if vs k \<noteq> None then Inl (Bail ''proxy config line duplicates key'')
                else parse_config_lines (vs(k \<mapsto> v)) ls))"

definition parse_proxy_config :: "bytes \<Rightarrow> (ustring \<rightharpoonup> ustring) res" where
  "parse_proxy_config content =
     and_then (ok_or (from_utf8 content) (Bail ''read proxy config'')) (\<lambda>text. parse_config_lines Map.empty (str_lines text))"

definition config_string :: "(ustring \<rightharpoonup> ustring) \<Rightarrow> string \<Rightarrow> ustring" where
  "config_string vs key = (case vs (ustr key) of Some v \<Rightarrow> v | None \<Rightarrow> [])"

definition config_usize :: "(ustring \<rightharpoonup> ustring) \<Rightarrow> string \<Rightarrow> nat \<Rightarrow> nat \<Rightarrow> nat res" where
  "config_usize vs key mn mx =
     (case vs (ustr key) of
        None \<Rightarrow> Inr 0
      | Some v \<Rightarrow> and_then (ok_or (parse_u64 v) (Bail ''parse number'')) (\<lambda>n.
                  if n < mn \<or> mx < n then Inl (Bail ''value out of range'') else Inr n))"

definition listen_value :: "(ustring \<rightharpoonup> ustring) \<Rightarrow> ustring option res" where
  "listen_value vs =
     (case (vs (ustr ''listen''), vs (ustr ''socks5-listen'')) of
        (Some _, Some _) \<Rightarrow> Inl (Bail ''proxy config cannot set both listen and socks5-listen'')
      | (Some v, None) \<Rightarrow> Inr (Some v)
      | (None, Some v) \<Rightarrow> Inr (Some v)
      | (None, None) \<Rightarrow> Inr None)"

definition parse_listen :: "ustring option \<Rightarrow> string \<Rightarrow> socket_addr res" where
  "parse_listen v dflt =
     and_then (ok_or (parse_socket_addr (case v of Some v \<Rightarrow> v | None \<Rightarrow> ustr dflt))
                 (Bail ''must be a numeric IP:port with a port between 1 and 65535'')) (\<lambda>a.
     if sa_port a = 0 then Inl (Bail ''must be a numeric IP:port with a port between 1 and 65535'')
     else if is_multicast (sa_ip a) then Inl (Bail ''must not use a multicast IP'')
     else Inr a)"

definition listens_conflict :: "socket_addr \<Rightarrow> socket_addr \<Rightarrow> bool" where
  "listens_conflict a b \<longleftrightarrow> sa_port a = sa_port b \<and> (sa_ip a = sa_ip b \<or> is_unspecified (sa_ip a) \<or> is_unspecified (sa_ip b))"

definition parse_outbound_ip :: "ustring option \<Rightarrow> ip \<Rightarrow> ip res" where
  "parse_outbound_ip v socks5_ip =
     (case v of
        None \<Rightarrow> if is_unspecified socks5_ip then Inl (Bail ''outbound-ip is required when listen uses an unspecified IP'') else Inr socks5_ip
      | Some v \<Rightarrow>
          and_then (ok_or (parse_ip v) (Bail ''outbound-ip must be a specific, non-multicast numeric IP'')) (\<lambda>a.
          if is_unspecified a \<or> is_multicast a then Inl (Bail ''outbound-ip must be a specific, non-multicast numeric IP'')
          else if is_ipv4 a \<noteq> is_ipv4 socks5_ip then Inl (Bail ''outbound-ip and listen must use the same IP family'')
          else Inr a))"

definition parse_flag :: "ustring option \<Rightarrow> bool res" where
  "parse_flag v =
     (case v of
        None \<Rightarrow> Inr False
      | Some v \<Rightarrow> if v = ustr ''true'' then Inr True else if v = ustr ''false'' then Inr False
                  else Inl (Bail ''allow-remote-raw-provider must be true or false''))"

definition transpose_option :: "'a res option \<Rightarrow> 'a option res" where
  "transpose_option r = (case r of None \<Rightarrow> Inr None | Some (Inl e) \<Rightarrow> Inl e | Some (Inr x) \<Rightarrow> Inr (Some x))"

definition parse_refresh_interval :: "config_crates \<Rightarrow> ustring option \<Rightarrow> nat res" where
  "parse_refresh_interval K v =
     (case v of
        None \<Rightarrow> Inr (secs 3600)
      | Some v \<Rightarrow> and_then (parse_go_duration K v) (\<lambda>d.
                  if secs 60 \<le> d \<and> d \<le> secs (24 * 3600) then Inr d
                  else Inl (Bail ''node-refresh-interval must be between 1m0s and 24h0m0s'')))"

definition raw_of_values :: "(ustring \<rightharpoonup> ustring) \<Rightarrow> ustring \<Rightarrow> socket_addr \<Rightarrow> FileConfig res" where
  "raw_of_values vs token listen =
     and_then (parse_flag (vs (ustr ''allow-remote-raw-provider''))) (\<lambda>remote_raw.
     and_then (config_usize vs ''max-client-connections'' 1 4096) (\<lambda>connections.
     and_then (config_usize vs ''dial-concurrency'' 1 1024) (\<lambda>dials.
     and_then (config_usize vs ''per-node-dial-concurrency'' 1 128) (\<lambda>node_dials.
     and_then (config_usize vs ''reuse-max-idle'' 1 128) (\<lambda>idle_max.
     and_then (config_usize vs ''reuse-max-uses'' 1 1024) (\<lambda>uses_max.
     and_then (config_usize vs ''perf-trace-sample-every'' 0 1000000) (\<lambda>perf.
     Inr (file_config_default\<lparr>fc_access_token := token, fc_allow_remote_raw_provider := remote_raw,
       fc_api_base_url := config_string vs ''api-base-url'',
       fc_node_filter_lines := config_string vs ''node-filter-lines'', fc_node_filter_regions := config_string vs ''node-filter-regions'',
       fc_node_filter_include := config_string vs ''node-filter-include'', fc_node_filter_exclude := config_string vs ''node-filter-exclude'',
       fc_api_fallback_urls := (case vs (ustr ''api-fallback-urls'') of Some v \<Rightarrow> map str_trim (split_char 44 v) | None \<Rightarrow> []),
       fc_listen_address := ustr ''127.0.0.1'', fc_serve_port := sa_port listen,
       fc_request_timeout := config_string vs ''request-timeout'', fc_tcp_idle_timeout := config_string vs ''tcp-idle-timeout'',
       fc_udp_idle_timeout := config_string vs ''udp-idle-timeout'', fc_max_client_connections := connections,
       fc_dial_concurrency := dials, fc_per_node_dial_concurrency := node_dials, fc_reuse_max_idle := idle_max,
       fc_reuse_max_uses := uses_max, fc_reuse_idle_timeout := config_string vs ''reuse-idle-timeout'',
       fc_perf_trace_sample_every := perf\<rparr>))))))))"

definition proxy_config_from_bytes :: "text_crates \<Rightarrow> config_crates \<Rightarrow> api_crates \<Rightarrow> bytes \<Rightarrow> ProxyConfig res" where
  "proxy_config_from_bytes T K A content =
     and_then (parse_proxy_config content) (\<lambda>vs.
     and_then (ok_or (case vs (ustr ''token'') of Some v \<Rightarrow> if v \<noteq> [] then Some v else None | None \<Rightarrow> None)
                 (Bail ''proxy config requires token'')) (\<lambda>token.
     and_then (listen_value vs) (\<lambda>lv.
     and_then (parse_listen lv DEFAULT_LISTEN) (\<lambda>listen.
     and_then (parse_listen (vs (ustr ''nodelist-listen'')) DEFAULT_NODELIST_LISTEN) (\<lambda>nodelist.
     if listens_conflict listen nodelist then Inl (Bail ''listen and nodelist-listen conflict'')
     else
       and_then (parse_outbound_ip (vs (ustr ''outbound-ip'')) (sa_ip listen)) (\<lambda>outbound.
       and_then (transpose_option (map_option parse_udp_port_range (vs (ustr ''udp-port-range'')))) (\<lambda>ports.
       and_then (transpose_option (map_option (\<lambda>v. parse_udp_advertise_address v outbound) (vs (ustr ''udp-advertise-address'')))) (\<lambda>advertise.
       if (ports \<noteq> None) \<noteq> (advertise \<noteq> None)
       then Inl (Bail ''udp-port-range and udp-advertise-address must be configured together'')
       else
         and_then (parse_refresh_interval K (vs (ustr ''node-refresh-interval''))) (\<lambda>interval.
         and_then (raw_of_values vs token listen) (\<lambda>raw.
         and_then (runtime_from_raw T K A Map.empty (\<lambda>p. p) raw) (\<lambda>rt.
         Inr \<lparr>pc_runtime = rt\<lparr>listen_address := sa_ip listen, serve_port := sa_port listen,
                 allow_remote_access := \<not> ip_is_loopback (sa_ip listen)\<rparr>,
           pc_listen = listen, pc_nodelist_listen = nodelist, pc_outbound_ip = outbound, pc_udp_port_range = ports,
           pc_udp_advertise_address = advertise, pc_node_refresh_interval = interval\<rparr>)))))))))))"

definition read_proxy_config :: "files \<Rightarrow> ustring \<Rightarrow> bytes res" where
  "read_proxy_config fs p =
     and_then (require_private_file fs p False) (\<lambda>_. read_limited_file fs p MAX_PROXY_CONFIG_BYTES)"

definition load_proxy_config :: "text_crates \<Rightarrow> config_crates \<Rightarrow> api_crates \<Rightarrow> files \<Rightarrow> ustring \<Rightarrow> ProxyConfig res" where
  "load_proxy_config T K A fs p = and_then (read_proxy_config fs p) (proxy_config_from_bytes T K A)"

text \<open>\<open>replace_config_token\<close> of the command line's login.\<close>

definition token_line :: "ustring \<Rightarrow> bool" where
  "token_line l \<longleftrightarrow> \<not> starts_with [35] (trim_start_by is_whitespace l)
     \<and> (case split_once 61 l of Some (k, _) \<Rightarrow> str_trim k = ustr ''token'' | None \<Rightarrow> False)"

fun replace_token_lines :: "ustring \<Rightarrow> ustring \<Rightarrow> bool \<Rightarrow> ustring list \<Rightarrow> (bool \<times> ustring) res" where
  "replace_token_lines expected token found [] = Inr (found, [])"
| "replace_token_lines expected token found (l # ls) =
     (if token_line l then
        (case split_once 61 l of
           Some (_, cur) \<Rightarrow>
             if found \<or> str_trim cur \<noteq> expected then Inl (Bail ''proxy config changed while preparing login'')
             else and_then (replace_token_lines expected token True ls) (\<lambda>(f, out). Inr (f, ustr ''token='' @ token @ [10] @ out))
         | None \<Rightarrow> Inl (Bail ''unreachable''))
      else and_then (replace_token_lines expected token found ls) (\<lambda>(f, out). Inr (f, l @ [10] @ out)))"

definition replace_config_token :: "ustring \<Rightarrow> ustring \<Rightarrow> ustring \<Rightarrow> ustring res" where
  "replace_config_token content expected token =
     and_then (replace_token_lines expected token False (str_lines content)) (\<lambda>(found, out).
     if found then Inr out else Inl (Bail ''proxy config requires token''))"

subsection \<open>What an accepted configuration guarantees\<close>

lemma parse_bounded_duration_Inr:
  assumes "parse_bounded_duration K v dflt mn mx = Inr d" "mn \<le> dflt" "dflt \<le> mx"
  shows "mn \<le> d" "d \<le> mx"
  using assms by (auto simp: parse_bounded_duration_def res_simps split: if_splits)

lemma bounded_or_default_Inr: "bounded_or_default v dflt mn mx = Inr n \<Longrightarrow> mn \<le> n \<and> n \<le> mx"
  by (auto simp: bounded_or_default_def Let_def split: if_splits)

lemma parse_fallback_urls_Inr:
  assumes "parse_fallback_urls K A base seen vs = Inr us" "distinct (base # seen)" "\<forall>u \<in> set seen. validate_api_url (url_parts A u) = Inr ()"
  shows "distinct (base # us) \<and> (\<forall>u \<in> set us. validate_api_url (url_parts A u) = Inr ()) \<and> length us = length seen + length vs"
  using assms
proof (induction vs arbitrary: seen)
  case (Cons v vs)
  from Cons.prems(1) obtain u where u: "validate_api_url (url_parts A u) = Inr ()" "u \<noteq> base" "u \<notin> set seen"
    "parse_fallback_urls K A base (seen @ [u]) vs = Inr us" by (auto simp: res_simps split: if_splits)
  from Cons.IH [OF u(4)] u Cons.prems(2,3) show ?case by auto
qed simp

definition urls_ok :: "api_crates \<Rightarrow> RuntimeConfig \<Rightarrow> bool" where
  "urls_ok A rt \<longleftrightarrow> distinct (api_base_url rt # api_fallback_urls rt) \<and> length (api_fallback_urls rt) \<le> 3
     \<and> list_all (\<lambda>u. validate_api_url (url_parts A u) = Inr ()) (api_base_url rt # api_fallback_urls rt)"

definition limits_ok :: "RuntimeConfig \<Rightarrow> bool" where
  "limits_ok rt \<longleftrightarrow> 1 \<le> request_timeout rt \<and> request_timeout rt \<le> secs 120
     \<and> secs 60 \<le> tcp_idle_timeout rt \<and> tcp_idle_timeout rt \<le> secs 86400
     \<and> secs 1 \<le> udp_idle_timeout rt \<and> udp_idle_timeout rt \<le> secs 86400
     \<and> secs 1 \<le> reuse_idle_timeout rt \<and> reuse_idle_timeout rt \<le> secs 600
     \<and> 1 \<le> max_client_connections rt \<and> max_client_connections rt \<le> 4096
     \<and> 1 \<le> dial_concurrency rt \<and> dial_concurrency rt \<le> 1024
     \<and> 1 \<le> per_node_dial_concurrency rt \<and> per_node_dial_concurrency rt \<le> 128
     \<and> 1 \<le> reuse_max_idle rt \<and> reuse_max_idle rt \<le> 128 \<and> 1 \<le> reuse_max_uses rt \<and> reuse_max_uses rt \<le> 1024
     \<and> perf_trace_sample_every rt \<le> 1000000"

lemma resolve_token_Inr: "resolve_token fs resolve raw = Inr t \<Longrightarrow> t \<noteq> []"
  by (auto simp: resolve_token_def Let_def res_simps split: if_splits)

lemma resolve_urls_Inr:
  assumes "resolve_urls K A raw = Inr (base, us)"
  shows "distinct (base # us)" "list_all (\<lambda>u. validate_api_url (url_parts A u) = Inr ()) (base # us)" "length us \<le> 3"
proof -
  from assms have p: "validate_api_url (url_parts A base) = Inr ()" "length (fc_api_fallback_urls raw) \<le> 3"
    "parse_fallback_urls K A base [] (fc_api_fallback_urls raw) = Inr us"
    by (auto simp: resolve_urls_def res_simps split: if_splits)
  from parse_fallback_urls_Inr [OF p(3)] p(1,2)
  show "distinct (base # us)" "list_all (\<lambda>u. validate_api_url (url_parts A u) = Inr ()) (base # us)" "length us \<le> 3"
    by (simp_all add: list_all_iff)
qed

lemma resolve_socks_Inr:
  "resolve_socks_credentials fs resolve raw = Inr (u, p) \<Longrightarrow> str_len u \<le> 255 \<and> str_len p \<le> 255 \<and> (u = [] \<longleftrightarrow> p = [])"
  by (auto simp: resolve_socks_credentials_def Let_def res_simps str_len_def split: if_splits)

lemma runtime_remote:
  "runtime_from_raw T K A fs resolve raw = Inr rt \<Longrightarrow>
     ip_is_loopback (listen_address rt) \<or> allow_remote_access rt \<and> socks_username rt \<noteq> [] \<and> socks_password rt \<noteq> []"
  unfolding runtime_from_raw_def by (auto simp: and_then_Inr_iff split: if_split_asm)

lemma runtime_from_raw_Inr:
  assumes "runtime_from_raw T K A fs resolve raw = Inr rt"
  shows "access_token rt \<noteq> []" "app_secret rt \<noteq> []" "urls_ok A rt" "limits_ok rt" "map_base_port rt \<noteq> 0" "serve_port rt \<noteq> 0"
    "\<not> ip_is_loopback (listen_address rt) \<Longrightarrow> allow_remote_access rt \<and> socks_username rt \<noteq> [] \<and> socks_password rt \<noteq> []"
    "str_len (socks_username rt) \<le> 255" "str_len (socks_password rt) \<le> 255"
proof -
  obtain token base urls request tcp_idle udp_idle reuse_idle address username password nf connections dials node_dials idle_max uses_max perf where
    p: "resolve_token fs resolve raw = Inr token" "resolve_urls K A raw = Inr (base, urls)"
      "parse_bounded_duration K (fc_request_timeout raw) (secs 15) 1 (secs 120) = Inr request"
      "parse_bounded_duration K (fc_tcp_idle_timeout raw) (secs 3600) (secs 60) (secs (24 * 3600)) = Inr tcp_idle"
      "parse_bounded_duration K (fc_udp_idle_timeout raw) (secs 300) (secs 1) (secs (24 * 3600)) = Inr udp_idle"
      "parse_bounded_duration K (fc_reuse_idle_timeout raw) (secs 90) (secs 1) (secs 600) = Inr reuse_idle"
      "resolve_socks_credentials fs resolve raw = Inr (username, password)"
      "bounded_or_default (fc_max_client_connections raw) 256 1 4096 = Inr connections"
      "bounded_or_default (fc_dial_concurrency raw) 32 1 1024 = Inr dials"
      "bounded_or_default (fc_per_node_dial_concurrency raw) 8 1 128 = Inr node_dials"
      "bounded_or_default (fc_reuse_max_idle raw) 8 1 128 = Inr idle_max"
      "bounded_or_default (fc_reuse_max_uses raw) 32 1 1024 = Inr uses_max"
      "bounded_value (fc_perf_trace_sample_every raw) 0 1000000 = Inr perf"
    and rt: "rt = \<lparr>access_token = token, app_secret = resolve_secret raw,
         api_base_url = base, api_fallback_urls = urls, node_filter = nf,
         listen_address = address, serve_port = nonzero_or (fc_serve_port raw) 6172, map_base_port = nonzero_or (fc_map_base_port raw) 7200,
         request_timeout = request, tcp_idle_timeout = tcp_idle, udp_idle_timeout = udp_idle,
         allow_remote_access = fc_allow_remote_access raw, allow_remote_raw_provider = fc_allow_remote_raw_provider raw,
         socks_username = username, socks_password = password, max_client_connections = connections, dial_concurrency = dials,
         per_node_dial_concurrency = node_dials, reuse_max_idle = idle_max, reuse_max_uses = uses_max,
         reuse_idle_timeout = reuse_idle, perf_trace_sample_every = perf\<rparr>"
    using assms unfolding runtime_from_raw_def
    by (auto simp: and_then_Inr_iff simp del: One_nat_def split: if_split_asm)
  show "access_token rt \<noteq> []" using resolve_token_Inr [OF p(1)] rt by simp
  show "app_secret rt \<noteq> []" using rt by (simp add: resolve_secret_def ustr_def DEFAULT_APP_SECRET_def)
  show "urls_ok A rt" using resolve_urls_Inr [OF p(2)] rt by (simp add: urls_ok_def)
  show "limits_ok rt"
    using parse_bounded_duration_Inr [OF p(3)] parse_bounded_duration_Inr [OF p(4)] parse_bounded_duration_Inr [OF p(5)]
      parse_bounded_duration_Inr [OF p(6)] p(8-12) [THEN bounded_or_default_Inr] p(13) rt
    by (auto simp: limits_ok_def secs_def bounded_value_def split: if_splits)
  show "map_base_port rt \<noteq> 0" "serve_port rt \<noteq> 0" using rt by (simp_all add: nonzero_or_def)
  show "\<not> ip_is_loopback (listen_address rt) \<Longrightarrow> allow_remote_access rt \<and> socks_username rt \<noteq> [] \<and> socks_password rt \<noteq> []"
    using runtime_remote [OF assms] by blast
  show "str_len (socks_username rt) \<le> 255" "str_len (socks_password rt) \<le> 255" using resolve_socks_Inr [OF p(7)] rt by simp_all
qed

lemma parse_listen_Inr: "parse_listen v d = Inr a \<Longrightarrow> sa_port a \<noteq> 0 \<and> \<not> is_multicast (sa_ip a)"
  by (auto simp: parse_listen_def res_simps split: if_splits)

lemma parse_outbound_Inr:
  assumes "parse_outbound_ip v socks5_ip = Inr a" "\<not> is_multicast socks5_ip"
  shows "\<not> is_unspecified a \<and> \<not> is_multicast a \<and> is_ipv4 a = is_ipv4 socks5_ip"
  using assms by (auto simp: parse_outbound_ip_def res_simps split: option.splits if_splits)

lemma parse_udp_advertise_Inr:
  "parse_udp_advertise_address v b = Inr a \<Longrightarrow> \<not> is_unspecified a \<and> \<not> is_multicast a \<and> is_ipv4 a = is_ipv4 b"
  by (auto simp: parse_udp_advertise_address_def res_simps split: if_splits)

lemma transpose_option_Inr:
  "transpose_option (map_option f v) = Inr r \<longleftrightarrow> (case v of None \<Rightarrow> r = None | Some x \<Rightarrow> \<exists>y. f x = Inr y \<and> r = Some y)"
  by (auto simp: transpose_option_def split: option.splits sum.splits)

lemma proxy_config_Inr:
  assumes "proxy_config_from_bytes T K A content = Inr c"
  obtains vs lv raw rt where "parse_proxy_config content = Inr vs" "parse_listen lv DEFAULT_LISTEN = Inr (pc_listen c)"
    "parse_listen (vs (ustr ''nodelist-listen'')) DEFAULT_NODELIST_LISTEN = Inr (pc_nodelist_listen c)"
    "\<not> listens_conflict (pc_listen c) (pc_nodelist_listen c)"
    "parse_outbound_ip (vs (ustr ''outbound-ip'')) (sa_ip (pc_listen c)) = Inr (pc_outbound_ip c)"
    "transpose_option (map_option parse_udp_port_range (vs (ustr ''udp-port-range''))) = Inr (pc_udp_port_range c)"
    "transpose_option (map_option (\<lambda>v. parse_udp_advertise_address v (pc_outbound_ip c)) (vs (ustr ''udp-advertise-address''))) = Inr (pc_udp_advertise_address c)"
    "(pc_udp_port_range c = None) = (pc_udp_advertise_address c = None)"
    "parse_refresh_interval K (vs (ustr ''node-refresh-interval'')) = Inr (pc_node_refresh_interval c)"
    "runtime_from_raw T K A Map.empty (\<lambda>p. p) raw = Inr rt"
    "pc_runtime c = rt\<lparr>listen_address := sa_ip (pc_listen c), serve_port := sa_port (pc_listen c),
       allow_remote_access := \<not> ip_is_loopback (sa_ip (pc_listen c))\<rparr>"
  using assms unfolding proxy_config_from_bytes_def by (auto simp: and_then_Inr_iff split: if_split_asm)

lemma proxy_config_limits:
  assumes "proxy_config_from_bytes T K A content = Inr c"
  shows "limits_ok (pc_runtime c)" "urls_ok A (pc_runtime c)" "access_token (pc_runtime c) \<noteq> []" "app_secret (pc_runtime c) \<noteq> []"
    "serve_port (pc_runtime c) = sa_port (pc_listen c)" "serve_port (pc_runtime c) \<noteq> 0"
    "\<not> is_unspecified (pc_outbound_ip c)" "\<not> is_multicast (pc_outbound_ip c)" "is_ipv4 (pc_outbound_ip c) = is_ipv4 (sa_ip (pc_listen c))"
proof -
  obtain vs lv raw rt where p: "parse_listen lv DEFAULT_LISTEN = Inr (pc_listen c)"
    "parse_outbound_ip (vs (ustr ''outbound-ip'')) (sa_ip (pc_listen c)) = Inr (pc_outbound_ip c)"
    "runtime_from_raw T K A Map.empty (\<lambda>p. p) raw = Inr rt"
    "pc_runtime c = rt\<lparr>listen_address := sa_ip (pc_listen c), serve_port := sa_port (pc_listen c),
       allow_remote_access := \<not> ip_is_loopback (sa_ip (pc_listen c))\<rparr>"
    using assms by (rule proxy_config_Inr)
  show "limits_ok (pc_runtime c)" "urls_ok A (pc_runtime c)" "access_token (pc_runtime c) \<noteq> []" "app_secret (pc_runtime c) \<noteq> []"
    using runtime_from_raw_Inr(1-4) [OF p(3)] p(4) by (simp_all add: urls_ok_def limits_ok_def)
  show "serve_port (pc_runtime c) = sa_port (pc_listen c)" "serve_port (pc_runtime c) \<noteq> 0" using p(4) parse_listen_Inr [OF p(1)] by simp_all
  show "\<not> is_unspecified (pc_outbound_ip c)" "\<not> is_multicast (pc_outbound_ip c)" "is_ipv4 (pc_outbound_ip c) = is_ipv4 (sa_ip (pc_listen c))"
    using parse_outbound_Inr [OF p(2)] parse_listen_Inr [OF p(1)] by simp_all
qed

text \<open>
  C25: Whatever the file holds, a configuration that is accepted is usable: both listeners have a port, are no multicast addresses and do not collide; the outbound
  address is specific and of the listener's family; a UDP port range comes with an address to advertise, is ordered and of at most 4096 ports; the API addresses are
  at most four different HTTPS URLs; and every timeout, limit and interval is within its bounds.
\<close>

theorem accepted_configuration_is_sound:
  assumes "proxy_config_from_bytes T K A content = Inr c"
  shows "sa_port (pc_listen c) \<noteq> 0 \<and> sa_port (pc_nodelist_listen c) \<noteq> 0
    \<and> \<not> is_multicast (sa_ip (pc_listen c)) \<and> \<not> is_multicast (sa_ip (pc_nodelist_listen c))
    \<and> \<not> listens_conflict (pc_listen c) (pc_nodelist_listen c)
    \<and> \<not> is_unspecified (pc_outbound_ip c) \<and> \<not> is_multicast (pc_outbound_ip c) \<and> is_ipv4 (pc_outbound_ip c) = is_ipv4 (sa_ip (pc_listen c))
    \<and> (case (pc_udp_port_range c, pc_udp_advertise_address c) of
         (None, None) \<Rightarrow> True
       | (Some r, Some a) \<Rightarrow> range_ok r \<and> \<not> is_unspecified a \<and> \<not> is_multicast a \<and> is_ipv4 a = is_ipv4 (pc_outbound_ip c)
       | _ \<Rightarrow> False)
    \<and> secs 60 \<le> pc_node_refresh_interval c \<and> pc_node_refresh_interval c \<le> secs 86400
    \<and> access_token (pc_runtime c) \<noteq> [] \<and> app_secret (pc_runtime c) \<noteq> []
    \<and> urls_ok A (pc_runtime c) \<and> limits_ok (pc_runtime c)
    \<and> serve_port (pc_runtime c) = sa_port (pc_listen c)
    \<and> allow_remote_access (pc_runtime c) = (\<not> ip_is_loopback (sa_ip (pc_listen c)))"
proof -
  obtain vs lv where p: "parse_listen lv DEFAULT_LISTEN = Inr (pc_listen c)"
    "parse_listen (vs (ustr ''nodelist-listen'')) DEFAULT_NODELIST_LISTEN = Inr (pc_nodelist_listen c)"
    "\<not> listens_conflict (pc_listen c) (pc_nodelist_listen c)"
    "transpose_option (map_option parse_udp_port_range (vs (ustr ''udp-port-range''))) = Inr (pc_udp_port_range c)"
    "transpose_option (map_option (\<lambda>v. parse_udp_advertise_address v (pc_outbound_ip c)) (vs (ustr ''udp-advertise-address''))) = Inr (pc_udp_advertise_address c)"
    "(pc_udp_port_range c = None) = (pc_udp_advertise_address c = None)"
    "parse_refresh_interval K (vs (ustr ''node-refresh-interval'')) = Inr (pc_node_refresh_interval c)"
    "allow_remote_access (pc_runtime c) = (\<not> ip_is_loopback (sa_ip (pc_listen c)))"
    using assms by (rule proxy_config_Inr) simp
  have udp: "case (pc_udp_port_range c, pc_udp_advertise_address c) of
         (None, None) \<Rightarrow> True
       | (Some r, Some a) \<Rightarrow> range_ok r \<and> \<not> is_unspecified a \<and> \<not> is_multicast a \<and> is_ipv4 a = is_ipv4 (pc_outbound_ip c)
       | _ \<Rightarrow> False"
    using p(4-6) parse_udp_port_range_ok parse_udp_advertise_Inr unfolding transpose_option_Inr by (fastforce split: option.splits)
  have "secs 60 \<le> pc_node_refresh_interval c \<and> pc_node_refresh_interval c \<le> secs 86400"
    using p(7) by (auto simp: parse_refresh_interval_def secs_def res_simps split: option.splits if_splits)
  then show ?thesis using parse_listen_Inr [OF p(1)] parse_listen_Inr [OF p(2)] p(3,8) udp proxy_config_limits [OF assms] by simp
qed

subsection \<open>Replacing the token\<close>

lemma trim_end_by_Cons: "trim_end_by p (c # cs) = (if p c \<and> trim_end_by p cs = [] then [] else c # trim_end_by p cs)"
  by (auto simp: trim_end_by_def dropWhile_append)

lemma trim_end_by_append: "trim_end_by p (a @ b) = (if trim_end_by p b = [] then trim_end_by p a else a @ trim_end_by p b)"
  by (auto simp: trim_end_by_def dropWhile_append)

lemma trim_start_end: "trim_start_by p (trim_end_by p s) = trim_end_by p (trim_start_by p s)"
proof (induction s)
  case (Cons c cs)
  then show ?case by (cases "p c") (auto simp: trim_end_by_Cons trim_start_by_def)
qed (simp add: trim_start_by_def trim_end_by_def)

lemma trim_by_parts: "trim_by p (trim_start_by p s) = trim_by p s" "trim_by p (trim_end_by p s) = trim_by p s"
proof -
  show "trim_by p (trim_start_by p s) = trim_by p s" by (simp add: trim_by_def trim_start_by_def)
  have "trim_end_by p (trim_end_by p x) = trim_end_by p x" for x by (simp add: trim_end_by_def)
  then show "trim_by p (trim_end_by p s) = trim_by p s" by (simp add: trim_by_def trim_start_end)
qed

lemma str_trim_idem [simp]: "str_trim (str_trim s) = str_trim s"
  unfolding str_trim_def using trim_by_parts [of is_whitespace] by (metis trim_by_def)

lemma str_trim_chomp: "str_trim (chomp_cr l) = str_trim l"
proof (cases "strip_suffix [13] l")
  case (Some t)
  then have "l = t @ [13]" by (simp add: strip_suffix_Some)
  then have "trim_end_by is_whitespace l = trim_end_by is_whitespace t"
    by (simp add: trim_end_by_append) (simp add: trim_end_by_def is_whitespace_def)
  then show ?thesis using Some trim_by_parts(2) [of is_whitespace] by (simp add: chomp_cr_def str_trim_def) metis
qed (simp add: chomp_cr_def)

definition key_value :: "ustring \<Rightarrow> (ustring \<times> ustring) option" where
  "key_value l = map_option (\<lambda>(k, v). (str_trim k, str_trim v)) (split_once 61 l)"

lemma key_value_trim: "key_value (str_trim l) = key_value l"
proof (cases "split_once 61 l")
  case None
  then have "61 \<notin> set (str_trim l)" using trim_by_subset [of is_whitespace l] by (auto simp: split_once_None str_trim_def)
  then show ?thesis using None by (simp add: key_value_def split_once_None [symmetric])
next
  case (Some p)
  obtain a b where p: "p = (a, b)" by fastforce
  then have l: "l = a @ 61 # b" "61 \<notin> set a" using Some by (simp_all add: split_once_Some)
  have w: "\<not> is_whitespace 61" by (simp add: is_whitespace_def)
  have "trim_start_by is_whitespace l = trim_start_by is_whitespace a @ 61 # b"
    using l w by (simp add: trim_start_by_def dropWhile_append)
  moreover have "trim_end_by is_whitespace (x @ 61 # b) = x @ 61 # trim_end_by is_whitespace b" for x
    using w by (simp add: trim_end_by_append trim_end_by_Cons)
  ultimately have "str_trim l = trim_start_by is_whitespace a @ 61 # trim_end_by is_whitespace b"
    by (simp add: str_trim_def trim_by_def)
  moreover have "61 \<notin> set (trim_start_by is_whitespace a)" using l(2) by (auto simp: trim_start_by_def dest: set_dropWhileD)
  ultimately have "split_once 61 (str_trim l) = Some (trim_start_by is_whitespace a, trim_end_by is_whitespace b)"
    by (simp add: split_once_Some)
  then show ?thesis using Some p by (simp add: key_value_def str_trim_def trim_by_parts)
qed

definition skipped_line :: "ustring \<Rightarrow> bool" where
  "skipped_line l \<longleftrightarrow> str_trim l = [] \<or> starts_with [35] (str_trim l)"

lemma comment_trim: "starts_with [35] (trim_start_by is_whitespace l) \<longleftrightarrow> starts_with [35] (str_trim l)"
proof (cases "trim_start_by is_whitespace l")
  case (Cons c cs)
  then have "\<not> is_whitespace c" using hd_dropWhile [of is_whitespace l] by (simp add: trim_start_by_def)
  then have "str_trim l = c # trim_end_by is_whitespace cs" using Cons by (simp add: str_trim_def trim_by_def trim_end_by_Cons)
  then show ?thesis using Cons by (simp add: starts_with_iff)
qed (simp add: str_trim_def trim_by_def trim_end_by_def)

lemma token_line_iff: "token_line l \<longleftrightarrow> \<not> skipped_line l \<and> (\<exists>v. key_value l = Some (ustr ''token'', v))"
proof -
  have "str_trim l \<noteq> []" if "split_once 61 l = Some (k, v)" for k v
  proof -
    have "61 \<in> set l" "\<not> is_whitespace 61" using that by (auto simp: split_once_Some is_whitespace_def)
    then show ?thesis by (auto simp: str_trim_def trim_by_Nil_iff)
  qed
  then show ?thesis by (auto simp: token_line_def skipped_line_def comment_trim key_value_def split: option.splits)
qed

lemma parse_config_lines_Cons:
  "parse_config_lines vs (l # ls) =
     (if skipped_line l then parse_config_lines vs ls
      else (case key_value l of
              None \<Rightarrow> Inl (Bail ''proxy config line must use key=value'')
            | Some (k, v) \<Rightarrow>
                if k = [] \<or> v = [] then Inl (Bail ''proxy config line must use key=value'')
                else if k \<notin> set allowed_keys then Inl (Bail ''proxy config line has unknown key'')
                else if vs k \<noteq> None then Inl (Bail ''proxy config line duplicates key'')
                else parse_config_lines (vs(k \<mapsto> v)) ls))"
  unfolding key_value_trim [of l, symmetric] skipped_line_def
  by (auto simp: key_value_def Let_def split: option.split)

declare parse_config_lines.simps(2) [simp del]

lemma parse_config_lines_trim:
  assumes "\<forall>l \<in> set ls. str_trim (f l) = str_trim l"
  shows "parse_config_lines vs (map f ls) = parse_config_lines vs ls"
  using assms by (induction ls arbitrary: vs) (simp_all add: parse_config_lines.simps(2) Let_def split: option.split)

lemma parse_config_lines_step:
  assumes "parse_config_lines vs (l # ls) = Inr ws"
  obtains (skipped) "skipped_line l" "parse_config_lines vs ls = Inr ws"
  | (entry) k v where "\<not> skipped_line l" "key_value l = Some (k, v)" "k \<noteq> []" "v \<noteq> []" "vs k = None" "k \<in> set allowed_keys"
      "parse_config_lines (vs(k \<mapsto> v)) ls = Inr ws"
  using assms by (auto simp: parse_config_lines_Cons split: if_splits option.splits)

lemma parse_config_lines_keeps: "parse_config_lines vs ls = Inr ws \<Longrightarrow> vs k = Some v \<Longrightarrow> ws k = Some v"
proof (induction ls arbitrary: vs)
  case (Cons l ls)
  from Cons.prems(1) show ?case
  proof (cases rule: parse_config_lines_step)
    case (entry k' v')
    then have "k \<noteq> k'" using Cons.prems(2) by auto
    then show ?thesis using Cons.IH [OF entry(7)] Cons.prems(2) by simp
  qed (use Cons in blast)
qed simp

definition new_token_line :: "ustring \<Rightarrow> ustring \<Rightarrow> ustring" where
  "new_token_line token l = (if token_line l then ustr ''token='' @ token else l)"

lemma replaced_lines:
  assumes "parse_config_lines vs ls = Inr ws" "ws (ustr ''token'') = Some t" "vs (ustr ''token'') = None \<or> vs (ustr ''token'') = Some t"
    and token: "key_value (ustr ''token='' @ token) = Some (ustr ''token'', token)" "token \<noteq> []" "\<not> skipped_line (ustr ''token='' @ token)"
  shows "replace_token_lines t token (vs (ustr ''token'') \<noteq> None) ls = Inr (True, concat (map (\<lambda>l. new_token_line token l @ [10]) ls))
    \<and> parse_config_lines (if vs (ustr ''token'') = None then vs else vs(ustr ''token'' \<mapsto> token)) (map (new_token_line token) ls)
       = Inr (ws(ustr ''token'' \<mapsto> token))"
  using assms(1-3)
proof (induction ls arbitrary: vs)
  case (Cons l ls)
  let ?t = "ustr ''token''"
  have key: "?t \<in> set allowed_keys" "?t \<noteq> []" by (simp_all add: allowed_keys_def ustr_def)
  from Cons.prems(1) show ?case
  proof (cases rule: parse_config_lines_step)
    case skipped
    then have "new_token_line token l = l" "\<not> token_line l" by (simp_all add: token_line_iff new_token_line_def)
    then show ?thesis using Cons.IH [OF skipped(2) Cons.prems(2,3)] skipped(1) by (simp add: parse_config_lines_Cons)
  next
    case (entry k v)
    show ?thesis
    proof (cases "token_line l")
      case True
      then have k: "k = ?t" and n: "new_token_line token l = ustr ''token='' @ token"
        using entry(2) by (simp_all add: token_line_iff new_token_line_def)
      have v: "v = t" using parse_config_lines_keeps [OF entry(7), of ?t] Cons.prems(2) k by simp
      obtain a cur where "split_once 61 l = Some (a, cur)" "str_trim cur = t" using entry(2) v by (auto simp: key_value_def)
      moreover have "replace_token_lines t token True ls = Inr (True, concat (map (\<lambda>l. new_token_line token l @ [10]) ls))"
        "parse_config_lines (vs(?t \<mapsto> token)) (map (new_token_line token) ls) = Inr (ws(?t \<mapsto> token))"
        using Cons.IH [OF entry(7) Cons.prems(2)] k v
        by (simp_all only: fun_upd_same fun_upd_upd option.distinct option.simps if_False simp_thms)
      ultimately show ?thesis using True k entry(5) token key n by (simp add: parse_config_lines_Cons del: fun_upd_apply)
    next
      case False
      then have nk: "k \<noteq> ?t" and n: "new_token_line token l = l"
        using entry(1,2) by (auto simp: token_line_iff new_token_line_def)
      have "vs(?t \<mapsto> token, k \<mapsto> v) = vs(k \<mapsto> v, ?t \<mapsto> token)" using nk by (simp add: fun_upd_twist)
      then show ?thesis using False Cons.IH [OF entry(7) Cons.prems(2)] Cons.prems(3) nk entry n
        by (auto simp: parse_config_lines_Cons)
    qed
  qed
qed auto

lemma str_lines_piece: "l \<in> set (str_lines s) \<Longrightarrow> \<exists>w \<in> set (split_char 10 s). l = w \<or> l = chomp_cr w"
  unfolding str_lines_def Let_def split_char_def
  using last_in_set [OF split_on_nonempty] by (fastforce split: if_splits dest: in_set_butlastD)

lemma str_lines_char:
  assumes "l \<in> set (str_lines s)" "c \<in> set l"
  shows "c \<in> set s \<and> c \<noteq> 10"
proof -
  obtain w where w: "w \<in> set (split_char 10 s)" "l = w \<or> l = chomp_cr w" using str_lines_piece [OF assms(1)] by blast
  have "set (chomp_cr w) \<subseteq> set w" by (auto simp: chomp_cr_def strip_suffix_Some split: option.splits)
  then have "c \<in> set w" using w(2) assms(2) by auto
  then show ?thesis using w(1) split_on_no_sep [of w _ s c] split_on_subset [of w _ s] unfolding split_char_def by blast
qed

lemma str_lines_join: "(\<forall>l \<in> set ls. 10 \<notin> set l) \<Longrightarrow> str_lines (concat (map (\<lambda>l. l @ [10]) ls)) = map chomp_cr ls"
  by (simp add: str_lines_def split_lines_concat Let_def)

text \<open>
  Putting a new token into an accepted configuration file always works and changes nothing else: the token line is found, and the resulting
  file is read as the same settings with the new token, whatever comments, spaces and line endings the file has.
\<close>

lemma replaced_token_reads_back:
  assumes "parse_proxy_config (utf8 content) = Inr vs" "vs (ustr ''token'') = Some t" "list_all scalar content"
    "token \<noteq> []" "list_all (\<lambda>c. 33 \<le> c \<and> c \<le> 126) token"
  shows "\<exists>out. replace_config_token content t token = Inr out \<and> parse_proxy_config (utf8 out) = Inr (vs(ustr ''token'' \<mapsto> token))"
proof -
  let ?ls = "str_lines content" and ?l = "ustr ''token='' @ token"
  have p: "parse_config_lines Map.empty ?ls = Inr vs" using assms(1,3) by (simp add: parse_proxy_config_def from_utf8_utf8)
  have graphic: "\<not> is_whitespace c" if "33 \<le> c \<and> c \<le> 126" for c using that by (auto simp: is_whitespace_def)
  have ends: "\<not> is_whitespace (hd token)" "\<not> is_whitespace (last token)"
    using assms(4,5) by (auto simp: list_all_iff intro!: graphic)
  have trims: "str_trim token = token" "str_trim (ustr ''token'') = ustr ''token''" "str_trim ?l = ?l"
    using ends assms(4) by (simp_all add: str_trim_def trim_by_id ustr_def is_whitespace_def)
  have "split_once 61 ?l = Some (ustr ''token'', token)" by (simp add: ustr_def)
  then have tok: "key_value ?l = Some (ustr ''token'', token)" using trims by (simp add: key_value_def)
  have skip: "\<not> skipped_line ?l" using trims(3) by (simp add: skipped_line_def starts_with_iff ustr_def)
  note R = replaced_lines [OF p assms(2) _ tok assms(4) skip]
  let ?out = "concat (map (\<lambda>l. new_token_line token l @ [10]) ?ls)"
  have char: "(c \<in> set content \<or> c < 128) \<and> c \<noteq> 10" if "l \<in> set ?ls" "c \<in> set (new_token_line token l)" for l c
    using that str_lines_char [of l content c] assms(5)
    by (auto simp: new_token_line_def list_all_iff ustr_def split: if_splits)
  have nl: "\<forall>l \<in> set (map (new_token_line token) ?ls). 10 \<notin> set l" using char by fastforce
  have "list_all scalar ?out" using char assms(3) scalar_ascii by (fastforce simp: list_all_iff scalar_def)
  moreover have "str_lines ?out = map chomp_cr (map (new_token_line token) ?ls)"
    using str_lines_join [OF nl] by (simp add: comp_def)
  moreover have "parse_config_lines Map.empty (map chomp_cr (map (new_token_line token) ?ls)) = Inr (vs(ustr ''token'' \<mapsto> token))"
    using R by (subst parse_config_lines_trim) (simp_all add: str_trim_chomp)
  ultimately show ?thesis using R
    by (intro exI [of _ ?out]) (simp add: replace_config_token_def parse_proxy_config_def from_utf8_utf8)
qed

subsection \<open>A sample file\<close>

definition sample_file :: ustring where
  "sample_file = ustr ''token = t'' @ [13, 10] @ ustr ''# note'' @ [10]"

definition sample_crates :: config_crates where
  "sample_crates = \<lparr>url_parse = Some, f64_nanos = (\<lambda>_. None)\<rparr>"

lemma sample_file_parsed: "parse_proxy_config (utf8 sample_file) = Inr [ustr ''token'' \<mapsto> ustr ''t'']"
proof -
  have "list_all scalar sample_file" by (simp add: sample_file_def ustr_def scalar_def)
  moreover have "str_lines sample_file = [ustr ''token = t'', ustr ''# note'']"
    by (simp add: sample_file_def ustr_def str_lines_def split_char_def chomp_cr_def strip_suffix_def Let_def)
  moreover have "parse_config_lines Map.empty [ustr ''token = t'', ustr ''# note''] = Inr [ustr ''token'' \<mapsto> ustr ''t'']"
    by (simp add: parse_config_lines.simps(2) str_trim_def trim_by_def trim_start_by_def trim_end_by_def ustr_def is_whitespace_def
        starts_with_def allowed_keys_def)
  ultimately show ?thesis by (simp add: parse_proxy_config_def from_utf8_utf8)
qed

lemma replaced_token_reads_back_witness:
  "\<exists>out. replace_config_token sample_file (ustr ''t'') (ustr ''new'') = Inr out
    \<and> parse_proxy_config (utf8 out) = Inr [ustr ''token'' \<mapsto> ustr ''new'']"
  using replaced_token_reads_back [OF sample_file_parsed, of "ustr ''t''" "ustr ''new''"]
  by (simp add: sample_file_def ustr_def scalar_def)

lemma sample_listen:
  "parse_socket_addr (ustr ''127.0.0.1:6172'') = Some \<lparr>sa_ip = V4 (v4_of_octets [127, 0, 0, 1]), sa_port = 6172\<rparr>"
  "parse_socket_addr (ustr ''127.0.0.1:6173'') = Some \<lparr>sa_ip = V4 (v4_of_octets [127, 0, 0, 1]), sa_port = 6173\<rparr>"
  "parse_ip (ustr ''127.0.0.1'') = Some (V4 (v4_of_octets [127, 0, 0, 1]))"
  by (simp_all add: parse_socket_addr_def read_socket_addr_v4_def read_ipv4_def read_octet_def read_separator_def read_number_def
      read_given_char_def ustr_def digit_val_def ascii_digit_def read_port_def parse_ip_def Let_def)

lemma loopback_octets: "v4_of_octets [127, 0, 0, 1] = 2130706433"
  by (simp add: v4_of_octets_def be_val_def)

lemma ustr_inj: "ustr a = ustr b \<longleftrightarrow> a = b"
proof -
  have "inj (of_char :: char \<Rightarrow> nat)" by (rule injI) simp
  then show ?thesis by (simp add: ustr_def inj_map_eq_map)
qed

lemma sample_configuration:
  obtains c where "proxy_config_from_bytes sample_text sample_crates sample_api (utf8 sample_file) = Inr c"
    "sa_port (pc_listen c) = 6172" "access_token (pc_runtime c) = ustr ''t''" "pc_outbound_ip c = V4 2130706433"
proof -
  let ?vs = "[ustr ''token'' \<mapsto> ustr ''t'']"
  have keys: "?vs (ustr k) = None" if "k \<noteq> ''token''" for k using that by (simp add: ustr_inj)
  have url: "validate_api_url (url_parts sample_api u) = Inr ()" for u by (simp add: sample_api_def sample_url_def validate_api_url_def)
  have trims: "str_trim (ustr ''t'') = ustr ''t''" "str_trim [] = []"
    by (simp_all add: str_trim_def trim_by_id ustr_def is_whitespace_def trim_by_def trim_start_by_def trim_end_by_def)
  have flt: "filter_new sample_text [] [] [] [] = Inr nf \<longleftrightarrow> nf = \<lparr>flines = [], fregions = [], finclude = [], fexclude = []\<rparr>" for nf
    by (auto simp: filter_new_def alternatives_def)
  have ne: "ustr k = [] \<longleftrightarrow> k = []" for k by (simp add: ustr_def)
  define raw where "raw = file_config_default\<lparr>fc_access_token := ustr ''t'', fc_allow_remote_raw_provider := False, fc_api_base_url := [],
       fc_node_filter_lines := [], fc_node_filter_regions := [], fc_node_filter_include := [], fc_node_filter_exclude := [],
       fc_api_fallback_urls := [], fc_listen_address := ustr ''127.0.0.1'', fc_serve_port := 6172,
       fc_request_timeout := [], fc_tcp_idle_timeout := [], fc_udp_idle_timeout := [], fc_max_client_connections := 0,
       fc_dial_concurrency := 0, fc_per_node_dial_concurrency := 0, fc_reuse_max_idle := 0,
       fc_reuse_max_uses := 0, fc_reuse_idle_timeout := [], fc_perf_trace_sample_every := 0\<rparr>"
  have raw: "raw_of_values ?vs (ustr ''t'') \<lparr>sa_ip = V4 2130706433, sa_port = 6172\<rparr> = Inr raw"
    unfolding raw_def raw_of_values_def config_usize_def config_string_def by (simp only: keys option.case and_then_simps parse_flag_def
        socket_addr.select_convs list.inject char.inject simp_thms)
  have fields: "fc_access_token raw = ustr ''t''" "fc_access_token_file raw = []" "fc_app_secret raw = []" "fc_api_base_url raw = []"
    "fc_api_fallback_urls raw = []" "fc_listen_address raw = ustr ''127.0.0.1''" "fc_socks_username raw = []" "fc_socks_password_file raw = []"
    "fc_request_timeout raw = []" "fc_tcp_idle_timeout raw = []" "fc_udp_idle_timeout raw = []" "fc_reuse_idle_timeout raw = []"
    "fc_max_client_connections raw = 0" "fc_dial_concurrency raw = 0" "fc_per_node_dial_concurrency raw = 0" "fc_reuse_max_idle raw = 0"
    "fc_reuse_max_uses raw = 0" "fc_perf_trace_sample_every raw = 0" "fc_node_filter_lines raw = []" "fc_node_filter_regions raw = []"
    "fc_node_filter_include raw = []" "fc_node_filter_exclude raw = []"
    by (simp_all add: raw_def file_config_default_def)
  have parts: "resolve_token Map.empty (\<lambda>p. p) raw = Inr (ustr ''t'')" "resolve_socks_credentials Map.empty (\<lambda>p. p) raw = Inr ([], [])"
    "resolve_urls sample_crates sample_api raw = Inr (ustr DEFAULT_API_BASE_URL, [])" "resolve_listen raw = Inr (V4 2130706433)"
    by (simp_all add: resolve_token_def resolve_socks_credentials_def fields trims resolve_urls_def sample_crates_def url resolve_listen_def
        sample_listen loopback_octets ne Let_def)
  obtain rt where rt: "runtime_from_raw sample_text sample_crates sample_api Map.empty (\<lambda>p. p) raw = Inr rt" "access_token rt = ustr ''t''"
    by (simp add: runtime_from_raw_def parts fields parse_bounded_duration_def v4_loopback_def filter_new_def alternatives_def
        bounded_or_default_def bounded_value_def)
  let ?a = "\<lparr>sa_ip = V4 2130706433, sa_port = 6172\<rparr>" and ?b = "\<lparr>sa_ip = V4 2130706433, sa_port = 6173\<rparr>"
  have listens: "listen_value ?vs = Inr None" "parse_listen None DEFAULT_LISTEN = Inr ?a" "parse_listen None DEFAULT_NODELIST_LISTEN = Inr ?b"
    "\<not> listens_conflict ?a ?b" "parse_outbound_ip None (sa_ip ?a) = Inr (V4 2130706433)"
    by (simp_all add: listen_value_def ustr_inj parse_listen_def DEFAULT_LISTEN_def DEFAULT_NODELIST_LISTEN_def sample_listen
        loopback_octets listens_conflict_def parse_outbound_ip_def)
  have "proxy_config_from_bytes sample_text sample_crates sample_api (utf8 sample_file) = Inr
      \<lparr>pc_runtime = rt\<lparr>listen_address := V4 2130706433, serve_port := 6172, allow_remote_access := \<not> ip_is_loopback (V4 2130706433)\<rparr>,
        pc_listen = ?a, pc_nodelist_listen = ?b, pc_outbound_ip = V4 2130706433, pc_udp_port_range = None,
        pc_udp_advertise_address = None, pc_node_refresh_interval = secs 3600\<rparr>"
    unfolding proxy_config_from_bytes_def sample_file_parsed
    using rt raw listens by (simp add: ustr_inj ne transpose_option_def parse_refresh_interval_def)
  then show thesis using that rt(2) by simp
qed

theorem accepted_configuration_is_sound_witness:
  "\<exists>c. proxy_config_from_bytes sample_text sample_crates sample_api (utf8 sample_file) = Inr c \<and> sa_port (pc_listen c) = 6172
    \<and> limits_ok (pc_runtime c)"
proof (rule sample_configuration)
  fix c assume c: "proxy_config_from_bytes sample_text sample_crates sample_api (utf8 sample_file) = Inr c" "sa_port (pc_listen c) = 6172"
  from accepted_configuration_is_sound [OF c(1)] c show ?thesis by blast
qed

end
