(* ===== verification/Catalog.thy ===== *)
theory Catalog
  imports Socks5 Config_File "HOL-Library.Countable"
begin

text \<open>
  The catalog cache of \<open>src/catalog_cache.rs\<close> and the catalog service of \<open>src/cli.rs\<close>: fetching, storing, refreshing and
  reloading, with the gateway they drive. The YAML and JSON codecs of \<open>serde\<close> are parameters, as are the answers of
  the API, the outcome of file operations and the classification of errors.
\<close>

subsection \<open>The cache file\<close>

definition CACHE_FORMAT_VERSION :: byte where "CACHE_FORMAT_VERSION = 2"
definition MAX_CACHE_BYTES :: nat where "MAX_CACHE_BYTES = 8388608 + 65536"

definition ACCOUNT_FINGERPRINT_CONTEXT :: bytes where
  "ACCOUNT_FINGERPRINT_CONTEXT = map of_char ''oixc-proxy/catalog-cache-account/v1''"

record CacheEnvelope =
  env_version :: byte
  env_fingerprint :: ustring
  env_managed :: "Proxy list"
  env_fetched_at :: "nat option"
  env_userinfo :: bytes

record CatalogSnapshot =
  sn_managed :: "Proxy list"
  sn_fetched_at :: "nat option"
  sn_userinfo :: "UserInfo option"

record cache_codec =
  envelope_encode :: "CacheEnvelope \<Rightarrow> bytes option"
  envelope_documents :: "bytes \<Rightarrow> CacheEnvelope option list"
  userinfo_to_value :: "UserInfo option \<Rightarrow> bytes"
  userinfo_from_value :: "bytes \<Rightarrow> UserInfo option"

text \<open>What is used of the codecs: decoding inverts encoding, and \<open>null\<close> is no \<open>UserInfo\<close>.\<close>

definition codec_laws :: "cache_codec \<Rightarrow> bool" where
  "codec_laws C \<longleftrightarrow> (\<forall>e b. envelope_encode C e = Some b \<longrightarrow> envelope_documents C b = [Some e])
     \<and> (\<forall>u. userinfo_from_value C (userinfo_to_value C u) = u)"

definition account_fingerprint :: "crypto \<Rightarrow> text_crates \<Rightarrow> ustring \<Rightarrow> ustring" where
  "account_fingerprint X T token = hex_encode T (hmac_sha256 X (utf8 token) ACCOUNT_FINGERPRINT_CONTEXT)"

definition parse_envelope :: "text_crates \<Rightarrow> cache_codec \<Rightarrow> bytes \<Rightarrow> ustring \<Rightarrow> CatalogSnapshot res" where
  "parse_envelope T C content expected =
     (case envelope_documents C content of
        [] \<Rightarrow> Inl (Bail ''cache is empty'')
      | d # rest \<Rightarrow>
          and_then (ok_or d (Bail ''decode cache envelope'')) (\<lambda>e.
          if rest \<noteq> [] then Inl (Bail ''cache contains multiple YAML documents'')
          else if env_version e \<notin> {1, CACHE_FORMAT_VERSION} then Inl (Bail ''cache format version is unsupported'')
          else if \<not> ct_eq T (utf8 (env_fingerprint e)) (utf8 expected) then Inl (Bail ''cache belongs to a different account'')
          else
            and_then (config_validate T (env_managed e)) (\<lambda>_.
            Inr \<lparr>sn_managed = env_managed e, sn_fetched_at = env_fetched_at e,
              sn_userinfo = (case userinfo_from_value C (env_userinfo e) of
                Some i \<Rightarrow> if userinfo_valid i then Some i else None | None \<Rightarrow> None)\<rparr>)))"

text \<open>
  The directory of the cache: the cache file and the temporary file beside it. \<open>private\<close> is the verdict of
  \<open>require_private_file\<close>, \<open>readable\<close> whether reading works.
\<close>

record cache_files =
  cf_cache :: "bytes option"
  cf_temporary :: "bytes option"

definition load_snapshot :: "text_crates \<Rightarrow> cache_codec \<Rightarrow> ustring \<Rightarrow> bool \<Rightarrow> bool \<Rightarrow> cache_files \<Rightarrow> CatalogSnapshot option" where
  "load_snapshot T C fingerprint private readable fs =
     (case cf_cache fs of
        None \<Rightarrow> None
      | Some content \<Rightarrow>
          if \<not> private \<or> \<not> readable \<or> MAX_CACHE_BYTES < length content then None
          else (case parse_envelope T C content fingerprint of Inr s \<Rightarrow> Some s | Inl _ \<Rightarrow> None))"

text \<open>
  Where an atomic write is interrupted: opening the temporary file, after some bytes of the content, at the
  synchronisation, or at the renaming.
\<close>

datatype write_fault = OpenFails | WriteFails nat | SyncFails | RenameFails

text \<open>The states the directory goes through, the last being its final one.\<close>

definition atomic_write_states :: "write_fault option \<Rightarrow> bytes \<Rightarrow> cache_files \<Rightarrow> cache_files list" where
  "atomic_write_states fault content fs =
     (let opened = fs\<lparr>cf_temporary := Some []\<rparr>; written = fs\<lparr>cf_temporary := Some content\<rparr>;
          removed = fs\<lparr>cf_temporary := None\<rparr> in
      case fault of
        Some OpenFails \<Rightarrow> [fs, removed]
      | Some (WriteFails n) \<Rightarrow> [fs, opened, fs\<lparr>cf_temporary := Some (take n content)\<rparr>, removed]
      | Some SyncFails \<Rightarrow> [fs, opened, written, removed]
      | Some RenameFails \<Rightarrow> [fs, opened, written, removed]
      | None \<Rightarrow> [fs, opened, written, \<lparr>cf_cache = Some content, cf_temporary = None\<rparr>])"

definition write_private_atomic :: "write_fault option \<Rightarrow> bytes \<Rightarrow> cache_files \<Rightarrow> unit res \<times> cache_files" where
  "write_private_atomic fault content fs =
     (if fault = None then Inr () else Inl Io, last (atomic_write_states fault content fs))"

definition snapshot_envelope :: "cache_codec \<Rightarrow> ustring \<Rightarrow> Proxy list \<Rightarrow> UserInfo option \<Rightarrow> nat option \<Rightarrow> CacheEnvelope" where
  "snapshot_envelope C fingerprint managed userinfo fetched_at =
     \<lparr>env_version = CACHE_FORMAT_VERSION, env_fingerprint = fingerprint, env_managed = managed,
      env_fetched_at = fetched_at, env_userinfo = userinfo_to_value C userinfo\<rparr>"

definition store_snapshot ::
  "cache_codec \<Rightarrow> write_fault option \<Rightarrow> ustring \<Rightarrow> Proxy list \<Rightarrow> UserInfo option \<Rightarrow> nat option \<Rightarrow> cache_files \<Rightarrow> unit res \<times> cache_files" where
  "store_snapshot C fault fingerprint managed userinfo fetched_at fs =
     (case envelope_encode C (snapshot_envelope C fingerprint managed userinfo fetched_at) of
        None \<Rightarrow> (Inl (Bail ''encode node catalog cache''), fs)
      | Some content \<Rightarrow> write_private_atomic fault content fs)"

subsection \<open>Refresh requests\<close>

text \<open>\<open>CatalogRefresh\<close>: times in nanoseconds; the wakeup is a single permit.\<close>

record CatalogRefresh =
  cr_wakeup :: bool
  cr_last_request :: "nat option"

definition COOLDOWN :: nat where "COOLDOWN = 30 * 1000000000"

definition request_refresh :: "nat \<Rightarrow> CatalogRefresh \<Rightarrow> bool \<times> CatalogRefresh" where
  "request_refresh now s =
     (if (case cr_last_request s of Some t \<Rightarrow> now - t < COOLDOWN | None \<Rightarrow> False) then (False, s)
      else (True, \<lparr>cr_wakeup = True, cr_last_request = Some now\<rparr>))"

subsection \<open>Fetching\<close>

definition load_managed_catalog ::
  "text_crates \<Rightarrow> ('d, 'v) yaml \<Rightarrow> ManagedResponse res \<Rightarrow> nat \<Rightarrow> RuntimeConfig \<Rightarrow> bool \<Rightarrow> CatalogSnapshot res" where
  "load_managed_catalog T Y response now rt disable_filter =
     and_then response (\<lambda>response.
     and_then (map_err (WithContext (api_failure InvalidResponse None)) (managed_parse T Y (mr_config response))) (\<lambda>managed.
     and_then (if disable_filter then Inr managed else filtered_proxies T managed (node_filter rt)) (\<lambda>managed.
     Inr \<lparr>sn_managed = managed, sn_fetched_at = Some now, sn_userinfo = mr_userinfo response\<rparr>)))"

subsection \<open>The event log\<close>

datatype EventKind = CatalogRefreshEvent | ConfigReloadEvent

record ServiceEvent =
  ev_at :: nat
  ev_kind :: EventKind
  ev_error :: "ErrorKind option"

definition event_record :: "nat \<Rightarrow> EventKind \<Rightarrow> ErrorKind option \<Rightarrow> ServiceEvent list \<Rightarrow> ServiceEvent list" where
  "event_record now kind err evs =
     (let evs = (if length evs = 128 then tl evs else evs) in evs @ [\<lparr>ev_at = now, ev_kind = kind, ev_error = err\<rparr>])"

subsection \<open>The service\<close>

record CatalogService =
  cs_service :: ProxyConfig
  cs_managed :: "Proxy list"
  cs_fetched_at :: "nat option"
  cs_fingerprint :: ustring
  cs_files :: cache_files
  cs_context :: GatewayContext
  cs_manager :: GatewayManager
  cs_arena :: arena
  cs_disable_filter :: bool
  cs_events :: "ServiceEvent list"

record ('d, 'v) catalog_env =
  ce_yaml :: "('d, 'v) yaml"
  ce_codec :: cache_codec
  ce_config :: "ProxyConfig res"
  ce_api :: api_crates
  ce_http :: http
  ce_key :: "bytes \<times> ustring"
  ce_source :: "ip option res"
  ce_fault :: "write_fault option"
  ce_clear_fault :: "write_fault option"
  ce_now :: nat
  ce_modified :: "nat option"
  ce_private :: bool
  ce_readable :: bool
  ce_semaphore :: nat

definition error_kind :: "('d, 'v) catalog_env \<Rightarrow> 'a res \<Rightarrow> ErrorKind option" where
  "error_kind env r = (case r of Inl e \<Rightarrow> Some (classify (other_errors (ce_api env)) e) | Inr _ \<Rightarrow> None)"

definition fetch :: "crypto \<Rightarrow> text_crates \<Rightarrow> ('d, 'v) catalog_env \<Rightarrow> RuntimeConfig \<Rightarrow> CatalogSnapshot res" where
  "fetch X T env rt =
     load_managed_catalog T (ce_yaml env)
       (and_then (api_client (ce_api env) (ce_source env) rt) (\<lambda>c.
        fst (fetch_managed X T (ce_api env) (ce_http env) (ce_now env) (ce_key env) c)))
       (ce_now env) rt True"

definition store_service ::
  "cache_codec \<Rightarrow> write_fault option \<Rightarrow> Proxy list \<Rightarrow> UserInfo option \<Rightarrow> nat option \<Rightarrow> CatalogService \<Rightarrow> unit res \<times> CatalogService" where
  "store_service C fault managed userinfo fetched_at s =
     (case store_snapshot C fault (cs_fingerprint s) managed userinfo fetched_at (cs_files s) of
        (r, fs) \<Rightarrow> (r, s\<lparr>cs_files := fs\<rparr>))"

text \<open>The replacement router, with the arena that holds its clients; no router when the nodes are the same.\<close>

definition build_replacement ::
  "crypto \<Rightarrow> text_crates \<Rightarrow> Proxy list \<Rightarrow> CatalogService \<Rightarrow> (Router option \<times> arena) res" where
  "build_replacement X T managed s =
     (if managed = cs_managed s then Inr (None, cs_arena s)
      else
        and_then (published_proxies T managed (cs_disable_filter s) (node_filter (pc_runtime (cs_service s)))) (\<lambda>published.
        and_then (ok_or (router (cs_manager s)) (Bail ''gateway is closed'')) (\<lambda>prev.
        case router_build X T managed published (pc_runtime (cs_service s)) (cs_context s) (Some prev) (cs_arena s) of
          (Inl e, _) \<Rightarrow> Inl e
        | (Inr r, h) \<Rightarrow> Inr (Some r, h))))"

definition install_router :: "Router \<Rightarrow> arena \<Rightarrow> CatalogService \<Rightarrow> unit res \<times> CatalogService" where
  "install_router r h s =
     (case manager_replace r (cs_manager s, h) of (res, m, h) \<Rightarrow> (res, s\<lparr>cs_manager := m, cs_arena := h\<rparr>))"

definition apply_refreshed_catalog ::
  "crypto \<Rightarrow> text_crates \<Rightarrow> ('d, 'v) catalog_env \<Rightarrow> CatalogSnapshot \<Rightarrow> bool \<Rightarrow> CatalogService \<Rightarrow> unit res \<times> CatalogService" where
  "apply_refreshed_catalog X T env refreshed require_cache_write s =
     (let store = store_service (ce_codec env) (ce_fault env) (sn_managed refreshed) (sn_userinfo refreshed) (sn_fetched_at refreshed) in
      case build_replacement X T (sn_managed refreshed) s of
        Inl e \<Rightarrow> (Inl e, s)
      | Inr (replacement, h) \<Rightarrow>
          st_then (if require_cache_write then store s else (Inr (), s)) (\<lambda>_ s.
          st_then (case replacement of Some r \<Rightarrow> install_router r h s | None \<Rightarrow> (Inr (), s)) (\<lambda>_ s.
          let s = s\<lparr>cs_manager := update_subscription (sn_userinfo refreshed) (sn_fetched_at refreshed) (cs_manager s),
                    cs_fetched_at := sn_fetched_at refreshed\<rparr>;
              s = (if require_cache_write then s else snd (store s)) in
          (Inr (), s\<lparr>cs_managed := sn_managed refreshed\<rparr>))))"

definition finish_refresh ::
  "crypto \<Rightarrow> text_crates \<Rightarrow> ('d, 'v) catalog_env \<Rightarrow> CatalogSnapshot res \<Rightarrow> bool \<Rightarrow> CatalogService \<Rightarrow> unit res \<times> CatalogService" where
  "finish_refresh X T env fetched require_cache_write s =
     (let (result, s) = (case fetched of
            Inr refreshed \<Rightarrow> apply_refreshed_catalog X T env refreshed require_cache_write s
          | Inl e \<Rightarrow> (Inl e, s));
          err = error_kind env result;
          s = s\<lparr>cs_manager := refresh_finished err (ce_now env) (cs_manager s),
                cs_events := event_record (ce_now env) CatalogRefreshEvent err (cs_events s)\<rparr> in
      (result,
       if \<not> require_cache_write \<and> (err = Some Authentication \<or> err = Some Forbidden)
       then snd (store_service (ce_codec env) (ce_clear_fault env) (cs_managed s) None (cs_fetched_at s)
                   (s\<lparr>cs_manager := update_subscription None None (cs_manager s)\<rparr>))
       else s))"

definition refresh_with_policy ::
  "crypto \<Rightarrow> text_crates \<Rightarrow> ('d, 'v) catalog_env \<Rightarrow> bool \<Rightarrow> CatalogService \<Rightarrow> unit res \<times> CatalogService" where
  "refresh_with_policy X T env require_cache_write s =
     finish_refresh X T env (fetch X T env (pc_runtime (cs_service s))) require_cache_write
       (s\<lparr>cs_manager := refresh_started (ce_now env) (cs_manager s)\<rparr>)"

definition restart_required :: "ProxyConfig \<Rightarrow> ProxyConfig \<Rightarrow> bool" where
  "restart_required nxt cur \<longleftrightarrow>
     pc_listen nxt \<noteq> pc_listen cur \<or> pc_nodelist_listen nxt \<noteq> pc_nodelist_listen cur
     \<or> pc_outbound_ip nxt \<noteq> pc_outbound_ip cur \<or> pc_udp_port_range nxt \<noteq> pc_udp_port_range cur
     \<or> pc_udp_advertise_address nxt \<noteq> pc_udp_advertise_address cur"

definition source_changed :: "RuntimeConfig \<Rightarrow> RuntimeConfig \<Rightarrow> bool" where
  "source_changed nxt cur \<longleftrightarrow>
     access_token nxt \<noteq> access_token cur \<or> api_base_url nxt \<noteq> api_base_url cur
     \<or> api_fallback_urls nxt \<noteq> api_fallback_urls cur \<or> app_secret nxt \<noteq> app_secret cur"

text \<open>What a reload needs before it changes anything: the configuration, the fetched catalog, the context, the router and its arena.\<close>

definition prepare_reload ::
  "crypto \<Rightarrow> text_crates \<Rightarrow> ('d, 'v) catalog_env \<Rightarrow> CatalogService
   \<Rightarrow> (ProxyConfig \<times> CatalogSnapshot option \<times> GatewayContext \<times> Router \<times> arena) res" where
  "prepare_reload X T env s =
     and_then (map_err (\<lambda>_. Bail ''invalid configuration; active configuration retained'') (ce_config env)) (\<lambda>nxt.
     if restart_required nxt (cs_service s) then Inl (Bail ''listener, egress and UDP binding changes require a restart'')
     else
       let cur = pc_runtime (cs_service s); rt = pc_runtime nxt in
       and_then (if source_changed rt cur then and_then (fetch X T env rt) (\<lambda>f. Inr (Some f)) else Inr None) (\<lambda>fetched.
       let managed = (case fetched of Some f \<Rightarrow> sn_managed f | None \<Rightarrow> cs_managed s) in
       and_then (published_proxies T managed (cs_disable_filter s) (node_filter rt)) (\<lambda>published.
       and_then (reconfigured X T (ce_semaphore env) (cs_context s) cur rt) (\<lambda>ctx.
       and_then (ok_or (router (cs_manager s)) (Bail ''gateway is closed'')) (\<lambda>prev.
       case router_build X T managed published rt ctx (if same_client_settings cur rt then Some prev else None) (cs_arena s) of
         (Inl e, _) \<Rightarrow> Inl e
       | (Inr r, h) \<Rightarrow> Inr (nxt, fetched, ctx, r, h))))))"

definition adopt_snapshot :: "('d, 'v) catalog_env \<Rightarrow> ustring \<Rightarrow> CatalogSnapshot \<Rightarrow> CatalogService \<Rightarrow> CatalogService" where
  "adopt_snapshot env fingerprint f s =
     s\<lparr>cs_manager := initialize_status False (sn_fetched_at f) (update_subscription (sn_userinfo f) (sn_fetched_at f) (cs_manager s)),
       cs_files := snd (store_snapshot (ce_codec env) (ce_fault env) fingerprint (sn_managed f) (sn_userinfo f) (sn_fetched_at f) (cs_files s)),
       cs_fetched_at := sn_fetched_at f, cs_managed := sn_managed f\<rparr>"

definition reload_inner :: "crypto \<Rightarrow> text_crates \<Rightarrow> ('d, 'v) catalog_env \<Rightarrow> CatalogService \<Rightarrow> unit res \<times> CatalogService" where
  "reload_inner X T env s =
     (case prepare_reload X T env s of
        Inl e \<Rightarrow> (Inl e, s)
      | Inr (nxt, fetched, ctx, r, h) \<Rightarrow>
          let fingerprint = account_fingerprint X T (access_token (pc_runtime nxt)) in
          st_then (install_router r h s) (\<lambda>_ s.
          let s = (case fetched of Some f \<Rightarrow> adopt_snapshot env fingerprint f s | None \<Rightarrow> s) in
          (Inr (), s\<lparr>cs_fingerprint := fingerprint, cs_context := ctx, cs_service := nxt\<rparr>)))"

definition reload :: "crypto \<Rightarrow> text_crates \<Rightarrow> ('d, 'v) catalog_env \<Rightarrow> CatalogService \<Rightarrow> unit res \<times> CatalogService" where
  "reload X T env s =
     (case reload_inner X T env s of
        (r, s) \<Rightarrow> (r, s\<lparr>cs_events := event_record (ce_now env) ConfigReloadEvent (error_kind env r) (cs_events s)\<rparr>))"

text \<open>\<open>run_serve\<close> up to its loop: the first catalog comes from the cache when it is usable, from the API otherwise.\<close>

definition initial_catalog ::
  "crypto \<Rightarrow> text_crates \<Rightarrow> ('d, 'v) catalog_env \<Rightarrow> RuntimeConfig \<Rightarrow> cache_files \<Rightarrow> (CatalogSnapshot \<times> bool \<times> cache_files) res" where
  "initial_catalog X T env rt fs =
     (let fingerprint = account_fingerprint X T (access_token rt) in
      case load_snapshot T (ce_codec env) fingerprint (ce_private env) (ce_readable env) fs of
        Some cached \<Rightarrow> Inr (cached, True, fs)
      | None \<Rightarrow>
          and_then (fetch X T env rt) (\<lambda>f.
          Inr (f, False, snd (store_snapshot (ce_codec env) (ce_fault env) fingerprint (sn_managed f) (sn_userinfo f) (sn_fetched_at f) fs))))"

definition start_service :: "crypto \<Rightarrow> text_crates \<Rightarrow> ('d, 'v) catalog_env \<Rightarrow> bool \<Rightarrow> cache_files \<Rightarrow> CatalogService res" where
  "start_service X T env disable_filter fs =
     and_then (ce_config env) (\<lambda>cfg.
     let rt = pc_runtime cfg in
     and_then (initial_catalog X T env rt fs) (\<lambda>(initial, from_cache, fs).
     and_then (published_proxies T (sn_managed initial) disable_filter (node_filter rt)) (\<lambda>published.
     and_then (derive_routing_secret X T (access_token rt)) (\<lambda>secret.
     let ctx = \<lparr>outbound_ip = pc_outbound_ip cfg,
           udp_relay_advertised = ip_is_loopback (sa_ip (pc_listen cfg)) \<or> (pc_udp_port_range cfg \<noteq> None \<and> pc_udp_advertise_address cfg \<noteq> None),
           routing_secret = secret, dial_limit = ce_semaphore env\<rparr> in
     case router_build X T (sn_managed initial) published rt ctx None empty_arena of
       (Inl e, _) \<Rightarrow> Inl e
     | (Inr r, h) \<Rightarrow>
         Inr \<lparr>cs_service = cfg, cs_managed = sn_managed initial, cs_fetched_at = sn_fetched_at initial,
           cs_fingerprint = account_fingerprint X T (access_token rt), cs_files = fs, cs_context = ctx,
           cs_manager = update_subscription (sn_userinfo initial) (sn_fetched_at initial)
             (initialize_status from_cache
                (if from_cache then (case sn_fetched_at initial of Some t \<Rightarrow> Some t | None \<Rightarrow> ce_modified env) else Some (ce_now env))
                ((manager_new r)\<lparr>has_transport := True\<rparr>)),
           cs_arena = h, cs_disable_filter = disable_filter, cs_events = []\<rparr>))))"

subsection \<open>Everything stays consistent\<close>

definition configured :: "RuntimeConfig \<Rightarrow> arena \<Rightarrow> Router \<Rightarrow> bool" where
  "configured rt h r \<longleftrightarrow> (\<forall>e \<in> set (runtimes r). \<exists>c. clients h (runtime_address e) = Some c \<and> options c = node_options rt (n_proxy (snd e)))"

text \<open>
  The account of the configuration is the account of the cache and of the routing secret; the installed router routes the current
  catalog under that secret, and each of its clients is open and has the current settings.
\<close>

definition service_inv :: "crypto \<Rightarrow> text_crates \<Rightarrow> CatalogService \<Rightarrow> bool" where
  "service_inv X T s \<longleftrightarrow>
     (let rt = pc_runtime (cs_service s) in
      gateway_inv T (cs_manager s, cs_arena s)
      \<and> cs_fingerprint s = account_fingerprint X T (access_token rt)
      \<and> derive_routing_secret X T (access_token rt) = Inr (routing_secret (cs_context s))
      \<and> (\<exists>r. router (cs_manager s) = Some r \<and> map (n_proxy \<circ> snd) (runtimes r) = cs_managed s
          \<and> router_secret r = routing_secret (cs_context s) \<and> configured rt (cs_arena s) r))"

lemma manager_router [simp]:
  "router (refresh_started t m) = router m" "router (refresh_finished e t m) = router m"
  "router (update_subscription i a m) = router m" "router (initialize_status b a m) = router m"
  by (simp_all add: refresh_started_def refresh_finished_def update_subscription_def initialize_status_def Let_def)

lemma service_inv_cong:
  assumes "cs_service s' = cs_service s" "cs_managed s' = cs_managed s" "cs_fingerprint s' = cs_fingerprint s"
    "cs_context s' = cs_context s" "cs_arena s' = cs_arena s" "router (cs_manager s') = router (cs_manager s)"
  shows "service_inv X T s' = service_inv X T s"
  using gateway_inv_router [OF assms(6), of T "cs_arena s"] assms by (simp add: service_inv_def Let_def)

lemma same_settings_options: "same_client_settings cur rt \<Longrightarrow> node_options cur p = node_options rt p"
  by (simp add: same_client_settings_def node_options_def)

lemma installed_configured:
  assumes g: "gateway_inv T (m, h)" "router m = Some cur" and prev: "prev = None \<or> prev = Some cur"
    and b: "router_build X T ps published rt ctx prev h = (Inr r, h')"
    and c: "prev = Some cur \<Longrightarrow> configured rt h cur"
  shows "configured rt (retire_exclusive_runtimes cur (Some r) h') r"
    "map (n_proxy \<circ> snd) (runtimes r) = ps" "router_secret r = routing_secret ctx"
proof -
  have ok: "prev_ok T prev h" and wf: "arena_wf h"
    using gateway_invD [OF g(1)] g(2) prev by (auto simp: prev_ok_def addresses_def)
  note built = router_build_Inr [OF b wf ok]
  then show "map (n_proxy \<circ> snd) (runtimes r) = ps" "router_secret r = routing_secret ctx" by blast+
  have made: "\<exists>c. clients h' (runtime_address e) = Some c \<and> options c = node_options rt (n_proxy (snd e))" if e: "e \<in> set (runtimes r)" for e
  proof (cases "existing_runtime prev (n_proxy (snd e))")
    case None
    then show ?thesis using built(1) e new_client_fields by (fastforce simp: loop_inv_def entry_made_def)
  next
    case (Some n)
    then have n: "n = snd e" using built(1) e by (auto simp: loop_inv_def entry_made_def)
    obtain q where q: "prev = Some q" "(name (n_proxy (snd e)), n) \<in> set (runtimes q)"
      using existing_runtime_Some(2) [OF Some ok] by blast
    then have "q = cur" "prev = Some cur" using prev by auto
    then obtain k where "clients h (r_client (n_route n)) = Some k" "options k = node_options rt (n_proxy n)"
      using c q(2) by (fastforce simp: configured_def)
    moreover have "clients h' (r_client (n_route n)) = clients h (r_client (n_route n))"
      using built(1) existing_runtime_Some(4) [OF Some ok] by (simp add: loop_inv_def)
    ultimately show ?thesis using n by simp
  qed
  show "configured rt (retire_exclusive_runtimes cur (Some r) h') r"
    unfolding configured_def
  proof
    fix e assume "e \<in> set (runtimes r)"
    then obtain k where "clients h' (runtime_address e) = Some k" "options k = node_options rt (n_proxy (snd e))" using made by blast
    then show "\<exists>c. clients (retire_exclusive_runtimes cur (Some r) h') (runtime_address e) = Some c
        \<and> options c = node_options rt (n_proxy (snd e))"
      by (simp add: retire_exclusive_clients)
  qed
qed

lemma install_router_inv:
  assumes "gateway_inv T (cs_manager s, cs_arena s)" "router (cs_manager s) = Some cur" "prev = None \<or> prev = Some cur"
    and b: "router_build X T ps published rt ctx prev (cs_arena s) = (Inr r, h)"
    and c: "prev = Some cur \<Longrightarrow> configured rt (cs_arena s) cur"
    and i: "install_router r h s = (res, s')"
  shows "res = Inr ()" "s' = s\<lparr>cs_manager := (cs_manager s)\<lparr>router := Some r\<rparr>, cs_arena := retire_exclusive_runtimes cur (Some r) h\<rparr>"
    "gateway_inv T (cs_manager s', cs_arena s')" "configured rt (cs_arena s') r"
    "map (n_proxy \<circ> snd) (runtimes r) = ps" "router_secret r = routing_secret ctx"
proof -
  show r: "res = Inr ()" and s': "s' = s\<lparr>cs_manager := (cs_manager s)\<lparr>router := Some r\<rparr>, cs_arena := retire_exclusive_runtimes cur (Some r) h\<rparr>"
    using i assms(2) by (auto simp: install_router_def manager_replace_def Let_def)
  show "gateway_inv T (cs_manager s', cs_arena s')" using gateway_inv_install [OF assms(1-3) b] s' by simp
  show "configured rt (cs_arena s') r" "map (n_proxy \<circ> snd) (runtimes r) = ps" "router_secret r = routing_secret ctx"
    using installed_configured [OF assms(1-3) b c] s' by simp_all
qed


lemma built_Inr [simp]:
  "(case p of (res, h) \<Rightarrow> case res of Inl e \<Rightarrow> Inl e | Inr r \<Rightarrow> Inr (g r h)) = Inr y \<longleftrightarrow> (\<exists>r h. p = (Inr r, h) \<and> y = g r h)"
  by (cases p; cases "fst p") auto

lemma build_replacement_Inr:
  assumes "service_inv X T s" "build_replacement X T managed s = Inr (Some r, h)"
  obtains cur published where "router (cs_manager s) = Some cur" "configured (pc_runtime (cs_service s)) (cs_arena s) cur"
    "router_build X T managed published (pc_runtime (cs_service s)) (cs_context s) (Some cur) (cs_arena s) = (Inr r, h)"
proof -
  obtain cur where cur: "router (cs_manager s) = Some cur" "configured (pc_runtime (cs_service s)) (cs_arena s) cur"
    using assms(1) by (auto simp: service_inv_def Let_def)
  then obtain published where
    "router_build X T managed published (pc_runtime (cs_service s)) (cs_context s) (Some cur) (cs_arena s) = (Inr r, h)"
    using assms(2) by (auto simp: build_replacement_def res_simps split: if_splits)
  then show thesis using that cur by blast
qed

lemma build_replacement_None: "build_replacement X T managed s = Inr (None, h) \<Longrightarrow> managed = cs_managed s \<and> h = cs_arena s"
  by (auto simp: build_replacement_def res_simps split: if_splits)

lemma store_service_fields [simp]:
  "snd (store_service C fault managed ui t s) = s\<lparr>cs_files := snd (store_snapshot C fault (cs_fingerprint s) managed ui t (cs_files s))\<rparr>"
  "fst (store_service C fault managed ui t s) = fst (store_snapshot C fault (cs_fingerprint s) managed ui t (cs_files s))"
  by (simp_all add: store_service_def split: prod.splits)

text \<open>
  What a refresh does once the router is built: the outcomes are a failed build, a failed mandatory write, and success.
\<close>

lemma apply_refreshed_cases:
  assumes inv: "service_inv X T s" and a: "apply_refreshed_catalog X T env f force s = (res, s')"
  obtains (unbuilt) e where "build_replacement X T (sn_managed f) s = Inl e" "res = Inl e" "s' = s"
  | (unstored) e where "force" "res = Inl e" "s' = s\<lparr>cs_files := cs_files s'\<rparr>"
      "store_snapshot (ce_codec env) (ce_fault env) (cs_fingerprint s) (sn_managed f) (sn_userinfo f) (sn_fetched_at f) (cs_files s) = (Inl e, cs_files s')"
  | (applied) "res = Inr ()" "service_inv X T s'" "cs_managed s' = sn_managed f" "cs_fetched_at s' = sn_fetched_at f"
      "cs_service s' = cs_service s" "cs_fingerprint s' = cs_fingerprint s" "cs_context s' = cs_context s" "cs_events s' = cs_events s"
      "cs_files s' = snd (store_snapshot (ce_codec env) (ce_fault env) (cs_fingerprint s) (sn_managed f) (sn_userinfo f) (sn_fetched_at f) (cs_files s))"
      "force \<Longrightarrow> fst (store_snapshot (ce_codec env) (ce_fault env) (cs_fingerprint s) (sn_managed f) (sn_userinfo f) (sn_fetched_at f) (cs_files s)) = Inr ()"
      "\<exists>m. cs_manager s' = update_subscription (sn_userinfo f) (sn_fetched_at f) m"
proof (cases "build_replacement X T (sn_managed f) s")
  case (Inl e)
  then have "res = Inl e" "s' = s" using a by (simp_all add: apply_refreshed_catalog_def Let_def)
  then show thesis by (rule unbuilt [OF Inl])
next
  case (Inr p)
  obtain rep h where p: "p = (rep, h)" by fastforce
  let ?st = "store_snapshot (ce_codec env) (ce_fault env) (cs_fingerprint s) (sn_managed f) (sn_userinfo f) (sn_fetched_at f) (cs_files s)"
  obtain sr fs where st: "?st = (sr, fs)" by fastforce
  let ?s1 = "if force then s\<lparr>cs_files := fs\<rparr> else s"
  show thesis
  proof (cases "force \<and> (\<exists>e. sr = Inl e)")
    case True
    then obtain e where e: "sr = Inl e" by blast
    have "res = Inl e" and fs: "s' = s\<lparr>cs_files := fs\<rparr>"
      using a Inr p st True e by (simp_all add: apply_refreshed_catalog_def Let_def store_service_def)
    then show thesis using unstored [of e] True st e by simp
  next
    case False
    then have ok: "force \<Longrightarrow> sr = Inr ()" by (cases sr) auto
    have i1: "service_inv X T ?s1" using inv service_inv_cong [of ?s1 s] by simp
    define ins where "ins = (case rep of Some r \<Rightarrow> install_router r h ?s1 | None \<Rightarrow> (Inr (), ?s1))"
    obtain ir s2 where ins: "ins = (ir, s2)" by fastforce
    have A: "ir = Inr () \<and> service_inv X T (s2\<lparr>cs_managed := sn_managed f\<rparr>) \<and> cs_files s2 = cs_files ?s1
        \<and> cs_service s2 = cs_service s \<and> cs_fingerprint s2 = cs_fingerprint s \<and> cs_context s2 = cs_context s \<and> cs_events s2 = cs_events s"
    proof (cases rep)
      case None
      then have "sn_managed f = cs_managed s" using build_replacement_None Inr p by blast
      then show ?thesis using None ins ins_def i1 service_inv_cong [of "s2\<lparr>cs_managed := sn_managed f\<rparr>" ?s1] by auto
    next
      case (Some r)
      obtain cur published where b: "router (cs_manager s) = Some cur" "configured (pc_runtime (cs_service s)) (cs_arena s) cur"
        "router_build X T (sn_managed f) published (pc_runtime (cs_service s)) (cs_context s) (Some cur) (cs_arena s) = (Inr r, h)"
        using build_replacement_Inr [OF inv] Inr p Some by metis
      have g: "gateway_inv T (cs_manager ?s1, cs_arena ?s1)" using i1 by (simp add: service_inv_def Let_def)
      have i: "install_router r h ?s1 = (ir, s2)" using ins ins_def Some by simp
      note I = install_router_inv [OF g, of cur "Some cur" X "sn_managed f" published "pc_runtime (cs_service s)" "cs_context s", OF _ _ _ _ i]
      show ?thesis using I b inv by (simp add: service_inv_def Let_def)
    qed
    let ?s3 = "s2\<lparr>cs_manager := update_subscription (sn_userinfo f) (sn_fetched_at f) (cs_manager s2), cs_fetched_at := sn_fetched_at f\<rparr>"
    have "store_service (ce_codec env) (ce_fault env) (sn_managed f) (sn_userinfo f) (sn_fetched_at f) ?s3
        = (fst (store_snapshot (ce_codec env) (ce_fault env) (cs_fingerprint s) (sn_managed f) (sn_userinfo f) (sn_fetched_at f) (cs_files ?s1)),
           ?s3\<lparr>cs_files := snd (store_snapshot (ce_codec env) (ce_fault env) (cs_fingerprint s) (sn_managed f) (sn_userinfo f) (sn_fetched_at f) (cs_files ?s1))\<rparr>)"
      using A by (simp add: store_service_def case_prod_beta)
    have "(if force then store_service (ce_codec env) (ce_fault env) (sn_managed f) (sn_userinfo f) (sn_fetched_at f) s else (Inr (), s)) = (Inr (), ?s1)"
      using ok st by (simp add: store_service_def)
    then have "apply_refreshed_catalog X T env f force s = (Inr (), (if force then ?s3 else ?s3\<lparr>cs_files := fs\<rparr>)\<lparr>cs_managed := sn_managed f\<rparr>)"
      using Inr p A ins ins_def st unfolding apply_refreshed_catalog_def Let_def by (simp add: st_then_def store_service_def)
    then have s': "res = Inr ()" "s' = (if force then ?s3 else ?s3\<lparr>cs_files := fs\<rparr>)\<lparr>cs_managed := sn_managed f\<rparr>" using a by simp_all
    show thesis
    proof (rule applied)
      show "service_inv X T s'" using A service_inv_cong [of s' "s2\<lparr>cs_managed := sn_managed f\<rparr>"] s' by simp
    qed (use s' A st ok in \<open>auto\<close>)
  qed
qed

lemma service_inv_apply:
  assumes "service_inv X T s" "apply_refreshed_catalog X T env f force s = (res, s')"
  shows "service_inv X T s'"
  using assms
proof (cases rule: apply_refreshed_cases)
  case unstored
  then show ?thesis using assms(1) by (metis service_inv_cong CatalogService.select_convs CatalogService.surjective CatalogService.update_convs(5))
qed (use assms in simp_all)

lemma service_inv_refresh:
  assumes "service_inv X T s" "refresh_with_policy X T env force s = (res, s')"
  shows "service_inv X T s'"
proof -
  let ?s0 = "s\<lparr>cs_manager := refresh_started (ce_now env) (cs_manager s)\<rparr>"
  let ?fetched = "fetch X T env (pc_runtime (cs_service s))"
  define ap where "ap = (case ?fetched of Inr f \<Rightarrow> apply_refreshed_catalog X T env f force ?s0 | Inl e \<Rightarrow> (Inl e, ?s0))"
  obtain r1 s1 where ap: "ap = (r1, s1)" by fastforce
  have "service_inv X T ?s0" using assms(1) service_inv_cong [of ?s0 s] by simp
  then have "service_inv X T s1" using ap ap_def service_inv_apply by (cases ?fetched) auto
  moreover have "service_inv X T s' = service_inv X T s1"
    using assms(2) unfolding refresh_with_policy_def finish_refresh_def ap_def [symmetric] ap Let_def prod.case Pair_inject
    by (intro service_inv_cong) (auto simp only: store_service_fields split: if_splits, simp_all)
  ultimately show ?thesis by simp
qed

lemma prepare_reload_Inr:
  assumes inv: "service_inv X T s" and p: "prepare_reload X T env s = Inr (nxt, fetched, ctx, r, h)"
  obtains cur prev published where "router (cs_manager s) = Some cur" "prev = None \<or> prev = Some cur"
    "prev = Some cur \<Longrightarrow> configured (pc_runtime nxt) (cs_arena s) cur"
    "router_build X T (case fetched of Some f \<Rightarrow> sn_managed f | None \<Rightarrow> cs_managed s) published (pc_runtime nxt) ctx prev (cs_arena s) = (Inr r, h)"
    "derive_routing_secret X T (access_token (pc_runtime nxt)) = Inr (routing_secret ctx)"
    "fetched = None \<Longrightarrow> access_token (pc_runtime nxt) = access_token (pc_runtime (cs_service s))"
proof -
  obtain cur where cur: "router (cs_manager s) = Some cur" "configured (pc_runtime (cs_service s)) (cs_arena s) cur"
    using inv by (auto simp: service_inv_def Let_def)
  let ?prev = "if same_client_settings (pc_runtime (cs_service s)) (pc_runtime nxt) then Some cur else None"
  let ?managed = "case fetched of Some f \<Rightarrow> sn_managed f | None \<Rightarrow> cs_managed s"
  obtain published where b:
    "router_build X T ?managed published (pc_runtime nxt) ctx ?prev (cs_arena s) = (Inr r, h)"
    "reconfigured X T (ce_semaphore env) (cs_context s) (pc_runtime (cs_service s)) (pc_runtime nxt) = Inr ctx"
    and f: "(if source_changed (pc_runtime nxt) (pc_runtime (cs_service s)) then and_then (fetch X T env (pc_runtime nxt)) (\<lambda>f. Inr (Some f)) else Inr None) = Inr fetched"
    using p cur unfolding prepare_reload_def Let_def by (auto simp: res_simps split: if_split_asm)
  show thesis
  proof (rule that [OF cur(1) _ _ b(1)])
    show "derive_routing_secret X T (access_token (pc_runtime nxt)) = Inr (routing_secret ctx)"
      using b(2) by (auto simp: reconfigured_def res_simps)
    show "?prev = Some cur \<Longrightarrow> configured (pc_runtime nxt) (cs_arena s) cur"
      using cur(2) same_settings_options by (auto simp: configured_def split: if_splits)
    show "fetched = None \<Longrightarrow> access_token (pc_runtime nxt) = access_token (pc_runtime (cs_service s))"
      using f by (auto simp: source_changed_def res_simps split: if_splits)
  qed simp
qed

lemma service_inv_reload_inner:
  assumes inv: "service_inv X T s" and r: "reload_inner X T env s = (res, s')"
  shows "service_inv X T s'" "(\<exists>e. res = Inl e) \<Longrightarrow> s' = s"
    "res = Inr () \<Longrightarrow> ce_config env = Inr (cs_service s') \<and> \<not> restart_required (cs_service s') (cs_service s)"
proof -
  have "service_inv X T s' \<and> ((\<exists>e. res = Inl e) \<longrightarrow> s' = s)
    \<and> (res = Inr () \<longrightarrow> ce_config env = Inr (cs_service s') \<and> \<not> restart_required (cs_service s') (cs_service s))"
  proof (cases "prepare_reload X T env s")
    case (Inl e)
    then show ?thesis using inv r by (auto simp: reload_inner_def)
  next
    case (Inr x)
    obtain nxt fetched ctx rt h where x: "x = (nxt, fetched, ctx, rt, h)" by (metis prod_cases5)
    from prepare_reload_Inr [OF inv] Inr x obtain cur prev published where
      p: "router (cs_manager s) = Some cur" "prev = None \<or> prev = Some cur"
        "prev = Some cur \<Longrightarrow> configured (pc_runtime nxt) (cs_arena s) cur"
        "router_build X T (case fetched of Some f \<Rightarrow> sn_managed f | None \<Rightarrow> cs_managed s) published (pc_runtime nxt) ctx prev (cs_arena s) = (Inr rt, h)"
        "derive_routing_secret X T (access_token (pc_runtime nxt)) = Inr (routing_secret ctx)"
      by metis
    have cfg: "ce_config env = Inr nxt \<and> \<not> restart_required nxt (cs_service s)"
      using Inr x by (cases "ce_config env") (auto simp: prepare_reload_def res_simps map_err_def Let_def split: if_splits)
    have g: "gateway_inv T (cs_manager s, cs_arena s)" using inv by (simp add: service_inv_def Let_def)
    obtain ir s1 where i: "install_router rt h s = (ir, s1)" by fastforce
    note I = install_router_inv [OF g p(1,2,4,3) i]
    define s2 where "s2 = (case fetched of Some f \<Rightarrow> adopt_snapshot env (account_fingerprint X T (access_token (pc_runtime nxt))) f s1 | None \<Rightarrow> s1)"
    have s': "res = Inr ()" "s' = s2\<lparr>cs_fingerprint := account_fingerprint X T (access_token (pc_runtime nxt)), cs_context := ctx, cs_service := nxt\<rparr>"
      using r Inr x i I(1) by (simp_all add: reload_inner_def Let_def s2_def)
    have two: "router (cs_manager s2) = Some rt" "cs_arena s2 = cs_arena s1" "gateway_inv T (cs_manager s2, cs_arena s1)"
      "cs_managed s2 = (case fetched of Some f \<Rightarrow> sn_managed f | None \<Rightarrow> cs_managed s)"
      using I gateway_inv_router [of "cs_manager s2" "cs_manager s1" T "cs_arena s1"]
      by (auto simp: s2_def adopt_snapshot_def split: option.split)
    have "service_inv X T s'"
      unfolding service_inv_def s'(2) using I(4-6) two p(5) by (simp add: Let_def)
    then show ?thesis using s' cfg by simp
  qed
  then show "service_inv X T s'" "(\<exists>e. res = Inl e) \<Longrightarrow> s' = s"
    "res = Inr () \<Longrightarrow> ce_config env = Inr (cs_service s') \<and> \<not> restart_required (cs_service s') (cs_service s)" by blast+
qed

lemma service_inv_start:
  assumes "start_service X T env disable_filter fs = Inr s"
  shows "service_inv X T s"
proof -
  obtain cfg initial from_cache fs' published secret where
    a: "ce_config env = Inr cfg" "initial_catalog X T env (pc_runtime cfg) fs = Inr (initial, from_cache, fs')"
    and secret: "derive_routing_secret X T (access_token (pc_runtime cfg)) = Inr secret"
    and p: "published_proxies T (sn_managed initial) disable_filter (node_filter (pc_runtime cfg)) = Inr published"
    using assms by (auto simp: start_service_def res_simps Let_def)
  let ?ctx = "\<lparr>outbound_ip = pc_outbound_ip cfg,
           udp_relay_advertised = ip_is_loopback (sa_ip (pc_listen cfg)) \<or> (pc_udp_port_range cfg \<noteq> None \<and> pc_udp_advertise_address cfg \<noteq> None),
           routing_secret = secret, dial_limit = ce_semaphore env\<rparr>"
  obtain r h where b: "router_build X T (sn_managed initial) published (pc_runtime cfg) ?ctx None empty_arena = (Inr r, h)"
    and s: "cs_service s = cfg" "cs_managed s = sn_managed initial" "cs_fingerprint s = account_fingerprint X T (access_token (pc_runtime cfg))"
      "cs_context s = ?ctx" "router (cs_manager s) = Some r" "cs_arena s = h"
    using assms a secret p by (auto simp: start_service_def res_simps Let_def manager_new_def)
  have g: "gateway_inv T (manager_new r, h)" using gateway_inv_start [OF b] .
  have wf: "arena_wf empty_arena" "prev_ok T None empty_arena"
    by (simp_all add: arena_wf_def empty_arena_def prev_ok_def addresses_def)
  note built = router_build_Inr [OF b wf]
  have "configured (pc_runtime cfg) h r"
    using built(1) new_client_fields by (fastforce simp: configured_def loop_inv_def entry_made_def existing_runtime_def)
  moreover have "gateway_inv T (cs_manager s, cs_arena s)"
    using g gateway_inv_router [of "cs_manager s" "manager_new r" T h] s by (simp add: manager_new_def)
  ultimately show ?thesis using s secret built(2,3) by (simp add: service_inv_def Let_def)
qed

text \<open>
  The states of the service: it starts, refreshes and reloads, one at a time, in any environment; in between sessions use
  their clients, which neither closes them nor changes their settings.
\<close>

inductive service_reach :: "crypto \<Rightarrow> text_crates \<Rightarrow> ('d, 'v) yaml \<Rightarrow> CatalogService \<Rightarrow> bool" for X T Y where
  start: "ce_yaml env = Y \<Longrightarrow> start_service X T env disable_filter fs = Inr s \<Longrightarrow> service_reach X T Y s"
| refresh: "service_reach X T Y s \<Longrightarrow> ce_yaml env = Y \<Longrightarrow> refresh_with_policy X T env force s = (res, s') \<Longrightarrow> service_reach X T Y s'"
| reloaded: "service_reach X T Y s \<Longrightarrow> ce_yaml env = Y \<Longrightarrow> reload X T env s = (res, s') \<Longrightarrow> service_reach X T Y s'"
| session: "service_reach X T Y s \<Longrightarrow> clients (cs_arena s) a = Some c \<Longrightarrow> closed c' = closed c \<Longrightarrow> options c' = options c
    \<Longrightarrow> service_reach X T Y (s\<lparr>cs_arena := (cs_arena s)\<lparr>clients := (clients (cs_arena s))(a \<mapsto> c')\<rparr>\<rparr>)"

lemma service_inv_session:
  assumes "service_inv X T s" "clients (cs_arena s) a = Some c" "closed c' = closed c" "options c' = options c"
  shows "service_inv X T (s\<lparr>cs_arena := (cs_arena s)\<lparr>clients := (clients (cs_arena s))(a \<mapsto> c')\<rparr>\<rparr>)"
proof -
  have "gateway_inv T (cs_manager s, (cs_arena s)\<lparr>clients := (clients (cs_arena s))(a \<mapsto> c')\<rparr>)"
    using gateway_inv_session [OF _ assms(2-)] assms(1) by (simp add: service_inv_def Let_def)
  moreover have "configured rt ((cs_arena s)\<lparr>clients := (clients (cs_arena s))(a \<mapsto> c')\<rparr>) r" if "configured rt (cs_arena s) r" for rt r
    using that assms(2,4) by (fastforce simp: configured_def)
  ultimately show ?thesis using assms(1) by (auto simp: service_inv_def Let_def)
qed

lemma reload_inner_of: "reload X T env s = (res, s') \<Longrightarrow>
    \<exists>s1. reload_inner X T env s = (res, s1)
       \<and> s' = s1\<lparr>cs_events := event_record (ce_now env) ConfigReloadEvent (error_kind env res) (cs_events s1)\<rparr>"
  by (auto simp: reload_def split: prod.splits)

lemma service_reach_inv: "service_reach X T Y s \<Longrightarrow> service_inv X T s"
proof (induction rule: service_reach.induct)
  case (reloaded s env res s')
  from reload_inner_of [OF reloaded.hyps(3)] obtain s1 where s1: "reload_inner X T env s = (res, s1)"
    "s' = s1\<lparr>cs_events := event_record (ce_now env) ConfigReloadEvent (error_kind env res) (cs_events s1)\<rparr>" by blast
  then show ?case using service_inv_reload_inner(1) [OF reloaded.IH s1(1)] service_inv_cong [of s' s1] by simp
qed (auto intro: service_inv_start service_inv_refresh service_inv_session)

text \<open>
  However the start, refreshes and reloads follow each other, with whatever files, API answers and failures, the running
  gateway is that of the configuration in force: its nodes are the current catalog, its routing secret and the cache's fingerprint are
  those of the current account, and its open clients are exactly the nodes' clients, each with the current settings.
\<close>

lemma service_stays_consistent:
  assumes "service_reach X T Y s"
  shows "\<exists>r. router (cs_manager s) = Some r \<and> map (n_proxy \<circ> snd) (runtimes r) = cs_managed s
    \<and> derive_routing_secret X T (access_token (pc_runtime (cs_service s))) = Inr (router_secret r)
    \<and> cs_fingerprint s = account_fingerprint X T (access_token (pc_runtime (cs_service s)))
    \<and> {a. open_at (cs_arena s) a} = runtime_address ` set (runtimes r)
    \<and> configured (pc_runtime (cs_service s)) (cs_arena s) r"
proof -
  have inv: "service_inv X T s" using service_reach_inv [OF assms] .
  then have "gateway_inv T (cs_manager s, cs_arena s)" by (simp add: service_inv_def Let_def)
  from gateway_invD(3) [OF this] inv show ?thesis by (auto simp: service_inv_def Let_def addresses_def)
qed

text \<open>
  C21: A reload that fails leaves the service as it was, but for the entry in the event log: configuration, catalog, cache file,
  router and clients are retained. A reload that succeeds puts the read configuration into force, and none of the addresses
  the process is bound to has changed.
\<close>

theorem failed_reload_retains_configuration:
  assumes "service_reach X T Y s" "reload X T env s = (res, s')"
  shows "case res of
      Inl e \<Rightarrow> s' = s\<lparr>cs_events := event_record (ce_now env) ConfigReloadEvent (Some (classify (other_errors (ce_api env)) e)) (cs_events s)\<rparr>
    | Inr _ \<Rightarrow> ce_config env = Inr (cs_service s') \<and> pc_listen (cs_service s') = pc_listen (cs_service s)
        \<and> pc_nodelist_listen (cs_service s') = pc_nodelist_listen (cs_service s) \<and> pc_outbound_ip (cs_service s') = pc_outbound_ip (cs_service s)
        \<and> pc_udp_port_range (cs_service s') = pc_udp_port_range (cs_service s)
        \<and> pc_udp_advertise_address (cs_service s') = pc_udp_advertise_address (cs_service s)"
proof -
  from reload_inner_of [OF assms(2)] obtain s1 where s1: "reload_inner X T env s = (res, s1)"
    "s' = s1\<lparr>cs_events := event_record (ce_now env) ConfigReloadEvent (error_kind env res) (cs_events s1)\<rparr>" by blast
  note R = service_inv_reload_inner(2,3) [OF service_reach_inv [OF assms(1)] s1(1)]
  show ?thesis
  proof (cases res)
    case (Inl e)
    then have "s1 = s" using R(1) by blast
    then show ?thesis using Inl s1(2) by (simp add: error_kind_def)
  next
    case (Inr u)
    then have "ce_config env = Inr (cs_service s1) \<and> \<not> restart_required (cs_service s1) (cs_service s)" using R(2) by simp
    then show ?thesis using Inr s1(2) by (simp add: restart_required_def)
  qed
qed

subsection \<open>The cache file reads back\<close>

text \<open>
  Writing the cache is atomic. Whatever interrupts it, the cache file holds its old or the complete new content in every
  state in between; it holds the new content exactly when the write succeeds, and the temporary file is gone at the end.
\<close>

lemma cache_write_is_atomic:
  "list_all (\<lambda>f. cf_cache f = cf_cache fs \<or> cf_cache f = Some content) (atomic_write_states fault content fs)"
  "write_private_atomic fault content fs = (res, fs') \<Longrightarrow>
     cf_cache fs' = (if res = Inr () then Some content else cf_cache fs) \<and> cf_temporary fs' = None
     \<and> (res = Inr () \<longleftrightarrow> fault = None)"
  by (auto simp: atomic_write_states_def write_private_atomic_def Let_def split: option.splits write_fault.splits)

definition snapshot_ok :: "text_crates \<Rightarrow> CatalogSnapshot \<Rightarrow> bool" where
  "snapshot_ok T f \<longleftrightarrow> config_validate T (sn_managed f) = Inr () \<and> (case sn_userinfo f of Some u \<Rightarrow> userinfo_valid u | None \<Rightarrow> True)"

lemma store_snapshot_Inr:
  assumes "store_snapshot C fault fp managed ui t fs = (Inr (), fs')"
  obtains content where "envelope_encode C (snapshot_envelope C fp managed ui t) = Some content"
    "fs' = \<lparr>cf_cache = Some content, cf_temporary = None\<rparr>"
  using assms by (auto simp: store_snapshot_def write_private_atomic_def atomic_write_states_def Let_def split: option.splits if_splits)

lemma store_snapshot_Inl: "store_snapshot C fault fp managed ui t fs = (Inl e, fs') \<Longrightarrow> cf_cache fs' = cf_cache fs"
  by (auto simp: store_snapshot_def write_private_atomic_def atomic_write_states_def Let_def
      split: option.splits if_splits write_fault.splits)

lemma load_after_store:
  assumes "codec_laws C" "ct_eq_law T" "snapshot_ok T f"
    and st: "store_snapshot C fault fp (sn_managed f) (sn_userinfo f) (sn_fetched_at f) fs = (Inr (), fs')"
    and small: "length (the (cf_cache fs')) \<le> MAX_CACHE_BYTES"
  shows "load_snapshot T C fp' True True fs' = (if utf8 fp' = utf8 fp then Some f else None)"
proof -
  obtain content where c: "envelope_encode C (snapshot_envelope C fp (sn_managed f) (sn_userinfo f) (sn_fetched_at f)) = Some content"
    "fs' = \<lparr>cf_cache = Some content, cf_temporary = None\<rparr>" using store_snapshot_Inr [OF st] .
  then have "envelope_documents C content = [Some (snapshot_envelope C fp (sn_managed f) (sn_userinfo f) (sn_fetched_at f))]"
    using assms(1) by (simp add: codec_laws_def)
  moreover have "(case sn_userinfo f of Some i \<Rightarrow> if userinfo_valid i then Some i else None | None \<Rightarrow> None) = sn_userinfo f"
    using assms(3) by (auto simp: snapshot_ok_def split: option.splits)
  ultimately show ?thesis
    using c small assms(1-3)
    by (auto simp: load_snapshot_def parse_envelope_def snapshot_envelope_def CACHE_FORMAT_VERSION_def ct_eq_law_def codec_laws_def snapshot_ok_def)
qed

lemma managed_userinfo_valid:
  assumes "managed_response X T A c stamp ident rs = Inr r"
  shows "case mr_userinfo r of Some u \<Rightarrow> userinfo_valid u | None \<Rightarrow> True"
  using assms by (rule managed_response_Inr) (auto dest: userinfo_parse_valid split: Value.split option.split)

lemma fetch_snapshot_ok:
  assumes "fetch X T env rt = Inr f"
  shows "snapshot_ok T f" "sn_fetched_at f = Some (ce_now env)"
proof -
  obtain c r where c: "fst (fetch_managed X T (ce_api env) (ce_http env) (ce_now env) (ce_key env) c) = Inr r"
    and r: "managed_parse T (ce_yaml env) (mr_config r) = Inr (sn_managed f)" "sn_userinfo f = mr_userinfo r" "sn_fetched_at f = Some (ce_now env)"
    using assms by (auto simp: fetch_def load_managed_catalog_def res_simps)
  obtain tried where "fetch_managed X T (ce_api env) (ce_http env) (ce_now env) (ce_key env) c = (Inr r, tried)"
    using c by (metis fst_conv surj_pair)
  then obtain rs where "managed_response X T (ce_api env) c (show_nat (ce_now env)) (fst (ce_key env)) rs = Inr r"
    by (rule fetch_managed_attempt)
  then have "case mr_userinfo r of Some u \<Rightarrow> userinfo_valid u | None \<Rightarrow> True" by (rule managed_userinfo_valid)
  moreover have "config_validate T (sn_managed f) = Inr ()"
    using r(1) by (auto simp: managed_parse_def res_simps Let_def split: if_splits list.splits)
  ultimately show "snapshot_ok T f" "sn_fetched_at f = Some (ce_now env)" using r by (simp_all add: snapshot_ok_def)
qed

lemma manager_subscription [simp]:
  "subscription (refresh_started t m) = subscription m" "subscription (refresh_finished e t m) = subscription m"
  "subscription (update_subscription i a m) = map_option (\<lambda>i. (i, a)) i"
  by (simp_all add: refresh_started_def refresh_finished_def update_subscription_def Let_def)

text \<open>What a refresh, forced or not, leaves when it fails: everything but the status, the log and the temporary file.\<close>

definition same_catalog :: "CatalogService \<Rightarrow> CatalogService \<Rightarrow> bool" where
  "same_catalog s s' \<longleftrightarrow> cs_service s' = cs_service s \<and> cs_managed s' = cs_managed s \<and> cs_fetched_at s' = cs_fetched_at s
     \<and> cs_fingerprint s' = cs_fingerprint s \<and> cs_context s' = cs_context s \<and> cs_arena s' = cs_arena s
     \<and> router (cs_manager s') = router (cs_manager s)"

lemma refresh_cases:
  assumes inv: "service_inv X T s" and r: "refresh_with_policy X T env force s = (res, s')"
  obtains (failed) e where "res = Inl e" "same_catalog s s'"
      "force \<or> classify (other_errors (ce_api env)) e \<notin> {Authentication, Forbidden} \<Longrightarrow>
         subscription (cs_manager s') = subscription (cs_manager s) \<and> cf_cache (cs_files s') = cf_cache (cs_files s)"
      "\<not> force \<Longrightarrow> classify (other_errors (ce_api env)) e \<in> {Authentication, Forbidden} \<Longrightarrow> subscription (cs_manager s') = None
         \<and> cs_files s' = snd (store_snapshot (ce_codec env) (ce_clear_fault env) (cs_fingerprint s) (cs_managed s) None (cs_fetched_at s) (cs_files s))"
  | (refreshed) f where "res = Inr ()" "fetch X T env (pc_runtime (cs_service s)) = Inr f" "cs_managed s' = sn_managed f"
      "cs_fetched_at s' = sn_fetched_at f" "cs_fingerprint s' = cs_fingerprint s"
      "subscription (cs_manager s') = map_option (\<lambda>i. (i, sn_fetched_at f)) (sn_userinfo f)"
      "cs_files s' = snd (store_snapshot (ce_codec env) (ce_fault env) (cs_fingerprint s) (sn_managed f) (sn_userinfo f) (sn_fetched_at f) (cs_files s))"
      "force \<Longrightarrow> fst (store_snapshot (ce_codec env) (ce_fault env) (cs_fingerprint s) (sn_managed f) (sn_userinfo f) (sn_fetched_at f) (cs_files s)) = Inr ()"
proof -
  let ?s0 = "s\<lparr>cs_manager := refresh_started (ce_now env) (cs_manager s)\<rparr>"
  let ?fetched = "fetch X T env (pc_runtime (cs_service s))"
  have i0: "service_inv X T ?s0" using inv service_inv_cong [of ?s0 s] by simp
  define ap where "ap = (case ?fetched of Inr f \<Rightarrow> apply_refreshed_catalog X T env f force ?s0 | Inl e \<Rightarrow> (Inl e, ?s0))"
  obtain r1 s1 where ap: "ap = (r1, s1)" by fastforce
  define s2 where "s2 = s1\<lparr>cs_manager := refresh_finished (error_kind env r1) (ce_now env) (cs_manager s1),
      cs_events := event_record (ce_now env) CatalogRefreshEvent (error_kind env r1) (cs_events s1)\<rparr>"
  have s': "res = r1" "s' = (if \<not> force \<and> (error_kind env r1 = Some Authentication \<or> error_kind env r1 = Some Forbidden)
       then snd (store_service (ce_codec env) (ce_clear_fault env) (cs_managed s2) None (cs_fetched_at s2)
                   (s2\<lparr>cs_manager := update_subscription None None (cs_manager s2)\<rparr>))
       else s2)"
    using r unfolding refresh_with_policy_def finish_refresh_def ap_def [symmetric] ap Let_def prod.case s2_def Pair_inject by blast+
  have unchanged: thesis if e: "r1 = Inl e" and fs: "s1 = ?s0\<lparr>cs_files := fs\<rparr>" "force \<or> fs = cs_files s" "cf_cache fs = cf_cache (cs_files s)" for e fs
  proof (rule failed [of e])
    show "same_catalog s s'" using s' e fs by (simp add: same_catalog_def s2_def)
  qed (use s' e fs in \<open>auto simp: s2_def error_kind_def\<close>)
  show thesis
  proof (cases ?fetched)
    case (Inl e)
    then show thesis using unchanged [of e "cs_files s"] ap ap_def by simp
  next
    case (Inr f)
    then have "apply_refreshed_catalog X T env f force ?s0 = (r1, s1)" using ap ap_def by simp
    with i0 show thesis
    proof (cases rule: apply_refreshed_cases)
      case (unbuilt e)
      then show thesis using unchanged [of e "cs_files s"] by simp
    next
      case (unstored e)
      from unstored(4) have "cf_cache (cs_files s1) = cf_cache (cs_files s)" using store_snapshot_Inl by simp
      then show thesis using unchanged [OF unstored(2,3)] unstored(1) by blast
    next
      case applied
      then have "s' = s2" "res = Inr ()" using s' by (auto simp: error_kind_def)
      then show thesis using refreshed [OF _ Inr] applied by (auto simp: s2_def)
    qed
  qed
qed

text \<open>
  A stored catalog is read back whole by its account and by no other: loading gives exactly the stored nodes, time and
  subscription when the fingerprint is the one it was stored under, and nothing otherwise.
\<close>

lemma cache_belongs_to_its_account:
  assumes "codec_laws C" "ct_eq_law T" "config_validate T managed = Inr ()" "case userinfo of Some u \<Rightarrow> userinfo_valid u | None \<Rightarrow> True"
    "store_snapshot C fault fp managed userinfo fetched_at fs = (Inr (), fs')" "length (the (cf_cache fs')) \<le> MAX_CACHE_BYTES"
  shows "load_snapshot T C fp' True True fs' =
    (if utf8 fp' = utf8 fp then Some \<lparr>sn_managed = managed, sn_fetched_at = fetched_at, sn_userinfo = userinfo\<rparr> else None)"
  using load_after_store [OF assms(1,2), of "\<lparr>sn_managed = managed, sn_fetched_at = fetched_at, sn_userinfo = userinfo\<rparr>"] assms(3-)
  by (simp add: snapshot_ok_def)

text \<open>
  C22: A forced refresh reports success only when the new catalog is served and persisted: what a later start loads from the cache is what the gateway
  serves now. When it reports an error, whether the catalog could not be fetched, built or written, the catalog, router, clients,
  subscription and cache file are what they were.
\<close>

theorem forced_refresh_is_all_or_nothing:
  assumes "service_reach X T Y s" "refresh_with_policy X T env True s = (res, s')" "codec_laws (ce_codec env)" "ct_eq_law T"
    "length (the (cf_cache (cs_files s'))) \<le> MAX_CACHE_BYTES"
  shows "case res of
      Inr _ \<Rightarrow> \<exists>userinfo. subscription (cs_manager s') = map_option (\<lambda>i. (i, cs_fetched_at s')) userinfo
        \<and> load_snapshot T (ce_codec env) (cs_fingerprint s') True True (cs_files s')
            = Some \<lparr>sn_managed = cs_managed s', sn_fetched_at = cs_fetched_at s', sn_userinfo = userinfo\<rparr>
    | Inl _ \<Rightarrow> same_catalog s s' \<and> subscription (cs_manager s') = subscription (cs_manager s)
        \<and> cf_cache (cs_files s') = cf_cache (cs_files s)"
  using service_reach_inv [OF assms(1)] assms(2)
proof (cases rule: refresh_cases)
  case (refreshed f)
  let ?st = "store_snapshot (ce_codec env) (ce_fault env) (cs_fingerprint s) (sn_managed f) (sn_userinfo f) (sn_fetched_at f) (cs_files s)"
  have "?st = (Inr (), cs_files s')" using refreshed(7,8) by (simp add: prod_eq_iff)
  from load_after_store [OF assms(3,4) fetch_snapshot_ok(1) [OF refreshed(2)] this assms(5)]
  have "load_snapshot T (ce_codec env) (cs_fingerprint s') True True (cs_files s') = Some f" using refreshed(5) by simp
  then show ?thesis using refreshed by (cases f) auto
qed simp

text \<open>
  A periodic refresh that the account is refused for takes the subscription data away, from the gateway and, when the file can be written, from the cache; the nodes
  stay in service.
\<close>

lemma refused_account_loses_subscription:
  assumes "service_reach X T Y s" "refresh_with_policy X T env False s = (Inl e, s')"
    "classify (other_errors (ce_api env)) e \<in> {Authentication, Forbidden}" "codec_laws (ce_codec env)"
  shows "same_catalog s s' \<and> subscription_header (cs_manager s') now = None
    \<and> (ce_clear_fault env = None
       \<and> envelope_encode (ce_codec env) (snapshot_envelope (ce_codec env) (cs_fingerprint s) (cs_managed s) None (cs_fetched_at s)) \<noteq> None
       \<longrightarrow> (\<forall>fp private readable f. load_snapshot T (ce_codec env) fp private readable (cs_files s') = Some f \<longrightarrow> sn_userinfo f = None))"
  using service_reach_inv [OF assms(1)] assms(2)
proof (cases rule: refresh_cases)
  case (failed e')
  let ?e = "snapshot_envelope (ce_codec env) (cs_fingerprint s) (cs_managed s) None (cs_fetched_at s)"
  let ?st = "store_snapshot (ce_codec env) (ce_clear_fault env) (cs_fingerprint s) (cs_managed s) None (cs_fetched_at s) (cs_files s)"
  have sub: "subscription (cs_manager s') = None" "cs_files s' = snd ?st" using failed(4) failed(1) assms(3) by simp_all
  have "sn_userinfo f = None" if f: "ce_clear_fault env = None" "envelope_encode (ce_codec env) ?e = Some b"
    "load_snapshot T (ce_codec env) fp pr rd (cs_files s') = Some f" for fp pr rd f b
  proof -
    have "envelope_documents (ce_codec env) b = [Some ?e]" "userinfo_from_value (ce_codec env) (env_userinfo ?e) = None"
      using assms(4) f(2) by (simp_all add: codec_laws_def snapshot_envelope_def)
    moreover have "cf_cache (cs_files s') = Some b"
      using f sub(2) by (simp add: store_snapshot_def write_private_atomic_def atomic_write_states_def Let_def)
    ultimately show ?thesis
      using f(3) by (auto simp: load_snapshot_def parse_envelope_def res_simps split: if_splits sum.splits)
  qed
  then show ?thesis using failed(2) sub(1) by (auto simp: subscription_header_def)
qed simp

subsection \<open>An accepted configuration starts\<close>

text \<open>The length of the Base64 of a digest.\<close>

definition b64url_short :: "text_crates \<Rightarrow> bool" where
  "b64url_short T \<longleftrightarrow> (\<forall>b. length b = 32 \<longrightarrow> b64url_encode T b \<noteq> [] \<and> length (b64url_encode T b) \<le> 255)"

lemma limits_runtime_ok: "limits_ok rt \<Longrightarrow> serve_port rt \<noteq> 0 \<Longrightarrow> runtime_ok rt"
  by (auto simp: limits_ok_def runtime_ok_def secs_def)

lemma derived_secret_safe:
  assumes "digest_laws X" "b64url_laws T" "b64url_short T" "str_trim token \<noteq> []"
  shows "\<exists>k. derive_routing_secret X T token = Inr k \<and> is_safe_credential k"
proof -
  let ?k = "b64url_encode T (hmac_sha256 X (utf8 token) ROUTING_SECRET_CONTEXT)"
  have "?k \<noteq> []" "length ?k \<le> 255" using assms(1,3) by (simp_all add: digest_laws_def b64url_short_def)
  moreover have "list_all url_safe_char ?k" using assms(2) by (simp add: b64url_laws_def)
  ultimately have "is_safe_credential ?k" using utf8_safe [of ?k] by (simp add: is_safe_credential_def)
  then show ?thesis using assms(4) by (simp add: derive_routing_secret_def)
qed

lemma accepted_token_trimmed:
  assumes "proxy_config_from_bytes T K A content = Inr c"
  shows "str_trim (access_token (pc_runtime c)) \<noteq> []"
proof -
  obtain raw rt where rt: "runtime_from_raw T K A Map.empty (\<lambda>p. p) raw = Inr rt" "access_token (pc_runtime c) = access_token rt"
    using assms by (rule proxy_config_Inr) simp
  then obtain token where "resolve_token Map.empty (\<lambda>p. p) raw = Inr token" "access_token rt = token"
    unfolding runtime_from_raw_def by (auto simp: and_then_Inr_iff split: if_split_asm)
  then have "access_token rt = str_trim (fc_access_token raw)" "access_token rt \<noteq> []"
    by (auto simp: resolve_token_def Let_def require_private_file_def res_simps split: if_splits)
  then show ?thesis using rt(2) by simp
qed

lemma validated_catalog_ok:
  assumes "config_validate T ps = Inr ()" "\<forall>p \<in> set ps. list_all scalar (name p)"
  shows "catalog_ok T ps"
proof -
  have "validate_loop T names qs = Inr () \<Longrightarrow> distinct (map name qs) \<and> (\<forall>q \<in> set qs. validate T q = Inr () \<and> name q \<notin> names)" for names qs
    by (induction qs arbitrary: names) (fastforce simp: res_simps split: if_splits)+
  then show ?thesis using assms by (auto simp: config_validate_def catalog_ok_def split: if_splits)
qed

lemma initial_catalog_valid:
  assumes "initial_catalog X T env rt fs = Inr (initial, from_cache, fs')"
  shows "config_validate T (sn_managed initial) = Inr ()"
  using assms fetch_snapshot_ok(1)
  by (fastforce simp: initial_catalog_def load_snapshot_def parse_envelope_def snapshot_ok_def Let_def res_simps
      split: option.splits if_splits sum.splits list.splits)


subsection \<open>A sample service\<close>

definition info_tuple :: "UserInfo option \<Rightarrow> (nat \<times> nat \<times> nat \<times> nat option) option" where
  "info_tuple = map_option (\<lambda>u. (upload u, download u, quota u, expire u))"

definition tuple_info :: "(nat \<times> nat \<times> nat \<times> nat option) option \<Rightarrow> UserInfo option" where
  "tuple_info = map_option (\<lambda>(u, d, q, e). \<lparr>upload = u, download = d, quota = q, expire = e\<rparr>)"

text \<open>A codec that knows one envelope and writes the subscription data in unary.\<close>

definition sample_codec :: "CacheEnvelope \<Rightarrow> cache_codec" where
  "sample_codec e = \<lparr>envelope_encode = (\<lambda>x. if x = e then Some [1] else None),
     envelope_documents = (\<lambda>b. if b = [1] then [Some e] else []),
     userinfo_to_value = (\<lambda>u. replicate (to_nat (info_tuple u)) 1), userinfo_from_value = (\<lambda>b. tuple_info (from_nat (length b)))\<rparr>"

lemma sample_codec_laws: "codec_laws (sample_codec e)"
proof -
  have "tuple_info (info_tuple u) = u" for u by (cases u) (simp_all add: info_tuple_def tuple_info_def)
  then show ?thesis by (simp add: codec_laws_def sample_codec_def)
qed

definition sample_config :: ProxyConfig where
  "sample_config = \<lparr>pc_runtime = sample_runtime, pc_listen = \<lparr>sa_ip = V4 2130706433, sa_port = 8080\<rparr>,
     pc_nodelist_listen = \<lparr>sa_ip = V4 2130706433, sa_port = 8081\<rparr>, pc_outbound_ip = V4 2130706433,
     pc_udp_port_range = None, pc_udp_advertise_address = None, pc_node_refresh_interval = secs 3600\<rparr>"

definition sample_fingerprint :: ustring where
  "sample_fingerprint = account_fingerprint sample_crypto sample_text (access_token sample_runtime)"

definition sample_envelope :: CacheEnvelope where
  "sample_envelope = snapshot_envelope (sample_codec undefined) sample_fingerprint [good_proxy [88]] None (Some 5)"

definition sample_env :: "http \<Rightarrow> (Proxy option list, Proxy option) catalog_env" where
  "sample_env net = \<lparr>ce_yaml = one_yaml, ce_codec = sample_codec sample_envelope, ce_config = Inr sample_config,
     ce_api = sample_api\<lparr>url_parts := (\<lambda>_. sample_url ''b'')\<rparr>, ce_http = net, ce_key = ([], []), ce_source = Inr None,
     ce_fault = None, ce_clear_fault = None, ce_now = 5, ce_modified = None, ce_private = True, ce_readable = True, ce_semaphore = 0\<rparr>"

lemma sample_parse: "managed_parse sample_text one_yaml [7] = Inr [good_proxy [88]]"
  using good_proxy_valid by (simp add: managed_parse_def one_yaml_def MAX_MANAGED_CONFIG_BYTES_def from_value_def config_validate_def)

lemma sample_client_made:
  "api_client (ce_api (sample_env net)) (ce_source (sample_env net)) sample_runtime
     = Inr \<lparr>cl_base_url = sample_url ''b'', cl_fallback_urls = [], cl_access_token = ustr ''t'', cl_app_secret = ustr ''s'', cl_timeout = secs 10\<rparr>"
proof -
  have "str_trim (ustr ''t'') = ustr ''t''" "str_trim (ustr ''s'') = ustr ''s''"
    by (simp_all add: str_trim_def ustr_def trim_by_id is_whitespace_def)
  then show ?thesis
    by (simp add: api_client_def client_build_def sample_env_def sample_runtime_def validate_api_url_def sample_url_def with_fallback_urls_def
        secs_def ustr_def Let_def)
qed

text \<open>The single address is asked once.\<close>

lemma sample_fetch_managed:
  assumes "net = (\<lambda>_. (Some r, 2))"
  defines "c \<equiv> \<lparr>cl_base_url = sample_url ''b'', cl_fallback_urls = [], cl_access_token = ustr ''t'', cl_app_secret = ustr ''s'', cl_timeout = secs 10\<rparr>"
  shows "fst (fetch_managed sample_crypto sample_text (ce_api (sample_env net)) net 5 ([], []) c)
    = and_then r (managed_response sample_crypto sample_text (ce_api (sample_env net)) c (show_nat 5) [])"
  unfolding fetch_managed_def with_fallback_def c_def
  by (simp add: assms(1) get_managed_config_def exchange_def attempt_def secs_def Let_def split: sum.split)

lemma sample_api_fetch:
  "fetch sample_crypto sample_text (sample_env (\<lambda>_. (Some (Inr sample_response), 2))) sample_runtime
    = Inr \<lparr>sn_managed = [good_proxy [88]], sn_fetched_at = Some 5, sn_userinfo = None\<rparr>"
proof -
  let ?net = "\<lambda>_. (Some (Inr sample_response), 2)"
  have "envelope_json (ce_api (sample_env ?net)) = envelope_json sample_api" "age_stream (ce_api (sample_env ?net)) = age_stream sample_api"
    by (simp_all add: sample_env_def)
  note rs = sample_managed_response [OF _ this]
  have "ce_http (sample_env ?net) = ?net" "ce_now (sample_env ?net) = 5" "ce_key (sample_env ?net) = ([], [])" "ce_yaml (sample_env ?net) = one_yaml"
    by (simp_all add: sample_env_def)
  then show ?thesis
    unfolding fetch_def sample_client_made load_managed_catalog_def by (simp add: sample_fetch_managed [OF refl] rs sample_parse)
qed

lemma sample_api_refused:
  "fetch sample_crypto sample_text (sample_env (\<lambda>_. (Some (Inr (sample_response\<lparr>rs_status := 401\<rparr>)), 2))) sample_runtime
    = Inl (ApiFailure Authentication (Some 401) None)"
proof -
  let ?net = "\<lambda>_. (Some (Inr (sample_response\<lparr>rs_status := 401\<rparr>)), 2)"
  have "ce_http (sample_env ?net) = ?net" "ce_now (sample_env ?net) = 5" "ce_key (sample_env ?net) = ([], [])" "ce_yaml (sample_env ?net) = one_yaml"
    by (simp_all add: sample_env_def)
  then show ?thesis
    unfolding fetch_def sample_client_made load_managed_catalog_def
    by (simp add: sample_fetch_managed [OF refl] managed_response_def ensure_success_def sample_response_def http_error_kind_def)
qed

lemma sample_secret:
  obtains k where "derive_routing_secret sample_crypto sample_text (access_token sample_runtime) = Inr k" "is_safe_credential k"
proof -
  let ?m = "hmac_sha256 sample_crypto (utf8 (ustr ''t'')) ROUTING_SECRET_CONTEXT"
  have "length ?m = 32" using sample_digest_laws by (simp add: digest_laws_def)
  moreover have "length (nibbles b) = 2 * length b" for b by (induction b) simp_all
  ultimately have "length (nibbles ?m) = 64" by simp
  moreover have "list_all url_safe_char (nibbles ?m)" using sample_b64url_laws by (simp add: b64url_laws_def sample_text_def)
  ultimately have "is_safe_credential (nibbles ?m)"
    using utf8_safe [of "nibbles ?m"] by (auto simp: is_safe_credential_def)
  moreover have "str_trim (ustr ''t'') = ustr ''t''" by (simp add: str_trim_def ustr_def trim_by_id is_whitespace_def)
  ultimately show thesis using that [of "nibbles ?m"]
    by (simp add: derive_routing_secret_def sample_runtime_def sample_text_def ustr_def)
qed

lemma sample_started:
  obtains s where "start_service sample_crypto sample_text (sample_env (\<lambda>_. (Some (Inr sample_response), 2))) True
      \<lparr>cf_cache = None, cf_temporary = None\<rparr> = Inr s" "cs_managed s = [good_proxy [88]]" "cs_fetched_at s = Some 5"
    "cs_service s = sample_config" "cs_files s = \<lparr>cf_cache = Some [1], cf_temporary = None\<rparr>"
proof -
  let ?env = "sample_env (\<lambda>_. (Some (Inr sample_response), 2))"
  let ?fs = "\<lparr>cf_cache = None, cf_temporary = None\<rparr>"
  obtain k where k: "derive_routing_secret sample_crypto sample_text (access_token sample_runtime) = Inr k" "is_safe_credential k"
    using sample_secret .
  let ?ctx = "\<lparr>outbound_ip = V4 2130706433, udp_relay_advertised = True, routing_secret = k, dial_limit = 0\<rparr>"
  obtain r h where b: "router_build sample_crypto sample_text [good_proxy [88]] [good_proxy [88]] sample_runtime ?ctx None empty_arena = (Inr r, h)"
    using router_build_total [OF sample_b64url_laws sample_catalog_ok sample_catalog_ok sample_runtime_ok, of ?ctx 2130706433] k(2) sample_context_ok(2,3) by auto blast
  have "envelope_encode (sample_codec sample_envelope) (snapshot_envelope (sample_codec sample_envelope) sample_fingerprint [good_proxy [88]] None (Some 5)) = Some [1]"
    by (simp add: sample_codec_def sample_envelope_def snapshot_envelope_def)
  then have st: "snd (store_snapshot (sample_codec sample_envelope) None sample_fingerprint [good_proxy [88]] None (Some 5) ?fs) = \<lparr>cf_cache = Some [1], cf_temporary = None\<rparr>"
    by (simp add: store_snapshot_def write_private_atomic_def atomic_write_states_def Let_def)
  have env: "ce_codec ?env = sample_codec sample_envelope" "ce_fault ?env = None" "ce_config ?env = Inr sample_config" "ce_semaphore ?env = 0"
    by (simp_all add: sample_env_def)
  have cfg: "pc_runtime sample_config = sample_runtime" "pc_outbound_ip sample_config = V4 2130706433"
    "ip_is_loopback (sa_ip (pc_listen sample_config))"
    by (simp_all add: sample_config_def v4_loopback_def)
  have init: "initial_catalog sample_crypto sample_text ?env sample_runtime ?fs = Inr (\<lparr>sn_managed = [good_proxy [88]], sn_fetched_at = Some 5, sn_userinfo = None\<rparr>,
      False, \<lparr>cf_cache = Some [1], cf_temporary = None\<rparr>)"
    by (simp add: initial_catalog_def load_snapshot_def sample_api_fetch env sample_fingerprint_def [symmetric] st Let_def)
  have "published_proxies sample_text [good_proxy [88]] True (node_filter sample_runtime) = Inr [good_proxy [88]]"
    by (simp add: published_proxies_def)
  then show thesis
    using that by (simp add: start_service_def env cfg init k b Let_def)
qed

lemma sample_service:
  obtains s where "service_reach sample_crypto sample_text one_yaml s" "cs_managed s = [good_proxy [88]]" "cs_fetched_at s = Some 5"
    "cs_service s = sample_config" "cs_files s = \<lparr>cf_cache = Some [1], cf_temporary = None\<rparr>"
proof -
  have y: "ce_yaml (sample_env (\<lambda>_. (Some (Inr sample_response), 2))) = one_yaml" by (simp add: sample_env_def)
  show thesis by (rule sample_started) (use that service_reach.start [OF y] in blast)
qed

lemma service_stays_consistent_witness:
  "\<exists>s r. service_reach sample_crypto sample_text one_yaml s \<and> router (cs_manager s) = Some r
    \<and> map (n_proxy \<circ> snd) (runtimes r) = [good_proxy [88]]"
  by (rule sample_service) (use service_stays_consistent in fastforce)

theorem failed_reload_retains_configuration_witness:
  "\<exists>s s' e. service_reach sample_crypto sample_text one_yaml s
    \<and> reload sample_crypto sample_text (sample_env undefined\<lparr>ce_config := Inl Io\<rparr>) s = (Inl e, s') \<and> cs_service s' = cs_service s"
proof -
  obtain s where s: "service_reach sample_crypto sample_text one_yaml s" using sample_service by blast
  let ?env = "sample_env undefined\<lparr>ce_config := Inl Io\<rparr>"
  obtain e s' where r: "reload sample_crypto sample_text ?env s = (Inl e, s')"
    by (simp add: reload_def reload_inner_def prepare_reload_def)
  show ?thesis using failed_reload_retains_configuration [OF s r] s r by (intro exI [of _ s] exI [of _ s'] exI [of _ e]) simp
qed

lemma cache_belongs_to_its_account_witness:
  "load_snapshot sample_text (sample_codec sample_envelope) sample_fingerprint True True
     (snd (store_snapshot (sample_codec sample_envelope) None sample_fingerprint [good_proxy [88]] None (Some 5) \<lparr>cf_cache = None, cf_temporary = None\<rparr>))
   = Some \<lparr>sn_managed = [good_proxy [88]], sn_fetched_at = Some 5, sn_userinfo = None\<rparr>"
proof -
  let ?fs = "\<lparr>cf_cache = None, cf_temporary = None\<rparr>"
  let ?st = "store_snapshot (sample_codec sample_envelope) None sample_fingerprint [good_proxy [88]] None (Some 5) ?fs"
  have "?st = (Inr (), \<lparr>cf_cache = Some [1], cf_temporary = None\<rparr>)"
    by (simp add: store_snapshot_def write_private_atomic_def atomic_write_states_def Let_def sample_codec_def sample_envelope_def snapshot_envelope_def)
  moreover have "config_validate sample_text [good_proxy [88]] = Inr ()" using good_proxy_valid by (simp add: config_validate_def)
  ultimately show ?thesis
    using cache_belongs_to_its_account [OF sample_codec_laws sample_ct_eq_law, of "[good_proxy [88]]" None sample_envelope None
        sample_fingerprint "Some 5" ?fs _ sample_fingerprint]
    by (simp add: MAX_CACHE_BYTES_def)
qed

theorem forced_refresh_is_all_or_nothing_witness:
  "\<exists>s s'. service_reach sample_crypto sample_text one_yaml s
    \<and> refresh_with_policy sample_crypto sample_text (sample_env (\<lambda>_. (Some (Inr sample_response), 2))) True s = (Inr (), s')
    \<and> load_snapshot sample_text (sample_codec sample_envelope) (cs_fingerprint s') True True (cs_files s') \<noteq> None"
proof -
  let ?env = "sample_env (\<lambda>_. (Some (Inr sample_response), 2))"
  obtain s where s: "service_reach sample_crypto sample_text one_yaml s" "cs_managed s = [good_proxy [88]]" "cs_service s = sample_config"
    using sample_service by blast
  have fp: "cs_fingerprint s = sample_fingerprint"
    using service_reach_inv [OF s(1)] s(3) by (simp add: service_inv_def Let_def sample_fingerprint_def sample_config_def)
  have env: "ce_codec ?env = sample_codec sample_envelope" "ce_fault ?env = None" by (simp_all add: sample_env_def)
  have st: "store_snapshot (sample_codec sample_envelope) None sample_fingerprint [good_proxy [88]] None (Some 5) fs
      = (Inr (), \<lparr>cf_cache = Some [1], cf_temporary = None\<rparr>)" for fs
    by (simp add: store_snapshot_def write_private_atomic_def atomic_write_states_def Let_def sample_codec_def sample_envelope_def snapshot_envelope_def)
  obtain s' where r: "refresh_with_policy sample_crypto sample_text ?env True s = (Inr (), s')"
    "cs_files s' = \<lparr>cf_cache = Some [1], cf_temporary = None\<rparr>"
    using s(2,3) fp sample_api_fetch
    by (simp add: refresh_with_policy_def finish_refresh_def apply_refreshed_catalog_def build_replacement_def store_service_def st env
        sample_config_def Let_def error_kind_def)
  have "length (the (cf_cache (cs_files s'))) \<le> MAX_CACHE_BYTES" using r(2) by (simp add: MAX_CACHE_BYTES_def)
  from forced_refresh_is_all_or_nothing [OF s(1) r(1) _ sample_ct_eq_law this] env(1) sample_codec_laws
  show ?thesis using s(1) r(1) by auto
qed

lemma refused_account_loses_subscription_witness:
  "\<exists>s s' e. service_reach sample_crypto sample_text one_yaml s
    \<and> refresh_with_policy sample_crypto sample_text (sample_env (\<lambda>_. (Some (Inr (sample_response\<lparr>rs_status := 401\<rparr>)), 2))) False s = (Inl e, s')
    \<and> cs_managed s' = [good_proxy [88]] \<and> subscription_header (cs_manager s') 6 = None"
proof -
  let ?env = "sample_env (\<lambda>_. (Some (Inr (sample_response\<lparr>rs_status := 401\<rparr>)), 2))"
  obtain s where s: "service_reach sample_crypto sample_text one_yaml s" "cs_managed s = [good_proxy [88]]" "cs_service s = sample_config"
    using sample_service by blast
  obtain s' where r: "refresh_with_policy sample_crypto sample_text ?env False s = (Inl (ApiFailure Authentication (Some 401) None), s')"
    using s(3) sample_api_refused by (simp add: refresh_with_policy_def finish_refresh_def sample_config_def Let_def)
  have "ce_codec ?env = sample_codec sample_envelope" by (simp add: sample_env_def)
  with refused_account_loses_subscription [OF s(1) r, of 6] s r sample_codec_laws show ?thesis by (auto simp: same_catalog_def)
qed

lemma nibbles_short: "b64url_short sample_text"
proof -
  have "length (nibbles b) = 2 * length b" for b by (induction b) simp_all
  then have "length (nibbles b) = 64" if "length b = 32" for b using that by simp
  moreover have "nibbles b \<noteq> []" if "length b = 32" for b using that nibbles_Nil [of b] by auto
  ultimately show ?thesis by (simp add: b64url_short_def sample_text_def)
qed


end
