(* ===== verification/Network.thy ===== *)
theory Network
  imports Rust_Net
begin

text \<open>
  The choice of the outgoing interface and address, \<open>src/network.rs\<close>, with the Linux sources of interface
  data: which interface carries the traffic, which of its addresses it leaves from, and the generation
  number by which the pools notice a change. A snapshot that has a pinned address never leaves from another
  one. Addresses, routes and the clock are arguments; times are in nanoseconds.
\<close>

subsection \<open>Interfaces and addresses\<close>

record AddressState =
  temporary :: bool
  deprecated :: bool
  unassignable :: bool

definition address_state_default :: AddressState where
  "address_state_default = \<lparr>temporary = False, deprecated = False, unassignable = False\<rparr>"

record InterfaceAddress =
  ia_name :: ustring
  ia_index :: "32 word"
  ia_address :: ip
  ia_state :: AddressState

record EgressSelection =
  interface_name :: "ustring option"
  interface_index :: "32 word option"
  eg_ipv4 :: "32 word option"
  eg_ipv6 :: "128 word option"

definition egress_empty :: EgressSelection where
  "egress_empty = \<lparr>interface_name = None, interface_index = None, eg_ipv4 = None, eg_ipv6 = None\<rparr>"

definition has_address :: "EgressSelection \<Rightarrow> bool" where
  "has_address s \<longleftrightarrow> eg_ipv4 s \<noteq> None \<or> eg_ipv6 s \<noteq> None"

definition selection_fields :: "EgressSelection \<Rightarrow> u64 \<Rightarrow> ip option \<Rightarrow> (string \<times> ustring) list" where
  "selection_fields s generation pinned =
     [(''generation'', show_nat (unat generation)),
      (''mode'', if pinned \<noteq> None then ustr ''pinned'' else ustr ''automatic''),
      (''interface'', case interface_name s of Some n \<Rightarrow> n | None \<Rightarrow> ustr ''none''),
      (''interface_index'', case interface_index s of Some i \<Rightarrow> show_nat (unat i) | None \<Rightarrow> ustr ''none''),
      (''ipv4'', case eg_ipv4 s of Some a \<Rightarrow> show_v4 a | None \<Rightarrow> ustr ''none''),
      (''ipv6'', case eg_ipv6 s of Some a \<Rightarrow> show_v6 a | None \<Rightarrow> ustr ''none'')]"

definition pinned_without_interface :: "ip \<Rightarrow> EgressSelection" where
  "pinned_without_interface a =
     (case a of V4 b \<Rightarrow> egress_empty\<lparr>eg_ipv4 := Some b\<rparr> | V6 b \<Rightarrow> egress_empty\<lparr>eg_ipv6 := Some b\<rparr>)"

definition interface_score :: "ustring \<Rightarrow> ustring option \<Rightarrow> nat" where
  "interface_score nm preferred =
     (if Some nm = preferred then 1000 else 0)
     + (if nm = ustr ''en0'' \<or> nm = ustr ''br-lan'' then 500
        else if list_ex (\<lambda>p. starts_with (ustr p) nm) [''en'', ''eth'', ''wlan'', ''wl'', ''ppp''] then 400 else 100)"

definition is_virtual_interface :: "ustring \<Rightarrow> bool" where
  "is_virtual_interface nm \<longleftrightarrow>
     list_ex (\<lambda>p. starts_with (ustr p) nm)
       [''lo'', ''utun'', ''tun'', ''tap'', ''wg'', ''tailscale'', ''docker'', ''veth'', ''vmnet'', ''awdl'', ''llw'']"

text \<open>\<open>Ipv6Addr::is_unique_local\<close>, and the order of the ranks: the components in turn, with false first.\<close>

definition is_unique_local :: "128 word \<Rightarrow> bool" where
  "is_unique_local a \<longleftrightarrow> unat a div 2 ^ 121 = 126"

definition rank :: "128 word \<Rightarrow> AddressState \<Rightarrow> nat" where
  "rank a st = 4 * of_bool (is_unique_local a) + 2 * of_bool (deprecated st) + of_bool (temporary st)"

definition selection_step ::
  "ip option \<Rightarrow> EgressSelection \<times> (nat \<times> 128 word) option \<Rightarrow> InterfaceAddress \<Rightarrow> EgressSelection \<times> (nat \<times> 128 word) option" where
  "selection_step pinned acc e =
     (case acc of (s, best) \<Rightarrow>
        let s = s\<lparr>interface_index := Some (ia_index e)\<rparr> in
        if (case pinned of Some p \<Rightarrow> p \<noteq> ia_address e | None \<Rightarrow> False) then (s, best)
        else case ia_address e of
          V4 a \<Rightarrow> (s\<lparr>eg_ipv4 := (case eg_ipv4 s of None \<Rightarrow> Some a | Some b \<Rightarrow> Some b)\<rparr>, best)
        | V6 a \<Rightarrow>
            if pinned \<noteq> None \<or> \<not> unassignable (ia_state e) then
              let r = rank a (ia_state e) in
              (s, if (case best of None \<Rightarrow> True | Some (b, _) \<Rightarrow> r < b) then Some (r, a) else best)
            else (s, best))"

definition selection_for_interface :: "InterfaceAddress list \<Rightarrow> ustring \<Rightarrow> ip option \<Rightarrow> EgressSelection" where
  "selection_for_interface addresses nm pinned =
     (let (s, best) = foldl (selection_step pinned) (egress_empty\<lparr>interface_name := Some nm\<rparr>, None)
                        (filter (\<lambda>e. ia_name e = nm) addresses) in
      s\<lparr>eg_ipv6 := map_option snd best\<rparr>)"

text \<open>\<open>Iterator::max_by_key\<close> keeps the last of several maxima, \<open>min_by_key\<close> the first of several minima.\<close>

fun max_by_key :: "('a \<Rightarrow> nat) \<Rightarrow> 'a list \<Rightarrow> 'a option" where
  "max_by_key k [] = None"
| "max_by_key k (x # xs) = (case max_by_key k xs of None \<Rightarrow> Some x | Some y \<Rightarrow> Some (if k x > k y then x else y))"

fun min_by_key :: "('a \<Rightarrow> nat) \<Rightarrow> 'a list \<Rightarrow> 'a option" where
  "min_by_key k [] = None"
| "min_by_key k (x # xs) = (case min_by_key k xs of None \<Rightarrow> Some x | Some y \<Rightarrow> Some (if k y < k x then y else x))"

subsection \<open>The default route\<close>

definition DEFAULT_ROUTE_RECHECK :: nat where "DEFAULT_ROUTE_RECHECK = 30 * 1000000000"

record DefaultRouteCache =
  dr_addresses :: "InterfaceAddress list"
  dr_interface :: "ustring option"
  dr_checked_at :: "nat option"

definition default_route_default :: DefaultRouteCache where
  "default_route_default = \<lparr>dr_addresses = [], dr_interface = None, dr_checked_at = None\<rparr>"

definition route_interface ::
  "nat \<Rightarrow> InterfaceAddress list \<Rightarrow> ustring option \<Rightarrow> DefaultRouteCache \<Rightarrow> ustring option \<times> DefaultRouteCache" where
  "route_interface now addresses lookup c =
     (let current = (dr_addresses c = addresses
            \<and> (case dr_checked_at c of Some t \<Rightarrow> now - t < DEFAULT_ROUTE_RECHECK | None \<Rightarrow> False));
          c = (if current then c else \<lparr>dr_addresses = addresses, dr_interface = lookup, dr_checked_at = Some now\<rparr>) in
      (dr_interface c, c))"

text \<open>A line of \<open>/proc/net/route\<close>, and the interface of the cheapest active default route.\<close>

definition route_of_line :: "ustring \<Rightarrow> (nat \<times> ustring) option" where
  "route_of_line line =
     (let fs = split_whitespace line in
      if length fs < 8 \<or> fs ! 1 \<noteq> ustr ''00000000'' \<or> is_virtual_interface (fs ! 0) then None
      else Option.bind (parse_radix 16 (2 ^ 32 - 1) (fs ! 3)) (\<lambda>flags.
        if flags mod 2 = 0 then None
        else map_option (\<lambda>metric. (metric, fs ! 0)) (parse_radix 10 (2 ^ 32 - 1) (fs ! 6))))"

definition default_physical_interface :: "ustring option \<Rightarrow> ustring option" where
  "default_physical_interface routes =
     Option.bind routes (\<lambda>routes.
       map_option snd (min_by_key fst (List.map_filter route_of_line (drop 1 (str_lines routes)))))"

subsection \<open>Reading the interfaces\<close>

definition is_usable_address :: "ip \<Rightarrow> bool" where
  "is_usable_address a \<longleftrightarrow>
     \<not> is_unspecified a \<and> \<not> is_multicast a
     \<and> (case a of
          V4 b \<Rightarrow> \<not> v4_loopback b \<and> unat b div 2 ^ 16 \<noteq> 43518
        | V6 b \<Rightarrow> b \<noteq> 1 \<and> unat b div 2 ^ 118 \<noteq> 1018)"

definition flags_state :: "nat \<Rightarrow> AddressState" where
  "flags_state flags =
     \<lparr>temporary = bit flags 0, deprecated = bit flags 5,
      unassignable = bit flags 3 \<or> (bit flags 6 \<and> \<not> bit flags 2)\<rparr>"

definition inet6_of_line :: "ustring \<Rightarrow> (ustring \<times> 128 word \<times> AddressState) option" where
  "inet6_of_line line =
     (case split_whitespace line of
        [address, _, _, _, flags, nm] \<Rightarrow>
          Option.bind (parse_radix 16 (2 ^ 128 - 1) address) (\<lambda>address.
          map_option (\<lambda>flags. (nm, of_nat address, flags_state flags)) (parse_radix 16 255 flags))
      | _ \<Rightarrow> None)"

definition parse_if_inet6 :: "ustring \<Rightarrow> (ustring \<times> 128 word \<times> AddressState) list" where
  "parse_if_inet6 content = List.map_filter inet6_of_line (str_lines content)"

definition state_of :: "(ustring \<times> 128 word \<times> AddressState) list \<Rightarrow> ustring \<Rightarrow> 128 word \<Rightarrow> AddressState" where
  "state_of states nm a =
     (case find (\<lambda>(n, b, _). n = nm \<and> b = a) states of Some (_, _, st) \<Rightarrow> st | None \<Rightarrow> address_state_default)"

text \<open>An entry of \<open>getifaddrs\<close>; an address is null or of a family, and index 0 is an interface that is gone.\<close>

datatype sockaddr = NullAddress | Inet "32 word" | Inet6 "128 word" | OtherFamily

record ifaddr =
  ifa_name :: bytes
  ifa_flags :: "32 word"
  ifa_addr :: sockaddr
  ifa_index :: "32 word"

definition interface_entry :: "(ustring \<times> 128 word \<times> AddressState) list \<Rightarrow> ifaddr \<Rightarrow> InterfaceAddress option" where
  "interface_entry states i =
     (let nm = from_utf8_lossy (ifa_name i);
          address = (case ifa_addr i of Inet a \<Rightarrow> Some (V4 a) | Inet6 a \<Rightarrow> Some (V6 a) | _ \<Rightarrow> None) in
      if ifa_addr i = NullAddress \<or> \<not> bit (ifa_flags i) 0 \<or> bit (ifa_flags i) 3 then None
      else case address of
        None \<Rightarrow> None
      | Some a \<Rightarrow>
          if \<not> is_usable_address a \<or> ifa_index i = 0 then None
          else Some \<lparr>ia_name = nm, ia_index = ifa_index i, ia_address = a,
                     ia_state = (case a of V6 b \<Rightarrow> state_of states nm b | V4 _ \<Rightarrow> address_state_default)\<rparr>)"

definition interface_addresses :: "ifaddr list option \<Rightarrow> ustring option \<Rightarrow> InterfaceAddress list res" where
  "interface_addresses entries inet6 =
     (case entries of
        None \<Rightarrow> Inl Io
      | Some es \<Rightarrow> Inr (List.map_filter (interface_entry (case inet6 of Some c \<Rightarrow> parse_if_inet6 c | None \<Rightarrow> [])) es))"

subsection \<open>Choosing the egress\<close>

definition detect_egress_from_addresses ::
  "InterfaceAddress list res \<Rightarrow> ip option \<Rightarrow> (InterfaceAddress list \<Rightarrow> ustring option \<times> 's) \<Rightarrow> 's \<Rightarrow> EgressSelection res \<times> 's" where
  "detect_egress_from_addresses addresses pinned default_interface s =
     (case addresses of
        Inl e \<Rightarrow> (case pinned of Some p \<Rightarrow> (Inr (pinned_without_interface p), s) | None \<Rightarrow> (Inl e, s))
      | Inr addresses \<Rightarrow>
          (case pinned of
             Some p \<Rightarrow>
               (case find (\<lambda>e. ia_address e = p) addresses of
                  None \<Rightarrow> (Inr egress_empty, s)
                | Some e \<Rightarrow> (Inr (selection_for_interface addresses (ia_name e) (Some p)), s))
           | None \<Rightarrow>
               (case default_interface addresses of (preferred, s) \<Rightarrow>
                  (Inr (case max_by_key (\<lambda>e. interface_score (ia_name e) preferred)
                               (filter (\<lambda>e. \<not> is_virtual_interface (ia_name e)) addresses) of
                          Some e \<Rightarrow> selection_for_interface addresses (ia_name e) None
                        | None \<Rightarrow> egress_empty), s))))"

text \<open>What the host shows: the interfaces, \<open>/proc/net/if_inet6\<close> and \<open>/proc/net/route\<close>.\<close>

record host =
  h_interfaces :: "ifaddr list option"
  h_inet6 :: "ustring option"
  h_routes :: "ustring option"

definition detect_egress :: "host \<Rightarrow> nat \<Rightarrow> ip option \<Rightarrow> DefaultRouteCache \<Rightarrow> EgressSelection res \<times> DefaultRouteCache" where
  "detect_egress h now pinned c =
     detect_egress_from_addresses (interface_addresses (h_interfaces h) (h_inet6 h)) pinned
       (\<lambda>addresses. route_interface now addresses (default_physical_interface (h_routes h)) c) c"

subsection \<open>The monitor\<close>

definition REFRESH_INTERVAL :: nat where "REFRESH_INTERVAL = 2 * 1000000000"

record MonitorState =
  ms_selection :: EgressSelection
  ms_generation :: u64
  ms_checked_at :: nat
  ms_default_route :: DefaultRouteCache

record NetworkSnapshot =
  ns_selection :: EgressSelection
  ns_pinned :: "ip option"
  ns_generation :: u64

definition monitor_new :: "host \<Rightarrow> nat \<Rightarrow> ip option \<Rightarrow> MonitorState" where
  "monitor_new h now pinned =
     (case detect_egress h now pinned default_route_default of (detected, c) \<Rightarrow>
        \<lparr>ms_selection = (case detected of Inr s \<Rightarrow> s | Inl _ \<Rightarrow> egress_empty), ms_generation = 1, ms_checked_at = now,
         ms_default_route = c\<rparr>)"

definition monitor_update :: "EgressSelection \<Rightarrow> MonitorState \<Rightarrow> bool \<times> MonitorState" where
  "monitor_update selection m =
     (if ms_selection m \<noteq> selection
      then (True, m\<lparr>ms_selection := selection, ms_generation := max (ms_generation m + 1) 1\<rparr>)
      else (False, m))"

text \<open>
  A snapshot; the host is \<open>None\<close> when the task that reads it dies, which loses the cached route.
\<close>

definition network_snapshot :: "ip option \<Rightarrow> host option \<Rightarrow> nat \<Rightarrow> MonitorState \<Rightarrow> NetworkSnapshot \<times> MonitorState" where
  "network_snapshot pinned h now m =
     (let m = (if now - ms_checked_at m \<ge> REFRESH_INTERVAL then
                 (case h of
                    None \<Rightarrow> m\<lparr>ms_default_route := default_route_default, ms_checked_at := now\<rparr>
                  | Some h \<Rightarrow>
                      (case detect_egress h now pinned (ms_default_route m) of (detected, c) \<Rightarrow>
                         let m = m\<lparr>ms_default_route := c, ms_checked_at := now\<rparr> in
                         case detected of Inr s \<Rightarrow> snd (monitor_update s m) | Inl _ \<Rightarrow> m))
               else m) in
      (\<lparr>ns_selection = ms_selection m, ns_pinned = pinned, ns_generation = ms_generation m\<rparr>, m))"

subsection \<open>Using a snapshot\<close>

definition preferred_source :: "NetworkSnapshot \<Rightarrow> ip option res" where
  "preferred_source n =
     (let source = (case eg_ipv4 (ns_selection n) of Some a \<Rightarrow> Some (V4 a) | None \<Rightarrow> map_option V6 (eg_ipv6 (ns_selection n))) in
      if source = None \<and> ns_pinned n \<noteq> None then Inl Io else Inr source)"

definition source_for :: "NetworkSnapshot \<Rightarrow> ip \<Rightarrow> ip option" where
  "source_for n destination =
     (if is_ipv4 destination then map_option V4 (eg_ipv4 (ns_selection n)) else map_option V6 (eg_ipv6 (ns_selection n)))"

definition supports :: "NetworkSnapshot \<Rightarrow> ip \<Rightarrow> bool" where
  "supports n destination \<longleftrightarrow>
     (if ns_pinned n \<noteq> None then source_for n destination \<noteq> None
      else \<not> has_address (ns_selection n) \<or> source_for n destination \<noteq> None)"

text \<open>
  Binding: the address a socket is bound to, if any, before it is connected. The system may refuse
  (\<open>bind_ok\<close>). On Linux the interface itself is not bound.
\<close>

definition bind_tcp :: "NetworkSnapshot \<Rightarrow> (ip \<Rightarrow> bool) \<Rightarrow> ip \<Rightarrow> ip option res" where
  "bind_tcp n bind_ok destination =
     (case source_for n destination of
        Some source \<Rightarrow> if bind_ok source then Inr (Some source) else Inl Io
      | None \<Rightarrow> if ns_pinned n \<noteq> None then Inl Io else Inr None)"

definition bind_udp_socket :: "NetworkSnapshot \<Rightarrow> (ip \<Rightarrow> bool) \<Rightarrow> ip \<Rightarrow> ip res" where
  "bind_udp_socket n bind_ok destination =
     (let bind_ip = (case source_for n destination of
            Some source \<Rightarrow> source | None \<Rightarrow> if is_ipv4 destination then V4 0 else V6 0) in
      if ns_pinned n \<noteq> None \<and> is_unspecified bind_ip then Inl Io
      else if bind_ok bind_ip then Inr bind_ip else Inl Io)"

subsection \<open>What an interface offers\<close>

text \<open>
  The entries of an interface that may be used, in order, by family. The loop over the addresses takes the
  first IPv4 one and the first IPv6 one of the lowest rank.
\<close>

definition v4_candidates :: "ip option \<Rightarrow> InterfaceAddress list \<Rightarrow> 32 word list" where
  "v4_candidates pinned es =
     List.map_filter (\<lambda>e. case ia_address e of V4 a \<Rightarrow> if pinned \<in> {None, Some (V4 a)} then Some a else None | V6 _ \<Rightarrow> None) es"

definition v6_candidates :: "ip option \<Rightarrow> InterfaceAddress list \<Rightarrow> (nat \<times> 128 word) list" where
  "v6_candidates pinned es =
     List.map_filter (\<lambda>e. case ia_address e of V4 _ \<Rightarrow> None
       | V6 a \<Rightarrow> if pinned = Some (V6 a) \<or> (pinned = None \<and> \<not> unassignable (ia_state e)) then Some (rank a (ia_state e), a) else None) es"

lemma candidates_Cons:
  "v4_candidates pinned (e # es) = v4_candidates pinned [e] @ v4_candidates pinned es"
  "v6_candidates pinned (e # es) = v6_candidates pinned [e] @ v6_candidates pinned es"
  by (auto simp: v4_candidates_def v6_candidates_def map_filter_simps split: ip.split)

lemma min_by_key_append:
  "min_by_key k (xs @ ys) = min_by_key k ((case min_by_key k xs of None \<Rightarrow> [] | Some b \<Rightarrow> [b]) @ ys)"
  by (induction xs) (simp_all split: option.split)

lemma min_by_key_Some_iff [simp]: "min_by_key k xs = None \<longleftrightarrow> xs = []"
  by (cases xs) (simp_all split: option.split)

lemma max_by_key_Some_iff [simp]: "max_by_key k xs = None \<longleftrightarrow> xs = []"
  by (cases xs) (simp_all split: option.split)

lemma min_by_key_least: "min_by_key k xs = Some x \<Longrightarrow> x \<in> set xs \<and> (\<forall>y \<in> set xs. k x \<le> k y)"
  by (induction xs arbitrary: x) (force split: option.splits if_splits)+

lemma max_by_key_greatest: "max_by_key k xs = Some x \<Longrightarrow> x \<in> set xs \<and> (\<forall>y \<in> set xs. k y \<le> k x)"
  by (induction xs arbitrary: x) (force split: option.splits if_splits)+

lemma selection_step_eq:
  "selection_step pinned (s, best) e =
     (s\<lparr>interface_index := Some (ia_index e),
        eg_ipv4 := (case eg_ipv4 s of Some a \<Rightarrow> Some a
                    | None \<Rightarrow> (case v4_candidates pinned [e] of [] \<Rightarrow> None | a # _ \<Rightarrow> Some a))\<rparr>,
      min_by_key fst ((case best of None \<Rightarrow> [] | Some b \<Rightarrow> [b]) @ v6_candidates pinned [e]))"
  by (cases pinned; cases best; cases "ia_address e")
    (auto simp: selection_step_def v4_candidates_def v6_candidates_def map_filter_simps Let_def split: option.split)

lemma selection_fold:
  "foldl (selection_step pinned) (s, best) es =
     (s\<lparr>interface_index := (if es = [] then interface_index s else Some (ia_index (last es))),
        eg_ipv4 := (case eg_ipv4 s of Some a \<Rightarrow> Some a
                    | None \<Rightarrow> (case v4_candidates pinned es of [] \<Rightarrow> None | a # _ \<Rightarrow> Some a))\<rparr>,
      min_by_key fst ((case best of None \<Rightarrow> [] | Some b \<Rightarrow> [b]) @ v6_candidates pinned es))"
proof (induction es arbitrary: s best)
  case Nil
  then show ?case by (simp add: v4_candidates_def v6_candidates_def map_filter_simps split: option.split)
next
  case (Cons e es)
  have "foldl (selection_step pinned) (s, best) (e # es) = foldl (selection_step pinned) (selection_step pinned (s, best) e) es"
    by simp
  also have "\<dots> = (s\<lparr>interface_index := (if e # es = [] then interface_index s else Some (ia_index (last (e # es)))),
        eg_ipv4 := (case eg_ipv4 s of Some a \<Rightarrow> Some a
                    | None \<Rightarrow> (case v4_candidates pinned (e # es) of [] \<Rightarrow> None | a # _ \<Rightarrow> Some a))\<rparr>,
      min_by_key fst ((case min_by_key fst ((case best of None \<Rightarrow> [] | Some b \<Rightarrow> [b]) @ v6_candidates pinned [e]) of
                         None \<Rightarrow> [] | Some b \<Rightarrow> [b]) @ v6_candidates pinned es))"
    unfolding selection_step_eq Cons.IH candidates_Cons(1) [of pinned e es]
    by (auto split: option.split list.split)
  finally show ?case
    by (simp only: min_by_key_append [of fst _ "v6_candidates pinned es", symmetric] candidates_Cons(2) [of pinned e es] append_assoc)
qed

text \<open>The reference definition of a selection.\<close>

lemma selection_for_interface_eq:
  "selection_for_interface addresses nm pinned =
     (let es = filter (\<lambda>e. ia_name e = nm) addresses in
      \<lparr>interface_name = Some nm, interface_index = (if es = [] then None else Some (ia_index (last es))),
       eg_ipv4 = (case v4_candidates pinned es of [] \<Rightarrow> None | a # _ \<Rightarrow> Some a),
       eg_ipv6 = map_option snd (min_by_key fst (v6_candidates pinned es))\<rparr>)"
  by (simp add: selection_for_interface_def selection_fold egress_empty_def Let_def)

subsection \<open>The states of a monitor\<close>

inductive monitor_run :: "ip option \<Rightarrow> MonitorState \<Rightarrow> bool" for pinned where
  start: "monitor_run pinned (monitor_new h now pinned)"
| snapshot: "monitor_run pinned m \<Longrightarrow> network_snapshot pinned h now m = (n, m') \<Longrightarrow> monitor_run pinned m'"

definition pinned_only :: "ip \<Rightarrow> EgressSelection \<Rightarrow> bool" where
  "pinned_only p s \<longleftrightarrow> (\<forall>a. eg_ipv4 s = Some a \<longrightarrow> V4 a = p) \<and> (\<forall>a. eg_ipv6 s = Some a \<longrightarrow> V6 a = p)"

lemma v4_candidates_pinned: "a \<in> set (v4_candidates (Some p) es) \<Longrightarrow> V4 a = p"
  by (auto simp: v4_candidates_def List.map_filter_def split: ip.splits if_splits)

lemma v6_candidates_pinned: "(r, a) \<in> set (v6_candidates (Some p) es) \<Longrightarrow> V6 a = p"
  by (auto simp: v6_candidates_def List.map_filter_def split: ip.splits if_splits)

lemma pinned_only_empty [simp]: "pinned_only p egress_empty"
  by (simp add: pinned_only_def egress_empty_def)

lemma pinned_only_without_interface [simp]: "pinned_only p (pinned_without_interface p)"
  by (simp add: pinned_only_def pinned_without_interface_def egress_empty_def split: ip.split)

lemma pinned_only_interface [simp]: "pinned_only p (selection_for_interface addresses nm (Some p))"
proof -
  let ?es = "filter (\<lambda>e. ia_name e = nm) addresses"
  have "V6 a = p" if "min_by_key fst (v6_candidates (Some p) ?es) = Some (r, a)" for r a
    using min_by_key_least [OF that] v6_candidates_pinned by blast
  moreover have "V4 a = p" if "v4_candidates (Some p) ?es = a # as" for a as
    using v4_candidates_pinned [of a p ?es] that by simp
  ultimately show ?thesis
    by (auto simp: pinned_only_def selection_for_interface_eq Let_def split: list.splits)
qed

lemma detect_egress_pinned: "detect_egress h now (Some p) c = (Inr s, c') \<Longrightarrow> pinned_only p s"
  by (auto simp: detect_egress_def detect_egress_from_addresses_def split: sum.splits option.splits)

lemma network_snapshot_fields:
  assumes "network_snapshot pinned h now m = (n, m')"
  shows "ns_selection n = ms_selection m'" "ns_generation n = ms_generation m'" "ns_pinned n = pinned"
  using assms by (auto simp: network_snapshot_def Let_def)

text \<open>A snapshot leaves the monitor alone but for the clock and the cached route, or adopts a selection that it has just detected.\<close>

lemma network_snapshot_cases:
  assumes "network_snapshot pinned h now m = (n, m')"
  obtains (unchanged) "ms_selection m' = ms_selection m" "ms_generation m' = ms_generation m"
  | (updated) hs c s where "detect_egress hs now pinned (ms_default_route m) = (Inr s, c)"
      "ms_selection m' = s" "s \<noteq> ms_selection m" "ms_generation m' = max (ms_generation m + 1) 1"
proof (cases "\<exists>hs c s. h = Some hs \<and> now - ms_checked_at m \<ge> REFRESH_INTERVAL
    \<and> detect_egress hs now pinned (ms_default_route m) = (Inr s, c) \<and> s \<noteq> ms_selection m")
  case True
  then obtain hs c s where "h = Some hs" "now - ms_checked_at m \<ge> REFRESH_INTERVAL"
    "detect_egress hs now pinned (ms_default_route m) = (Inr s, c)" "s \<noteq> ms_selection m" by blast
  then show ?thesis using assms by (intro updated [of hs s c]) (auto simp: network_snapshot_def monitor_update_def)
next
  case False
  then show ?thesis using assms unchanged
    by (auto simp: network_snapshot_def monitor_update_def Let_def split: option.splits prod.splits sum.splits if_splits)
qed

lemma monitor_run_pinned:
  assumes "monitor_run (Some p) m"
  shows "pinned_only p (ms_selection m)"
  using assms
proof (induction rule: monitor_run.induct)
  case (start h now)
  obtain d c where d: "detect_egress h now (Some p) default_route_default = (d, c)" by fastforce
  show ?case using detect_egress_pinned [of h now p default_route_default _ c] d
    by (auto simp: monitor_new_def split: sum.split)
next
  case (snapshot m h now n m')
  from snapshot(2) show ?case
    by (cases rule: network_snapshot_cases) (use snapshot.IH detect_egress_pinned in auto)
qed

lemma monitor_run_generation: "monitor_run pinned m \<Longrightarrow> ms_generation m \<noteq> 0"
proof (induction rule: monitor_run.induct)
  case (start h now)
  show ?case by (simp add: monitor_new_def split: prod.split)
next
  case (snapshot m h now n m')
  from snapshot(2) show ?case
    by (cases rule: network_snapshot_cases) (use snapshot.IH in \<open>auto simp: max_def word_le_nat_alt\<close>)
qed

lemma next_generation_differs: "(g::u64) \<noteq> max (g + 1) 1"
proof (cases "g + 1 = 0")
  case True
  then have "g = - 1" by (simp add: eq_neg_iff_add_eq_0)
  then show ?thesis by simp
next
  case False
  then have "1 \<le> g + 1" by (simp add: word_le_nat_alt Suc_le_eq unat_gt_0)
  then show ?thesis by (simp add: max_absorb1)
qed


subsection \<open>Properties\<close>

text \<open>
  C26: Traffic never leaves from an address other than the configured one. In every snapshot of a monitor with a
  pinned address \<open>p\<close>, whatever interfaces the host shows, a TCP or UDP socket is bound to \<open>p\<close> or
  not made at all, and the preferred source is \<open>p\<close> or an error; when the snapshot supports the destination and
  the system lets \<open>p\<close> be bound, the TCP socket is bound to it.
\<close>

theorem pinned_address_is_never_left:
  assumes "monitor_run (Some p) m" "network_snapshot (Some p) h now m = (n, m')"
  shows "bind_tcp n bind_ok destination \<in> {Inl Io, Inr (Some p)}
    \<and> bind_udp_socket n bind_ok destination \<in> {Inl Io, Inr p}
    \<and> preferred_source n \<in> {Inl Io, Inr (Some p)}
    \<and> (supports n destination \<and> bind_ok p \<longrightarrow> bind_tcp n bind_ok destination = Inr (Some p))"
proof (intro conjI)
  note n = network_snapshot_fields [OF assms(2)]
  have "pinned_only p (ns_selection n)"
    using monitor_run_pinned [OF monitor_run.snapshot [OF assms]] n by simp
  then have source: "source_for n d = Some a \<Longrightarrow> a = p" for d a
    by (auto simp: source_for_def pinned_only_def split: if_splits)
  show "bind_tcp n bind_ok destination \<in> {Inl Io, Inr (Some p)}"
    using source n by (auto simp: bind_tcp_def split: option.split)
  show "bind_udp_socket n bind_ok destination \<in> {Inl Io, Inr p}"
    using source n by (auto simp: bind_udp_socket_def Let_def split: option.splits if_splits)
  show "preferred_source n \<in> {Inl Io, Inr (Some p)}"
    using \<open>pinned_only p (ns_selection n)\<close> n by (auto simp: preferred_source_def pinned_only_def split: option.splits)
  show "supports n destination \<and> bind_ok p \<longrightarrow> bind_tcp n bind_ok destination = Inr (Some p)"
    using source n by (auto simp: bind_tcp_def supports_def split: option.split)
qed

text \<open>
  The generation tells snapshots with different selections apart. It is never zero, and from one snapshot of a
  monitor to the next it stays the same exactly when the selection does, also where the counter wraps.
\<close>

lemma generation_follows_selection:
  assumes "monitor_run pinned m" "network_snapshot pinned h now m = (n, m')" "network_snapshot pinned h2 now2 m' = (n2, m2)"
  shows "ns_generation n \<noteq> 0 \<and> (ns_generation n2 = ns_generation n \<longleftrightarrow> ns_selection n2 = ns_selection n)"
proof
  note f = network_snapshot_fields [OF assms(2)] network_snapshot_fields [OF assms(3)]
  show "ns_generation n \<noteq> 0" using monitor_run_generation [OF monitor_run.snapshot [OF assms(1,2)]] f by simp
  from assms(3) show "ns_generation n2 = ns_generation n \<longleftrightarrow> ns_selection n2 = ns_selection n"
  proof (cases rule: network_snapshot_cases)
    case unchanged
    then show ?thesis by (simp add: f)
  next
    case updated
    then show ?thesis using next_generation_differs [of "ms_generation m'"] by (metis f(1,2,4,5))
  qed
qed

text \<open>
  Without a pinned address the egress is the best the host offers. The chosen interface is physical and has the
  highest score of the physical ones, so that the interface of the default route wins when it has an address; its IPv4
  address is the first one, and its IPv6 address can be bound and no bindable one has a better rank (global before unique
  local, then preferred before deprecated, then stable before temporary). No interface is chosen only if every address is on a virtual one.
\<close>

lemma automatic_egress_is_best:
  assumes "detect_egress_from_addresses (Inr addresses) None default_interface c = (r, c')"
  shows "\<exists>s. r = Inr s \<and>
    (case interface_name s of
       None \<Rightarrow> s = egress_empty \<and> list_all (is_virtual_interface \<circ> ia_name) addresses
     | Some nm \<Rightarrow>
         let preferred = fst (default_interface addresses); own = filter (\<lambda>e. ia_name e = nm) addresses in
         \<not> is_virtual_interface nm \<and> own \<noteq> []
         \<and> list_all (\<lambda>e. is_virtual_interface (ia_name e)
              \<or> interface_score (ia_name e) preferred \<le> interface_score nm preferred) addresses
         \<and> eg_ipv4 s = (case v4_candidates None own of [] \<Rightarrow> None | a # _ \<Rightarrow> Some a)
         \<and> (case eg_ipv6 s of
              None \<Rightarrow> v6_candidates None own = []
            | Some a \<Rightarrow> \<exists>rk. (rk, a) \<in> set (v6_candidates None own) \<and> list_all (\<lambda>c. rk \<le> fst c) (v6_candidates None own)))"
proof -
  obtain preferred c2 where pref: "default_interface addresses = (preferred, c2)" by fastforce
  let ?phys = "filter (\<lambda>e. \<not> is_virtual_interface (ia_name e)) addresses"
  let ?best = "max_by_key (\<lambda>e. interface_score (ia_name e) preferred) ?phys"
  have r: "r = Inr (case ?best of Some e \<Rightarrow> selection_for_interface addresses (ia_name e) None | None \<Rightarrow> egress_empty)"
    using assms by (simp add: detect_egress_from_addresses_def pref)
  show ?thesis
  proof (cases ?best)
    case None
    then have "list_all (is_virtual_interface \<circ> ia_name) addresses" by (simp add: filter_empty_conv list_all_iff)
    then show ?thesis using None r by (simp add: egress_empty_def)
  next
    case (Some e)
    let ?own = "filter (\<lambda>x. ia_name x = ia_name e) addresses"
    note best = max_by_key_greatest [OF Some]
    have "case map_option snd (min_by_key fst (v6_candidates None ?own)) of None \<Rightarrow> v6_candidates None ?own = []
        | Some a \<Rightarrow> \<exists>rk. (rk, a) \<in> set (v6_candidates None ?own) \<and> list_all (\<lambda>c. rk \<le> fst c) (v6_candidates None ?own)"
      using min_by_key_least [of fst "v6_candidates None ?own"]
      by (auto simp: list_all_iff split: option.split)
    moreover have "\<not> is_virtual_interface (ia_name e)" "?own \<noteq> []" using best by (auto simp: filter_empty_conv)
    moreover have "list_all (\<lambda>x. is_virtual_interface (ia_name x)
          \<or> interface_score (ia_name x) preferred \<le> interface_score (ia_name e) preferred) addresses"
      using best by (auto simp: list_all_iff)
    ultimately show ?thesis using Some r pref by (simp add: selection_for_interface_eq Let_def)
  qed
qed


subsection \<open>A host\<close>

text \<open>A host with an Ethernet card that has the address 192.0.2.5 and a tunnel.\<close>

definition sample_ip :: ip where "sample_ip = V4 3221225989"

definition sample_host :: host where
  "sample_host =
     \<lparr>h_interfaces = Some
        [\<lparr>ifa_name = utf8 (ustr ''tun0''), ifa_flags = 1, ifa_addr = Inet 167772161, ifa_index = 7\<rparr>,
         \<lparr>ifa_name = utf8 (ustr ''eth0''), ifa_flags = 1, ifa_addr = Inet 3221225989, ifa_index = 2\<rparr>],
      h_inet6 = None, h_routes = None\<rparr>"

lemma sample_addresses:
  "interface_addresses (h_interfaces sample_host) (h_inet6 sample_host) = Inr
     [\<lparr>ia_name = ustr ''tun0'', ia_index = 7, ia_address = V4 167772161, ia_state = address_state_default\<rparr>,
      \<lparr>ia_name = ustr ''eth0'', ia_index = 2, ia_address = sample_ip, ia_state = address_state_default\<rparr>]"
proof -
  have "from_utf8_lossy (utf8 (ustr s)) = ustr s" if "s \<in> {''tun0'', ''eth0''}" for s
    using that by (intro from_utf8_lossy_utf8) (auto simp: scalar_def ustr_def)
  then show ?thesis
    by (simp add: interface_addresses_def sample_host_def List.map_filter_def interface_entry_def Let_def
        is_usable_address_def v4_loopback_def sample_ip_def bit_0)
qed

lemma sample_detected:
  "detect_egress sample_host now (Some sample_ip) c =
     (Inr \<lparr>interface_name = Some (ustr ''eth0''), interface_index = Some 2, eg_ipv4 = Some 3221225989, eg_ipv6 = None\<rparr>, c)"
proof -
  have "selection_for_interface
     [\<lparr>ia_name = ustr ''tun0'', ia_index = 7, ia_address = V4 167772161, ia_state = address_state_default\<rparr>,
      \<lparr>ia_name = ustr ''eth0'', ia_index = 2, ia_address = sample_ip, ia_state = address_state_default\<rparr>] (ustr ''eth0'') (Some sample_ip)
   = \<lparr>interface_name = Some (ustr ''eth0''), interface_index = Some 2, eg_ipv4 = Some 3221225989, eg_ipv6 = None\<rparr>"
    by code_simp
  then show ?thesis by (simp add: detect_egress_def detect_egress_from_addresses_def sample_addresses) (simp add: sample_ip_def)
qed


definition sample_monitor :: MonitorState where
  "sample_monitor = monitor_new sample_host 2 (Some sample_ip)"

lemma sample_monitor_selection:
  "ms_selection sample_monitor
   = \<lparr>interface_name = Some (ustr ''eth0''), interface_index = Some 2, eg_ipv4 = Some 3221225989, eg_ipv6 = None\<rparr>"
  "ms_checked_at sample_monitor = 2" "ms_generation sample_monitor = 1"
  by (simp_all add: sample_monitor_def monitor_new_def sample_detected)

theorem pinned_address_is_never_left_witness:
  "\<exists>n m'. network_snapshot (Some sample_ip) (Some sample_host) 5000000000 sample_monitor = (n, m')
     \<and> supports n (V4 1) \<and> bind_tcp n (\<lambda>_. True) (V4 1) = Inr (Some sample_ip)
     \<and> bind_tcp n (\<lambda>_. True) (V6 1) = Inl Io"
proof -
  have run: "monitor_run (Some sample_ip) sample_monitor" unfolding sample_monitor_def by (rule monitor_run.start)
  obtain n m' where n: "network_snapshot (Some sample_ip) (Some sample_host) 5000000000 sample_monitor = (n, m')" by fastforce
  then have sel: "ns_selection n = ms_selection sample_monitor" "ns_pinned n = Some sample_ip"
    by (auto simp: network_snapshot_def sample_detected sample_monitor_selection monitor_update_def Let_def split: if_splits)
  then have "supports n (V4 1)" by (simp add: supports_def source_for_def sample_monitor_selection)
  moreover have "bind_tcp n (\<lambda>_. True) (V6 1) = Inl Io"
    using sel by (simp add: bind_tcp_def source_for_def sample_monitor_selection)
  ultimately show ?thesis using pinned_address_is_never_left [OF run n, of "\<lambda>_. True" "V4 1"] n by blast
qed

lemma generation_follows_selection_witness:
  "\<exists>n m' n2 m2. network_snapshot (Some sample_ip) (Some sample_host) 5000000000 sample_monitor = (n, m')
     \<and> network_snapshot (Some sample_ip) (Some (sample_host\<lparr>h_interfaces := Some []\<rparr>)) 9000000000 m' = (n2, m2)
     \<and> ns_selection n2 = egress_empty \<and> ns_generation n2 \<noteq> ns_generation n"
proof -
  have run: "monitor_run (Some sample_ip) sample_monitor" unfolding sample_monitor_def by (rule monitor_run.start)
  obtain n m' where n: "network_snapshot (Some sample_ip) (Some sample_host) 5000000000 sample_monitor = (n, m')" by fastforce
  then have sel: "ns_selection n = ms_selection sample_monitor" "ms_selection m' = ms_selection sample_monitor" "ms_checked_at m' = 5000000000"
    by (auto simp: network_snapshot_def sample_detected sample_monitor_selection monitor_update_def Let_def REFRESH_INTERVAL_def split: if_splits)
  obtain n2 m2 where n2: "network_snapshot (Some sample_ip) (Some (sample_host\<lparr>h_interfaces := Some []\<rparr>)) 9000000000 m' = (n2, m2)" by fastforce
  have "detect_egress (sample_host\<lparr>h_interfaces := Some []\<rparr>) t (Some sample_ip) c = (Inr egress_empty, c)" for t c
    by (simp add: detect_egress_def detect_egress_from_addresses_def interface_addresses_def sample_host_def List.map_filter_def)
  then have e: "ns_selection n2 = egress_empty"
    using n2 sel by (auto simp: network_snapshot_def REFRESH_INTERVAL_def monitor_update_def Let_def sample_monitor_selection egress_empty_def)
  then have "ns_selection n2 \<noteq> ns_selection n" by (simp add: sel(1) sample_monitor_selection egress_empty_def)
  then show ?thesis using generation_follows_selection [OF run n n2] n n2 e by blast
qed

lemma automatic_egress_is_best_witness:
  "\<exists>s. fst (detect_egress_from_addresses (interface_addresses (h_interfaces sample_host) (h_inet6 sample_host)) None
          (\<lambda>_. (None, 0::nat)) 0) = Inr s
     \<and> interface_name s = Some (ustr ''eth0'') \<and> \<not> is_virtual_interface (ustr ''eth0'')"
proof -
  obtain r c' where r: "detect_egress_from_addresses (interface_addresses (h_interfaces sample_host) (h_inet6 sample_host)) None
          (\<lambda>_. (None, 0::nat)) 0 = (r, c')" by fastforce
  have virtual: "is_virtual_interface (ustr ''tun0'')" "\<not> is_virtual_interface (ustr ''eth0'')" by code_simp+
  obtain s where s: "r = Inr s" and i: "interface_name s = Some (ustr ''eth0'')"
    using r virtual by (auto simp: sample_addresses detect_egress_from_addresses_def selection_for_interface_eq Let_def)
  show ?thesis using automatic_egress_is_best [OF r [unfolded sample_addresses]] r s i by (auto simp: Let_def sample_addresses)
qed

end
