(* ===== verification/Diagnostics.thy ===== *)
theory Diagnostics
  imports Catalog Network "HOL-Library.List_Lexorder"
begin

text \<open>
  What the service reports about itself, \<open>src/diagnostics.rs\<close> and the status of \<open>src/gateway.rs\<close>: the
  counters of the dials, the record of each node with its percentiles, the log of events, and the diagnostic bundle
  with its allowlist. JSON objects keep their keys in order, as the ordered map of \<open>serde_json\<close> does.
\<close>

subsection \<open>JSON objects\<close>

fun obj_insert :: "ustring \<Rightarrow> 'v \<Rightarrow> (ustring \<times> 'v) list \<Rightarrow> (ustring \<times> 'v) list" where
  "obj_insert k v [] = [(k, v)]"
| "obj_insert k v ((l, w) # m) =
     (if k = l then (k, v) # m else if k < l then (k, v) # (l, w) # m else (l, w) # obj_insert k v m)"

definition json :: "(string \<times> Value) list \<Rightarrow> Value" where
  "json kvs = JObject (foldl (\<lambda>m (k, v). obj_insert (ustr k) v m) [] kvs)"

definition value_get :: "Value \<Rightarrow> string \<Rightarrow> Value option" where
  "value_get v k = (case v of JObject m \<Rightarrow> map_of m (ustr k) | _ \<Rightarrow> None)"

definition value_index :: "Value \<Rightarrow> string \<Rightarrow> Value" where
  "value_index v k = (case value_get v k of Some w \<Rightarrow> w | None \<Rightarrow> JNull)"

definition value_put :: "Value \<Rightarrow> string \<Rightarrow> Value \<Rightarrow> Value" where
  "value_put v k w = (case v of JObject m \<Rightarrow> JObject (obj_insert (ustr k) w m) | _ \<Rightarrow> v)"

definition as_array :: "Value \<Rightarrow> Value list" where
  "as_array v = (case v of JArray vs \<Rightarrow> vs | _ \<Rightarrow> [])"

definition jnat :: "nat \<Rightarrow> Value" where "jnat n = JNumber (int n)"

definition jopt :: "('a \<Rightarrow> Value) \<Rightarrow> 'a option \<Rightarrow> Value" where
  "jopt f x = (case x of Some a \<Rightarrow> f a | None \<Rightarrow> JNull)"

definition jstr :: "string \<Rightarrow> Value" where "jstr s = JString (ustr s)"

text \<open>The serialised names of the error kinds, in the order of their declaration.\<close>

definition error_kinds :: "(ErrorKind \<times> string) list" where
  "error_kinds = [(Timeout, ''timeout''), (ErrorKind.Network, ''network''), (Authentication, ''authentication''), (Forbidden, ''forbidden''),
     (ProxyAuthentication, ''proxy_authentication''), (RateLimited, ''rate_limited''), (Server, ''server''),
     (InvalidResponse, ''invalid_response''), (Signature, ''signature''), (TlsUnknownIssuer, ''tls_unknown_issuer''),
     (TlsCertificate, ''tls_certificate''), (EchRejected, ''ech_rejected''), (Other, ''other'')]"

definition kind_name :: "ErrorKind \<Rightarrow> string" where
  "kind_name k = the (map_of error_kinds k)"

subsection \<open>Dials\<close>

record DialSnapshot =
  ds_succeeded :: nat
  ds_failed :: nat
  ds_failures_by_kind :: "ErrorKind \<rightharpoonup> nat"
  ds_last_error :: "ErrorKind option"
  ds_last_success_at :: "nat option"
  ds_last_failure_at :: "nat option"

definition dial_default :: DialSnapshot where
  "dial_default = \<lparr>ds_succeeded = 0, ds_failed = 0, ds_failures_by_kind = Map.empty, ds_last_error = None,
     ds_last_success_at = None, ds_last_failure_at = None\<rparr>"

text \<open>The outcome of a dial arrives classified: \<open>None\<close> is a success.\<close>

definition dial_record :: "nat \<Rightarrow> ErrorKind option \<Rightarrow> DialSnapshot \<Rightarrow> DialSnapshot" where
  "dial_record now outcome s =
     (case outcome of
        None \<Rightarrow> s\<lparr>ds_succeeded := ds_succeeded s + 1, ds_last_success_at := Some now\<rparr>
      | Some k \<Rightarrow> s\<lparr>ds_failed := ds_failed s + 1,
          ds_failures_by_kind := (ds_failures_by_kind s)(k \<mapsto> (case ds_failures_by_kind s k of Some n \<Rightarrow> n | None \<Rightarrow> 0) + 1),
          ds_last_error := Some k, ds_last_failure_at := Some now\<rparr>)"

definition dial_json :: "DialSnapshot \<Rightarrow> Value" where
  "dial_json s = json
     [(''succeeded'', jnat (ds_succeeded s)), (''failed'', jnat (ds_failed s)),
      (''failures_by_kind'', json (List.map_filter (\<lambda>(k, n). map_option (\<lambda>c. (n, jnat c)) (ds_failures_by_kind s k)) error_kinds)),
      (''last_error'', jopt (\<lambda>k. jstr (kind_name k)) (ds_last_error s)),
      (''last_success_at'', jopt jnat (ds_last_success_at s)), (''last_failure_at'', jopt jnat (ds_last_failure_at s))]"

datatype DialStage = Dns | Tcp | Tls

fun stage_name :: "DialStage \<Rightarrow> string" where
  "stage_name Dns = ''dns''"
| "stage_name Tcp = ''tcp''"
| "stage_name Tls = ''tls''"

text \<open>Times in milliseconds.\<close>

record DialTimings =
  dns_ms :: "nat option"
  tcp_ms :: "nat option"
  tls_ms :: "nat option"
  total_ms :: nat
  last_stage :: "DialStage option"
  active :: "(DialStage \<times> nat) option"

definition timings_default :: DialTimings where
  "timings_default = \<lparr>dns_ms = None, tcp_ms = None, tls_ms = None, total_ms = 0, last_stage = None, active = None\<rparr>"

definition add_elapsed :: "nat \<Rightarrow> nat option \<Rightarrow> nat option" where
  "add_elapsed elapsed slot = Some (min ((case slot of Some v \<Rightarrow> v | None \<Rightarrow> 0) + min elapsed (2 ^ 64 - 1)) (2 ^ 64 - 1))"

definition timings_finish :: "nat \<Rightarrow> DialTimings \<Rightarrow> DialTimings" where
  "timings_finish now t =
     (case active t of
        None \<Rightarrow> t
      | Some (stage, started) \<Rightarrow>
          let t = t\<lparr>active := None\<rparr> in
          case stage of
            Dns \<Rightarrow> t\<lparr>dns_ms := add_elapsed (now - started) (dns_ms t)\<rparr>
          | Tcp \<Rightarrow> t\<lparr>tcp_ms := add_elapsed (now - started) (tcp_ms t)\<rparr>
          | Tls \<Rightarrow> t\<lparr>tls_ms := add_elapsed (now - started) (tls_ms t)\<rparr>)"

definition timings_start :: "nat \<Rightarrow> DialStage \<Rightarrow> DialTimings \<Rightarrow> DialTimings" where
  "timings_start now stage t = (timings_finish now t)\<lparr>last_stage := Some stage, active := Some (stage, now)\<rparr>"

definition timings_json :: "DialTimings \<Rightarrow> Value" where
  "timings_json t = json
     [(''dns_ms'', jopt jnat (dns_ms t)), (''tcp_ms'', jopt jnat (tcp_ms t)), (''tls_ms'', jopt jnat (tls_ms t)),
      (''total_ms'', jnat (total_ms t))]"

subsection \<open>Nodes\<close>

record DialEvent =
  de_at :: nat
  de_error :: "ErrorKind option"
  de_stage :: "DialStage option"

record NodeState =
  dials :: DialSnapshot
  consecutive_failures :: nat
  last_timings :: "DialTimings option"
  last_failure_stage :: "DialStage option"
  samples :: "nat list"
  node_events :: "DialEvent list"

definition node_default :: NodeState where
  "node_default = \<lparr>dials = dial_default, consecutive_failures = 0, last_timings = None, last_failure_stage = None,
     samples = [], node_events = []\<rparr>"

text \<open>\<open>pop_front\<close> when full, then \<open>push_back\<close>.\<close>

definition push_bounded :: "nat \<Rightarrow> 'a \<Rightarrow> 'a list \<Rightarrow> 'a list" where
  "push_bounded n x xs = (if length xs = n then tl xs else xs) @ [x]"

definition node_record :: "nat \<Rightarrow> ErrorKind option \<Rightarrow> DialTimings \<Rightarrow> NodeState \<Rightarrow> NodeState" where
  "node_record now outcome timings s =
     (let s = s\<lparr>node_events := push_bounded 16
            \<lparr>de_at = now, de_error = outcome, de_stage = (if outcome \<noteq> None then last_stage timings else None)\<rparr> (node_events s)\<rparr>;
          s = (case outcome of
            None \<Rightarrow> s\<lparr>dials := dial_record now None (dials s), consecutive_failures := 0,
                      samples := push_bounded 64 (total_ms timings) (samples s)\<rparr>
          | Some k \<Rightarrow> s\<lparr>dials := dial_record now (Some k) (dials s), consecutive_failures := consecutive_failures s + 1,
                      last_failure_stage := last_stage timings\<rparr>) in
      s\<lparr>last_timings := Some timings\<rparr>)"

definition div_ceil :: "nat \<Rightarrow> nat \<Rightarrow> nat" where
  "div_ceil a b = (a + b - 1) div b"

definition percentile :: "nat list \<Rightarrow> nat \<Rightarrow> nat option" where
  "percentile sorted_samples percent =
     (let i = div_ceil (length sorted_samples * percent) 100 - 1 in
      if i < length sorted_samples then Some (sorted_samples ! i) else None)"

definition health :: "NodeState \<Rightarrow> string" where
  "health s = (if consecutive_failures s > 0 then ''degraded'' else if ds_succeeded (dials s) > 0 then ''healthy'' else ''unobserved'')"

definition event_json :: "DialEvent \<Rightarrow> Value" where
  "event_json e = json [(''at'', jnat (de_at e)), (''error'', jopt (\<lambda>k. jstr (kind_name k)) (de_error e)),
     (''stage'', jopt (\<lambda>st. jstr (stage_name st)) (de_stage e))]"

definition node_snapshot :: "NodeState \<Rightarrow> Value" where
  "node_snapshot s =
     (let sorted_samples = sort (samples s) in json
      [(''health'', jstr (health s)), (''ech_dials'', dial_json (dials s)),
       (''consecutive_failures'', jnat (consecutive_failures s)), (''last_timings'', jopt timings_json (last_timings s)),
       (''last_failure_stage'', jopt (\<lambda>st. jstr (stage_name st)) (last_failure_stage s)),
       (''successful_latency_ms'', json [(''samples'', jnat (length sorted_samples)), (''p50'', jopt jnat (percentile sorted_samples 50)),
          (''p95'', jopt jnat (percentile sorted_samples 95))]),
       (''recent_events'', JArray (map event_json (node_events s)))])"

subsection \<open>The status of the service\<close>

text \<open>
  \<open>TransportContext::status\<close>: the egress, the trust anchors (their number and generation, whether the last load was
  complete and whether the store is settled) and the dials.
\<close>

definition network_json :: "NetworkSnapshot \<Rightarrow> Value" where
  "network_json n = json (map (\<lambda>(k, v). (k, JString v)) (selection_fields (ns_selection n) (ns_generation n) (ns_pinned n)))"

definition trust_json :: "nat \<Rightarrow> nat \<Rightarrow> bool \<Rightarrow> bool \<Rightarrow> Value" where
  "trust_json anchors generation complete settled = json
     [(''count'', jnat anchors), (''generation'', jnat generation), (''last_load_complete'', JBool complete),
      (''auto_reload_pending'', JBool (\<not> settled))]"

definition transport_status :: "NetworkSnapshot \<Rightarrow> Value \<Rightarrow> DialSnapshot \<Rightarrow> Value" where
  "transport_status n roots d = json [(''network'', network_json n), (''tls_roots'', roots), (''ech_dials'', dial_json d)]"

definition catalog_json :: "CatalogStatus \<Rightarrow> Value" where
  "catalog_json c = json
     [(''started_from_cache'', JBool (started_from_cache c)), (''last_attempt_at'', jopt jnat (last_attempt_at c)),
      (''last_success_at'', jopt jnat (last_success_at c)), (''last_error'', jopt (\<lambda>k. jstr (kind_name k)) (last_error c)),
      (''refresh_failures'', jnat (refresh_failures c)), (''cache_age_seconds'', jopt jnat (cache_age_seconds c))]"

text \<open>\<open>Router::node_statuses\<close>; the diagnostics of a node are those of its client.\<close>

definition node_statuses :: "(nat \<Rightarrow> NodeState) \<Rightarrow> Router \<Rightarrow> Value list" where
  "node_statuses diag r = map (\<lambda>(nm, n). json [(''name'', JString nm), (''transport'', node_snapshot (diag (r_client (n_route n))))])
     (sort_key fst (runtimes r))"

definition manager_status :: "string \<Rightarrow> nat \<Rightarrow> Value \<Rightarrow> (nat \<Rightarrow> NodeState) \<Rightarrow> GatewayManager \<Rightarrow> Value" where
  "manager_status ver now transport diag m =
     (let c = (catalog_status m)\<lparr>cache_age_seconds := map_option (\<lambda>t. now - t) (last_success_at (catalog_status m))\<rparr>;
          (ready, nodes, published, statuses, raw_skipped) =
            (case router m of
               Some r \<Rightarrow> (True, length (runtimes r), published_count r, node_statuses diag r,
                          json [(''filtered'', jnat (Raw_Provider.skipped (raw_filtered r))), (''all'', jnat (Raw_Provider.skipped (raw_all r)))])
             | None \<Rightarrow> (False, 0, 0, [], JNull)) in
      json [(''version'', jstr ver), (''ready'', JBool ready), (''total_nodes'', jnat nodes), (''published_nodes'', jnat published),
            (''catalog'', catalog_json c), (''transport'', if has_transport m then transport else JNull), (''nodes'', JArray statuses),
            (''raw_skipped_nodes'', raw_skipped)])"

definition events_json :: "nat \<Rightarrow> nat \<Rightarrow> ServiceEvent list \<Rightarrow> Value" where
  "events_json started now evs = json
     [(''started_at'', jnat started), (''uptime_seconds'', jnat (now - started)),
      (''recent_events'', JArray (map (\<lambda>e. json [(''at'', jnat (ev_at e)),
         (''kind'', jstr (case ev_kind e of CatalogRefreshEvent \<Rightarrow> ''catalog_refresh'' | ConfigReloadEvent \<Rightarrow> ''config_reload'')),
         (''error'', jopt (\<lambda>k. jstr (kind_name k)) (ev_error e))]) evs))]"

subsection \<open>The diagnostic bundle\<close>

definition select_fields :: "Value \<Rightarrow> string list \<Rightarrow> Value" where
  "select_fields v keys = json (List.map_filter (\<lambda>k. map_option (\<lambda>w. (k, w)) (value_get v k)) keys)"

definition DIAL_KEYS :: "string list" where
  "DIAL_KEYS = [''succeeded'', ''failed'', ''failures_by_kind'', ''last_error'', ''last_success_at'', ''last_failure_at'']"

definition bundle_node :: "nat \<Rightarrow> Value \<Rightarrow> Value" where
  "bundle_node index node =
     (let transport = value_index node ''transport'';
          data = select_fields transport [''health'', ''consecutive_failures'', ''last_failure_stage''];
          data = value_put data ''ech_dials'' (select_fields (value_index transport ''ech_dials'') DIAL_KEYS);
          data = value_put data ''last_timings'' (if value_index transport ''last_timings'' = JNull then JNull
            else select_fields (value_index transport ''last_timings'') [''dns_ms'', ''tcp_ms'', ''tls_ms'', ''total_ms'']);
          data = value_put data ''successful_latency_ms''
            (select_fields (value_index transport ''successful_latency_ms'') [''samples'', ''p50'', ''p95'']);
          data = value_put data ''recent_events''
            (JArray (map (\<lambda>e. select_fields e [''at'', ''error'', ''stage'']) (as_array (value_index transport ''recent_events'')))) in
      json [(''id'', JString (ustr ''node-'' @ show_nat (index + 1))), (''transport'', data)])"

definition bundle_status :: "Value \<Rightarrow> Value" where
  "bundle_status status =
     (let safe = select_fields status [''ready'', ''total_nodes'', ''published_nodes''];
          safe = value_put safe ''raw_skipped_nodes'' (select_fields (value_index status ''raw_skipped_nodes'') [''filtered'', ''all'']);
          safe = value_put safe ''catalog'' (select_fields (value_index status ''catalog'')
            [''started_from_cache'', ''last_attempt_at'', ''last_success_at'', ''last_error'', ''refresh_failures'', ''cache_age_seconds'']);
          transport = value_index status ''transport'';
          safe = value_put safe ''transport'' (json
            [(''network'', select_fields (value_index transport ''network'') [''generation'', ''mode'']),
             (''tls_roots'', select_fields (value_index transport ''tls_roots'') [''count'', ''generation'', ''last_load_complete'', ''auto_reload_pending'']),
             (''ech_dials'', select_fields (value_index transport ''ech_dials'') DIAL_KEYS)]) in
      value_put safe ''nodes'' (JArray (map (\<lambda>(i, node). bundle_node i node) (enumerate 0 (as_array (value_index status ''nodes''))))))"

text \<open>The configuration keeps durations in nanoseconds.\<close>

definition millis :: "nat \<Rightarrow> Value" where "millis ns = jnat (ns div 1000000)"

definition config_summary :: "ProxyConfig \<Rightarrow> bool \<Rightarrow> Value" where
  "config_summary config disable_filter =
     (let rt = pc_runtime config in json
      [(''remote_listener'', JBool (\<not> ip_is_loopback (sa_ip (pc_listen config)))),
       (''allow_remote_raw_provider'', JBool (allow_remote_raw_provider rt)),
       (''pinned_egress'', JBool (\<not> ip_is_loopback (pc_outbound_ip config))),
       (''fixed_udp_port_count'', jopt (\<lambda>r. jnat (port_count r)) (pc_udp_port_range config)),
       (''api_fallback_count'', jnat (length (api_fallback_urls rt))),
       (''filter'', jstr (if disable_filter then ''disabled'' else if is_custom (node_filter rt) then ''custom'' else ''default'')),
       (''request_timeout_ms'', millis (request_timeout rt)), (''tcp_idle_timeout_ms'', millis (tcp_idle_timeout rt)),
       (''udp_idle_timeout_ms'', millis (udp_idle_timeout rt)), (''node_refresh_interval_ms'', millis (pc_node_refresh_interval config)),
       (''max_client_connections'', jnat (max_client_connections rt)), (''dial_concurrency'', jnat (dial_concurrency rt)),
       (''per_node_dial_concurrency'', jnat (per_node_dial_concurrency rt)), (''reuse_max_idle'', jnat (reuse_max_idle rt)),
       (''reuse_max_uses'', jnat (reuse_max_uses rt)), (''reuse_idle_timeout_ms'', millis (reuse_idle_timeout rt)),
       (''perf_trace_sample_every'', jnat (perf_trace_sample_every rt))])"

text \<open>\<open>CatalogService::bundle\<close>: \<open>process\<close> describes the running program, \<open>transport\<close> is the status of the transport.\<close>

definition service_bundle :: "Value \<Rightarrow> string \<Rightarrow> nat \<Rightarrow> nat \<Rightarrow> Value \<Rightarrow> (nat \<Rightarrow> NodeState) \<Rightarrow> CatalogService \<Rightarrow> Value" where
  "service_bundle process ver started now transport diag s = json
     [(''schema_version'', jnat 1), (''collected_at'', jnat now), (''process'', process),
      (''active_config'', config_summary (cs_service s) (cs_disable_filter s)),
      (''status'', bundle_status (manager_status ver now transport diag (cs_manager s))),
      (''service'', events_json started now (cs_events s))]"


subsection \<open>Reading objects back\<close>

declare ustr_inj [simp]

lemma map_of_obj_insert [simp]: "map_of (obj_insert k v m) = (map_of m)(k \<mapsto> v)"
  by (induction k v m rule: obj_insert.induct) auto

lemma map_of_obj_fold:
  "map_of (foldl (\<lambda>m (k, v). obj_insert (ustr k) v m) m kvs) (ustr x) = (case map_of (rev kvs) x of Some v \<Rightarrow> Some v | None \<Rightarrow> map_of m (ustr x))"
  by (induction kvs arbitrary: m) (auto simp: map_add_def split: option.split)

lemma value_get_json: "value_get (json kvs) x = map_of (rev kvs) x"
  by (simp add: value_get_def json_def map_of_obj_fold split: option.split)

lemma value_index_json: "value_index (json kvs) x = (case map_of (rev kvs) x of Some w \<Rightarrow> w | None \<Rightarrow> JNull)"
  by (simp add: value_index_def value_get_json)

lemma json_not_null [simp]: "json kvs \<noteq> JNull"
  by (simp add: json_def)

lemmas reading = value_get_json value_index_json as_array_def


lemma select_fields_cong:
  assumes "\<And>k. k \<in> set keys \<Longrightarrow> value_get a k = value_get b k"
  shows "select_fields a keys = select_fields b keys"
proof -
  have "List.map_filter (\<lambda>k. map_option (\<lambda>w. (k, w)) (value_get a k)) keys
      = List.map_filter (\<lambda>k. map_option (\<lambda>w. (k, w)) (value_get b k)) keys"
    using assms by (induction keys) (simp_all add: map_filter_simps split: option.split)
  then show ?thesis by (simp add: select_fields_def)
qed

subsection \<open>The bundle shows what the allowlist names\<close>

definition bundle_nodes :: "Value list \<Rightarrow> Value list" where
  "bundle_nodes nodes = map (\<lambda>(i, node). bundle_node i node) (enumerate 0 nodes)"

definition unnamed :: "NodeState \<Rightarrow> Value" where
  "unnamed d = json [(''transport'', node_snapshot d)]"

definition node_order :: "(nat \<Rightarrow> NodeState) \<Rightarrow> Router \<Rightarrow> NodeState list" where
  "node_order diag r = map (\<lambda>(_, n). diag (r_client (n_route n))) (sort_key fst (runtimes r))"

lemma enumerate_map: "enumerate n (map f xs) = map (\<lambda>(i, x). (i, f x)) (enumerate n xs)"
  by (induction xs arbitrary: n) auto

lemma bundle_nodes_unnamed: "bundle_nodes (node_statuses diag r) = bundle_nodes (map unnamed (node_order diag r))"
proof -
  have "bundle_node i (json [(''name'', x), (''transport'', t)]) = bundle_node i (json [(''transport'', t)])" for i x t
    by (simp add: bundle_node_def value_index_json)
  then show ?thesis
    by (auto simp: bundle_nodes_def node_statuses_def node_order_def enumerate_map unnamed_def)
qed

lemma bundle_status_cong:
  assumes "\<And>k. k \<in> {''ready'', ''total_nodes'', ''published_nodes'', ''raw_skipped_nodes'', ''catalog''} \<Longrightarrow> value_get a k = value_get b k"
    and "select_fields (value_index (value_index a ''transport'') ''network'') [''generation'', ''mode'']
         = select_fields (value_index (value_index b ''transport'') ''network'') [''generation'', ''mode'']"
    and "value_index (value_index a ''transport'') ''tls_roots'' = value_index (value_index b ''transport'') ''tls_roots''"
    and "value_index (value_index a ''transport'') ''ech_dials'' = value_index (value_index b ''transport'') ''ech_dials''"
    and "bundle_nodes (as_array (value_index a ''nodes'')) = bundle_nodes (as_array (value_index b ''nodes''))"
  shows "bundle_status a = bundle_status b"
proof -
  have "select_fields a [''ready'', ''total_nodes'', ''published_nodes''] = select_fields b [''ready'', ''total_nodes'', ''published_nodes'']"
    by (rule select_fields_cong) (use assms(1) in auto)
  moreover have "value_index a ''raw_skipped_nodes'' = value_index b ''raw_skipped_nodes''" "value_index a ''catalog'' = value_index b ''catalog''"
    using assms(1) by (simp_all add: value_index_def)
  ultimately show ?thesis using assms(2-5) by (simp add: bundle_status_def Let_def bundle_nodes_def)
qed

text \<open>
  Two services that look alike from outside: the same outcomes of their work, in the order of the node names, and
  configurations that differ in the account, the credentials, the addresses of the API and of the listeners and in the filter
  at most, as long as the listeners stay local or remote, the filter default or custom.
\<close>

definition same_config :: "ProxyConfig \<Rightarrow> ProxyConfig \<Rightarrow> bool" where
  "same_config c d \<longleftrightarrow>
     ip_is_loopback (sa_ip (pc_listen c)) = ip_is_loopback (sa_ip (pc_listen d))
     \<and> ip_is_loopback (pc_outbound_ip c) = ip_is_loopback (pc_outbound_ip d)
     \<and> map_option port_count (pc_udp_port_range c) = map_option port_count (pc_udp_port_range d)
     \<and> pc_node_refresh_interval c = pc_node_refresh_interval d
     \<and> length (api_fallback_urls (pc_runtime c)) = length (api_fallback_urls (pc_runtime d))
     \<and> is_custom (node_filter (pc_runtime c)) = is_custom (node_filter (pc_runtime d))
     \<and> (pc_runtime c)\<lparr>access_token := [], app_secret := [], api_base_url := [], api_fallback_urls := [],
          node_filter := node_filter (pc_runtime d), listen_address := V4 0, serve_port := 0, map_base_port := 0,
          allow_remote_access := False, socks_username := [], socks_password := []\<rparr>
       = (pc_runtime d)\<lparr>access_token := [], app_secret := [], api_base_url := [], api_fallback_urls := [],
          listen_address := V4 0, serve_port := 0, map_base_port := 0,
          allow_remote_access := False, socks_username := [], socks_password := []\<rparr>"

definition same_router :: "(nat \<Rightarrow> NodeState) \<Rightarrow> Router option \<Rightarrow> (nat \<Rightarrow> NodeState) \<Rightarrow> Router option \<Rightarrow> bool" where
  "same_router diag r diag' r' \<longleftrightarrow>
     (case (r, r') of
        (None, None) \<Rightarrow> True
      | (Some q, Some q') \<Rightarrow> node_order diag q = node_order diag' q' \<and> published_count q = published_count q'
          \<and> Raw_Provider.skipped (raw_filtered q) = Raw_Provider.skipped (raw_filtered q')
          \<and> Raw_Provider.skipped (raw_all q) = Raw_Provider.skipped (raw_all q')
      | _ \<Rightarrow> False)"

lemma config_summary_cong:
  assumes "same_config c d"
  shows "config_summary c f = config_summary d f"
proof -
  have port: "jopt (\<lambda>r. jnat (port_count r)) x = jopt jnat (map_option port_count x)" for x :: "UdpPortRange option"
    by (simp add: jopt_def split: option.split)
  obtain rc rd where r: "pc_runtime c = rc" "pc_runtime d = rd" by blast
  have "allow_remote_raw_provider rc = allow_remote_raw_provider rd" "request_timeout rc = request_timeout rd"
    "tcp_idle_timeout rc = tcp_idle_timeout rd" "udp_idle_timeout rc = udp_idle_timeout rd"
    "max_client_connections rc = max_client_connections rd" "dial_concurrency rc = dial_concurrency rd"
    "per_node_dial_concurrency rc = per_node_dial_concurrency rd" "reuse_max_idle rc = reuse_max_idle rd"
    "reuse_max_uses rc = reuse_max_uses rd" "reuse_idle_timeout rc = reuse_idle_timeout rd"
    "perf_trace_sample_every rc = perf_trace_sample_every rd"
    using assms by (cases rc; cases rd; simp add: same_config_def r)+
  then show ?thesis using assms unfolding config_summary_def port by (simp add: same_config_def r)
qed



subsection \<open>What a node record says\<close>

definition recent :: "nat \<Rightarrow> 'a list \<Rightarrow> 'a list" where
  "recent n xs = drop (length xs - n) xs"

lemma push_bounded_recent:
  assumes "0 < n"
  shows "push_bounded n x (recent n xs) = recent n (xs @ [x])"
proof (cases "n \<le> length xs")
  case True
  then have "length xs + 1 - n = Suc (length xs - n)" by simp
  then show ?thesis using True assms by (simp add: push_bounded_def recent_def tl_drop drop_Suc)
next
  case False
  then show ?thesis by (simp add: push_bounded_def recent_def)
qed


text \<open>The nearest-rank percentile: a sample such that at least \<open>p\<close> per cent are at most it and less than \<open>p\<close> per cent are below it.\<close>

definition nearest_rank :: "nat \<Rightarrow> nat list \<Rightarrow> nat \<Rightarrow> bool" where
  "nearest_rank p xs v \<longleftrightarrow> v \<in> set xs \<and> p * length xs \<le> 100 * length (filter (\<lambda>x. x \<le> v) xs)
     \<and> 100 * length (filter (\<lambda>x. x < v) xs) < p * length xs"

lemma nearest_rank_index:
  assumes "sorted xs" "i < length xs" "p * length xs \<le> 100 * Suc i" "100 * i < p * length xs"
  shows "nearest_rank p xs (xs ! i)"
proof -
  have "filter (\<lambda>x. x \<le> xs ! i) (take (Suc i) xs) = take (Suc i) xs"
    using assms(1,2) by (intro filter_True) (auto simp: in_set_conv_nth sorted_nth_mono)
  moreover have "length (filter (\<lambda>x. x \<le> xs ! i) (take (Suc i) xs @ drop (Suc i) xs)) \<ge> length (filter (\<lambda>x. x \<le> xs ! i) (take (Suc i) xs))"
    by (simp only: filter_append length_append)
  ultimately have low: "Suc i \<le> length (filter (\<lambda>x. x \<le> xs ! i) xs)" using assms(2) by simp
  have "filter (\<lambda>x. x < xs ! i) (drop i xs) = []"
    using assms(1,2) by (auto simp: filter_empty_conv in_set_conv_nth not_less intro!: sorted_nth_mono)
  then have "length (filter (\<lambda>x. x < xs ! i) (take i xs @ drop i xs)) \<le> i"
    by (simp only: filter_append append_Nil2) (rule order_trans [OF length_filter_le], simp)
  then show ?thesis using low assms by (simp add: nearest_rank_def)
qed

lemma percentile_nearest_rank:
  assumes "0 < p" "p \<le> 100"
  shows "case percentile (sort xs) p of None \<Rightarrow> xs = [] | Some v \<Rightarrow> nearest_rank p xs v"
proof (cases "xs = []")
  case True
  then show ?thesis by (simp add: percentile_def)
next
  case False
  let ?n = "length xs"
  let ?i = "(?n * p + 99) div 100 - 1"
  have bounds: "(m + 99) div 100 - 1 < n \<and> m \<le> 100 * Suc ((m + 99) div 100 - 1) \<and> 100 * ((m + 99) div 100 - 1) < m"
    if "0 < m" "m \<le> 100 * n" for m n :: nat
  proof -
    have e: "100 * ((m + 99) div 100) + (m + 99) mod 100 = m + 99" "(m + 99) mod 100 < 100" by simp_all
    show ?thesis
    proof (cases "(m + 99) div 100")
      case (Suc k)
      then show ?thesis using e that by simp
    qed (use e that in simp)
  qed
  have "?n * p \<le> 100 * ?n" using assms(2) by simp
  then have i: "?i < ?n" "p * ?n \<le> 100 * Suc ?i" "100 * ?i < p * ?n"
    using bounds [of "?n * p" ?n] False assms(1) by (simp_all add: mult.commute)
  have "nearest_rank p (sort xs) (sort xs ! ?i)" using i by (intro nearest_rank_index) simp_all
  moreover have "length (filter q (sort xs)) = length (filter q xs)" for q
    by (simp add: filter_sort)
  ultimately have "nearest_rank p xs (sort xs ! ?i)" by (simp add: nearest_rank_def)
  then show ?thesis using i(1) by (simp add: percentile_def div_ceil_def Let_def add.commute)
qed

type_synonym dial = "nat \<times> ErrorKind option \<times> DialTimings"

abbreviation dial_failed :: "dial \<Rightarrow> bool" where "dial_failed d \<equiv> fst (snd d) \<noteq> None"

definition node_run :: "dial list \<Rightarrow> NodeState" where
  "node_run h = foldl (\<lambda>s d. node_record (fst d) (fst (snd d)) (snd (snd d)) s) node_default h"

lemma node_run_snoc: "node_run (h @ [d]) = node_record (fst d) (fst (snd d)) (snd (snd d)) (node_run h)"
  by (simp add: node_run_def)

lemma node_run_counts:
  "ds_succeeded (dials (node_run h)) = length (filter (Not \<circ> dial_failed) h)"
  "ds_failed (dials (node_run h)) = length (filter dial_failed h)"
  "ds_failures_by_kind (dials (node_run h)) k =
     (if Some k \<in> set (map (\<lambda>d. fst (snd d)) h) then Some (count_list (map (\<lambda>d. fst (snd d)) h) (Some k)) else None)"
  "consecutive_failures (node_run h) = length (takeWhile dial_failed (rev h))"
proof (induction h rule: rev_induct)
  case Nil
  case 1 show ?case by (simp add: node_run_def node_default_def dial_default_def)
  case 2 show ?case by (simp add: node_run_def node_default_def dial_default_def)
  case 3 show ?case by (simp add: node_run_def node_default_def dial_default_def)
  case 4 show ?case by (simp add: node_run_def node_default_def dial_default_def)
next
  case (snoc d h)
  note defs = node_run_snoc node_record_def Let_def dial_record_def
  case 1 show ?case using snoc(1) by (simp add: defs split: option.split)
  case 2 show ?case using snoc(2) by (simp add: defs split: option.split)
  case 3 show ?case using snoc(3) by (auto simp: defs count_list_0_iff split: option.split)
  case 4 show ?case using snoc(4) by (simp add: defs split: option.split)
qed

lemma node_run_windows:
  "samples (node_run h) = recent 64 (map (total_ms \<circ> snd \<circ> snd) (filter (Not \<circ> dial_failed) h))"
  "node_events (node_run h) = recent 16 (map (\<lambda>d. \<lparr>de_at = fst d, de_error = fst (snd d),
     de_stage = (if dial_failed d then last_stage (snd (snd d)) else None)\<rparr>) h)"
proof (induction h rule: rev_induct)
  case Nil
  case 1 show ?case by (simp add: node_run_def node_default_def recent_def)
  case 2 show ?case by (simp add: node_run_def node_default_def recent_def)
next
  case (snoc d h)
  note defs = node_run_snoc node_record_def Let_def push_bounded_recent
  case 1 show ?case using snoc(1) by (simp add: defs split: option.split)
  case 2 show ?case using snoc(2) by (simp add: defs split: option.split)
qed

text \<open>
  The record of a node is accurate. After any sequence of dials the counters are the numbers of successes and failures, in
  total and by kind; the consecutive failures are those since the last success, and the node is reported degraded exactly when the
  last dial failed; the latencies are those of the last 64 successes and the events the last 16; and the reported percentiles
  are nearest-rank percentiles of these latencies.
\<close>

lemma node_report_is_accurate:
  "let s = node_run h; ok = filter (Not \<circ> dial_failed) h in
     ds_succeeded (dials s) = length ok \<and> ds_failed (dials s) = length (filter dial_failed h)
     \<and> (\<forall>k. (case ds_failures_by_kind (dials s) k of Some c \<Rightarrow> c | None \<Rightarrow> 0) = count_list (map (\<lambda>d. fst (snd d)) h) (Some k))
     \<and> consecutive_failures s = length (takeWhile dial_failed (rev h))
     \<and> health s = (if h = [] then ''unobserved'' else if dial_failed (last h) then ''degraded'' else ''healthy'')
     \<and> samples s = recent 64 (map (total_ms \<circ> snd \<circ> snd) ok) \<and> length (node_events s) = min 16 (length h)
     \<and> (case percentile (sort (samples s)) 50 of None \<Rightarrow> ok = [] | Some v \<Rightarrow> nearest_rank 50 (samples s) v)
     \<and> (case percentile (sort (samples s)) 95 of None \<Rightarrow> ok = [] | Some v \<Rightarrow> nearest_rank 95 (samples s) v)"
proof -
  let ?s = "node_run h" and ?ok = "filter (Not \<circ> dial_failed) h"
  have "length (samples ?s) = min 64 (length ?ok)" by (simp add: node_run_windows(1) recent_def)
  moreover have "xs = [] \<longleftrightarrow> ys = []" if "length xs = min 64 (length ys)" for xs :: "nat list" and ys :: "dial list"
    using that by (cases xs; cases ys) auto
  ultimately have empty: "samples ?s = [] \<longleftrightarrow> ?ok = []" by blast
  have p: "case percentile (sort (samples ?s)) q of None \<Rightarrow> ?ok = [] | Some v \<Rightarrow> nearest_rank q (samples ?s) v"
    if "0 < q" "q \<le> 100" for q
    using percentile_nearest_rank [OF that, of "samples ?s"] unfolding empty .
  have h: "health ?s = (if h = [] then ''unobserved'' else if dial_failed (last h) then ''degraded'' else ''healthy'')"
    by (cases h rule: rev_cases) (simp_all add: health_def node_run_counts filter_empty_conv)
  have k: "(case ds_failures_by_kind (dials ?s) k of Some c \<Rightarrow> c | None \<Rightarrow> 0) = count_list (map (\<lambda>d. fst (snd d)) h) (Some k)" for k
    by (auto simp: node_run_counts(3) count_list_0_iff)
  have e: "length (node_events ?s) = min 16 (length h)" by (simp add: node_run_windows(2) recent_def)
  show ?thesis unfolding Let_def
    using node_run_counts(1,2,4) [of h] node_run_windows(1) [of h] h k e p [of 50] p [of 95] by simp
qed


subsection \<open>Two services\<close>

definition sample_service :: "ustring \<Rightarrow> ustring \<Rightarrow> Proxy \<Rightarrow> CatalogService" where
  "sample_service token nm p =
     \<lparr>cs_service = sample_config\<lparr>pc_runtime := sample_runtime\<lparr>access_token := token\<rparr>\<rparr>, cs_managed = [p], cs_fetched_at = None,
      cs_fingerprint = token, cs_files = \<lparr>cf_cache = None, cf_temporary = None\<rparr>, cs_context = sample_context,
      cs_manager = manager_new \<lparr>routes = Map.empty, runtimes = [(nm, \<lparr>n_proxy = p, n_route = \<lparr>r_client = 0, r_udp = True\<rparr>\<rparr>)],
        filtered_docs = \<lparr>surge_http = [], surge_socks = [], clash_http = [], clash_socks = []\<rparr>,
        all_docs = \<lparr>surge_http = [], surge_socks = [], clash_http = [], clash_socks = []\<rparr>, router_secret = token, published_count = 1,
        raw_filtered = \<lparr>raw_nodes = [], skipped = 1\<rparr>, raw_all = \<lparr>raw_nodes = [], skipped = 1\<rparr>, router_remote_raw = False\<rparr>,
      cs_arena = empty_arena, cs_disable_filter = False, cs_events = []\<rparr>"


end
