(* ===== verification/Trust.thy ===== *)
theory Trust
  imports Diagnostics
begin

text \<open>
  The store of trust anchors, \<open>src/transport/trust.rs\<close>: one store for all nodes, reloaded in the background until it
  settles and on demand after a failed verification, at most once in half a minute. An anchor is its bytes; the loader
  of the platform is an argument. Times are in nanoseconds.
\<close>

definition RELOAD_INTERVAL :: nat where "RELOAD_INTERVAL = 30 * 1000000000"

record LoadedRoots =
  lr_roots :: "bytes list"
  lr_complete :: bool

record TrustSnapshot =
  ts_roots :: "bytes list"
  ts_generation :: nat

text \<open>
  The state of the store with its reload lock: when the last reload started, and whether one is running, which holds
  the lock.
\<close>

record TrustStore =
  tr_snapshot :: TrustSnapshot
  tr_settled :: bool
  tr_complete :: bool
  tr_last_attempt :: "nat option"
  tr_reloading :: bool

definition trust_status :: "TrustStore \<Rightarrow> Value" where
  "trust_status s = trust_json (length (ts_roots (tr_snapshot s))) (ts_generation (tr_snapshot s)) (tr_complete s) (tr_settled s)"

definition with_loader :: "LoadedRoots \<Rightarrow> TrustStore res" where
  "with_loader loaded =
     (if lr_roots loaded = [] then Inl (Bail ''no usable system TLS roots; see tls.roots diagnostics'')
      else Inr \<lparr>tr_snapshot = \<lparr>ts_roots = lr_roots loaded, ts_generation = 1\<rparr>, tr_settled = lr_complete loaded,
                tr_complete = lr_complete loaded, tr_last_attempt = None, tr_reloading = False\<rparr>)"

definition cooling_down :: "nat \<Rightarrow> nat option \<Rightarrow> bool" where
  "cooling_down now last_attempt = (case last_attempt of Some t \<Rightarrow> now - t < RELOAD_INTERVAL | None \<Rightarrow> False)"

definition start_reload :: "nat \<Rightarrow> TrustStore \<Rightarrow> TrustStore" where
  "start_reload now s = s\<lparr>tr_last_attempt := Some now, tr_reloading := True\<rparr>"

text \<open>A snapshot does not wait; an unsettled store that is not being reloaded starts a reload.\<close>

definition trust_snapshot :: "nat \<Rightarrow> TrustStore \<Rightarrow> TrustSnapshot \<times> TrustStore" where
  "trust_snapshot now s =
     (tr_snapshot s,
      if \<not> tr_settled s \<and> \<not> tr_reloading s \<and> \<not> cooling_down now (tr_last_attempt s) then start_reload now s else s)"

definition apply_reload :: "LoadedRoots \<Rightarrow> TrustStore \<Rightarrow> TrustStore" where
  "apply_reload loaded s =
     (let current = ts_roots (tr_snapshot s);
          unchanged = (lr_roots loaded = current);
          usable = (lr_roots loaded \<noteq> [] \<and> (lr_complete loaded
            \<or> (length (lr_roots loaded) > length current \<and> list_all (\<lambda>r. r \<in> set (lr_roots loaded)) current))) in
      if unchanged then s\<lparr>tr_settled := True, tr_complete := lr_complete loaded\<rparr>
      else if usable then
        s\<lparr>tr_snapshot := \<lparr>ts_roots = lr_roots loaded, ts_generation = ts_generation (tr_snapshot s) + 1\<rparr>,
          tr_settled := lr_complete loaded, tr_complete := lr_complete loaded\<rparr>
      else s)"

text \<open>The end of a running reload, which releases the lock; \<open>None\<close> is a loader that dies.\<close>

definition finish_reload :: "LoadedRoots option \<Rightarrow> TrustStore \<Rightarrow> TrustStore" where
  "finish_reload loaded s = (case loaded of Some l \<Rightarrow> apply_reload l s | None \<Rightarrow> s)\<lparr>tr_reloading := False\<rparr>"

text \<open>
  A refresh after the observed generation failed: it waits for the lock, that is for the end of a running reload
  (\<open>running\<close>), and reloads itself (\<open>loaded\<close>) unless the store has changed or was reloaded just now.
\<close>

definition trust_refresh ::
  "nat \<Rightarrow> LoadedRoots option \<Rightarrow> LoadedRoots option \<Rightarrow> nat \<Rightarrow> TrustStore \<Rightarrow> TrustSnapshot \<times> TrustStore" where
  "trust_refresh now running loaded observed s =
     (let s = (if tr_reloading s then finish_reload running s else s);
          current = tr_snapshot s in
      if ts_generation current \<noteq> observed \<or> cooling_down now (tr_last_attempt s) then (current, s)
      else
        let s = finish_reload loaded (start_reload now s) in
        ((case loaded of Some _ \<Rightarrow> tr_snapshot s | None \<Rightarrow> current), s))"

subsection \<open>Native certificates\<close>

text \<open>
  \<open>load_native\<close>: the certificates are sorted by their bytes, so that the same set gives the same store; \<open>parse\<close> is the
  parser of the anchors, and the load is complete when nothing failed.
\<close>

definition load_native :: "(bytes \<Rightarrow> bytes option) \<Rightarrow> bytes list \<Rightarrow> nat \<Rightarrow> LoadedRoots" where
  "load_native parse certs load_errors =
     (let certs = sort_key (map unat) certs; roots = List.map_filter parse certs;
          rejected = length certs - length roots in
      \<lparr>lr_roots = roots, lr_complete = (load_errors = 0 \<and> rejected = 0)\<rparr>)"

subsection \<open>The store over time\<close>

inductive trust_step :: "TrustStore \<Rightarrow> TrustStore \<Rightarrow> bool" where
  look: "trust_snapshot now s = (t, s') \<Longrightarrow> trust_step s s'"
| loaded: "tr_reloading s \<Longrightarrow> trust_step s (finish_reload l s)"
| refresh: "trust_refresh now running l observed s = (t, s') \<Longrightarrow> trust_step s s'"

inductive trust_reach :: "TrustStore \<Rightarrow> bool" where
  start: "with_loader l = Inr s \<Longrightarrow> trust_reach s"
| step: "trust_reach s \<Longrightarrow> trust_step s s' \<Longrightarrow> trust_reach s'"

text \<open>How one store may follow another.\<close>

definition trust_follows :: "TrustStore \<Rightarrow> TrustStore \<Rightarrow> bool" where
  "trust_follows s s' \<longleftrightarrow>
     ts_generation (tr_snapshot s) \<le> ts_generation (tr_snapshot s')
     \<and> (ts_generation (tr_snapshot s) = ts_generation (tr_snapshot s') \<longrightarrow> ts_roots (tr_snapshot s) = ts_roots (tr_snapshot s'))
     \<and> (ts_roots (tr_snapshot s) \<noteq> [] \<longrightarrow> ts_roots (tr_snapshot s') \<noteq> [])"

lemma trust_follows_refl [simp]: "trust_follows s s"
  by (simp add: trust_follows_def)

lemma trust_follows_trans: "trust_follows a b \<Longrightarrow> trust_follows b c \<Longrightarrow> trust_follows a c"
  by (auto simp: trust_follows_def)

lemma trust_follows_lock [simp]:
  "trust_follows s (start_reload now t) = trust_follows s t" "trust_follows s (t\<lparr>tr_reloading := b\<rparr>) = trust_follows s t"
  "trust_follows (start_reload now s) t = trust_follows s t"
  by (simp_all add: trust_follows_def start_reload_def)

lemma apply_reload_follows: "trust_follows s (apply_reload l s)"
  by (auto simp: trust_follows_def apply_reload_def Let_def)

lemma finish_reload_follows: "trust_follows s (finish_reload l s)"
  by (simp add: finish_reload_def apply_reload_follows split: option.split)

text \<open>A refresh gives the current snapshot, after at most two reloads.\<close>

lemma trust_refresh_cases:
  assumes "trust_refresh now running l observed s = (t, s')"
  defines "w \<equiv> (if tr_reloading s then finish_reload running s else s)"
  obtains (current) "s' = w" "t = tr_snapshot w" "ts_generation (tr_snapshot w) \<noteq> observed \<or> cooling_down now (tr_last_attempt w)"
  | (reloaded) "s' = finish_reload l (start_reload now w)" "t = tr_snapshot s'" "ts_generation (tr_snapshot w) = observed"
      "\<not> cooling_down now (tr_last_attempt w)"
proof (cases "ts_generation (tr_snapshot w) \<noteq> observed \<or> cooling_down now (tr_last_attempt w)")
  case True
  then show ?thesis using assms(1) by (intro current) (auto simp: trust_refresh_def Let_def simp flip: w_def)
next
  case False
  then have "s' = finish_reload l (start_reload now w)"
    "t = (case l of Some _ \<Rightarrow> tr_snapshot s' | None \<Rightarrow> tr_snapshot w)"
    using assms(1) by (auto simp: trust_refresh_def Let_def simp flip: w_def)
  moreover from this have "t = tr_snapshot s'" by (simp add: finish_reload_def start_reload_def split: option.splits)
  ultimately show ?thesis using False reloaded by blast
qed

lemma trust_refresh_follows:
  assumes "trust_refresh now running l observed s = (t, s')"
  shows "trust_follows s s' \<and> t = tr_snapshot s'"
proof -
  have w: "trust_follows s (if tr_reloading s then finish_reload running s else s)" by (simp add: finish_reload_follows)
  from assms show ?thesis
  proof (cases rule: trust_refresh_cases)
    case reloaded
    then show ?thesis using trust_follows_trans [OF w] finish_reload_follows [of "start_reload now (if tr_reloading s then finish_reload running s else s)" l]
      by simp
  qed (use w in simp)
qed

lemma trust_step_follows: "trust_step s s' \<Longrightarrow> trust_follows s s'"
  by (induction rule: trust_step.induct)
    (auto simp: trust_snapshot_def finish_reload_follows trust_refresh_follows split: if_splits)

lemma trust_steps_follow: "trust_step\<^sup>*\<^sup>* s s' \<Longrightarrow> trust_follows s s'"
  by (induction rule: rtranclp_induct) (auto intro: trust_follows_trans trust_step_follows)

lemma trust_reach_usable: "trust_reach s \<Longrightarrow> ts_roots (tr_snapshot s) \<noteq> [] \<and> 0 < ts_generation (tr_snapshot s)"
proof (induction rule: trust_reach.induct)
  case (start l s)
  then show ?case by (auto simp: with_loader_def split: if_splits)
next
  case (step s s')
  then show ?case using trust_step_follows [of s s'] by (auto simp: trust_follows_def)
qed

lemma partial_reload_adds:
  "\<not> lr_complete l \<Longrightarrow> set (ts_roots (tr_snapshot s)) \<subseteq> set (ts_roots (tr_snapshot (apply_reload l s)))"
  by (auto simp: apply_reload_def Let_def list_all_iff)

text \<open>
  C30: A usable store of trust anchors stays usable. In every state of a store and after every later step, snapshot,
  background reload or refresh, there are anchors; the generation never goes back, and while it is the same the anchors are; a partial
  reload never removes an anchor; and a refresh after a failed verification returns the anchors in force, with another generation
  whenever they differ from those observed.
\<close>

theorem trust_store_stays_usable:
  assumes "trust_reach s" "trust_step\<^sup>*\<^sup>* s s'" "trust_refresh now running l (ts_generation (tr_snapshot s)) s' = (t, s2)"
  shows "ts_roots (tr_snapshot s') \<noteq> [] \<and> ts_roots t \<noteq> [] \<and> t = tr_snapshot s2
    \<and> ts_generation (tr_snapshot s) \<le> ts_generation (tr_snapshot s') \<and> ts_generation (tr_snapshot s') \<le> ts_generation t
    \<and> (ts_generation t = ts_generation (tr_snapshot s) \<longrightarrow> ts_roots t = ts_roots (tr_snapshot s))
    \<and> (\<not> lr_complete p \<longrightarrow> set (ts_roots (tr_snapshot s')) \<subseteq> set (ts_roots (tr_snapshot (apply_reload p s'))))"
proof -
  have f: "trust_follows s s'" "trust_follows s' s2" "t = tr_snapshot s2"
    using trust_steps_follow [OF assms(2)] trust_refresh_follows [OF assms(3)] by auto
  then have "trust_follows s s2" by (blast intro: trust_follows_trans)
  then show ?thesis using f trust_reach_usable [OF assms(1)] partial_reload_adds [of p s'] by (simp add: trust_follows_def)
qed

subsection \<open>Reloads are rare\<close>

lemma finish_reload_last [simp]: "tr_last_attempt (finish_reload l s) = tr_last_attempt s"
  by (simp add: finish_reload_def apply_reload_def Let_def split: option.split)

text \<open>
  The platform store is read at most once in 30 seconds. Whenever a snapshot or a refresh at time \<open>now\<close> starts a reload,
  the reload before it started at least 30 seconds earlier, and this one starts at \<open>now\<close>.
\<close>

lemma reloads_are_rate_limited:
  "(let s' = snd (trust_snapshot now s) in
      tr_last_attempt s' = tr_last_attempt s
      \<or> tr_last_attempt s' = Some now \<and> (case tr_last_attempt s of Some t \<Rightarrow> RELOAD_INTERVAL \<le> now - t | None \<Rightarrow> True))
   \<and> (let s' = snd (trust_refresh now running l observed s) in
      tr_last_attempt s' = tr_last_attempt s
      \<or> tr_last_attempt s' = Some now \<and> (case tr_last_attempt s of Some t \<Rightarrow> RELOAD_INTERVAL \<le> now - t | None \<Rightarrow> True))"
proof -
  obtain t s' where r: "trust_refresh now running l observed s = (t, s')" by fastforce
  have w: "tr_last_attempt (if tr_reloading s then finish_reload running s else s) = tr_last_attempt s" by simp
  from r have "tr_last_attempt s' = tr_last_attempt s
      \<or> tr_last_attempt s' = Some now \<and> \<not> cooling_down now (tr_last_attempt s)"
    by (cases rule: trust_refresh_cases) (use w in \<open>simp_all add: start_reload_def\<close>)
  then show ?thesis using r
    by (auto simp: trust_snapshot_def start_reload_def cooling_down_def Let_def split: option.splits)
qed


subsection \<open>An example\<close>

definition sample_store :: TrustStore where
  "sample_store = \<lparr>tr_snapshot = \<lparr>ts_roots = [[1], [2]], ts_generation = 1\<rparr>, tr_settled = False, tr_complete = False,
     tr_last_attempt = None, tr_reloading = False\<rparr>"

theorem trust_store_stays_usable_witness:
  "\<exists>t s2. trust_refresh 5 None (Some \<lparr>lr_roots = [[1], [2], [3]], lr_complete = False\<rparr>) 1 sample_store = (t, s2)
     \<and> ts_roots t = [[1], [2], [3]] \<and> ts_roots t \<noteq> [] \<and> 1 \<le> ts_generation t"
proof -
  have "with_loader \<lparr>lr_roots = [[1], [2]], lr_complete = False\<rparr> = Inr sample_store"
    by (simp add: with_loader_def sample_store_def)
  then have r: "trust_reach sample_store" by (rule trust_reach.start)
  obtain t s2 where t: "trust_refresh 5 None (Some \<lparr>lr_roots = [[1], [2], [3]], lr_complete = False\<rparr>) 1 sample_store = (t, s2)"
    by fastforce
  moreover have "ts_roots t = [[1], [2], [3]]"
    using t by (auto simp: trust_refresh_def sample_store_def cooling_down_def start_reload_def finish_reload_def apply_reload_def Let_def)
  ultimately show ?thesis
    using trust_store_stays_usable [OF r rtranclp.rtrancl_refl, of 5 None _ t s2] by (simp add: sample_store_def)
qed

end
