(* ===== verification/Private_Dns.thy ===== *)
theory Private_Dns
  imports Network Config_File
begin

text \<open>
  The signed private name service of the nodes, \<open>src/transport/private_dns.rs\<close>: the signed query names,
  which datagrams count as an answer, how the two address families are merged, and the cache with its two
  lifetimes, which belongs to a network generation. \<open>hickory_proto\<close>, Ed25519 and Base32 are parameters. Times are
  in nanoseconds.
\<close>

definition PRIVATE_DNS_SUFFIX :: ustring where "PRIVATE_DNS_SUFFIX = ustr ''cloud-nodes.com''"
definition PRIVATE_DNS_SERVER :: ustring where "PRIVATE_DNS_SERVER = ustr ''124.221.68.73:1053''"
definition PRIVATE_DNS_SEED_BASE64 :: ustring where
  "PRIVATE_DNS_SEED_BASE64 = ustr ''QiXXv81GasAAq3TfApAmFZ7kOjj+QC/I21N5MP39YNY=''"
definition CACHE_TTL :: nat where "CACHE_TTL = 300 * 1000000000"
definition PARTIAL_CACHE_TTL :: nat where "PARTIAL_CACHE_TTL = 30 * 1000000000"
definition QUERY_ATTEMPTS :: nat where "QUERY_ATTEMPTS = 2"
definition FAMILY_GRACE :: nat where "FAMILY_GRACE = 50 * 1000000"

subsection \<open>Messages\<close>

datatype RecordType = RecA | RecAAAA

datatype RData = DataA "32 word" | DataAAAA "128 word" | DataOther

record Query =
  q_name :: ustring
  q_type :: RecordType

datatype ResponseCode = NoError | NXDomain | OtherCode

record Message =
  msg_id :: u16
  msg_response :: bool
  msg_queries :: "Query list"
  msg_truncated :: bool
  msg_code :: ResponseCode
  msg_answers :: "RData list"

text \<open>
  \<open>ed25519\<close> signs with a seed; \<open>base32\<close> is \<open>BASE32_NOPAD\<close>; \<open>name_from_ascii\<close>, \<open>query_to_vec\<close>,
  \<open>message_from_vec\<close> and \<open>query_eq\<close> are \<open>Name::from_ascii\<close>, \<open>Message::to_vec\<close> of a recursive query,
  \<open>Message::from_vec\<close> and the equality of questions, which ignores case.
\<close>

record dns_crates =
  ed25519 :: "bytes \<Rightarrow> bytes \<Rightarrow> bytes"
  base32 :: "bytes \<Rightarrow> ustring"
  name_from_ascii :: "ustring \<Rightarrow> ustring option"
  query_to_vec :: "u16 \<Rightarrow> Query \<Rightarrow> bytes option"
  message_from_vec :: "bytes \<Rightarrow> Message option"
  query_eq :: "Query \<Rightarrow> Query \<Rightarrow> bool"

definition answers_question :: "dns_crates \<Rightarrow> Message \<Rightarrow> u16 \<Rightarrow> Query \<Rightarrow> bool" where
  "answers_question D m i q \<longleftrightarrow> msg_id m = i \<and> msg_response m \<and> list_all2 (query_eq D) (msg_queries m) [q]"

definition answer_address :: "RecordType \<Rightarrow> RData \<Rightarrow> ip option" where
  "answer_address t d = (case (t, d) of (RecA, DataA a) \<Rightarrow> Some (V4 a) | (RecAAAA, DataAAAA a) \<Rightarrow> Some (V6 a) | _ \<Rightarrow> None)"

definition parse_response :: "dns_crates \<Rightarrow> bytes \<Rightarrow> u16 \<Rightarrow> Query \<Rightarrow> ip list option res" where
  "parse_response D response i q =
     (case message_from_vec D response of
        None \<Rightarrow> Inr None
      | Some m \<Rightarrow>
          if \<not> answers_question D m i q then Inr None
          else if msg_truncated m then Inl (Bail ''resolve ECH-TLS node'')
          else case msg_code m of
            NXDomain \<Rightarrow> Inr (Some [])
          | OtherCode \<Rightarrow> Inl (Bail ''resolve ECH-TLS node'')
          | NoError \<Rightarrow> Inr (Some (List.map_filter (answer_address (q_type q)) (msg_answers m))))"

subsection \<open>Names\<close>

definition normalize_dns_name :: "text_crates \<Rightarrow> ustring \<Rightarrow> ustring" where
  "normalize_dns_name T nm = lowercase T (trim_end_by (\<lambda>c. c = 46) (str_trim nm))"

definition validate_dns_name :: "ustring \<Rightarrow> unit res" where
  "validate_dns_name nm =
     (if nm = [] \<or> str_len nm > 253 \<or> list_ex (\<lambda>l. l = [] \<or> str_len l > 63) (split_char 46 nm)
      then Inl (Bail ''private DNS name is invalid'') else Inr ())"

definition matches_dns_suffix :: "text_crates \<Rightarrow> ustring \<Rightarrow> ustring \<Rightarrow> bool" where
  "matches_dns_suffix T host suffix \<longleftrightarrow>
     (let host = normalize_dns_name T host; suffix = normalize_dns_name T suffix in
      host = suffix \<or> ends_with (46 # suffix) host)"

definition show_int :: "int \<Rightarrow> ustring" where
  "show_int i = (if i < 0 then 45 # show_nat (nat (- i)) else show_nat (nat i))"

definition signed_dns_name :: "text_crates \<Rightarrow> dns_crates \<Rightarrow> ustring \<Rightarrow> int \<Rightarrow> bytes \<Rightarrow> ustring res" where
  "signed_dns_name T D host unix_seconds seed =
     (let host = normalize_dns_name T host in
      and_then (validate_dns_name host) (\<lambda>_.
      if length seed \<noteq> 32 then Inl (Bail ''private DNS signing seed is invalid'')
      else
        let window = unix_seconds div 300;
            signature = ed25519 D seed (utf8 (host @ [124] @ show_int window));
            first = lowercase T (base32 D (take 32 signature));
            second = lowercase T (base32 D (drop 32 signature));
            result = first @ [46] @ second @ [46] @ host in
        and_then (validate_dns_name result) (\<lambda>_. Inr result)))"

subsection \<open>Asking\<close>

text \<open>
  What one attempt meets: entropy, whether the addresses can be bound and the query sent, and the datagrams that arrive
  within the two seconds of the attempt, with \<open>None\<close> for a failing receive. When they end, the attempt has timed out.
\<close>

record dns_attempt =
  da_entropy :: entropy
  da_bind_ok :: "ip \<Rightarrow> bool"
  da_sent :: bool
  da_received :: "(bytes \<times> socket_addr) option list"

fun receive_loop :: "dns_crates \<Rightarrow> socket_addr \<Rightarrow> u16 \<Rightarrow> Query \<Rightarrow> (bytes \<times> socket_addr) option list \<Rightarrow> ip list res option" where
  "receive_loop D srv i q [] = None"
| "receive_loop D srv i q (None # ds) = Some (Inl (Bail ''resolve ECH-TLS node''))"
| "receive_loop D srv i q (Some (datagram, source) # ds) =
     (if source \<noteq> srv then receive_loop D srv i q ds
      else case parse_response D (take 4096 datagram) i q of
        Inl e \<Rightarrow> Some (Inl e)
      | Inr (Some as) \<Rightarrow> Some (Inr as)
      | Inr None \<Rightarrow> receive_loop D srv i q ds)"

definition query_once ::
  "dns_crates \<Rightarrow> socket_addr \<Rightarrow> dns_attempt \<Rightarrow> ustring \<Rightarrow> RecordType \<Rightarrow> NetworkSnapshot \<Rightarrow> ip list res option" where
  "query_once D srv a nm t network =
     (case fill_random (da_entropy a) 2 of
        None \<Rightarrow> Some (Inl (Bail ''generate private DNS query ID''))
      | Some i \<Rightarrow>
          let i = from_be16 (i ! 0) (i ! 1) in
          case name_from_ascii D (nm @ [46]) of
            None \<Rightarrow> Some (Inl (Bail ''private DNS name is invalid''))
          | Some n \<Rightarrow>
              let q = \<lparr>q_name = n, q_type = t\<rparr> in
              case query_to_vec D i q of
                None \<Rightarrow> Some (Inl (Bail ''encode private DNS query''))
              | Some request \<Rightarrow>
                  if \<not> is_ok (bind_udp_socket network (da_bind_ok a) (sa_ip srv)) \<or> \<not> da_sent a
                  then Some (Inl (Bail ''resolve ECH-TLS node''))
                  else receive_loop D srv i q (da_received a))"

fun query_attempts ::
  "nat \<Rightarrow> dns_crates \<Rightarrow> socket_addr \<Rightarrow> (nat \<Rightarrow> dns_attempt) \<Rightarrow> ustring \<Rightarrow> RecordType \<Rightarrow> NetworkSnapshot \<Rightarrow> ip list res" where
  "query_attempts 0 D srv atts nm t network = Inl (Bail ''resolve ECH-TLS node'')"
| "query_attempts (Suc k) D srv atts nm t network =
     (case query_once D srv (atts 0) nm t network of
        Some (Inr as) \<Rightarrow> Inr as
      | _ \<Rightarrow> query_attempts k D srv (\<lambda>i. atts (Suc i)) nm t network)"

text \<open>The families finish at two times; \<open>v4_wins\<close> decides a tie, as \<open>select!\<close> does at random.\<close>

definition merge_families :: "nat \<times> ip list res \<Rightarrow> nat \<times> ip list res \<Rightarrow> bool \<Rightarrow> ip list \<times> bool" where
  "merge_families ipv4 ipv6 v4_wins =
     (let ((t1, first), (t2, second)) =
        (if fst ipv4 < fst ipv6 \<or> (fst ipv4 = fst ipv6 \<and> v4_wins) then (ipv4, ipv6) else (ipv6, ipv4)) in
      case first of
        Inr (a # as) \<Rightarrow>
          if t2 - t1 \<le> FAMILY_GRACE then
            (case second of Inr other \<Rightarrow> (a # as @ other, True) | Inl _ \<Rightarrow> (a # as, False))
          else (a # as, False)
      | _ \<Rightarrow> (case second of Inr other \<Rightarrow> (other, is_ok first) | Inl _ \<Rightarrow> ([], False)))"

subsection \<open>The resolver\<close>

record CacheEntry =
  ca_addresses :: "ip list"
  ca_expires :: nat
  ca_generation :: u64

record PrivateDnsResolver =
  dns_suffix :: ustring
  dns_seed :: bytes
  dns_server :: socket_addr
  dns_cache :: "ustring \<rightharpoonup> CacheEntry"

definition resolver_built_in :: "text_crates \<Rightarrow> PrivateDnsResolver res" where
  "resolver_built_in T =
     (case b64_decode T PRIVATE_DNS_SEED_BASE64 of
        None \<Rightarrow> Inl (Bail ''decode built-in private DNS signing seed'')
      | Some seed \<Rightarrow>
          if length seed \<noteq> 32 then Inl (Bail ''private DNS signing seed has an invalid length'')
          else case parse_socket_addr PRIVATE_DNS_SERVER of
            None \<Rightarrow> Inl (Bail ''private DNS server is invalid'')
          | Some srv \<Rightarrow> Inr \<lparr>dns_suffix = PRIVATE_DNS_SUFFIX, dns_seed = seed, dns_server = srv, dns_cache = Map.empty\<rparr>)"

definition cached :: "ustring \<Rightarrow> u64 \<Rightarrow> nat \<Rightarrow> PrivateDnsResolver \<Rightarrow> ip list option \<times> PrivateDnsResolver" where
  "cached host generation now r =
     (case dns_cache r host of
        Some e \<Rightarrow> if now < ca_expires e \<and> ca_generation e = generation then (Some (ca_addresses e), r)
                  else (None, r\<lparr>dns_cache := (dns_cache r)(host := None)\<rparr>)
      | None \<Rightarrow> (None, r\<lparr>dns_cache := (dns_cache r)(host := None)\<rparr>))"

text \<open>
  What a lookup meets: the clocks at the first and second look into the cache and at the end, the Unix time, the attempts
  of each family with the times at which they finish, and the lookups of the same resolver that run between the two looks,
  while this one waits for the lock of its host.
\<close>

record dns_env =
  de_now :: nat
  de_locked :: nat
  de_done :: nat
  de_unix :: "int option"
  de_v4 :: "nat \<Rightarrow> dns_attempt"
  de_v6 :: "nat \<Rightarrow> dns_attempt"
  de_v4_at :: nat
  de_v6_at :: nat
  de_v4_wins :: bool

definition query_dual_stack :: "dns_crates \<Rightarrow> dns_env \<Rightarrow> socket_addr \<Rightarrow> ustring \<Rightarrow> NetworkSnapshot \<Rightarrow> ip list \<times> bool" where
  "query_dual_stack D env srv nm network =
     merge_families (de_v4_at env, query_attempts QUERY_ATTEMPTS D srv (de_v4 env) nm RecA network)
       (de_v6_at env, query_attempts QUERY_ATTEMPTS D srv (de_v6 env) nm RecAAAA network) (de_v4_wins env)"

text \<open>A lookup under the lock of its host; the host is normalised.\<close>

definition lookup_locked ::
  "text_crates \<Rightarrow> dns_crates \<Rightarrow> dns_env \<Rightarrow> ustring \<Rightarrow> NetworkSnapshot \<Rightarrow> PrivateDnsResolver \<Rightarrow> ip list option res \<times> PrivateDnsResolver" where
  "lookup_locked T D env host network r =
     (case cached host (ns_generation network) (de_locked env) r of
        (Some as, r) \<Rightarrow> (Inr (Some as), r)
      | (None, r) \<Rightarrow>
          (case de_unix env of
             None \<Rightarrow> (Inl (Bail ''system clock is before Unix epoch''), r)
           | Some now \<Rightarrow>
               (case signed_dns_name T D host now (dns_seed r) of
                  Inl e \<Rightarrow> (Inl e, r)
                | Inr query_name \<Rightarrow>
                    (case query_dual_stack D env (dns_server r) query_name network of (addresses, complete) \<Rightarrow>
                       let addresses = dedup_by id {} addresses in
                       if addresses = [] then (Inl (Bail ''resolve ECH-TLS node''), r)
                       else (Inr (Some addresses), r\<lparr>dns_cache := (dns_cache r)(host \<mapsto>
                         \<lparr>ca_addresses = addresses,
                          ca_expires = de_done env + (if complete then CACHE_TTL else PARTIAL_CACHE_TTL),
                          ca_generation = ns_generation network\<rparr>)\<rparr>)))))"

definition dns_lookup ::
  "text_crates \<Rightarrow> dns_crates \<Rightarrow> dns_env \<Rightarrow> (PrivateDnsResolver \<Rightarrow> PrivateDnsResolver) \<Rightarrow> ustring \<Rightarrow> NetworkSnapshot
     \<Rightarrow> PrivateDnsResolver \<Rightarrow> ip list option res \<times> PrivateDnsResolver" where
  "dns_lookup T D env others host network r =
     (let host = normalize_dns_name T host in
      if \<not> matches_dns_suffix T host (dns_suffix r) then (Inr None, r)
      else case cached host (ns_generation network) (de_now env) r of
        (Some as, r) \<Rightarrow> (Inr (Some as), r)
      | (None, r) \<Rightarrow> lookup_locked T D env host network (others r))"

subsection \<open>Datagrams that do not answer\<close>

text \<open>A receive that matters: an error, or a datagram of the server that answers the question.\<close>

definition matters :: "dns_crates \<Rightarrow> socket_addr \<Rightarrow> u16 \<Rightarrow> Query \<Rightarrow> (bytes \<times> socket_addr) option \<Rightarrow> bool" where
  "matters D srv i q d =
     (case d of None \<Rightarrow> True
      | Some (datagram, source) \<Rightarrow> source = srv
          \<and> (case message_from_vec D (take 4096 datagram) of None \<Rightarrow> False | Some m \<Rightarrow> answers_question D m i q))"

lemma receive_loop_filter: "receive_loop D srv i q (filter (matters D srv i q) ds) = receive_loop D srv i q ds"
  by (induction D srv i q ds rule: receive_loop.induct)
    (auto simp: matters_def parse_response_def split: option.splits sum.splits ResponseCode.splits)

lemma receive_loop_source:
  "receive_loop D srv i q ds = Some (Inr as) \<Longrightarrow>
     \<exists>datagram m. Some (datagram, srv) \<in> set ds \<and> message_from_vec D (take 4096 datagram) = Some m
       \<and> answers_question D m i q \<and> \<not> msg_truncated m
       \<and> set as \<subseteq> {a. \<exists>d \<in> set (msg_answers m). answer_address (q_type q) d = Some a}"
proof (induction D srv i q ds rule: receive_loop.induct)
  case (3 D srv i q datagram source ds)
  show ?case
  proof (cases "source = srv \<and> parse_response D (take 4096 datagram) i q \<noteq> Inr None")
    case True
    then have "parse_response D (take 4096 datagram) i q = Inr (Some as)"
      using 3(3) by (auto split: sum.splits option.splits)
    then show ?thesis using True
      by (intro exI [of _ datagram])
        (auto simp: parse_response_def List.map_filter_def split: option.splits if_splits ResponseCode.splits, metis)
  next
    case False
    then have "receive_loop D srv i q ds = Some (Inr as)" using 3(3) by (auto split: if_splits)
    then show ?thesis using False 3(1,2) by fastforce
  qed
qed simp_all


subsection \<open>Lookups and the cache\<close>

definition resolver_inv :: "PrivateDnsResolver \<Rightarrow> bool" where
  "resolver_inv r \<longleftrightarrow> (\<forall>e \<in> ran (dns_cache r). ca_addresses e \<noteq> [] \<and> distinct (ca_addresses e))"

lemma resolver_inv_upd:
  "resolver_inv r \<Longrightarrow> resolver_inv (r\<lparr>dns_cache := (dns_cache r)(h := None)\<rparr>)"
  "resolver_inv r \<Longrightarrow> ca_addresses e \<noteq> [] \<Longrightarrow> distinct (ca_addresses e) \<Longrightarrow> resolver_inv (r\<lparr>dns_cache := (dns_cache r)(h \<mapsto> e)\<rparr>)"
  by (auto simp: resolver_inv_def ran_def split: if_splits)

lemma cached_cases:
  assumes "cached h g now r = (res, r')"
  obtains (hit) e where "dns_cache r h = Some e" "now < ca_expires e" "ca_generation e = g" "res = Some (ca_addresses e)" "r' = r"
  | (miss) "res = None" "r' = r\<lparr>dns_cache := (dns_cache r)(h := None)\<rparr>"
  using assms by (auto simp: cached_def split: option.splits if_splits)

lemma cached_inv: "cached h g now r = (res, r') \<Longrightarrow> resolver_inv r \<Longrightarrow> resolver_inv r'"
  by (erule cached_cases) (auto intro: resolver_inv_upd)


lemma cached_suffix: "cached h g now r = (res, r') \<Longrightarrow> dns_suffix r' = dns_suffix r"
  by (erule cached_cases) auto

lemma lookup_locked_Some:
  assumes "lookup_locked T D env host network r = (Inr (Some as), r')" "resolver_inv r"
  shows "resolver_inv r' \<and> as \<noteq> [] \<and> distinct as
    \<and> (\<exists>e. dns_cache r' host = Some e \<and> ca_addresses e = as \<and> ca_generation e = ns_generation network)"
proof -
  obtain found r1 where c: "cached host (ns_generation network) (de_locked env) r = (found, r1)" by fastforce
  from c show ?thesis
  proof (cases rule: cached_cases)
    case (hit e)
    then show ?thesis using assms c by (auto simp: lookup_locked_def resolver_inv_def ran_def)
  next
    case miss
    then obtain t addresses where "as = dedup_by id {} addresses" "as \<noteq> []"
      "r' = r1\<lparr>dns_cache := (dns_cache r1)(host \<mapsto> \<lparr>ca_addresses = as, ca_expires = t, ca_generation = ns_generation network\<rparr>)\<rparr>"
      using assms(1) c by (auto simp: lookup_locked_def Let_def split: option.splits sum.splits prod.splits if_splits)
    moreover from this have "distinct as" using dedup_by_distinct [of id "{}" addresses] by simp
    ultimately show ?thesis using resolver_inv_upd(2) [OF cached_inv [OF c assms(2)]] by simp
  qed
qed

lemma lookup_locked_keeps:
  assumes "lookup_locked T D env host network r = (res, r')"
  shows "dns_suffix r' = dns_suffix r" and "resolver_inv r \<Longrightarrow> resolver_inv r'"
proof -
  obtain found r1 where c: "cached host (ns_generation network) (de_locked env) r = (found, r1)" by fastforce
  have "r' = r1 \<or> (\<exists>as e. res = Inr (Some as) \<and> r' = r1\<lparr>dns_cache := (dns_cache r1)(host \<mapsto> e)\<rparr>)"
    using assms c by (auto simp: lookup_locked_def Let_def split: option.splits sum.splits prod.splits if_splits)
  then show "dns_suffix r' = dns_suffix r" and "resolver_inv r \<Longrightarrow> resolver_inv r'"
    using cached_suffix [OF c] cached_inv [OF c] lookup_locked_Some [of T D env host network r _ r'] assms by auto
qed

text \<open>The steps of the lookups that share a resolver.\<close>

inductive dns_step :: "text_crates \<Rightarrow> dns_crates \<Rightarrow> PrivateDnsResolver \<Rightarrow> PrivateDnsResolver \<Rightarrow> bool" for T D where
  look: "cached h g now r = (res, r') \<Longrightarrow> dns_step T D r r'"
| locked: "lookup_locked T D env h network r = (res, r') \<Longrightarrow> dns_step T D r r'"

lemma dns_steps_keep:
  assumes "(dns_step T D)\<^sup>*\<^sup>* r r'"
  shows "dns_suffix r' = dns_suffix r \<and> (resolver_inv r \<longrightarrow> resolver_inv r')"
  using assms
proof (induction rule: rtranclp_induct)
  case (step s s')
  from step(2,3) show ?case
    by (cases rule: dns_step.cases) (use cached_suffix cached_inv lookup_locked_keeps in fastforce)+
qed simp

lemma dns_lookup_Some:
  assumes "dns_lookup T D env others host network r = (Inr (Some as), r')" "resolver_inv r" "\<And>s. (dns_step T D)\<^sup>*\<^sup>* s (others s)"
  shows "resolver_inv r' \<and> dns_suffix r' = dns_suffix r \<and> as \<noteq> [] \<and> distinct as \<and> matches_dns_suffix T (normalize_dns_name T host) (dns_suffix r)
    \<and> (\<exists>e. dns_cache r' (normalize_dns_name T host) = Some e \<and> ca_addresses e = as \<and> ca_generation e = ns_generation network)"
proof -
  let ?h = "normalize_dns_name T host"
  obtain found r1 where c: "cached ?h (ns_generation network) (de_now env) r = (found, r1)" by fastforce
  have m: "matches_dns_suffix T ?h (dns_suffix r)" using assms(1) by (auto simp: dns_lookup_def Let_def split: if_splits)
  from c show ?thesis
  proof (cases rule: cached_cases)
    case (hit e)
    then show ?thesis using assms(1,2) c m by (auto simp: dns_lookup_def Let_def resolver_inv_def ran_def)
  next
    case miss
    then have "lookup_locked T D env ?h network (others r1) = (Inr (Some as), r')"
      using assms(1) c m by (simp add: dns_lookup_def Let_def)
    then show ?thesis using lookup_locked_Some lookup_locked_keeps(1) dns_steps_keep [OF assms(3), of r1]
        cached_inv [OF c assms(2)] cached_suffix [OF c] m by metis
  qed
qed

lemma cached_lookup:
  assumes "dns_cache r (normalize_dns_name T host) = Some e" "matches_dns_suffix T (normalize_dns_name T host) (dns_suffix r)"
    "de_now env < ca_expires e" "ca_generation e = ns_generation network"
  shows "dns_lookup T D env others host network r = (Inr (Some (ca_addresses e)), r)"
  using assms by (simp add: dns_lookup_def cached_def Let_def)

text \<open>
  A lookup is remembered, for its network and for its lifetime. A lookup that succeeds, alone or among others, answers
  distinct addresses, at least one, and leaves them in the cache under the current network generation. Another lookup of the
  same host on a network of that generation before the entry expires answers the same without asking; on a network of another
  generation, or later, the entry is not used.
\<close>

lemma lookup_is_remembered:
  assumes "resolver_inv r" and others: "\<And>s. (dns_step T D)\<^sup>*\<^sup>* s (others s)"
    and l: "dns_lookup T D env others host network r = (Inr (Some as), r')"
  shows "resolver_inv r' \<and> as \<noteq> [] \<and> distinct as
    \<and> (\<exists>e. dns_cache r' (normalize_dns_name T host) = Some e
        \<and> (de_now env2 < ca_expires e \<and> ns_generation network2 = ns_generation network
             \<longrightarrow> dns_lookup T D env2 others2 host network2 r' = (Inr (Some as), r'))
        \<and> (ca_expires e \<le> now \<or> g \<noteq> ns_generation network
             \<longrightarrow> fst (cached (normalize_dns_name T host) g now r') = None))"
proof -
  let ?h = "normalize_dns_name T host"
  obtain e where e: "dns_cache r' ?h = Some e" "ca_addresses e = as" "ca_generation e = ns_generation network"
    and rest: "resolver_inv r'" "as \<noteq> []" "distinct as" "matches_dns_suffix T ?h (dns_suffix r')"
    using dns_lookup_Some [OF l assms(1) others] by metis
  have "dns_lookup T D env2 others2 host network2 r' = (Inr (Some as), r')"
    if "de_now env2 < ca_expires e" "ns_generation network2 = ns_generation network"
    using cached_lookup [of r' T host e env2 network2 D others2] e rest that by simp
  moreover have "fst (cached ?h g now r') = None" if "ca_expires e \<le> now \<or> g \<noteq> ns_generation network"
    using that e by (auto simp: cached_def)
  ultimately show ?thesis using e(1) rest(1-3) by blast
qed


subsection \<open>Signed names fit\<close>

text \<open>A signature has 64 bytes; 32 bytes have 52 characters in Base32, letters and digits; ASCII text is lowercased as ASCII.\<close>

definition dns_laws :: "text_crates \<Rightarrow> dns_crates \<Rightarrow> bool" where
  "dns_laws T D \<longleftrightarrow>
     (\<forall>k m. length (ed25519 D k m) = 64)
     \<and> (\<forall>b. length b = 32 \<longrightarrow> length (base32 D b) = 52 \<and> list_all ascii_alphanumeric (base32 D b))
     \<and> (\<forall>s. list_all (\<lambda>c. c < 128) s \<longrightarrow> lowercase T s = to_ascii_lowercase s)"

definition label_52 :: "ustring \<Rightarrow> bool" where
  "label_52 l \<longleftrightarrow> length l = 52 \<and> list_all ascii_alphanumeric l"

lemma signed_label:
  assumes "dns_laws T D" "length b = 32"
  shows "label_52 (lowercase T (base32 D b))"
proof -
  have b: "length (base32 D b) = 52" "list_all ascii_alphanumeric (base32 D b)" using assms by (auto simp: dns_laws_def)
  then have "list_all (\<lambda>c. c < 128) (base32 D b)" by (auto simp: list_all_iff ascii_defs)
  then have "lowercase T (base32 D b) = to_ascii_lowercase (base32 D b)" using assms(1) by (simp add: dns_laws_def)
  then show ?thesis using b by (auto simp: label_52_def to_ascii_lowercase_def list_all_iff ascii_lower_def ascii_defs)
qed

lemma label_52_props:
  assumes "label_52 l"
  shows "str_len l = 52" "46 \<notin> set l" "l \<noteq> []"
proof -
  have "list_all (\<lambda>c. c < 128) l" using assms by (auto simp: label_52_def list_all_iff ascii_defs)
  then show "str_len l = 52" using assms by (simp add: str_len_def utf8_ascii label_52_def)
  show "46 \<notin> set l" "l \<noteq> []" using assms by (auto simp: label_52_def list_all_iff ascii_defs)
qed

lemma validate_signed:
  assumes "label_52 f" "label_52 s" "validate_dns_name h = Inr ()"
  shows "validate_dns_name (f @ [46] @ s @ [46] @ h) = Inr () \<longleftrightarrow> str_len h \<le> 147"
proof -
  have "split_char 46 (l @ 46 # r) = l # split_char 46 r" if "label_52 l" for l r
    using label_52_props(2) [OF that] unfolding split_char_def by (intro split_on_append) auto
  then have "split_char 46 (f @ [46] @ s @ [46] @ h) = f # s # split_char 46 h" using assms by simp
  moreover have "str_len (f @ [46] @ s @ [46] @ h) = 106 + str_len h"
    using label_52_props(1) [OF assms(1)] label_52_props(1) [OF assms(2)]
    by (simp add: str_len_def utf8_append utf8_Cons utf8_char_def)
  ultimately show ?thesis
    using assms(3) label_52_props [OF assms(1)] label_52_props [OF assms(2)]
    by (auto simp: validate_dns_name_def split: if_splits)
qed

lemma signed_dns_name_cases:
  fixes host :: ustring
  assumes "dns_laws T D" "length seed = 32"
  defines "h \<equiv> normalize_dns_name T host"
  obtains f s where "label_52 f" "label_52 s"
    "signed_dns_name T D host t seed =
      (if validate_dns_name h = Inr () \<and> str_len h \<le> 147 then Inr (f @ [46] @ s @ [46] @ h)
       else Inl (Bail ''private DNS name is invalid''))"
proof -
  let ?sig = "ed25519 D seed (utf8 (h @ [124] @ show_int (t div 300)))"
  let ?f = "lowercase T (base32 D (take 32 ?sig))" and ?s = "lowercase T (base32 D (drop 32 ?sig))"
  have l: "label_52 ?f" "label_52 ?s"
    using assms(1) by (auto intro!: signed_label simp: dns_laws_def)
  have inv: "validate_dns_name n = Inr () \<or> validate_dns_name n = Inl (Bail ''private DNS name is invalid'')" for n
    by (simp add: validate_dns_name_def)
  have "signed_dns_name T D host t seed =
      (if validate_dns_name h = Inr () \<and> str_len h \<le> 147 then Inr (?f @ [46] @ ?s @ [46] @ h)
       else Inl (Bail ''private DNS name is invalid''))"
  proof (cases "validate_dns_name h = Inr ()")
    case True
    then show ?thesis using validate_signed [OF l True] inv [of "?f @ [46] @ ?s @ [46] @ h"] assms(2)
      by (auto simp: signed_dns_name_def h_def Let_def)
  next
    case False
    then show ?thesis using inv [of h] by (auto simp: signed_dns_name_def h_def Let_def)
  qed
  then show ?thesis using that l by blast
qed

text \<open>
  C28: Signing a name works exactly for the hosts that leave room for it. With a seed of 32 bytes the signed name exists
  exactly when the host is a valid name of at most 147 bytes; then it is itself a valid name, two labels of 52 letters
  and digits before the host, and it is the same at all times of a window of five minutes.
\<close>

theorem signed_names_fit:
  assumes "dns_laws T D" "length seed = 32"
  shows "let h = normalize_dns_name T host in
      (case signed_dns_name T D host t seed of
         Inl _ \<Rightarrow> validate_dns_name h \<noteq> Inr () \<or> str_len h > 147
       | Inr nm \<Rightarrow> validate_dns_name nm = Inr ()
           \<and> (\<exists>f s. label_52 f \<and> label_52 s \<and> nm = f @ [46] @ s @ [46] @ h))
      \<and> signed_dns_name T D host (300 * (t div 300)) seed = signed_dns_name T D host t seed"
proof -
  obtain f s where l: "label_52 f" "label_52 s" and eq: "signed_dns_name T D host t seed =
      (if validate_dns_name (normalize_dns_name T host) = Inr () \<and> str_len (normalize_dns_name T host) \<le> 147
       then Inr (f @ [46] @ s @ [46] @ normalize_dns_name T host) else Inl (Bail ''private DNS name is invalid''))"
    by (rule signed_dns_name_cases [OF assms, of host t])
  have "signed_dns_name T D host (300 * (t div 300)) seed = signed_dns_name T D host t seed"
  proof -
    have w: "300 * (t div 300) div 300 = t div 300" by simp
    show ?thesis unfolding signed_dns_name_def w ..
  qed
  then show ?thesis using l validate_signed [OF l] unfolding Let_def eq by auto
qed


subsection \<open>An example\<close>

text \<open>A name service that answers every question with one IPv4 address.\<close>

definition sample_dns :: dns_crates where
  "sample_dns = \<lparr>ed25519 = (\<lambda>_ _. replicate 64 1), base32 = (\<lambda>_. replicate 52 65), name_from_ascii = Some,
     query_to_vec = (\<lambda>_ _. Some []),
     message_from_vec = (\<lambda>_. Some \<lparr>msg_id = 0, msg_response = True, msg_queries = [\<lparr>q_name = [], q_type = RecA\<rparr>],
        msg_truncated = False, msg_code = NoError, msg_answers = [DataA 5, DataA 5]\<rparr>),
     query_eq = (\<lambda>_ _. True)\<rparr>"

definition sample_server :: socket_addr where "sample_server = \<lparr>sa_ip = V4 7, sa_port = 1053\<rparr>"

definition sample_attempt :: dns_attempt where
  "sample_attempt = \<lparr>da_entropy = Some (\<lambda>_. 0), da_bind_ok = (\<lambda>_. True), da_sent = True, da_received = [Some ([], sample_server)]\<rparr>"

definition sample_dns_env :: "nat \<Rightarrow> dns_env" where
  "sample_dns_env now = \<lparr>de_now = now, de_locked = now, de_done = now, de_unix = Some 2, de_v4 = (\<lambda>_. sample_attempt),
     de_v6 = (\<lambda>_. sample_attempt), de_v4_at = 0, de_v6_at = 0, de_v4_wins = True\<rparr>"

definition sample_resolver :: PrivateDnsResolver where
  "sample_resolver = \<lparr>dns_suffix = PRIVATE_DNS_SUFFIX, dns_seed = replicate 32 0, dns_server = sample_server, dns_cache = Map.empty\<rparr>"

definition sample_network :: NetworkSnapshot where
  "sample_network = \<lparr>ns_selection = egress_empty, ns_pinned = None, ns_generation = 1\<rparr>"

lemma sample_dns_laws: "dns_laws sample_text sample_dns"
  by (simp add: dns_laws_def sample_dns_def sample_text_def ascii_defs list_all_iff)

lemma sample_names:
  "normalize_dns_name sample_text PRIVATE_DNS_SUFFIX = PRIVATE_DNS_SUFFIX"
  "validate_dns_name PRIVATE_DNS_SUFFIX = Inr ()" "str_len PRIVATE_DNS_SUFFIX = 15"
  by code_simp+

lemma sample_query:
  "query_dual_stack sample_dns (sample_dns_env now) sample_server nm sample_network = ([V4 5, V4 5], True)"
proof -
  have "query_once sample_dns sample_server sample_attempt nm t sample_network
      = Some (Inr (case t of RecA \<Rightarrow> [V4 5, V4 5] | RecAAAA \<Rightarrow> []))" for t
    by (simp add: query_once_def sample_attempt_def fill_random_def sample_dns_def Let_def bind_udp_socket_def source_for_def
        sample_network_def sample_server_def egress_empty_def parse_response_def answers_question_def from_be16_def
        answer_address_def List.map_filter_def is_ok_def split: RecordType.split)
  then show ?thesis
    by (simp add: query_dual_stack_def sample_dns_env_def QUERY_ATTEMPTS_def numeral_2_eq_2 merge_families_def FAMILY_GRACE_def)
qed

lemma sample_dns_env_fields: "de_unix (sample_dns_env t) = Some 2" "de_done (sample_dns_env t) = t"
  by (simp_all add: sample_dns_env_def)

lemma sample_lookup:
  "\<exists>r. dns_lookup sample_text sample_dns (sample_dns_env 2) id PRIVATE_DNS_SUFFIX sample_network sample_resolver = (Inr (Some [V4 5]), r)
     \<and> map_option ca_expires (dns_cache r PRIVATE_DNS_SUFFIX) = Some (2 + CACHE_TTL)"
proof -
  obtain f s where "signed_dns_name sample_text sample_dns PRIVATE_DNS_SUFFIX 2 (replicate 32 0) =
      (if validate_dns_name (normalize_dns_name sample_text PRIVATE_DNS_SUFFIX) = Inr ()
          \<and> str_len (normalize_dns_name sample_text PRIVATE_DNS_SUFFIX) \<le> 147
       then Inr (f @ [46] @ s @ [46] @ normalize_dns_name sample_text PRIVATE_DNS_SUFFIX) else Inl (Bail ''private DNS name is invalid''))"
    by (rule signed_dns_name_cases [OF sample_dns_laws length_replicate])
  then obtain nm where "signed_dns_name sample_text sample_dns PRIVATE_DNS_SUFFIX 2 (replicate 32 0) = Inr nm"
    by (simp add: sample_names)
  then show ?thesis
    by (simp add: dns_lookup_def Let_def sample_names matches_dns_suffix_def sample_resolver_def cached_def lookup_locked_def
        sample_query sample_dns_env_fields)
qed

lemma lookup_is_remembered_witness:
  "\<exists>r. dns_lookup sample_text sample_dns (sample_dns_env 2) id PRIVATE_DNS_SUFFIX sample_network sample_resolver = (Inr (Some [V4 5]), r)
     \<and> dns_lookup sample_text sample_dns (sample_dns_env 9) id PRIVATE_DNS_SUFFIX sample_network r = (Inr (Some [V4 5]), r)"
proof -
  obtain r where r: "dns_lookup sample_text sample_dns (sample_dns_env 2) id PRIVATE_DNS_SUFFIX sample_network sample_resolver = (Inr (Some [V4 5]), r)"
    and x: "map_option ca_expires (dns_cache r PRIVATE_DNS_SUFFIX) = Some (2 + CACHE_TTL)" using sample_lookup by blast
  have "resolver_inv sample_resolver" by (simp add: resolver_inv_def sample_resolver_def)
  from lookup_is_remembered [OF this _ r, of "sample_dns_env 9" sample_network id] obtain e where
    e: "dns_cache r PRIVATE_DNS_SUFFIX = Some e" "de_now (sample_dns_env 9) < ca_expires e \<longrightarrow>
      dns_lookup sample_text sample_dns (sample_dns_env 9) id PRIVATE_DNS_SUFFIX sample_network r = (Inr (Some [V4 5]), r)"
    by (auto simp: sample_names)
  moreover have "de_now (sample_dns_env 9) < ca_expires e" using x e(1) by (simp add: sample_dns_env_def CACHE_TTL_def)
  ultimately show ?thesis using r by blast
qed

theorem signed_names_fit_witness:
  "\<exists>nm. signed_dns_name sample_text sample_dns PRIVATE_DNS_SUFFIX 2 (replicate 32 0) = Inr nm \<and> validate_dns_name nm = Inr ()"
  using signed_names_fit [OF sample_dns_laws length_replicate, of PRIVATE_DNS_SUFFIX 2 0] sample_names
  by (auto simp: Let_def split: sum.splits)

end
