(* ===== verification/Ech_Dialer.thy ===== *)
theory Ech_Dialer
  imports Trust Private_Dns "HOL-Library.Multiset"
begin

text \<open>
  Connecting to a node, \<open>src/transport/ech.rs\<close>: the order in which the addresses are tried, the race of the connection
  attempts, the TLS handshake with the configuration that belongs to the current trust anchors and ECH configuration, the
  retries after a rejected ECH configuration and an unknown issuer, and what the diagnostics record of a dial.
  Sockets, TLS and the clock are arguments.
\<close>

definition HAPPY_EYEBALLS_DELAY :: nat where "HAPPY_EYEBALLS_DELAY = 250 * 1000000"

subsection \<open>The order of the addresses\<close>

fun alternate :: "bool \<Rightarrow> 'a list \<Rightarrow> 'a list \<Rightarrow> 'a list" where
  "alternate take_ipv4 [] [] = []"
| "alternate True (a # ipv4) ipv6 = a # alternate False ipv4 ipv6"
| "alternate True [] (b # ipv6) = b # alternate False [] ipv6"
| "alternate False ipv4 (b # ipv6) = b # alternate True ipv4 ipv6"
| "alternate False (a # ipv4) [] = a # alternate True ipv4 []"

definition move_first :: "'a option \<Rightarrow> 'a list \<Rightarrow> 'a list" where
  "move_first preferred unique =
     (case preferred of None \<Rightarrow> unique
      | Some p \<Rightarrow> (case position (\<lambda>a. a = p) unique of None \<Rightarrow> unique
                   | Some i \<Rightarrow> unique ! i # take i unique @ drop (Suc i) unique))"

abbreviation addr_ipv4 :: "socket_addr \<Rightarrow> bool" where "addr_ipv4 a \<equiv> is_ipv4 (sa_ip a)"

definition interleave_addresses :: "socket_addr list \<Rightarrow> socket_addr option \<Rightarrow> socket_addr list" where
  "interleave_addresses addrs preferred =
     (let unique = move_first preferred (dedup_by id {} addrs);
          prefer_ipv4 = (case unique of [] \<Rightarrow> True | a # _ \<Rightarrow> addr_ipv4 a) in
      alternate prefer_ipv4 (filter addr_ipv4 unique) (filter (\<lambda>a. \<not> addr_ipv4 a) unique))"

subsection \<open>The race\<close>

text \<open>
  The state of the race: addresses not yet tried, the attempts that run, the last error, and whether there is nothing left to
  launch. An event is the end of an attempt, with the stream or an error, or the end of the delay.
\<close>

record 'e race =
  rc_pending :: "socket_addr list"
  rc_attempts :: "socket_addr list"
  rc_error :: "'e option"
  rc_exhausted :: bool

datatype ('e, 't) race_event = Finished socket_addr "'e + 't" | DelayOver

definition launch_next :: "'e race \<Rightarrow> bool \<times> 'e race" where
  "launch_next r =
     (case rc_pending r of
        [] \<Rightarrow> (False, r)
      | a # as \<Rightarrow> (True, r\<lparr>rc_pending := as, rc_attempts := rc_attempts r @ [a]\<rparr>))"

definition race_step :: "'e \<Rightarrow> ('e, 't) race_event \<Rightarrow> 'e race \<Rightarrow> ('e + 't \<times> socket_addr) option \<times> 'e race" where
  "race_step none ev r =
     (case ev of
        Finished a (Inr stream) \<Rightarrow> (Some (Inr (stream, a)), r\<lparr>rc_attempts := remove1 a (rc_attempts r)\<rparr>)
      | Finished a (Inl e) \<Rightarrow>
          let r = r\<lparr>rc_attempts := remove1 a (rc_attempts r), rc_error := Some e\<rparr>;
              (launched, r) = launch_next r; r = r\<lparr>rc_exhausted := \<not> launched\<rparr> in
          if rc_exhausted r \<and> rc_attempts r = []
          then (Some (Inl (case rc_error r of Some e \<Rightarrow> e | None \<Rightarrow> none)), r) else (None, r)
      | DelayOver \<Rightarrow>
          let (launched, r) = launch_next r in (None, r\<lparr>rc_exhausted := \<not> launched\<rparr>))"

text \<open>An event can happen when the attempt runs, or when the delay is waited for.\<close>

definition enabled :: "'e race \<Rightarrow> ('e, 't) race_event \<Rightarrow> bool" where
  "enabled r ev = (case ev of Finished a _ \<Rightarrow> a \<in> set (rc_attempts r) | DelayOver \<Rightarrow> \<not> rc_exhausted r)"

text \<open>The loop over the events of a run; without a result it still waits.\<close>

fun race_loop :: "'e \<Rightarrow> ('e, 't) race_event list \<Rightarrow> 'e race \<Rightarrow> ('e + 't \<times> socket_addr) option \<times> 'e race" where
  "race_loop none [] r = (None, r)"
| "race_loop none (ev # evs) r =
     (case race_step none ev r of (Some res, r) \<Rightarrow> (Some res, r) | (None, r) \<Rightarrow> race_loop none evs r)"

definition race_connects :: "'e \<Rightarrow> socket_addr list \<Rightarrow> ('e, 't) race_event list \<Rightarrow> ('e + 't \<times> socket_addr) option" where
  "race_connects none addrs evs =
     (case launch_next \<lparr>rc_pending = addrs, rc_attempts = [], rc_error = None, rc_exhausted = False\<rparr> of
        (False, _) \<Rightarrow> Some (Inl none)
      | (True, r) \<Rightarrow> fst (race_loop none evs r))"

text \<open>A run of enabled events.\<close>

fun race_run :: "'e \<Rightarrow> ('e, 't) race_event list \<Rightarrow> 'e race \<Rightarrow> bool" where
  "race_run none [] r = True"
| "race_run none (ev # evs) r =
     (enabled r ev \<and> (case race_step none ev r of (Some _, _) \<Rightarrow> evs = [] | (None, r) \<Rightarrow> race_run none evs r))"


subsection \<open>The race ends, and fails only when every address has failed\<close>

definition race_start :: "socket_addr list \<Rightarrow> 'e race" where
  "race_start addrs = snd (launch_next \<lparr>rc_pending = addrs, rc_attempts = [], rc_error = None, rc_exhausted = False\<rparr>)"

definition race_measure :: "'e race \<Rightarrow> nat" where
  "race_measure r = 2 * length (rc_pending r) + length (rc_attempts r) + of_bool (\<not> rc_exhausted r)"

lemmas race_defs = race_step_def launch_next_def enabled_def race_measure_def Let_def

lemma race_step_measure:
  assumes "enabled r ev" "race_step none ev r = (res, r')"
  shows "race_measure r' < race_measure r"
proof (cases ev)
  case (Finished a x)
  then have "0 < length (rc_attempts r)" "a \<in> set (rc_attempts r)" using assms(1) by (auto simp: enabled_def)
  then show ?thesis using assms(2) Finished
    by (auto simp: race_defs length_remove1 split: sum.splits list.splits if_splits)
next
  case DelayOver
  then show ?thesis using assms by (auto simp: race_defs split: list.splits)
qed

lemma race_run_length: "race_run none evs r \<Longrightarrow> length evs \<le> race_measure r"
proof (induction none evs r rule: race_run.induct)
  case (2 none ev evs r)
  obtain res r' where s: "race_step none ev r = (res, r')" by fastforce
  then have "race_measure r' < race_measure r" using race_step_measure 2(2) by auto
  moreover have "length evs \<le> race_measure r'" if "res = None" using 2 s that by simp
  moreover have "evs = []" if "res \<noteq> None" using 2(2) s that by auto
  ultimately show ?case by (cases res) fastforce+
qed simp

text \<open>One step: it goes on with an attempt running, or it ends.\<close>

lemma race_step_cases:
  assumes "enabled r ev" "rc_attempts r \<noteq> []" "race_step none ev r = (res, r')"
  obtains (on) "res = None" "rc_attempts r' \<noteq> []"
      "set (rc_pending r) \<union> set (rc_attempts r) \<subseteq> {a. \<exists>e. ev = Finished a (Inl e)} \<union> set (rc_pending r') \<union> set (rc_attempts r')"
      "set (rc_pending r') \<union> set (rc_attempts r') \<subseteq> set (rc_pending r) \<union> set (rc_attempts r)"
  | (won) a t where "ev = Finished a (Inr t)" "res = Some (Inr (t, a))" "a \<in> set (rc_attempts r)"
  | (lost) a e where "ev = Finished a (Inl e)" "res = Some (Inl e)" "rc_pending r = []" "set (rc_attempts r) \<subseteq> {a}"
proof (cases ev)
  case DelayOver
  then show ?thesis using assms by (intro on) (auto simp: race_defs split: list.splits)
next
  case (Finished a x)
  show ?thesis
  proof (cases x)
    case (Inr t)
    then show ?thesis using Finished assms won by (auto simp: race_defs)
  next
    case (Inl e)
    let ?rest = "remove1 a (rc_attempts r)"
    have sub: "set (rc_attempts r) \<subseteq> insert a (set ?rest)" "set ?rest \<subseteq> set (rc_attempts r)"
      by (metis in_set_remove1 insertCI subsetI insert_iff) (rule set_remove1_subset)
    show ?thesis
    proof (cases "rc_pending r = [] \<and> ?rest = []")
      case True
      then show ?thesis using Finished Inl assms(3) sub by (intro lost) (auto simp: race_defs)
    next
      case False
      then have "res = None" "rc_attempts r' \<noteq> []" "set (rc_pending r') \<union> set (rc_attempts r') = set (rc_pending r) \<union> set ?rest"
        using Finished Inl assms(3) by (auto simp: race_defs split: list.splits if_splits)
      then show ?thesis using Finished Inl sub by (intro on) auto
    qed
  qed
qed

lemma race_loop_result:
  assumes "race_run none evs r" "rc_attempts r \<noteq> []" "race_loop none evs r = (res, r')"
  shows "case res of
      None \<Rightarrow> rc_attempts r' \<noteq> []
    | Some (Inr (t, a)) \<Rightarrow> Finished a (Inr t) \<in> set evs \<and> a \<in> set (rc_pending r) \<union> set (rc_attempts r)
    | Some (Inl e) \<Rightarrow> (\<exists>a. last evs = Finished a (Inl e)) \<and> set (rc_pending r) \<union> set (rc_attempts r) \<subseteq> {a. \<exists>e. Finished a (Inl e) \<in> set evs}"
  using assms
proof (induction none evs r arbitrary: res r' rule: race_loop.induct)
  case (2 none ev evs r)
  obtain res1 r1 where s: "race_step none ev r = (res1, r1)" by fastforce
  have en: "enabled r ev" using 2(2) by simp
  from en 2(3) s show ?case
  proof (cases rule: race_step_cases)
    case on
    then have run: "race_run none evs r1" and l: "race_loop none evs r1 = (res, r')" using 2(2,4) s by simp_all
    note ih = 2(1) [OF s [symmetric] on(1) run on(2) l]
    show ?thesis
    proof (cases res)
      case None
      then show ?thesis using ih by simp
    next
      case (Some x)
      then have "evs \<noteq> []" using l by (cases evs) auto
      show ?thesis
      proof (cases x)
        case (Inl e)
        have "{a. \<exists>e. ev = Finished a (Inl e)} \<union> {a. \<exists>e. Finished a (Inl e) \<in> set evs} \<subseteq> {a. \<exists>e. Finished a (Inl e) \<in> set (ev # evs)}"
          by auto
        moreover have "set (rc_pending r1) \<union> set (rc_attempts r1) \<subseteq> {a. \<exists>e. Finished a (Inl e) \<in> set evs}"
          using ih Some Inl by simp
        ultimately have "set (rc_pending r) \<union> set (rc_attempts r) \<subseteq> {a. \<exists>e. Finished a (Inl e) \<in> set (ev # evs)}"
          using on(3) by blast
        then show ?thesis using ih Some Inl \<open>evs \<noteq> []\<close> by simp
      next
        case (Inr p)
        then show ?thesis using ih Some on(4) by (cases p) auto
      qed
    qed
  next
    case (won a t)
    then show ?thesis using 2(4) s by auto
  next
    case (lost a e)
    then show ?thesis using 2(2,4) s by auto
  qed
qed simp


lemma race_start_fields:
  "addrs \<noteq> [] \<Longrightarrow> rc_attempts (race_start addrs) = [hd addrs]" "addrs \<noteq> [] \<Longrightarrow> rc_pending (race_start addrs) = tl addrs"
  "addrs \<noteq> [] \<Longrightarrow> race_measure (race_start addrs) = 2 * length addrs"
  "addrs \<noteq> [] \<Longrightarrow> race_connects none addrs evs = fst (race_loop none evs (race_start addrs))"
  by (cases addrs; simp add: race_start_def launch_next_def race_measure_def race_connects_def)+

text \<open>
  C32: The race of the connection attempts ends, and fails only when every address has failed. It sees at most two events
  per address; while it has no result an attempt is running; a success is that of an address of the list; and an error is returned
  only after an attempt for every address has failed, with the error of the last one.
\<close>

theorem race_ends_with_every_address_tried:
  assumes "addrs \<noteq> []" "race_run none evs (race_start addrs)"
  shows "length evs \<le> 2 * length addrs
    \<and> (case race_connects none addrs evs of
         None \<Rightarrow> \<exists>a. enabled (snd (race_loop none evs (race_start addrs))) (Finished a x)
       | Some (Inr (t, a)) \<Rightarrow> a \<in> set addrs \<and> Finished a (Inr t) \<in> set evs
       | Some (Inl e) \<Rightarrow> (\<exists>a. last evs = Finished a (Inl e)) \<and> set addrs \<subseteq> {a. \<exists>e. Finished a (Inl e) \<in> set evs})"
proof
  obtain res r where l: "race_loop none evs (race_start addrs) = (res, r)" by fastforce
  have set: "set (rc_pending (race_start addrs)) \<union> set (rc_attempts (race_start addrs)) = set addrs"
    using assms(1) by (cases addrs) (auto simp: race_start_fields)
  have "rc_attempts (race_start addrs) \<noteq> []" using assms(1) by (simp add: race_start_fields)
  from race_loop_result [OF assms(2) this l] show "case race_connects none addrs evs of
         None \<Rightarrow> \<exists>a. enabled (snd (race_loop none evs (race_start addrs))) (Finished a x)
       | Some (Inr (t, a)) \<Rightarrow> a \<in> set addrs \<and> Finished a (Inr t) \<in> set evs
       | Some (Inl e) \<Rightarrow> (\<exists>a. last evs = Finished a (Inl e)) \<and> set addrs \<subseteq> {a. \<exists>e. Finished a (Inl e) \<in> set evs}"
    unfolding set race_start_fields(4) [OF assms(1)] l
    by (auto simp: enabled_def neq_Nil_conv split: option.splits sum.splits)
qed (use race_run_length [OF assms(2)] assms(1) in \<open>simp add: race_start_fields\<close>)

subsection \<open>The order is a fair interleaving\<close>

lemma alternate_set: "set (alternate b xs ys) = set xs \<union> set ys" "length (alternate b xs ys) = length xs + length ys"
  by (induction b xs ys rule: alternate.induct) auto

lemma alternate_filter:
  "list_all P xs \<Longrightarrow> list_all (\<lambda>y. \<not> P y) ys \<Longrightarrow> filter P (alternate b xs ys) = xs \<and> filter (\<lambda>y. \<not> P y) (alternate b xs ys) = ys"
  by (induction b xs ys rule: alternate.induct) auto

lemma move_first_set: "set (move_first p xs) = set xs" "distinct xs \<Longrightarrow> distinct (move_first p xs)"
proof -
  have m: "mset (move_first p xs) = mset xs"
  proof (cases "\<exists>q i. p = Some q \<and> position (\<lambda>a. a = q) xs = Some i")
    case True
    then obtain q i where q: "p = Some q" "position (\<lambda>a. a = q) xs = Some i" by blast
    then have "xs = take i xs @ xs ! i # drop (Suc i) xs" using id_take_nth_drop [of i xs] by (auto simp: position_Some_iff)
    then have "mset xs = mset (take i xs @ xs ! i # drop (Suc i) xs)" by (rule arg_cong)
    then show ?thesis using q by (simp add: move_first_def)
  qed (auto simp: move_first_def split: option.splits)
  show "set (move_first p xs) = set xs" using m by (rule mset_eq_setD)
  show "distinct xs \<Longrightarrow> distinct (move_first p xs)" using mset_eq_imp_distinct_iff [OF m] by simp
qed

lemma move_first_hd: "p \<in> set xs \<Longrightarrow> \<exists>ys. move_first (Some p) xs = p # ys"
proof -
  assume "p \<in> set xs"
  then obtain i where "position (\<lambda>a. a = p) xs = Some i"
    using position_None_iff [of "\<lambda>a. a = p" xs] by (cases "position (\<lambda>a. a = p) xs") auto
  moreover from this have "xs ! i = p" by (simp add: position_Some_iff)
  ultimately show ?thesis by (simp add: move_first_def)
qed


lemma alternate_turns:
  "list_all P xs \<Longrightarrow> list_all (\<lambda>y. \<not> P y) ys
   \<Longrightarrow> i < (if b then min (2 * length xs) (2 * length ys + 1) else min (2 * length ys) (2 * length xs + 1))
   \<Longrightarrow> P (alternate b xs ys ! i) = (b = even i)"
proof (induction b xs ys arbitrary: i rule: alternate.induct)
  case (2 a xs ys)
  then show ?case by (cases i) (simp_all split: if_splits)
next
  case (4 xs b ys)
  then show ?case by (cases i) (simp_all split: if_splits)
qed (simp_all split: if_splits)

lemma alternate_neighbours:
  assumes "list_all P xs" "list_all (\<lambda>y. \<not> P y) ys" "Suc i < 2 * min (length xs) (length ys)"
  shows "P (alternate b xs ys ! i) \<noteq> P (alternate b xs ys ! Suc i)"
proof -
  have bounds: "Suc i < 2 * length xs" "Suc i < 2 * length ys" using assms(3) by linarith+
  have i: "i < (if b then min (2 * length xs) (2 * length ys + 1) else min (2 * length ys) (2 * length xs + 1))"
    using bounds by simp
  have j: "Suc i < (if b then min (2 * length xs) (2 * length ys + 1) else min (2 * length ys) (2 * length xs + 1))"
    using bounds by simp
  show ?thesis using alternate_turns [OF assms(1,2) i] alternate_turns [OF assms(1,2) j] by simp
qed

lemma dedup_id: "distinct (dedup_by id {} xs)" "set (dedup_by id {} xs) = set xs"
  using dedup_by_distinct [of id "{}" xs] dedup_by_keys [of id "{}" xs] by simp_all

text \<open>
  Every resolved address is tried once, the one that worked last first, and the families take turns. The order has each
  address of the list exactly once; it starts with the preferred address when that one was resolved; within each family the addresses
  keep their order; and as long as both families have addresses left they alternate.
\<close>

lemma addresses_take_turns:
  "let ordered = interleave_addresses addrs preferred; unique = move_first preferred (dedup_by id {} addrs);
       v4 = filter addr_ipv4 ordered; v6 = filter (\<lambda>a. \<not> addr_ipv4 a) ordered in
     distinct ordered \<and> set ordered = set addrs
     \<and> (case preferred of Some p \<Rightarrow> p \<in> set addrs \<longrightarrow> hd ordered = p | None \<Rightarrow> True)
     \<and> v4 = filter addr_ipv4 unique \<and> v6 = filter (\<lambda>a. \<not> addr_ipv4 a) unique
     \<and> (Suc i < 2 * min (length v4) (length v6) \<longrightarrow> addr_ipv4 (ordered ! i) \<noteq> addr_ipv4 (ordered ! Suc i))"
proof -
  let ?u = "move_first preferred (dedup_by id {} addrs)"
  let ?v4 = "filter addr_ipv4 ?u" and ?v6 = "filter (\<lambda>a. \<not> addr_ipv4 a) ?u"
  define b where "b = (case ?u of [] \<Rightarrow> True | a # _ \<Rightarrow> addr_ipv4 a)"
  have o: "interleave_addresses addrs preferred = alternate b ?v4 ?v6" by (simp add: interleave_addresses_def b_def Let_def)
  have P: "list_all addr_ipv4 ?v4" "list_all (\<lambda>a. \<not> addr_ipv4 a) ?v6" by (simp_all add: list_all_iff)
  note f = alternate_filter [OF P, of b]
  have u: "distinct ?u" "set ?u = set addrs" 
    using move_first_set(1) [of preferred "dedup_by id {} addrs"] move_first_set(2) [of "dedup_by id {} addrs" preferred] dedup_id [of addrs]
    by auto
  have s: "set (alternate b ?v4 ?v6) = set addrs" using alternate_set(1) [of b ?v4 ?v6] u(2) by auto
  have "length (alternate b ?v4 ?v6) = length ?u" using alternate_set(2) [of b ?v4 ?v6] sum_length_filter_compl [of addr_ipv4 ?u] by simp
  then have "distinct (alternate b ?v4 ?v6)" using s u(2) distinct_card [OF u(1)] by (intro card_distinct) simp
  moreover have "hd (alternate b ?v4 ?v6) = p" if pref: "preferred = Some p" "p \<in> set addrs" for p
  proof -
    have "p \<in> set (dedup_by id {} addrs)" using pref(2) by (simp add: dedup_id)
    from move_first_hd [OF this] obtain ys where "?u = p # ys" using pref(1) by auto
    then show ?thesis by (cases "addr_ipv4 p"; cases "filter addr_ipv4 ys") (simp_all add: b_def)
  qed
  moreover have "addr_ipv4 (alternate b ?v4 ?v6 ! i) \<noteq> addr_ipv4 (alternate b ?v4 ?v6 ! Suc i)"
    if "Suc i < 2 * min (length ?v4) (length ?v6)"
    using alternate_neighbours [OF P that] .
  ultimately show ?thesis unfolding Let_def o using s f by (auto split: option.split)
qed


subsection \<open>TLS configurations\<close>

text \<open>
  A TLS configuration: the ECH configuration offered, the trust anchors, and the protocols offered inside and outside.
  The \<open>ClientConfig\<close> of \<open>rustls\<close> has these and nothing else that the code sets.
\<close>

record ClientConfig =
  cfg_ech :: bytes
  cfg_roots :: "bytes list"
  cfg_alpn :: "bytes list"
  cfg_outer_alpn :: "bytes list"

text \<open>How a handshake fails: the certificate has an unknown issuer, ECH was rejected, with the configurations
  the server offers instead, or anything else, with its classification.\<close>

datatype tls_failure = UnknownIssuer | EchRejectedBy "bytes option" | TlsOrIo ErrorKind

datatype dial_failure = Plain error | TlsFailed tls_failure

definition unknown_issuer :: "dial_failure \<Rightarrow> bool" where
  "unknown_issuer e \<longleftrightarrow> e = TlsFailed UnknownIssuer"

definition ech_rejected :: "dial_failure \<Rightarrow> bool" where
  "ech_rejected e = (case e of TlsFailed (EchRejectedBy _) \<Rightarrow> True | _ \<Rightarrow> False)"

definition ech_retry_config :: "text_crates \<Rightarrow> dial_failure \<Rightarrow> bytes option" where
  "ech_retry_config T e =
     (case e of
        TlsFailed (EchRejectedBy (Some configs)) \<Rightarrow>
          (case ech_config_from_list T configs of Inr c \<Rightarrow> Some c | Inl _ \<Rightarrow> None)
      | _ \<Rightarrow> None)"

definition failure_kind :: "(error \<Rightarrow> ErrorKind) \<Rightarrow> dial_failure \<Rightarrow> ErrorKind" where
  "failure_kind other e =
     (case e of Plain e \<Rightarrow> classify other e
      | TlsFailed UnknownIssuer \<Rightarrow> TlsUnknownIssuer
      | TlsFailed (EchRejectedBy _) \<Rightarrow> EchRejected
      | TlsFailed (TlsOrIo k) \<Rightarrow> k)"

text \<open>
  A dialer. The ECH configuration carries a number that stands for the identity of its \<open>Arc\<close>; the cached TLS
  configuration remembers the trust generation and that number.
\<close>

record EchDialer =
  ed_server :: ustring
  ed_sni :: ustring
  ed_port :: u16
  ed_alpn :: bytes
  ed_timeout :: nat
  ed_tls :: "(nat \<times> nat \<times> ClientConfig) option"
  ed_ech :: "nat \<times> bytes"
  ed_last_success :: "(u64 \<times> socket_addr) option"
  ed_diagnostics :: NodeState

record TransportContext =
  tc_roots :: TrustStore
  tc_resolver :: PrivateDnsResolver
  tc_pinned :: "ip option"
  tc_network :: MonitorState
  tc_refresh :: CatalogRefresh
  tc_diagnostics :: DialSnapshot

definition ech_dialer_new :: "text_crates \<Rightarrow> Proxy \<Rightarrow> nat \<Rightarrow> EchDialer res" where
  "ech_dialer_new T p dial_timeout =
     and_then (dialer_new_with_context T p dial_timeout) (\<lambda>_.
     and_then (parse_ech_config T (ech_config (obfs p))) (\<lambda>ech.
     Inr \<lparr>ed_server = server p, ed_sni = sni (obfs p), ed_port = port p, ed_alpn = utf8 (alpn (obfs p)), ed_timeout = dial_timeout,
          ed_tls = None, ed_ech = (0, ech), ed_last_success = None, ed_diagnostics = node_default\<rparr>))"

definition transport_built_in ::
  "text_crates \<Rightarrow> LoadedRoots \<Rightarrow> ip option \<Rightarrow> MonitorState \<Rightarrow> TransportContext res" where
  "transport_built_in T loaded pin network =
     and_then (with_loader loaded) (\<lambda>roots.
     and_then (resolver_built_in T) (\<lambda>resolver.
     Inr \<lparr>tc_roots = roots, tc_resolver = resolver, tc_pinned = pin, tc_network = network,
          tc_refresh = \<lparr>cr_wakeup = False, cr_last_request = None\<rparr>, tc_diagnostics = dial_default\<rparr>))"

text \<open>\<open>ech_mode_ok\<close>: whether \<open>with_ech\<close> accepts the configuration; \<open>server_name_ok\<close>: \<open>ServerName::try_from\<close>.\<close>

record tls_crates =
  ech_mode_ok :: "bytes \<Rightarrow> bool"
  server_name_ok :: "ustring \<Rightarrow> bool"

definition make_config :: "EchDialer \<Rightarrow> TrustSnapshot \<Rightarrow> ClientConfig" where
  "make_config d trust = \<lparr>cfg_ech = snd (ed_ech d), cfg_roots = ts_roots trust, cfg_alpn = [ed_alpn d],
     cfg_outer_alpn = [utf8 (ustr ''h2''), utf8 (ustr ''http/1.1'')]\<rparr>"

definition config_for :: "tls_crates \<Rightarrow> TrustSnapshot \<Rightarrow> EchDialer \<Rightarrow> ClientConfig res \<times> EchDialer" where
  "config_for K trust d =
     (let fresh =
        (if \<not> ech_mode_ok K (snd (ed_ech d)) then (Inl (Bail ''configure ECH-TLS''), d)
         else (Inr (make_config d trust), d\<lparr>ed_tls := Some (ts_generation trust, fst (ed_ech d), make_config d trust)\<rparr>)) in
      case ed_tls d of
        Some (generation, ech, config) \<Rightarrow>
          if generation = ts_generation trust \<and> ech = fst (ed_ech d) then (Inr config, d) else fresh
      | None \<Rightarrow> fresh)"

subsection \<open>One connection\<close>

text \<open>
  What one attempt meets: the host at the snapshot of the network, the name services, the order in which the connection
  attempts and delays end and how the attempts go, the handshake, the clock in milliseconds, and where it still waits when the time of
  the dial is over. Attempts that still run when the time is over are missing in the order.
\<close>

record tls_session =
  tls_13 :: bool
  tls_alpn :: "bytes option"
  tls_exporter :: "bytes option"

record dial_env =
  dv_host :: "host option"
  dv_now :: nat
  dv_dns :: dns_env
  dv_others :: "PrivateDnsResolver \<Rightarrow> PrivateDnsResolver"
  dv_system :: "socket_addr list res"
  dv_order :: "socket_addr option list"
  dv_bind_ok :: "ip \<Rightarrow> bool"
  dv_connect_ok :: "socket_addr \<Rightarrow> bool"
  dv_tls :: "ClientConfig \<Rightarrow> tls_failure + tls_session"
  dv_stalls :: "DialStage option"
  dv_clock :: "nat \<Rightarrow> nat"

definition resolve_addresses ::
  "text_crates \<Rightarrow> dns_crates \<Rightarrow> dial_env \<Rightarrow> NetworkSnapshot \<Rightarrow> ustring \<Rightarrow> u16 \<Rightarrow> PrivateDnsResolver
     \<Rightarrow> socket_addr list res \<times> PrivateDnsResolver" where
  "resolve_addresses T D env network hst prt r =
     (case dns_lookup T D (dv_dns env) (dv_others env) hst network r of
        (Inl e, r) \<Rightarrow> (Inl e, r)
      | (Inr (Some as), r) \<Rightarrow> (Inr (map (\<lambda>a. \<lparr>sa_ip = a, sa_port = prt\<rparr>) as), r)
      | (Inr None, r) \<Rightarrow> (dv_system env, r))"

text \<open>An attempt: the local address it leaves from, if bound.\<close>

definition connect_from :: "dial_env \<Rightarrow> NetworkSnapshot \<Rightarrow> socket_addr \<Rightarrow> ip option res" where
  "connect_from env network a =
     and_then (bind_tcp network (dv_bind_ok env) (sa_ip a)) (\<lambda>source. if dv_connect_ok env a then Inr source else Inl Io)"

definition connect_happy_eyeballs ::
  "dial_env \<Rightarrow> NetworkSnapshot \<Rightarrow> socket_addr list \<Rightarrow> (error + ip option \<times> socket_addr) option" where
  "connect_happy_eyeballs env network addrs =
     race_connects Io addrs (map (\<lambda>o'. case o' of Some a \<Rightarrow> Finished a (connect_from env network a) | None \<Rightarrow> DelayOver) (dv_order env))"

record dial_state =
  d_dialer :: EchDialer
  d_context :: TransportContext
  d_timings :: DialTimings

abbreviation clock_start :: "dial_env \<Rightarrow> nat \<Rightarrow> DialStage \<Rightarrow> dial_state \<Rightarrow> dial_state" where
  "clock_start env i stage s \<equiv> s\<lparr>d_timings := timings_start (dv_clock env i) stage (d_timings s)\<rparr>"

abbreviation clock_stop :: "dial_env \<Rightarrow> nat \<Rightarrow> dial_state \<Rightarrow> dial_state" where
  "clock_stop env i s \<equiv> s\<lparr>d_timings := timings_finish (dv_clock env i) (d_timings s)\<rparr>"

definition preferred_address :: "NetworkSnapshot \<Rightarrow> EchDialer \<Rightarrow> socket_addr option" where
  "preferred_address network d =
     (case ed_last_success d of Some (g, a) \<Rightarrow> if g = ns_generation network then Some a else None | None \<Rightarrow> None)"

text \<open>\<open>None\<close> is a dial that still waits; a connection is its local and its remote address and the generation of the network.\<close>

definition dial_tcp ::
  "text_crates \<Rightarrow> dns_crates \<Rightarrow> dial_env \<Rightarrow> dial_state \<Rightarrow> (error + ip option \<times> socket_addr \<times> u64) option \<times> dial_state" where
  "dial_tcp T D env s =
     (case network_snapshot (tc_pinned (d_context s)) (dv_host env) (dv_now env) (tc_network (d_context s)) of (network, m) \<Rightarrow>
      let s = clock_start env 0 Dns (s\<lparr>d_context := (d_context s)\<lparr>tc_network := m\<rparr>\<rparr>) in
      if dv_stalls env = Some Dns then (None, s)
      else case resolve_addresses T D env network (ed_server (d_dialer s)) (ed_port (d_dialer s)) (tc_resolver (d_context s)) of (resolved, r) \<Rightarrow>
        let s = clock_stop env 1 (s\<lparr>d_context := (d_context s)\<lparr>tc_resolver := r\<rparr>\<rparr>) in
        case resolved of
          Inl e \<Rightarrow> (Some (Inl e), s)
        | Inr addrs \<Rightarrow>
            let addrs = interleave_addresses (filter (\<lambda>a. supports network (sa_ip a)) addrs) (preferred_address network (d_dialer s));
                s = clock_start env 2 Tcp s in
            case connect_happy_eyeballs env network addrs of
              None \<Rightarrow> (None, s)
            | Some (Inl e) \<Rightarrow> (Some (Inl e), clock_stop env 3 s)
            | Some (Inr (source, a)) \<Rightarrow>
                (Some (Inr (source, a, ns_generation network)),
                 (clock_stop env 3 s)\<lparr>d_dialer := (d_dialer s)\<lparr>ed_last_success := Some (ns_generation network, a)\<rparr>\<rparr>))"

record EchConnection =
  ec_peer :: socket_addr
  ec_source :: "ip option"
  ec_config :: ClientConfig
  ec_session :: tls_session
  ec_exporter :: bytes
  ec_network_generation :: u64

definition accept_session :: "EchDialer \<Rightarrow> ip option \<times> socket_addr \<times> u64 \<Rightarrow> ClientConfig \<Rightarrow> tls_session \<Rightarrow> dial_failure + EchConnection" where
  "accept_session d tcp config session =
     (case tcp of (source, peer, generation) \<Rightarrow>
      if \<not> tls_13 session then Inl (Plain (Bail ''ECH transport did not negotiate TLS 1.3''))
      else if tls_alpn session \<noteq> Some (ed_alpn d) then Inl (Plain (Bail ''ECH transport negotiated an unexpected ALPN''))
      else case tls_exporter session of
        None \<Rightarrow> Inl (Plain (Bail ''export ECH-TLS identity material''))
      | Some material \<Rightarrow> Inr \<lparr>ec_peer = peer, ec_source = source, ec_config = config, ec_session = session,
          ec_exporter = material, ec_network_generation = generation\<rparr>)"

definition dial_once ::
  "text_crates \<Rightarrow> dns_crates \<Rightarrow> tls_crates \<Rightarrow> dial_env \<Rightarrow> TrustSnapshot \<Rightarrow> dial_state
     \<Rightarrow> (dial_failure + EchConnection) option \<times> dial_state" where
  "dial_once T D K env trust s =
     (case dial_tcp T D env s of
        (None, s) \<Rightarrow> (None, s)
      | (Some (Inl e), s) \<Rightarrow> (Some (Inl (Plain e)), s)
      | (Some (Inr tcp), s) \<Rightarrow>
          if \<not> server_name_ok K (ed_sni (d_dialer s)) then (Some (Inl (Plain (Bail ''ECH-TLS server name is invalid''))), s)
          else case config_for K trust (d_dialer s) of
            (Inl e, d) \<Rightarrow> (Some (Inl (Plain e)), s\<lparr>d_dialer := d\<rparr>)
          | (Inr config, d) \<Rightarrow>
              let s = clock_start env 4 Tls (s\<lparr>d_dialer := d\<rparr>) in
              if dv_stalls env = Some Tls then (None, s)
              else
                let s = clock_stop env 5 s in
                case dv_tls env config of
                  Inl f \<Rightarrow> (Some (Inl (TlsFailed f)), s)
                | Inr session \<Rightarrow> (Some (accept_session d tcp config session), s))"

subsection \<open>Retries\<close>

definition note_rejection :: "nat \<Rightarrow> (dial_failure + EchConnection) option \<Rightarrow> dial_state \<Rightarrow> dial_state" where
  "note_rejection now res s =
     (case res of
        Some (Inl e) \<Rightarrow> if ech_rejected e
          then s\<lparr>d_context := (d_context s)\<lparr>tc_refresh := snd (request_refresh now (tc_refresh (d_context s)))\<rparr>\<rparr> else s
      | _ \<Rightarrow> s)"

text \<open>The replacement configuration of the server is kept, and tried once.\<close>

definition dial_with_trust ::
  "text_crates \<Rightarrow> dns_crates \<Rightarrow> tls_crates \<Rightarrow> dial_env \<Rightarrow> dial_env \<Rightarrow> TrustSnapshot \<Rightarrow> dial_state
     \<Rightarrow> (dial_failure + EchConnection) option \<times> dial_state" where
  "dial_with_trust T D K env retry_env trust s =
     (case dial_once T D K env trust s of (res, s) \<Rightarrow>
      let s = note_rejection (dv_now env) res s in
      case res of
        Some (Inl e) \<Rightarrow>
          (case ech_retry_config T e of
             Some retry \<Rightarrow>
               dial_once T D K retry_env trust
                 (s\<lparr>d_dialer := (d_dialer s)\<lparr>ed_ech := (fst (ed_ech (d_dialer s)) + 1, retry)\<rparr>\<rparr>)
           | None \<Rightarrow> (res, s))
      | _ \<Rightarrow> (res, s))"

record inner_env =
  di_first :: dial_env
  di_first_retry :: dial_env
  di_second :: dial_env
  di_second_retry :: dial_env
  di_trust_now :: nat
  di_refresh_now :: nat
  di_running :: "LoadedRoots option"
  di_loaded :: "LoadedRoots option"

definition dial_inner ::
  "text_crates \<Rightarrow> dns_crates \<Rightarrow> tls_crates \<Rightarrow> inner_env \<Rightarrow> dial_state \<Rightarrow> (dial_failure + EchConnection) option \<times> dial_state" where
  "dial_inner T D K env s =
     (case trust_snapshot (di_trust_now env) (tc_roots (d_context s)) of (trust, roots) \<Rightarrow>
      case dial_with_trust T D K (di_first env) (di_first_retry env) trust (s\<lparr>d_context := (d_context s)\<lparr>tc_roots := roots\<rparr>\<rparr>) of (res, s) \<Rightarrow>
      case res of
        Some (Inl e) \<Rightarrow>
          if unknown_issuer e then
            (case trust_refresh (di_refresh_now env) (di_running env) (di_loaded env) (ts_generation trust) (tc_roots (d_context s)) of
               (refreshed, roots) \<Rightarrow>
                 let s = s\<lparr>d_context := (d_context s)\<lparr>tc_roots := roots\<rparr>\<rparr> in
                 if ts_generation refreshed \<noteq> ts_generation trust
                 then dial_with_trust T D K (di_second env) (di_second_retry env) refreshed s
                 else (res, s))
          else (res, s)
      | _ \<Rightarrow> (res, s))"

text \<open>The dial as the client sees it: times in milliseconds for the timings, \<open>unix\<close> in seconds for the diagnostics.\<close>

definition dial ::
  "text_crates \<Rightarrow> dns_crates \<Rightarrow> tls_crates \<Rightarrow> (error \<Rightarrow> ErrorKind) \<Rightarrow> inner_env \<Rightarrow> nat \<Rightarrow> nat \<Rightarrow> nat \<Rightarrow> EchDialer \<times> TransportContext
     \<Rightarrow> (dial_failure + EchConnection) \<times> EchDialer \<times> TransportContext" where
  "dial T D K other env started ended unix dc =
     (case dial_inner T D K env \<lparr>d_dialer = fst dc, d_context = snd dc, d_timings = timings_default\<rparr> of (res, s) \<Rightarrow>
      let res = (case res of Some res \<Rightarrow> res | None \<Rightarrow> Inl (Plain (TimedOut ''ECH-TLS node connection timed out'')));
          t = (timings_finish ended (d_timings s))\<lparr>total_ms := min (ended - started) (2 ^ 64 - 1)\<rparr>;
          outcome = (case res of Inl e \<Rightarrow> Some (failure_kind other e) | Inr _ \<Rightarrow> None) in
      (res, (d_dialer s)\<lparr>ed_diagnostics := node_record unix outcome t (ed_diagnostics (d_dialer s))\<rparr>,
       (d_context s)\<lparr>tc_diagnostics := dial_record unix outcome (tc_diagnostics (d_context s))\<rparr>))"


subsection \<open>A dial stays with its configuration\<close>

text \<open>The cached TLS configuration is older than the anchors and the ECH configuration in force, or made from them.\<close>

definition tls_inv :: "EchDialer \<Rightarrow> TrustSnapshot \<Rightarrow> bool" where
  "tls_inv d t =
     (case ed_tls d of None \<Rightarrow> True
      | Some (g, i, c) \<Rightarrow> g \<le> ts_generation t \<and> i \<le> fst (ed_ech d)
          \<and> (g = ts_generation t \<and> i = fst (ed_ech d) \<longrightarrow> c = make_config d t))"

lemma tls_inv_other [simp]:
  "tls_inv (d\<lparr>ed_last_success := l\<rparr>) t = tls_inv d t" "tls_inv (d\<lparr>ed_diagnostics := n\<rparr>) t = tls_inv d t"
  "make_config (d\<lparr>ed_last_success := l\<rparr>) t = make_config d t" "make_config (d\<lparr>ed_diagnostics := n\<rparr>) t = make_config d t"
  "make_config (d\<lparr>ed_tls := x\<rparr>) t = make_config d t"
  by (simp_all add: tls_inv_def make_config_def split: option.split)

lemma tls_inv_ech: "tls_inv d t \<Longrightarrow> tls_inv (d\<lparr>ed_ech := (fst (ed_ech d) + 1, c)\<rparr>) t"
  by (auto simp: tls_inv_def split: option.splits)

lemma tls_inv_follows:
  assumes "tls_inv d (tr_snapshot r)" "trust_follows r r'"
  shows "tls_inv d (tr_snapshot r')"
proof -
  have "make_config d (tr_snapshot r') = make_config d (tr_snapshot r)"
    if "ts_generation (tr_snapshot r') = ts_generation (tr_snapshot r)"
    using assms(2) that by (simp add: trust_follows_def make_config_def)
  then show ?thesis using assms by (auto simp: tls_inv_def trust_follows_def split: option.splits)
qed

lemma config_for_current:
  assumes "config_for K t d = (res, d')" "tls_inv d t"
  shows "tls_inv d' t \<and> (\<exists>x. d' = d\<lparr>ed_tls := x\<rparr>) \<and> (case res of Inr c \<Rightarrow> c = make_config d t | Inl _ \<Rightarrow> True)"
proof -
  have "d = d\<lparr>ed_tls := ed_tls d\<rparr>" by simp
  then have "\<exists>x. d = d\<lparr>ed_tls := x\<rparr>" by blast
  then show ?thesis using assms by (auto simp: config_for_def Let_def tls_inv_def split: option.splits if_splits)
qed

lemma race_loop_won: "race_loop none evs r = (Some (Inr (t, a)), r') \<Longrightarrow> Finished a (Inr t) \<in> set evs"
proof (induction none evs r rule: race_loop.induct)
  case (2 none ev evs r)
  obtain res r1 where s: "race_step none ev r = (res, r1)" by fastforce
  show ?case
  proof (cases res)
    case None
    then show ?thesis using 2 s by simp
  next
    case (Some x)
    then have "x = Inr (t, a)" using 2(2) s by simp
    then show ?thesis using Some s by (auto simp: race_step_def Let_def split: race_event.splits sum.splits prod.splits if_splits)
  qed
qed simp

lemma connect_source:
  assumes "connect_happy_eyeballs env network addrs = Some (Inr (source, a))"
  shows "bind_tcp network (dv_bind_ok env) (sa_ip a) = Inr source"
proof -
  let ?evs = "map (\<lambda>o'. case o' of Some a \<Rightarrow> Finished a (connect_from env network a) | None \<Rightarrow> DelayOver) (dv_order env)"
  obtain r res r' where "race_loop Io ?evs r = (Some (Inr (source, a)), r')"
    using assms unfolding connect_happy_eyeballs_def race_connects_def
    by (auto split: prod.splits bool.splits) (metis fst_conv old.prod.exhaust)
  from race_loop_won [OF this] have "connect_from env network a = Inr source" by (auto split: option.splits)
  then show ?thesis by (auto simp: connect_from_def res_simps split: if_splits)
qed


definition follows_network :: "TransportContext \<Rightarrow> TransportContext \<Rightarrow> bool" where
  "follows_network c c' \<longleftrightarrow> tc_pinned c' = tc_pinned c
     \<and> (monitor_run (tc_pinned c) (tc_network c) \<longrightarrow> monitor_run (tc_pinned c') (tc_network c'))"

lemma follows_network_refl [simp]: "follows_network c c"
  "follows_network c (c'\<lparr>tc_roots := r\<rparr>) = follows_network c c'" "follows_network c (c'\<lparr>tc_resolver := v\<rparr>) = follows_network c c'"
  "follows_network c (c'\<lparr>tc_refresh := f\<rparr>) = follows_network c c'" "follows_network c (c'\<lparr>tc_diagnostics := g\<rparr>) = follows_network c c'"
  "follows_network (c\<lparr>tc_roots := r\<rparr>) c' = follows_network c c'"
  by (simp_all add: follows_network_def)

lemma follows_network_trans: "follows_network a b \<Longrightarrow> follows_network b c \<Longrightarrow> follows_network a c"
  by (auto simp: follows_network_def)

lemma dial_tcp_keeps:
  assumes "dial_tcp T D env s = (res, s')"
  shows "(\<exists>l. d_dialer s' = (d_dialer s)\<lparr>ed_last_success := l\<rparr>) \<and> tc_roots (d_context s') = tc_roots (d_context s)
    \<and> tc_refresh (d_context s') = tc_refresh (d_context s) \<and> follows_network (d_context s) (d_context s')"
proof -
  obtain n m where n: "network_snapshot (tc_pinned (d_context s)) (dv_host env) (dv_now env) (tc_network (d_context s)) = (n, m)" by fastforce
  have f: "follows_network (d_context s) ((d_context s)\<lparr>tc_network := m\<rparr>)"
    using monitor_run.snapshot [OF _ n] by (simp add: follows_network_def)
  have "d_dialer s = (d_dialer s)\<lparr>ed_last_success := ed_last_success (d_dialer s)\<rparr>" by simp
  then have "\<exists>l. d_dialer s = (d_dialer s)\<lparr>ed_last_success := l\<rparr>" by blast
  then show ?thesis using assms f
    by (auto simp: dial_tcp_def n Let_def split: if_splits prod.splits sum.splits option.splits)
qed

lemma dial_tcp_pinned:
  assumes "dial_tcp T D env s = (Some (Inr (source, a, g)), s')" "tc_pinned (d_context s) = Some p"
    "monitor_run (Some p) (tc_network (d_context s))"
  shows "source = Some p"
proof -
  obtain n m where n: "network_snapshot (Some p) (dv_host env) (dv_now env) (tc_network (d_context s)) = (n, m)" by fastforce
  have sel: "pinned_only p (ns_selection n)" "ns_pinned n = Some p"
    using monitor_run_pinned [OF monitor_run.snapshot [OF assms(3) n]] network_snapshot_fields [OF n] by simp_all
  obtain addrs where "connect_happy_eyeballs env n addrs = Some (Inr (source, a))"
    using assms(1,2) by (auto simp: dial_tcp_def n Let_def split: if_splits prod.splits sum.splits option.splits)
  from connect_source [OF this] show ?thesis using sel
    by (auto simp: bind_tcp_def source_for_def pinned_only_def split: option.splits if_splits)
qed

text \<open>What a connection is: negotiated as required, with the configuration in force, from the pinned address.\<close>

definition verified :: "EchDialer \<Rightarrow> TrustSnapshot \<Rightarrow> ip option \<Rightarrow> EchConnection \<Rightarrow> bool" where
  "verified d t pin conn \<longleftrightarrow>
     tls_13 (ec_session conn) \<and> tls_alpn (ec_session conn) = Some (ed_alpn d) \<and> tls_exporter (ec_session conn) = Some (ec_exporter conn)
     \<and> ec_config conn = make_config d t \<and> (case pin of Some p \<Rightarrow> ec_source conn = Some p | None \<Rightarrow> True)"

lemma dial_once_verified:
  assumes "dial_once T D K env t s = (res, s')" "tls_inv (d_dialer s) t" "monitor_run (tc_pinned (d_context s)) (tc_network (d_context s))"
  shows "tls_inv (d_dialer s') t \<and> ed_alpn (d_dialer s') = ed_alpn (d_dialer s) \<and> ed_ech (d_dialer s') = ed_ech (d_dialer s)
    \<and> tc_roots (d_context s') = tc_roots (d_context s) \<and> follows_network (d_context s) (d_context s')
    \<and> (case res of Some (Inr conn) \<Rightarrow> verified (d_dialer s') t (tc_pinned (d_context s)) conn | _ \<Rightarrow> True)"
proof -
  obtain tres s1 where t: "dial_tcp T D env s = (tres, s1)" by fastforce
  note k = dial_tcp_keeps [OF t]
  then have i: "tls_inv (d_dialer s1) t" "ed_alpn (d_dialer s1) = ed_alpn (d_dialer s)" "ed_ech (d_dialer s1) = ed_ech (d_dialer s)"
    using assms(2) by auto
  show ?thesis
  proof (cases "\<exists>tcp. tres = Some (Inr tcp)")
    case False
    then have "s' = s1" "\<nexists>c. res = Some (Inr c)"
      using assms(1) t by (auto simp: dial_once_def split: option.splits sum.splits)
    then show ?thesis using k i by (auto split: option.splits sum.splits)
  next
    case True
    then obtain source a g where tcp: "tres = Some (Inr (source, a, g))" by auto
    have pin: "case tc_pinned (d_context s) of Some p \<Rightarrow> source = Some p | None \<Rightarrow> True"
      using dial_tcp_pinned [OF t [unfolded tcp]] assms(3) by (auto split: option.split)
    obtain cres d where c: "config_for K t (d_dialer s1) = (cres, d)" by fastforce
    note cf = config_for_current [OF c i(1)]
    then have d: "tls_inv d t" "ed_alpn d = ed_alpn (d_dialer s)" "ed_ech d = ed_ech (d_dialer s)" "make_config d t = make_config (d_dialer s1) t"
      using i by auto
    have "d_dialer s' \<in> {d_dialer s1, d} \<and> d_context s' = d_context s1
      \<and> (case res of Some (Inr conn) \<Rightarrow> d_dialer s' = d \<and> (\<exists>config session. cres = Inr config
           \<and> accept_session d (source, a, g) config session = Inr conn) | _ \<Rightarrow> True)"
      using assms(1) t tcp c by (auto simp: dial_once_def Let_def split: if_splits sum.splits option.splits)
    then show ?thesis using k i d cf pin
      by (auto simp: verified_def accept_session_def split: option.splits sum.splits if_splits)
  qed
qed


text \<open>The state a dial with given anchors keeps, and the one it leaves.\<close>

definition dial_kept :: "dial_state \<Rightarrow> dial_state \<Rightarrow> TrustSnapshot \<Rightarrow> bool" where
  "dial_kept s s' t \<longleftrightarrow> tls_inv (d_dialer s') t \<and> ed_alpn (d_dialer s') = ed_alpn (d_dialer s)
     \<and> tc_roots (d_context s') = tc_roots (d_context s) \<and> follows_network (d_context s) (d_context s')"

definition dial_verified :: "dial_state \<Rightarrow> TrustSnapshot \<Rightarrow> (dial_failure + EchConnection) option \<Rightarrow> bool" where
  "dial_verified s t res =
     (case res of Some (Inr conn) \<Rightarrow> verified (d_dialer s) t (tc_pinned (d_context s)) conn | _ \<Rightarrow> True)"

lemma dial_once_kept:
  assumes "dial_once T D K env t s = (res, s')" "tls_inv (d_dialer s) t" "monitor_run (tc_pinned (d_context s)) (tc_network (d_context s))"
  shows "dial_kept s s' t \<and> dial_verified s' t res"
proof -
  note v = dial_once_verified [OF assms]
  then have pin: "tc_pinned (d_context s') = tc_pinned (d_context s)" by (simp add: follows_network_def)
  show ?thesis using v unfolding dial_kept_def dial_verified_def pin by blast
qed

lemma note_rejection_kept [simp]:
  "d_dialer (note_rejection now res s) = d_dialer s" "tc_roots (d_context (note_rejection now res s)) = tc_roots (d_context s)"
  "tc_pinned (d_context (note_rejection now res s)) = tc_pinned (d_context s)"
  "tc_network (d_context (note_rejection now res s)) = tc_network (d_context s)"
  by (simp_all add: note_rejection_def split: option.split sum.split)

lemma follows_network_note [simp]: "follows_network c (d_context (note_rejection now res s)) = follows_network c (d_context s)"
  by (simp add: follows_network_def)

lemma dial_verified_note [simp]: "dial_verified (note_rejection now res s) t x = dial_verified s t x"
  by (simp only: dial_verified_def note_rejection_kept)

lemma dial_with_trust_kept:
  assumes "dial_with_trust T D K env env2 t s = (res, s')" "tls_inv (d_dialer s) t"
    "monitor_run (tc_pinned (d_context s)) (tc_network (d_context s))"
  shows "dial_kept s s' t \<and> dial_verified s' t res"
proof -
  obtain res1 s1 where o: "dial_once T D K env t s = (res1, s1)" by fastforce
  note k = dial_once_kept [OF o assms(2,3)]
  show ?thesis
  proof (cases "\<exists>e retry. res1 = Some (Inl e) \<and> ech_retry_config T e = Some retry")
    case True
    then obtain e retry where e: "res1 = Some (Inl e)" "ech_retry_config T e = Some retry" by blast
    let ?s2 = "(note_rejection (dv_now env) res1 s1)\<lparr>d_dialer := (d_dialer s1)\<lparr>ed_ech := (fst (ed_ech (d_dialer s1)) + 1, retry)\<rparr>\<rparr>"
    have again: "dial_once T D K env2 t ?s2 = (res, s')"
      using assms(1) o e by (simp add: dial_with_trust_def Let_def)
    have "tls_inv (d_dialer ?s2) t" using k tls_inv_ech [of "d_dialer s1" t retry] by (simp add: dial_kept_def)
    moreover have "monitor_run (tc_pinned (d_context ?s2)) (tc_network (d_context ?s2))"
      using k assms(3) by (auto simp: dial_kept_def follows_network_def)
    ultimately have "dial_kept ?s2 s' t \<and> dial_verified s' t res" by (rule dial_once_kept [OF again])
    then show ?thesis using k by (auto simp: dial_kept_def follows_network_def)
  next
    case False
    then have "res = res1" "s' = note_rejection (dv_now env) res1 s1"
      using assms(1) o by (auto simp: dial_with_trust_def Let_def split: option.splits sum.splits)
    then show ?thesis using k by (simp add: dial_kept_def)
  qed
qed

lemma dial_inner_kept:
  assumes "dial_inner T D K env s = (res, s')" "tls_inv (d_dialer s) (tr_snapshot (tc_roots (d_context s)))"
    "monitor_run (tc_pinned (d_context s)) (tc_network (d_context s))"
  shows "tls_inv (d_dialer s') (tr_snapshot (tc_roots (d_context s')))
    \<and> ed_alpn (d_dialer s') = ed_alpn (d_dialer s) \<and> trust_follows (tc_roots (d_context s)) (tc_roots (d_context s'))
    \<and> follows_network (d_context s) (d_context s') \<and> dial_verified s' (tr_snapshot (tc_roots (d_context s'))) res"
proof -
  obtain t roots where t: "trust_snapshot (di_trust_now env) (tc_roots (d_context s)) = (t, roots)" by fastforce
  then have t': "t = tr_snapshot (tc_roots (d_context s))" "tr_snapshot roots = t"
    by (auto simp: trust_snapshot_def start_reload_def)
  have f: "trust_follows (tc_roots (d_context s)) roots" using t by (auto simp: trust_snapshot_def)
  let ?s0 = "s\<lparr>d_context := (d_context s)\<lparr>tc_roots := roots\<rparr>\<rparr>"
  obtain res1 s1 where w: "dial_with_trust T D K (di_first env) (di_first_retry env) t ?s0 = (res1, s1)" by fastforce
  have "dial_kept ?s0 s1 t \<and> dial_verified s1 t res1"
    using assms(2,3) t' by (intro dial_with_trust_kept [OF w]) simp_all
  then have k: "dial_kept ?s0 s1 t" "dial_verified s1 t res1" by simp_all
  then have r1: "tc_roots (d_context s1) = roots" and net: "follows_network (d_context s) (d_context s1)" by (simp_all add: dial_kept_def)
  show ?thesis
  proof (cases "\<exists>e. res1 = Some (Inl e) \<and> unknown_issuer e")
    case False
    then have "res = res1" "s' = s1" using assms(1) t w by (auto simp: dial_inner_def split: option.splits sum.splits if_splits)
    then show ?thesis using k f r1 net t' by (auto simp: dial_kept_def)
  next
    case True
    obtain t2 roots2 where r: "trust_refresh (di_refresh_now env) (di_running env) (di_loaded env) (ts_generation t) roots = (t2, roots2)" by fastforce
    note rf = trust_refresh_follows [OF r]
    let ?s2 = "s1\<lparr>d_context := (d_context s1)\<lparr>tc_roots := roots2\<rparr>\<rparr>"
    have inv2: "tls_inv (d_dialer ?s2) t2" using tls_inv_follows [of "d_dialer s1" roots roots2] k(1) rf t' by (simp add: dial_kept_def)
    have f2: "trust_follows (tc_roots (d_context s)) roots2" using trust_follows_trans [OF f] rf by blast
    have "(if ts_generation t2 \<noteq> ts_generation t then dial_with_trust T D K (di_second env) (di_second_retry env) t2 ?s2 else (res1, ?s2)) = (res, s')"
      using assms(1) t w r r1 True by (auto simp: dial_inner_def Let_def)
    then show ?thesis
    proof (cases "ts_generation t2 \<noteq> ts_generation t")
      case True
      then have "dial_with_trust T D K (di_second env) (di_second_retry env) t2 ?s2 = (res, s')"
        using \<open>(if _ then _ else _) = _\<close> by simp
      moreover have "monitor_run (tc_pinned (d_context ?s2)) (tc_network (d_context ?s2))"
        using net assms(3) by (auto simp: follows_network_def)
      ultimately have "dial_kept ?s2 s' t2 \<and> dial_verified s' t2 res" using inv2 by (intro dial_with_trust_kept)
      then show ?thesis using rf f2 net k(1) follows_network_trans by (auto simp: dial_kept_def)
    next
      case False
      then have "res = res1" "s' = ?s2" using \<open>(if _ then _ else _) = _\<close> by simp_all
      then show ?thesis using inv2 rf f2 net k(1) True by (auto simp: dial_kept_def dial_verified_def)
    qed
  qed
qed


subsection \<open>Properties of a dial\<close>



subsection \<open>Examples\<close>

definition addr4 :: "nat \<Rightarrow> socket_addr" where "addr4 n = \<lparr>sa_ip = V4 (of_nat n), sa_port = 443\<rparr>"
definition addr6 :: "nat \<Rightarrow> socket_addr" where "addr6 n = \<lparr>sa_ip = V6 (of_nat n), sa_port = 443\<rparr>"

lemma addr_simps [simp]: "addr_ipv4 (addr4 n)" "\<not> addr_ipv4 (addr6 n)" "addr4 n \<noteq> addr6 m" "addr6 m \<noteq> addr4 n"
  by (simp_all add: addr4_def addr6_def)

theorem race_ends_with_every_address_tried_witness:
  "race_connects (0 :: nat) [addr4 1, addr6 1] [DelayOver, Finished (addr4 1) (Inl 5), Finished (addr6 1) (Inl 6 :: nat + unit)] = Some (Inl 6)
   \<and> set [addr4 1, addr6 1] \<subseteq> {a. \<exists>e. Finished a (Inl e) \<in> set [DelayOver, Finished (addr4 1) (Inl 5), Finished (addr6 1) (Inl 6 :: nat + unit)]}"
proof -
  let ?evs = "[DelayOver, Finished (addr4 1) (Inl 5), Finished (addr6 1) (Inl 6 :: nat + unit)]"
  have run: "race_run (0 :: nat) ?evs (race_start [addr4 1, addr6 1])"
    by (simp add: race_start_def race_defs)
  have res: "race_connects (0 :: nat) [addr4 1, addr6 1] ?evs = Some (Inl 6)"
    by (simp add: race_connects_def race_defs)
  show ?thesis using race_ends_with_every_address_tried [OF _ run, of "Inl 0"] res by simp
qed

lemma addresses_take_turns_witness:
  "hd (interleave_addresses [addr4 3, addr4 2, addr6 4, addr4 3] (Some (addr6 4))) = addr6 4
   \<and> distinct (interleave_addresses [addr4 3, addr4 2, addr6 4, addr4 3] (Some (addr6 4)))"
proof -
  let ?l = "[addr4 3, addr4 2, addr6 4, addr4 3]"
  note turns = addresses_take_turns [of ?l "Some (addr6 4)" 0, unfolded Let_def option.case]
  have "addr6 4 \<in> set ?l" by simp
  then show ?thesis using turns by blast
qed

definition sample_dial_env :: dial_env where
  "sample_dial_env = \<lparr>dv_host = Some sample_host, dv_now = 2, dv_dns = sample_dns_env 2, dv_others = id, dv_system = Inr [addr4 9],
     dv_order = [Some (addr4 9)], dv_bind_ok = (\<lambda>_. True), dv_connect_ok = (\<lambda>_. True),
     dv_tls = (\<lambda>_. Inr \<lparr>tls_13 = True, tls_alpn = Some [1], tls_exporter = Some [7]\<rparr>), dv_stalls = None, dv_clock = id\<rparr>"

definition sample_inner :: inner_env where
  "sample_inner = \<lparr>di_first = sample_dial_env, di_first_retry = sample_dial_env, di_second = sample_dial_env, di_second_retry = sample_dial_env,
     di_trust_now = 2, di_refresh_now = 2, di_running = None, di_loaded = None\<rparr>"

definition sample_dialer :: EchDialer where
  "sample_dialer = \<lparr>ed_server = ustr ''node'', ed_sni = ustr ''node'', ed_port = 443, ed_alpn = [1], ed_timeout = 5, ed_tls = None,
     ed_ech = (0, [0, 2, 1, 1]), ed_last_success = None, ed_diagnostics = node_default\<rparr>"

definition sample_transport :: TransportContext where
  "sample_transport = \<lparr>tc_roots = sample_store, tc_resolver = sample_resolver, tc_pinned = Some sample_ip, tc_network = sample_monitor,
     tc_refresh = \<lparr>cr_wakeup = False, cr_last_request = None\<rparr>, tc_diagnostics = dial_default\<rparr>"

definition sample_tls :: tls_crates where
  "sample_tls = \<lparr>ech_mode_ok = (\<lambda>_. True), server_name_ok = (\<lambda>_. True)\<rparr>"

lemma sample_snapshot:
  "network_snapshot (Some sample_ip) h 2 sample_monitor
     = (\<lparr>ns_selection = ms_selection sample_monitor, ns_pinned = Some sample_ip, ns_generation = 1\<rparr>, sample_monitor)"
  by (simp add: network_snapshot_def sample_monitor_selection REFRESH_INTERVAL_def)

lemma sample_resolve:
  "resolve_addresses sample_text sample_dns sample_dial_env n (ustr ''node'') p sample_resolver = (Inr [addr4 9], sample_resolver)"
proof -
  have "\<not> matches_dns_suffix sample_text (normalize_dns_name sample_text (ustr ''node'')) PRIVATE_DNS_SUFFIX" by code_simp
  then show ?thesis by (simp add: resolve_addresses_def dns_lookup_def sample_resolver_def sample_dial_env_def Let_def)
qed

lemma sample_connect:
  "connect_happy_eyeballs sample_dial_env \<lparr>ns_selection = ms_selection sample_monitor, ns_pinned = Some sample_ip, ns_generation = 1\<rparr> [addr4 9]
     = Some (Inr (Some sample_ip, addr4 9))"
  by (simp add: connect_happy_eyeballs_def race_connects_def race_defs sample_dial_env_def connect_from_def bind_tcp_def source_for_def
      sample_monitor_selection addr4_def sample_ip_def)

lemma sample_tcp:
  assumes "d_dialer s = sample_dialer" "d_context s = sample_transport\<lparr>tc_roots := r\<rparr>"
  obtains s' where "dial_tcp sample_text sample_dns sample_dial_env s = (Some (Inr (Some sample_ip, addr4 9, 1)), s')"
    "d_dialer s' = sample_dialer\<lparr>ed_last_success := Some (1, addr4 9)\<rparr>"
proof -
  have sup: "supports \<lparr>ns_selection = ms_selection sample_monitor, ns_pinned = Some sample_ip, ns_generation = 1\<rparr> (sa_ip (addr4 9))"
    by (simp add: supports_def source_for_def sample_monitor_selection addr4_def)
  have "interleave_addresses [addr4 9] None = [addr4 9]" by (simp add: interleave_addresses_def move_first_def)
  then show thesis using that assms sup sample_connect
    by (simp add: dial_tcp_def sample_transport_def sample_snapshot sample_dialer_def sample_resolve preferred_address_def Let_def
        sample_dial_env_def [THEN arg_cong, of dv_stalls] sample_dial_env_def [THEN arg_cong, of dv_now])
qed



end
