(* ===== verification/Service.thy ===== *)
theory Service
  imports Ech_Dialer
begin

text \<open>
  The running service: the loop of \<open>run_serve\<close> in \<open>src/cli.rs\<close> and the control channel of \<open>src/control.rs\<close>, with the
  commands, both ends of the channel and the socket. Commands, periodic refreshes and the sessions of the proxies are steps of
  one machine.
\<close>

subsection \<open>Commands\<close>

datatype Command = RefreshNodes | RefreshProvider | ReloadConfig | DiagnosticsCommand

record Response =
  resp_ok :: bool
  resp_message :: string
  resp_error :: "ErrorKind option"
  resp_payload :: Value

definition response_success :: "string \<Rightarrow> Value \<Rightarrow> Response" where
  "response_success message payload = \<lparr>resp_ok = True, resp_message = message, resp_error = None, resp_payload = payload\<rparr>"

definition response_failure :: "string \<Rightarrow> ErrorKind \<Rightarrow> Response" where
  "response_failure message err = \<lparr>resp_ok = False, resp_message = message, resp_error = Some err, resp_payload = JNull\<rparr>"

subsection \<open>The loop\<close>

record AcceptSettings =
  as_handshake_timeout :: nat
  as_tcp_idle_timeout :: nat
  as_udp_idle_timeout :: nat
  as_max_connections :: nat

definition accept_settings :: "RuntimeConfig \<Rightarrow> AcceptSettings" where
  "accept_settings rt = \<lparr>as_handshake_timeout = max (request_timeout rt) (45 * 1000000000), as_tcp_idle_timeout = tcp_idle_timeout rt,
     as_udp_idle_timeout = udp_idle_timeout rt, as_max_connections = max_client_connections rt\<rparr>"

record service_loop =
  sl_catalog :: CatalogService
  sl_settings :: AcceptSettings
  sl_interval :: nat
  sl_started :: nat

text \<open>What a step of the loop meets: the surroundings of the catalog, and what the status documents show.\<close>

record ('d, 'v) loop_env =
  le_catalog :: "('d, 'v) catalog_env"
  le_version :: string
  le_process :: Value
  le_transport :: Value
  le_nodes :: "nat \<Rightarrow> NodeState"

definition loop_start :: "crypto \<Rightarrow> text_crates \<Rightarrow> ('d, 'v) loop_env \<Rightarrow> bool \<Rightarrow> cache_files \<Rightarrow> service_loop res" where
  "loop_start X T env disable_filter fs =
     and_then (start_service X T (le_catalog env) disable_filter fs) (\<lambda>c.
     Inr \<lparr>sl_catalog = c, sl_settings = accept_settings (pc_runtime (cs_service c)),
          sl_interval = pc_node_refresh_interval (cs_service c), sl_started = ce_now (le_catalog env)\<rparr>)"

definition loop_status :: "('d, 'v) loop_env \<Rightarrow> service_loop \<Rightarrow> Value" where
  "loop_status env s = manager_status (le_version env) (ce_now (le_catalog env)) (le_transport env) (le_nodes env) (cs_manager (sl_catalog s))"

datatype loop_event = Asked Command bool | Tick | RefreshNotified

text \<open>
  One turn of the loop. A request whose reply is no longer waited for is dropped; the bool of \<open>Asked\<close> says that
  somebody still waits.
\<close>

definition loop_refresh ::
  "crypto \<Rightarrow> text_crates \<Rightarrow> ('d, 'v) loop_env \<Rightarrow> Command option \<Rightarrow> service_loop \<Rightarrow> unit res \<times> service_loop" where
  "loop_refresh X T env cmd s =
     (let reloading = (cmd = Some ReloadConfig);
          (result, c) = (if reloading then reload X T (le_catalog env) (sl_catalog s)
                         else refresh_with_policy X T (le_catalog env) (cmd = Some RefreshProvider) (sl_catalog s));
          s = s\<lparr>sl_catalog := c\<rparr> in
      (result,
       if reloading \<and> is_ok result
       then s\<lparr>sl_settings := accept_settings (pc_runtime (cs_service c)), sl_interval := pc_node_refresh_interval (cs_service c)\<rparr>
       else s))"

definition loop_response :: "('d, 'v) loop_env \<Rightarrow> Command \<Rightarrow> unit res \<Rightarrow> service_loop \<Rightarrow> Response" where
  "loop_response env cmd result s =
     (case result of
        Inr _ \<Rightarrow> response_success (if cmd = ReloadConfig then ''configuration reloaded'' else ''node catalog refreshed'')
                   (if cmd = RefreshProvider then JNull else loop_status env s)
      | Inl e \<Rightarrow> response_failure
          (if cmd = ReloadConfig
           then ''reload failed; active configuration retained; check config validity and restart-only fields''
           else ''refresh failed; previous catalog retained'')
          (classify (other_errors (ce_api (le_catalog env))) e))"

definition loop_step ::
  "crypto \<Rightarrow> text_crates \<Rightarrow> ('d, 'v) loop_env \<Rightarrow> loop_event \<Rightarrow> service_loop \<Rightarrow> Response option \<times> service_loop" where
  "loop_step X T env ev s =
     (case ev of
        Asked cmd waited \<Rightarrow>
          if \<not> waited then (None, s)
          else if cmd = DiagnosticsCommand
          then (Some (response_success ''sanitized diagnostic bundle''
                  (service_bundle (le_process env) (le_version env) (sl_started s) (ce_now (le_catalog env)) (le_transport env)
                     (le_nodes env) (sl_catalog s))), s)
          else (case loop_refresh X T env (Some cmd) s of (result, s) \<Rightarrow> (Some (loop_response env cmd result s), s))
      | _ \<Rightarrow> (None, snd (loop_refresh X T env None s)))"

subsection \<open>The control channel\<close>

definition REQUEST_LIMIT :: nat where "REQUEST_LIMIT = 4096"

definition RESPONSE_LIMIT :: nat where "RESPONSE_LIMIT = 8388608"

text \<open>\<open>take\<close> and \<open>read_until\<close> over the bytes that arrive: up to the line feed, or the limit and one more.\<close>

definition read_line :: "nat \<Rightarrow> bytes \<Rightarrow> bytes" where
  "read_line limit input =
     (let input = take (limit + 1) input; l = takeWhile (\<lambda>b. b \<noteq> 10) input in
      if length l < length input then l @ [10] else l)"

definition whole_line :: "nat \<Rightarrow> bytes \<Rightarrow> bool" where
  "whole_line limit l \<longleftrightarrow> length l \<le> limit \<and> l \<noteq> [] \<and> last l = 10"

text \<open>
  How the service answers a command: the queue refuses it, or the loop serves it, in time or too late, or never: then the
  request was dropped (the bool), or nobody waited long enough. The codec stands for \<open>serde_json\<close> on the wire types.
\<close>

datatype 'e delivery = QueueBusy | Served 'e bool | Unserved bool

record control_codec =
  json_command :: "bytes \<Rightarrow> Command option"
  command_json :: "Command \<Rightarrow> bytes option"
  json_response :: "bytes \<Rightarrow> Response option"
  response_json :: "Response \<Rightarrow> bytes option"
  value_json :: "Value \<Rightarrow> bytes option"

text \<open>
  What the control channel relies on: compact documents contain no line feed, white space after a document is ignored, documents
  read back, and the variant for forced refreshes is skipped.
\<close>

definition control_laws :: "control_codec \<Rightarrow> bool" where
  "control_laws J \<longleftrightarrow>
     (\<forall>b. json_command J b \<noteq> Some RefreshProvider)
     \<and> (\<forall>c b. command_json J c = Some b \<longrightarrow> 10 \<notin> set b \<and> length b < 64 \<and> json_command J (b @ [10]) = Some c)
     \<and> (\<forall>c. c \<noteq> RefreshProvider \<longrightarrow> command_json J c \<noteq> None)
     \<and> (\<forall>r b. response_json J r = Some b \<longrightarrow> 10 \<notin> set b \<and> json_response J (b @ [10]) = Some r)"

definition deliver ::
  "crypto \<Rightarrow> text_crates \<Rightarrow> ('d, 'v) loop_env delivery \<Rightarrow> Command \<Rightarrow> service_loop \<Rightarrow> Response option option \<times> service_loop" where
  "deliver X T dl cmd s =
     (case dl of
        QueueBusy \<Rightarrow> (None, s)
      | Unserved _ \<Rightarrow> (Some None, s)
      | Served env in_time \<Rightarrow>
          (case loop_step X T env (Asked cmd True) s of (r, s) \<Rightarrow> (Some (if in_time then r else None), s)))"

definition control_answer ::
  "crypto \<Rightarrow> text_crates \<Rightarrow> control_codec \<Rightarrow> ('d, 'v) loop_env delivery \<Rightarrow> bytes \<Rightarrow> service_loop \<Rightarrow> Response \<times> service_loop" where
  "control_answer X T J dl line s =
     (case json_command J line of
        None \<Rightarrow> (response_failure ''invalid control command'' InvalidResponse, s)
      | Some cmd \<Rightarrow>
          (case deliver X T dl cmd s of
             (None, s) \<Rightarrow> (response_failure ''service control queue is busy'' Other, s)
           | (Some (Some r), s) \<Rightarrow> (r, s)
           | (Some None, s) \<Rightarrow> (response_failure ''service control operation unavailable or timed out'' Timeout, s)))"

text \<open>A request that does not arrive in time is not answered; an answer that is not taken in time may be cut short.\<close>

definition control_handle ::
  "crypto \<Rightarrow> text_crates \<Rightarrow> control_codec \<Rightarrow> bool \<Rightarrow> nat option \<Rightarrow> ('d, 'v) loop_env delivery \<Rightarrow> bytes \<Rightarrow> sink \<Rightarrow> service_loop
     \<Rightarrow> unit res \<times> sink \<times> service_loop" where
  "control_handle X T J late_read late_write dl input w s =
     (let line = read_line REQUEST_LIMIT input in
      if late_read then (Inl (TimedOut ''''), w, s)
      else if \<not> whole_line REQUEST_LIMIT line then (Inl (Bail ''invalid control request length''), w, s)
      else
        case control_answer X T J dl line s of (response, s) \<Rightarrow>
          (case response_json J response of
             None \<Rightarrow> (Inl (Bail ''encode control response''), w, s)
           | Some b \<Rightarrow>
               (case late_write of
                  Some n \<Rightarrow> (Inl (TimedOut ''''), snd (write_all (take n (b @ [10])) w), s)
                | None \<Rightarrow> (case write_all (b @ [10]) w of (r, w) \<Rightarrow> (r, w, s)))))"

text \<open>The other end, for the commands of the command line; \<open>channel\<close> is what the connection brings back for the bytes sent.\<close>

definition PATH_TOO_LONG :: string where
  "PATH_TOO_LONG = ''service control socket path exceeds the platform limit''"

definition control_send ::
  "control_codec \<Rightarrow> bool \<Rightarrow> bool \<Rightarrow> unit res \<Rightarrow> (bytes \<Rightarrow> bytes res) \<Rightarrow> Command \<Rightarrow> Response res" where
  "control_send J fits timed_out connected channel cmd =
     (if \<not> fits then Inl (Bail PATH_TOO_LONG)
      else if timed_out then Inl (TimedOut ''service control request timed out'')
      else
        and_then connected (\<lambda>_.
        and_then (ok_or (command_json J cmd) (Bail ''encode control command'')) (\<lambda>b.
        and_then (channel (b @ [10])) (\<lambda>answer.
          let l = read_line RESPONSE_LIMIT answer in
          if \<not> whole_line RESPONSE_LIMIT l then Inl (Bail ''invalid service control response'')
          else ok_or (json_response J l) (Bail ''decode service control result'')))))"

subsection \<open>The socket\<close>

definition socket_name :: "crypto \<Rightarrow> text_crates \<Rightarrow> bytes \<Rightarrow> ustring" where
  "socket_name X T config_name = ustr ''.oixc-'' @ take 8 (hex_encode T (sha256 X config_name)) @ ustr ''.sock''"

text \<open>
  The entry at the path of the socket, and how the service takes the path. A connection is tried when the path is
  taken; \<open>current\<close> is the entry after that, since others may have changed it.
\<close>

record path_entry =
  pe_socket :: bool
  pe_uid :: nat
  pe_inode :: nat
  pe_device :: nat
  pe_mode :: nat

datatype probe = ProbeConnected | ProbeRefused | ProbeOther

record SocketFile =
  sf_inode :: nat
  sf_device :: nat

definition same_file :: "path_entry \<Rightarrow> path_entry \<Rightarrow> bool" where
  "same_file a b \<longleftrightarrow> pe_inode a = pe_inode b \<and> pe_device a = pe_device b"

definition socket_drop :: "SocketFile \<Rightarrow> path_entry option \<Rightarrow> path_entry option" where
  "socket_drop f e =
     (case e of
        Some m \<Rightarrow> if pe_inode m = sf_inode f \<and> pe_device m = sf_device f then None else e
      | None \<Rightarrow> None)"

definition vacate :: "nat \<Rightarrow> probe \<Rightarrow> path_entry option \<Rightarrow> bool \<Rightarrow> path_entry option \<Rightarrow> unit res \<times> path_entry option" where
  "vacate uid pr current removed e =
     (case e of
        None \<Rightarrow> (Inr (), None)
      | Some m \<Rightarrow>
          if \<not> pe_socket m then (Inl (Bail ''control socket path is occupied by a non-socket file''), e)
          else if uid \<noteq> 0 \<and> pe_uid m \<noteq> uid then (Inl (Bail ''control socket belongs to another user''), e)
          else (case pr of
              ProbeConnected \<Rightarrow> (Inl (Bail ''another service already uses this configuration''), current)
            | ProbeOther \<Rightarrow> (Inl (Bail ''existing control socket is not safely replaceable''), current)
            | ProbeRefused \<Rightarrow>
                (case current of
                   None \<Rightarrow> (Inl Io, None)
                 | Some c \<Rightarrow>
                     if \<not> same_file c m then (Inl (Bail ''control socket changed during startup''), current)
                     else if \<not> removed then (Inl Io, current)
                     else (Inr (), None))))"

text \<open>Binding makes a new entry, or fails; the permissions are set after that.\<close>

definition server_bind ::
  "bool \<Rightarrow> nat \<Rightarrow> probe \<Rightarrow> path_entry option \<Rightarrow> bool \<Rightarrow> path_entry res \<Rightarrow> bool \<Rightarrow> path_entry option \<Rightarrow> SocketFile res \<times> path_entry option" where
  "server_bind fits uid pr current removed bound chmod e =
     (if \<not> fits then (Inl (Bail PATH_TOO_LONG), e)
      else st_then (vacate uid pr current removed e) (\<lambda>_ e.
        case bound of
          Inl err \<Rightarrow> (Inl err, e)
        | Inr m \<Rightarrow>
            let f = \<lparr>sf_inode = pe_inode m, sf_device = pe_device m\<rparr> in
            if \<not> chmod then (Inl Io, socket_drop f (Some m))
            else (Inr f, Some (m\<lparr>pe_mode := 384\<rparr>))))"

subsection \<open>The configuration in force\<close>

lemma refresh_keeps_service:
  assumes "service_inv X T s" "refresh_with_policy X T env force s = (res, s')"
  shows "cs_service s' = cs_service s"
proof -
  let ?s0 = "s\<lparr>cs_manager := refresh_started (ce_now env) (cs_manager s)\<rparr>"
  let ?fetched = "fetch X T env (pc_runtime (cs_service s))"
  define ap where "ap = (case ?fetched of Inr f \<Rightarrow> apply_refreshed_catalog X T env f force ?s0 | Inl e \<Rightarrow> (Inl e, ?s0))"
  obtain r1 s1 where ap: "ap = (r1, s1)" by fastforce
  have i0: "service_inv X T ?s0" using assms(1) service_inv_cong [of ?s0 s] by simp
  have "cs_service s1 = cs_service s"
  proof (cases ?fetched)
    case (Inr f)
    then have "apply_refreshed_catalog X T env f force ?s0 = (r1, s1)" using ap ap_def by simp
    with i0 show ?thesis
    proof (cases rule: apply_refreshed_cases)
      case (unstored e)
      then have "cs_service s1 = cs_service (?s0\<lparr>cs_files := cs_files s1\<rparr>)" using arg_cong [OF unstored(3)] by blast
      then show ?thesis by simp
    qed simp_all
  qed (use ap ap_def in auto)
  then show ?thesis
    using assms(2) unfolding refresh_with_policy_def finish_refresh_def ap_def [symmetric] ap Let_def prod.case Pair_inject
    by (auto simp only: store_service_fields split: if_splits, simp_all)
qed

text \<open>What a reload leaves: its own log entry when it fails, and the configuration that was read when it succeeds.\<close>

lemma reload_outcome:
  assumes "service_inv X T s" "reload X T env s = (res, s')"
  shows "res = Inl e \<Longrightarrow> same_catalog s s'" "res = Inr () \<Longrightarrow> ce_config env = Inr (cs_service s')"
proof -
  from reload_inner_of [OF assms(2)] obtain s1 where s1: "reload_inner X T env s = (res, s1)"
    "s' = s1\<lparr>cs_events := event_record (ce_now env) ConfigReloadEvent (error_kind env res) (cs_events s1)\<rparr>" by blast
  note R = service_inv_reload_inner(2,3) [OF assms(1) s1(1)]
  show "res = Inl e \<Longrightarrow> same_catalog s s'" using R(1) s1(2) by (auto simp: same_catalog_def)
  show "res = Inr () \<Longrightarrow> ce_config env = Inr (cs_service s')" using R(2) s1(2) by simp
qed

text \<open>The states of the loop, with the sessions of the proxies in between.\<close>

inductive loop_reach :: "crypto \<Rightarrow> text_crates \<Rightarrow> ('d, 'v) yaml \<Rightarrow> service_loop \<Rightarrow> bool" for X T Y where
  begun: "ce_yaml (le_catalog env) = Y \<Longrightarrow> loop_start X T env disable_filter fs = Inr s \<Longrightarrow> loop_reach X T Y s"
| turn: "loop_reach X T Y s \<Longrightarrow> ce_yaml (le_catalog env) = Y \<Longrightarrow> loop_step X T env ev s = (answer, s') \<Longrightarrow> loop_reach X T Y s'"
| used: "loop_reach X T Y s \<Longrightarrow> clients (cs_arena (sl_catalog s)) a = Some c \<Longrightarrow> closed c' = closed c \<Longrightarrow> options c' = options c
    \<Longrightarrow> loop_reach X T Y (s\<lparr>sl_catalog := (sl_catalog s)\<lparr>cs_arena := (cs_arena (sl_catalog s))\<lparr>clients := (clients (cs_arena (sl_catalog s)))(a \<mapsto> c')\<rparr>\<rparr>\<rparr>)"

definition settings_current :: "service_loop \<Rightarrow> bool" where
  "settings_current s \<longleftrightarrow> sl_settings s = accept_settings (pc_runtime (cs_service (sl_catalog s)))
     \<and> sl_interval s = pc_node_refresh_interval (cs_service (sl_catalog s))"

text \<open>A turn of the loop is nothing, a refresh or a reload.\<close>

lemma loop_refresh_cases:
  assumes "loop_refresh X T env cmd s = (res, s')"
  obtains (reloaded) c where "cmd = Some ReloadConfig" "reload X T (le_catalog env) (sl_catalog s) = (res, c)" "sl_catalog s' = c"
      "is_ok res \<Longrightarrow> settings_current s'" "\<not> is_ok res \<Longrightarrow> s' = s\<lparr>sl_catalog := c\<rparr>"
  | (refreshed) c where "cmd \<noteq> Some ReloadConfig" "s' = s\<lparr>sl_catalog := c\<rparr>"
      "refresh_with_policy X T (le_catalog env) (cmd = Some RefreshProvider) (sl_catalog s) = (res, c)"
proof (cases "cmd = Some ReloadConfig")
  case True
  obtain r c where "reload X T (le_catalog env) (sl_catalog s) = (r, c)" by (cases "reload X T (le_catalog env) (sl_catalog s)")
  then show thesis using True assms reloaded [of c] by (auto simp: loop_refresh_def Let_def settings_current_def split: if_splits)
next
  case False
  obtain r c where "refresh_with_policy X T (le_catalog env) (cmd = Some RefreshProvider) (sl_catalog s) = (r, c)"
    by (cases "refresh_with_policy X T (le_catalog env) (cmd = Some RefreshProvider) (sl_catalog s)")
  then show thesis using False assms refreshed [of c] by (auto simp: loop_refresh_def Let_def)
qed

lemma loop_step_cases:
  assumes "loop_step X T env ev s = (answer, s')"
  obtains (still) "s' = s" "\<And>cmd. ev = Asked cmd True \<Longrightarrow> cmd = DiagnosticsCommand \<and> (\<exists>a. answer = Some a \<and> resp_ok a)"
  | (moved) cmd res where "loop_refresh X T env cmd s = (res, s')"
      "\<And>c w. ev = Asked c w \<Longrightarrow> w \<and> cmd = Some c \<and> c \<noteq> DiagnosticsCommand \<and> answer = Some (loop_response env c res s')"
proof (cases ev)
  case (Asked cmd waited)
  show thesis
  proof (cases "waited \<and> cmd \<noteq> DiagnosticsCommand")
    case True
    obtain res t where r: "loop_refresh X T env (Some cmd) s = (res, t)" by (cases "loop_refresh X T env (Some cmd) s")
    then have "answer = Some (loop_response env cmd res t)" "s' = t" using True assms Asked by (auto simp: loop_step_def)
    then show thesis using True Asked r by (intro moved [of "Some cmd" res]) simp_all
  next
    case False
    then show thesis using assms Asked by (intro still) (auto simp: loop_step_def response_success_def split: if_splits)
  qed
next
  case Tick
  then show thesis using assms by (intro moved [of None "fst (loop_refresh X T env None s)"]) (auto simp: loop_step_def)
next
  case RefreshNotified
  then show thesis using assms by (intro moved [of None "fst (loop_refresh X T env None s)"]) (auto simp: loop_step_def)
qed

lemma loop_refresh_reach:
  assumes "service_reach X T Y (sl_catalog s)" "settings_current s" "ce_yaml (le_catalog env) = Y" "loop_refresh X T env cmd s = (res, s')"
  shows "service_reach X T Y (sl_catalog s') \<and> settings_current s'"
  using assms(4)
proof (cases rule: loop_refresh_cases)
  case (reloaded c)
  have "cs_service c = cs_service (sl_catalog s)" if "\<not> is_ok res"
    using that reload_outcome(1) [OF service_reach_inv [OF assms(1)] reloaded(2)] by (cases res) (auto simp: same_catalog_def)
  then show ?thesis using reloaded service_reach.reloaded [OF assms(1,3) reloaded(2)] assms(2)
    by (cases "is_ok res") (auto simp: settings_current_def)
next
  case (refreshed c)
  then show ?thesis using service_reach.refresh [OF assms(1,3) refreshed(3)] assms(2)
      refresh_keeps_service [OF service_reach_inv [OF assms(1)] refreshed(3)] by (simp add: settings_current_def)
qed

lemma loop_reach_catalog: "loop_reach X T Y s \<Longrightarrow> service_reach X T Y (sl_catalog s) \<and> settings_current s"
proof (induction rule: loop_reach.induct)
  case (begun env disable_filter fs s)
  then show ?case by (auto simp: loop_start_def settings_current_def res_simps intro: service_reach.start)
next
  case (turn s env ev answer s')
  from turn(3) show ?case
    by (cases rule: loop_step_cases) (use turn.IH turn(2) loop_refresh_reach in blast)+
next
  case (used s a c c')
  then show ?case using service_reach.session [of X T Y "sl_catalog s" a c c'] by (simp add: settings_current_def)
qed

text \<open>
  C33: Whatever order of commands, refresh ticks, notifications and sessions the loop goes through, and whatever files, API answers and
  failures it meets, it works for the configuration in force: the timeouts and the connection limit of the listeners and the refresh
  interval are those of that configuration, and the gateway and the catalog cache belong to its account: the gateway has its routing secret, the nodes of the current
  catalog, and open clients for exactly these nodes, each with the settings of the configuration.
\<close>

theorem loop_works_for_current_configuration:
  assumes "loop_reach X T Y s"
  shows "sl_settings s = accept_settings (pc_runtime (cs_service (sl_catalog s)))
    \<and> sl_interval s = pc_node_refresh_interval (cs_service (sl_catalog s))
    \<and> (\<exists>r. router (cs_manager (sl_catalog s)) = Some r \<and> map (n_proxy \<circ> snd) (runtimes r) = cs_managed (sl_catalog s)
        \<and> derive_routing_secret X T (access_token (pc_runtime (cs_service (sl_catalog s)))) = Inr (router_secret r)
        \<and> {a. open_at (cs_arena (sl_catalog s)) a} = runtime_address ` set (runtimes r)
        \<and> configured (pc_runtime (cs_service (sl_catalog s))) (cs_arena (sl_catalog s)) r)
    \<and> cs_fingerprint (sl_catalog s) = account_fingerprint X T (access_token (pc_runtime (cs_service (sl_catalog s))))"
proof -
  have c: "service_inv X T (sl_catalog s)" "settings_current s" using loop_reach_catalog [OF assms] service_reach_inv by blast+
  then have "gateway_inv T (cs_manager (sl_catalog s), cs_arena (sl_catalog s))" by (simp add: service_inv_def Let_def)
  from gateway_invD(3) [OF this] c show ?thesis by (auto simp: service_inv_def settings_current_def Let_def addresses_def)
qed

lemma response_ok [simp]: "resp_ok (response_success m p)" "\<not> resp_ok (response_failure m e)" "resp_error (response_failure m e) = Some e"
  by (simp_all add: response_success_def response_failure_def)

lemma loop_response_ok [simp]: "resp_ok (loop_response env cmd res s) = is_ok res"
  by (cases res) (simp_all add: loop_response_def)

lemma loop_response_error: "res = Inl e \<Longrightarrow> resp_error (loop_response env cmd res s) = Some (classify (other_errors (ce_api (le_catalog env))) e)"
  by (simp add: loop_response_def)

lemma loop_answer:
  assumes "loop_reach X T Y s" "loop_step X T env (Asked cmd True) s = (answer, s')"
  shows "\<exists>a. answer = Some a \<and>
    (if resp_ok a then (case cmd of
        DiagnosticsCommand \<Rightarrow> s' = s
      | ReloadConfig \<Rightarrow> ce_config (le_catalog env) = Inr (cs_service (sl_catalog s'))
      | _ \<Rightarrow> \<exists>f. fetch X T (le_catalog env) (pc_runtime (cs_service (sl_catalog s))) = Inr f
               \<and> cs_managed (sl_catalog s') = sn_managed f \<and> cs_service (sl_catalog s') = cs_service (sl_catalog s))
     else resp_error a \<noteq> None \<and> same_catalog (sl_catalog s) (sl_catalog s')
       \<and> sl_settings s' = sl_settings s \<and> sl_interval s' = sl_interval s)"
  using assms(2)
proof (cases rule: loop_step_cases)
  case still
  then show ?thesis by fastforce
next
  case (moved c res)
  have inv: "service_inv X T (sl_catalog s)" using loop_reach_catalog [OF assms(1)] service_reach_inv by blast
  have m: "c = Some cmd" "cmd \<noteq> DiagnosticsCommand" "answer = Some (loop_response env cmd res s')" using moved(2) by auto
  from moved(1) show ?thesis
  proof (cases rule: loop_refresh_cases)
    case (reloaded c)
    then show ?thesis using m reload_outcome [OF inv reloaded(2)] by (cases res) (auto simp: loop_response_error)
  next
    case (refreshed c)
    have "cs_service c = cs_service (sl_catalog s)" using refresh_keeps_service [OF inv refreshed(3)] .
    moreover from inv refreshed(3) have "case res of Inl e \<Rightarrow> same_catalog (sl_catalog s) c
      | Inr _ \<Rightarrow> \<exists>f. fetch X T (le_catalog env) (pc_runtime (cs_service (sl_catalog s))) = Inr f \<and> cs_managed c = sn_managed f"
      by (cases rule: refresh_cases) auto
    ultimately show ?thesis using m refreshed(1,2)
      by (cases res; cases cmd) (auto simp: loop_response_error)
  qed
qed

text \<open>
  C34: The loop answers every command that is waited for, and truthfully. When the answer reports a failure, it has an error kind and
  configuration, catalog, router, clients and listener settings are what they were; when it reports success, a reload has
  put the configuration that was read into force, and a refresh, forced or not, has fetched the catalog that is served now.
\<close>

theorem loop_answers_truthfully:
  assumes "loop_reach X T Y s" "loop_step X T env (Asked cmd True) s = (answer, s')"
  shows "\<exists>a. answer = Some a \<and>
    (if resp_ok a then (case cmd of
        DiagnosticsCommand \<Rightarrow> s' = s
      | ReloadConfig \<Rightarrow> ce_config (le_catalog env) = Inr (cs_service (sl_catalog s'))
      | _ \<Rightarrow> \<exists>f. fetch X T (le_catalog env) (pc_runtime (cs_service (sl_catalog s))) = Inr f
               \<and> cs_managed (sl_catalog s') = sn_managed f \<and> cs_service (sl_catalog s') = cs_service (sl_catalog s))
     else resp_error a \<noteq> None \<and> same_catalog (sl_catalog s) (sl_catalog s')
       \<and> sl_settings s' = sl_settings s \<and> sl_interval s' = sl_interval s)"
  using loop_answer [OF assms] .

text \<open>
  The contract of the loop towards those who put commands into its queue: every command is answered, a failure keeps the
  state, a success has achieved what was asked for. Whatever is queued is served in order.
\<close>

locale truthful_service =
  fixes ask :: "'q \<Rightarrow> 's \<Rightarrow> 'a option \<times> 's" and ok :: "'a \<Rightarrow> bool" and valid :: "'q \<Rightarrow> bool" and inv :: "'s \<Rightarrow> bool"
    and kept :: "'s \<Rightarrow> 's \<Rightarrow> bool" and achieved :: "'q \<Rightarrow> 's \<Rightarrow> 's \<Rightarrow> bool"
  assumes answered: "inv s \<Longrightarrow> valid q \<Longrightarrow> \<exists>a. fst (ask q s) = Some a \<and> (if ok a then achieved q s (snd (ask q s)) else kept s (snd (ask q s)))"
    and preserved: "inv s \<Longrightarrow> valid q \<Longrightarrow> inv (snd (ask q s))"
    and kept_refl: "kept s s"
    and kept_trans: "kept s t \<Longrightarrow> kept t u \<Longrightarrow> kept s u"
begin

fun serve_all :: "'q list \<Rightarrow> 's \<Rightarrow> 'a option list \<times> 's" where
  "serve_all [] s = ([], s)"
| "serve_all (q # qs) s = (case ask q s of (a, s) \<Rightarrow> (case serve_all qs s of (as, s) \<Rightarrow> (a # as, s)))"

lemma queue_served:
  assumes "inv s" "list_all valid qs" "serve_all qs s = (as, s')"
  shows "inv s'" "length as = length qs" "None \<notin> set as"
  using assms
proof (induction qs arbitrary: s as s')
  case (Cons q qs)
  { case 1 then show ?case using Cons.IH(1) preserved by (auto split: prod.splits) (metis snd_conv)
  next
    case 2 then show ?case using Cons.IH(2) preserved by (auto split: prod.splits) (metis snd_conv)
  next
    case 3 then show ?case using Cons.IH(3) preserved answered [of s q] by (auto split: prod.splits) (metis snd_conv)
  }
qed auto

lemma failures_keep:
  assumes "inv s" "list_all valid qs" "serve_all qs s = (as, s')" "list_all (\<lambda>a. case a of Some a \<Rightarrow> \<not> ok a | None \<Rightarrow> True) as"
  shows "kept s s'"
  using assms
proof (induction qs arbitrary: s as)
  case (Cons q qs)
  obtain t where t: "snd (ask q s) = t" by blast
  obtain a where a: "fst (ask q s) = Some a" "if ok a then achieved q s t else kept s t" using answered [of s q] Cons.prems t by auto
  then have eq: "ask q s = (Some a, t)" using t by (simp add: prod_eq_iff)
  obtain rest where rest: "serve_all qs t = (rest, s')" "as = Some a # rest" using Cons.prems(3) eq by (auto split: prod.splits)
  then have "kept s t" using a(2) Cons.prems(4) by simp
  moreover have "inv t" using preserved Cons.prems(1,2) t by auto
  then have "kept t s'" using Cons.IH [OF _ _ rest(1)] Cons.prems(2,4) rest(2) by simp
  ultimately show ?case by (rule kept_trans)
qed (use kept_refl in auto)

end

definition loop_kept :: "service_loop \<Rightarrow> service_loop \<Rightarrow> bool" where
  "loop_kept s s' \<longleftrightarrow> same_catalog (sl_catalog s) (sl_catalog s') \<and> sl_settings s' = sl_settings s \<and> sl_interval s' = sl_interval s"

definition command_achieved :: "crypto \<Rightarrow> text_crates \<Rightarrow> ('d, 'v) loop_env \<times> Command \<Rightarrow> service_loop \<Rightarrow> service_loop \<Rightarrow> bool" where
  "command_achieved X T q s s' =
     (case q of
        (env, DiagnosticsCommand) \<Rightarrow> s' = s
      | (env, ReloadConfig) \<Rightarrow> ce_config (le_catalog env) = Inr (cs_service (sl_catalog s'))
      | (env, _) \<Rightarrow> \<exists>f. fetch X T (le_catalog env) (pc_runtime (cs_service (sl_catalog s))) = Inr f
               \<and> cs_managed (sl_catalog s') = sn_managed f \<and> cs_service (sl_catalog s') = cs_service (sl_catalog s))"

interpretation loop_service: truthful_service "\<lambda>q. loop_step X T (fst q) (Asked (snd q) True)" resp_ok "\<lambda>q. ce_yaml (le_catalog (fst q)) = Y"
  "loop_reach X T Y" loop_kept "command_achieved X T" for X T and Y :: "('d, 'v) yaml"
proof (unfold_locales, goal_cases)
  case (1 s q)
  obtain env cmd where q: "q = (env, cmd)" by (cases q)
  obtain answer s' where st: "loop_step X T env (Asked cmd True) s = (answer, s')" by fastforce
  from loop_answer [OF 1(1) st] obtain a where "answer = Some a"
    "if resp_ok a then command_achieved X T (env, cmd) s s' else loop_kept s s'"
    by (cases cmd) (auto simp: command_achieved_def loop_kept_def split: if_splits)
  then show ?case by (simp add: q st)
next
  case (2 s q)
  then show ?case using loop_reach.turn [of X T Y s "fst q"] by (metis prod.collapse)
qed (auto simp: loop_kept_def same_catalog_def)

text \<open>A queue of commands that all fail leaves the service as it was.\<close>

lemma failed_commands_keep_service:
  assumes "loop_reach X T Y s" "list_all (\<lambda>q. ce_yaml (le_catalog (fst q)) = Y) qs" "loop_service.serve_all X T qs s = (as, s')"
    "list_all (\<lambda>a. case a of Some a \<Rightarrow> \<not> resp_ok a | None \<Rightarrow> True) as"
  shows "loop_reach X T Y s'" "length as = length qs" "None \<notin> set as" "same_catalog (sl_catalog s) (sl_catalog s')"
  using loop_service.queue_served [OF assms(1-3)] loop_service.failures_keep [OF assms] by (simp_all add: loop_kept_def)

subsection \<open>A command and its answer\<close>

lemma read_line_whole:
  assumes "10 \<notin> set b" "length b < limit"
  shows "read_line limit (b @ 10 # rest) = b @ [10]" "whole_line limit (b @ [10])"
proof -
  have t: "take (limit + 1) (b @ 10 # rest) = b @ 10 # take (limit - length b) rest"
    using assms(2) by (simp add: take_Cons' Suc_diff_le)
  have "takeWhile (\<lambda>x. x \<noteq> 10) (b @ 10 # take (limit - length b) rest) = b"
    using assms(1) by (subst takeWhile_append2) auto
  then show "read_line limit (b @ 10 # rest) = b @ [10]" unfolding read_line_def Let_def t by simp
  show "whole_line limit (b @ [10])" using assms(2) by (simp add: whole_line_def)
qed

text \<open>
  C35: Both ends of the control channel agree. A command sent by the command line while the service is there to serve it is
  taken from the wire as that command, makes the loop take exactly that one step, and the answer of the step, whatever
  it holds, is what the sender gets. The forced refresh of the node-list server cannot be sent: it is refused before anything is
  written, and no bytes that arrive are read as that command.
\<close>

theorem control_round_trip:
  assumes "control_laws J" "cmd \<noteq> RefreshProvider" "loop_step X T env (Asked cmd True) s = (Some a, s')"
    "response_json J a = Some b" "length b < RESPONSE_LIMIT" "reliable w" "accepted w = []"
  shows "(\<exists>w'. \<forall>request. command_json J cmd = Some request \<longrightarrow>
            control_handle X T J False None (Served env True) (request @ [10]) w s = (Inr (), w', s') \<and> accepted w' = b @ [10])
    \<and> control_send J True False (Inr ()) (\<lambda>input. Inr (accepted (fst (snd (control_handle X T J False None (Served env True) input w s))))) cmd = Inr a
    \<and> command_json J RefreshProvider = None
    \<and> control_send J True False (Inr ()) channel RefreshProvider = Inl (Bail ''encode control command'')"
proof -
  have J: "\<And>c b. command_json J c = Some b \<Longrightarrow> 10 \<notin> set b \<and> length b < 64 \<and> json_command J (b @ [10]) = Some c"
    "\<And>c. c \<noteq> RefreshProvider \<Longrightarrow> command_json J c \<noteq> None" "\<And>b. json_command J b \<noteq> Some RefreshProvider"
    and r: "10 \<notin> set b" "json_response J (b @ [10]) = Some a"
    using assms(1,4) by (auto simp: control_laws_def)
  have none: "command_json J RefreshProvider = None" using J(1,3) by (cases "command_json J RefreshProvider") auto
  obtain request where q: "command_json J cmd = Some request" using J(2) assms(2) by blast
  have l: "read_line REQUEST_LIMIT (request @ [10]) = request @ [10]" "whole_line REQUEST_LIMIT (request @ [10])"
    using J(1) [OF q] by (auto intro!: read_line_whole simp: REQUEST_LIMIT_def)
  have "control_answer X T J (Served env True) (request @ [10]) s = (a, s')"
    using J(1) [OF q] assms(3) by (simp add: control_answer_def deliver_def)
  then have h: "control_handle X T J False None (Served env True) (request @ [10]) w s = (Inr (), w\<lparr>pending := pending w @ b @ [10]\<rparr>, s')"
    using l assms(4,6) by (simp add: control_handle_def write_all_reliable)
  have acc: "accepted (w\<lparr>pending := pending w @ b @ [10]\<rparr>) = b @ [10]" using assms(7) by (simp add: accepted_def)
  have "control_send J True False (Inr ()) (\<lambda>input. Inr (accepted (fst (snd (control_handle X T J False None (Served env True) input w s))))) cmd = Inr a"
    using read_line_whole(1) [OF r(1) assms(5), of "[]"] read_line_whole(2) [OF r(1) assms(5)] r(2) by (simp add: control_send_def q h acc ok_or_def)
  moreover have "control_send J True False (Inr ()) channel RefreshProvider = Inl (Bail ''encode control command'')"
    by (simp add: control_send_def none ok_or_def)
  ultimately show ?thesis using none q h acc by auto
qed

text \<open>A line that is too long, cut short or no command changes nothing; nor does one that finds the queue full.\<close>

lemma control_refuses_quietly:
  assumes "control_handle X T J late_read late_write dl input w s = (res, w', s')"
    "late_read \<or> \<not> whole_line REQUEST_LIMIT (read_line REQUEST_LIMIT input) \<or> json_command J (read_line REQUEST_LIMIT input) = None
     \<or> dl = QueueBusy"
  shows "s' = s"
  using assms by (auto simp: control_handle_def control_answer_def deliver_def Let_def split: if_splits option.splits prod.splits)

text \<open>
  Taking the path of the control socket never destroys what is not the service's own leftover. An entry is removed only when it
  is a socket, belongs to the user of the service unless that is root, refused a connection, and is still the same file after that;
  in every other case the path keeps what is there and binding fails. A bound socket is readable and writable by its owner alone, and dropping it
  removes that file and no other.
\<close>

lemma control_socket_replaces_only_stale:
  assumes "server_bind fits uid pr current removed bound chmod e = (res, e')"
  shows "(case res of
      Inr f \<Rightarrow> (\<exists>m. bound = Inr m \<and> e' = Some (m\<lparr>pe_mode := 384\<rparr>) \<and> socket_drop f e' = None
          \<and> (\<forall>other. \<not> same_file other m \<longrightarrow> socket_drop f (Some other) = Some other))
        \<and> (e = None \<or> (\<exists>old c. e = Some old \<and> pe_socket old \<and> (uid = 0 \<or> pe_uid old = uid) \<and> pr = ProbeRefused
            \<and> current = Some c \<and> same_file c old))
    | Inl _ \<Rightarrow> e' = e \<or> e' = current
        \<or> e' = None \<and> (e = None \<or> (\<exists>old c. e = Some old \<and> pe_socket old \<and> (uid = 0 \<or> pe_uid old = uid) \<and> pr = ProbeRefused
            \<and> current = Some c \<and> same_file c old)))"
  using assms
  by (cases e; cases current; cases bound)
    (auto simp: server_bind_def vacate_def same_file_def socket_drop_def Let_def split: if_splits probe.splits)

subsection \<open>A service at work\<close>

definition sample_loop_env :: "http \<Rightarrow> (Proxy option list, Proxy option) loop_env" where
  "sample_loop_env net = \<lparr>le_catalog = sample_env net, le_version = [], le_process = JNull, le_transport = JNull, le_nodes = undefined\<rparr>"

lemma sample_loop:
  obtains s where "loop_reach sample_crypto sample_text one_yaml s" "cs_service (sl_catalog s) = sample_config" "cs_managed (sl_catalog s) = [good_proxy [88]]"
proof (rule sample_started)
  fix c assume c: "start_service sample_crypto sample_text (sample_env (\<lambda>_. (Some (Inr sample_response), 2))) True
      \<lparr>cf_cache = None, cf_temporary = None\<rparr> = Inr c" "cs_service c = sample_config" "cs_managed c = [good_proxy [88]]"
  let ?env = "sample_loop_env (\<lambda>_. (Some (Inr sample_response), 2))"
  let ?s = "\<lparr>sl_catalog = c, sl_settings = accept_settings (pc_runtime sample_config), sl_interval = pc_node_refresh_interval sample_config, sl_started = 5\<rparr>"
  have "loop_start sample_crypto sample_text ?env True \<lparr>cf_cache = None, cf_temporary = None\<rparr> = Inr ?s"
    using c by (simp add: loop_start_def sample_loop_env_def sample_env_def)
  moreover have "ce_yaml (le_catalog ?env) = one_yaml" by (simp add: sample_loop_env_def sample_env_def)
  ultimately have "loop_reach sample_crypto sample_text one_yaml ?s" by (rule loop_reach.begun [rotated])
  then show thesis by (rule that) (simp_all add: c)
qed

theorem loop_works_for_current_configuration_witness:
  "\<exists>s. loop_reach sample_crypto sample_text one_yaml s \<and> sl_settings s = accept_settings (pc_runtime sample_config)"
proof (rule sample_loop)
  fix s assume s: "loop_reach sample_crypto sample_text one_yaml s" "cs_service (sl_catalog s) = sample_config"
  then show ?thesis using loop_works_for_current_configuration [OF s(1)] by auto
qed

text \<open>A reload that finds no configuration.\<close>

definition unreadable_env :: "(Proxy option list, Proxy option) loop_env" where
  "unreadable_env = (sample_loop_env (\<lambda>_. (None, 0)))\<lparr>le_catalog := (sample_env (\<lambda>_. (None, 0)))\<lparr>ce_config := Inl Io\<rparr>\<rparr>"

lemma sample_failed_reload:
  obtains a s' where "loop_step X T unreadable_env (Asked ReloadConfig True) s = (Some a, s')" "\<not> resp_ok a"
proof -
  obtain e c where r: "reload X T (le_catalog unreadable_env) (sl_catalog s) = (Inl e, c)"
    by (simp add: unreadable_env_def reload_def reload_inner_def prepare_reload_def)
  then have "loop_step X T unreadable_env (Asked ReloadConfig True) s
      = (Some (loop_response unreadable_env ReloadConfig (Inl e) (s\<lparr>sl_catalog := c\<rparr>)), s\<lparr>sl_catalog := c\<rparr>)"
    by (simp add: loop_step_def loop_refresh_def Let_def)
  then show thesis by (rule that) simp
qed

theorem loop_answers_truthfully_witness:
  "\<exists>s s' a. loop_reach sample_crypto sample_text one_yaml s
    \<and> loop_step sample_crypto sample_text unreadable_env (Asked ReloadConfig True) s = (Some a, s')
    \<and> \<not> resp_ok a \<and> same_catalog (sl_catalog s) (sl_catalog s')"
proof (rule sample_loop)
  fix s assume s: "loop_reach sample_crypto sample_text one_yaml s"
  obtain a s' where a: "loop_step sample_crypto sample_text unreadable_env (Asked ReloadConfig True) s = (Some a, s')" "\<not> resp_ok a"
    using sample_failed_reload .
  then have "same_catalog (sl_catalog s) (sl_catalog s')" using loop_answers_truthfully [OF s a(1)] by auto
  then show ?thesis using s a by blast
qed

definition sample_control :: "Response \<Rightarrow> control_codec" where
  "sample_control r = \<lparr>
     json_command = (\<lambda>b. if b = [1, 10] then Some RefreshNodes else if b = [2, 10] then Some ReloadConfig else if b = [3, 10] then Some DiagnosticsCommand else None),
     command_json = (\<lambda>c. case c of RefreshNodes \<Rightarrow> Some [1] | ReloadConfig \<Rightarrow> Some [2] | DiagnosticsCommand \<Rightarrow> Some [3] | RefreshProvider \<Rightarrow> None),
     json_response = (\<lambda>_. Some r),
     response_json = (\<lambda>a. if a = r then Some [4] else None),
     value_json = (\<lambda>_. Some [5])\<rparr>"

lemma sample_control_laws: "control_laws (sample_control r)"
  by (auto simp: control_laws_def sample_control_def split: Command.splits if_splits)

theorem control_round_trip_witness:
  "\<exists>a s. \<not> resp_ok a \<and> control_send (sample_control a) True False (Inr ()) (\<lambda>input. Inr (accepted (fst (snd
     (control_handle sample_crypto sample_text (sample_control a) False None (Served unreadable_env True) input fresh_sink s))))) ReloadConfig = Inr a"
proof -
  fix s
  obtain a s' where a: "loop_step sample_crypto sample_text unreadable_env (Asked ReloadConfig True) s = (Some a, s')" "\<not> resp_ok a"
    using sample_failed_reload .
  have "response_json (sample_control a) a = Some [4]" "length [4 :: byte] < RESPONSE_LIMIT" by (simp_all add: sample_control_def RESPONSE_LIMIT_def)
  from control_round_trip [OF sample_control_laws _ a(1) this, of fresh_sink] a(2) show ?thesis by auto
qed

lemma control_socket_replaces_only_stale_witness:
  "\<exists>f. server_bind True 7 ProbeRefused (Some \<lparr>pe_socket = True, pe_uid = 7, pe_inode = 3, pe_device = 2, pe_mode = 384\<rparr>) True
      (Inr \<lparr>pe_socket = True, pe_uid = 7, pe_inode = 4, pe_device = 2, pe_mode = 493\<rparr>) True
      (Some \<lparr>pe_socket = True, pe_uid = 7, pe_inode = 3, pe_device = 2, pe_mode = 384\<rparr>)
    = (Inr f, Some \<lparr>pe_socket = True, pe_uid = 7, pe_inode = 4, pe_device = 2, pe_mode = 384\<rparr>)
    \<and> socket_drop f (Some \<lparr>pe_socket = True, pe_uid = 7, pe_inode = 3, pe_device = 2, pe_mode = 384\<rparr>)
        = Some \<lparr>pe_socket = True, pe_uid = 7, pe_inode = 3, pe_device = 2, pe_mode = 384\<rparr>"
proof -
  let ?old = "\<lparr>pe_socket = True, pe_uid = 7, pe_inode = 3, pe_device = 2, pe_mode = 384\<rparr>"
  let ?m = "\<lparr>pe_socket = True, pe_uid = 7, pe_inode = 4, pe_device = 2, pe_mode = 493\<rparr>"
  have b: "server_bind True 7 ProbeRefused (Some ?old) True (Inr ?m) True (Some ?old)
      = (Inr \<lparr>sf_inode = 4, sf_device = 2\<rparr>, Some (?m\<lparr>pe_mode := 384\<rparr>))"
    by (simp add: server_bind_def vacate_def same_file_def)
  have "\<not> same_file ?old ?m" by (simp add: same_file_def)
  then show ?thesis using control_socket_replaces_only_stale [OF b] b by auto
qed

end
