(* ===== verification/Http_Server.thy ===== *)
theory Http_Server
  imports Service
begin

text \<open>
  The HTTP server for the node lists, \<open>src/http_server.rs\<close>. A request acts on the state of the loop, whose forced refreshes
  it may ask for; what other connections do meanwhile comes before or after the request.
\<close>

subsection \<open>Requests\<close>

definition PROVIDER_PATH :: string where "PROVIDER_PATH = ''/surge-proxies.conf''"
definition CLASH_PROVIDER_PATH :: string where "CLASH_PROVIDER_PATH = ''/clash-proxies.yaml''"
definition HEALTH_PATH :: string where "HEALTH_PATH = ''/healthz''"
definition STATUS_PATH :: string where "STATUS_PATH = ''/status''"

definition split_target :: "ustring \<Rightarrow> ustring \<times> ustring" where
  "split_target target = (case split_once 63 target of Some p \<Rightarrow> p | None \<Rightarrow> (target, []))"

definition query_values :: "ustring \<Rightarrow> ustring \<Rightarrow> ustring list" where
  "query_values qs key =
     List.map_filter (\<lambda>pair. case split_once 61 pair of Some (k, v) \<Rightarrow> if k = key then Some v else None | None \<Rightarrow> None) (split_char 38 qs)"

definition query_flag :: "ustring \<Rightarrow> string \<Rightarrow> bool" where
  "query_flag qs key =
     (case rev (query_values qs (ustr key)) of v # _ \<Rightarrow> v = ustr ''1'' | [] \<Rightarrow> False)"

definition HEAD_END :: bytes where "HEAD_END = [13, 10, 13, 10]"

function nodelist_headers :: "bytes \<Rightarrow> source \<Rightarrow> bytes res \<times> source" where
  "nodelist_headers request s =
     (case read_some 1024 s of
        (Inl e, s) \<Rightarrow> (Inl e, s)
      | (Inr chunk, s') \<Rightarrow>
          if chunk = [] then (Inl (Bail ''unexpected EOF in HTTP request''), s')
          else let request = request @ chunk in
            if str_contains HEAD_END request then (Inr request, s')
            else if length request > 8192 then (Inl (Bail ''HTTP request headers are too large''), s')
            else nodelist_headers request s')"
  by pat_completeness auto
termination by (relation "measure (source_size \<circ> snd)") (auto dest!: sym [of _ "read_some _ _"] read_some_size)

record request_line =
  rl_method :: ustring
  rl_target :: ustring
  rl_complete :: bool

definition request_line_of :: "bytes \<Rightarrow> request_line" where
  "request_line_of request =
     (let fields = split_whitespace (trim_end_by (\<lambda>c. c = 13) (from_utf8_lossy (takeWhile (\<lambda>b. b \<noteq> 10) request))) in
      \<lparr>rl_method = (case fields of m # _ \<Rightarrow> m | _ \<Rightarrow> []),
       rl_target = (case fields of _ # t # _ \<Rightarrow> t | _ \<Rightarrow> []),
       rl_complete = (length fields \<ge> 3)\<rparr>)"

subsection \<open>Replies\<close>

record http_reply =
  hr_status :: nat
  hr_reason :: string
  hr_headers :: "(string \<times> ustring) list"
  hr_body :: bytes
  hr_head :: bool

definition reply_head :: "http_reply \<Rightarrow> ustring" where
  "reply_head p =
     ustr ''HTTP/1.1 '' @ show_nat (hr_status p) @ ustr '' '' @ ustr (hr_reason p) @ [13, 10]
     @ ustr ''Content-Length: '' @ show_nat (length (hr_body p)) @ [13, 10] @ ustr ''Connection: close'' @ [13, 10]
     @ concat (map (\<lambda>(k, v). ustr k @ ustr '': '' @ v @ [13, 10]) (hr_headers p)) @ [13, 10]"

definition write_response :: "http_reply \<Rightarrow> sink \<Rightarrow> unit res \<times> sink" where
  "write_response p w =
     st_then (write_all (utf8 (reply_head p)) w) (\<lambda>_ w.
     st_then (if hr_head p then (Inr (), w) else write_all (hr_body p) w) (\<lambda>_ w.
     shutdown_sink w))"

definition text_bytes :: "string \<Rightarrow> bytes" where
  "text_bytes t = utf8 (ustr t) @ [10]"

definition plain_reply :: "nat \<Rightarrow> string \<Rightarrow> (string \<times> string) list \<Rightarrow> string \<Rightarrow> bool \<Rightarrow> http_reply" where
  "plain_reply status reason headers body head =
     \<lparr>hr_status = status, hr_reason = reason, hr_headers = map (\<lambda>(k, v). (k, ustr v)) headers, hr_body = text_bytes body, hr_head = head\<rparr>"

definition bad_request :: "bool \<Rightarrow> http_reply" where
  "bad_request head = plain_reply 400 ''Bad Request'' [] ''bad request'' head"

definition method_not_allowed :: "bool \<Rightarrow> http_reply" where
  "method_not_allowed head = plain_reply 405 ''Method Not Allowed'' [(''Allow'', ''GET, HEAD'')] ''method not allowed'' head"

definition no_content :: http_reply where
  "no_content = \<lparr>hr_status = 204, hr_reason = ''No Content'', hr_headers = [], hr_body = [], hr_head = True\<rparr>"

definition raw_forbidden :: "bool \<Rightarrow> http_reply" where
  "raw_forbidden head = plain_reply 403 ''Forbidden'' [(''Cache-Control'', ''no-store'')] ''raw provider requires a loopback peer'' head"

definition refresh_unavailable :: "bool \<Rightarrow> http_reply" where
  "refresh_unavailable head = plain_reply 503 ''Service Unavailable'' [(''Cache-Control'', ''no-store'')]
     ''remote refresh failed or unavailable; previous catalog retained'' head"

definition gateway_unavailable :: "bool \<Rightarrow> bool \<Rightarrow> http_reply" where
  "gateway_unavailable raw head = plain_reply 503 ''Service Unavailable'' (if raw then [(''Cache-Control'', ''no-store'')] else [])
     ''gateway unavailable'' head"

definition not_found :: "bool \<Rightarrow> http_reply" where
  "not_found head = plain_reply 404 ''Not Found'' [(''Content-Type'', ''text/plain; charset=utf-8'')] ''404 page not found'' head"

definition document_reply :: "string \<Rightarrow> ustring option \<Rightarrow> bytes \<Rightarrow> bool \<Rightarrow> http_reply" where
  "document_reply content_type userinfo body head =
     \<lparr>hr_status = 200, hr_reason = ''OK'',
      hr_headers = [(''Content-Type'', ustr content_type), (''Cache-Control'', ustr ''no-store''), (''X-Content-Type-Options'', ustr ''nosniff'')]
        @ (case userinfo of Some v \<Rightarrow> [(''Subscription-Userinfo'', v)] | None \<Rightarrow> []),
      hr_body = body, hr_head = head\<rparr>"

subsection \<open>The server\<close>

text \<open>
  What a request meets: whether the gate for forced refreshes is free and the service has a queue for them, how the loop
  answers, what the lookups of node addresses give, and the time.
\<close>

record ('d, 'v) http_env =
  he_loop :: "('d, 'v) loop_env"
  he_gate_free :: bool
  he_queue :: bool
  he_delivery :: "('d, 'v) loop_env delivery"
  he_lookups :: "(ustring \<times> ip list option) list"
  he_late_headers :: bool

definition http_refresh ::
  "crypto \<Rightarrow> text_crates \<Rightarrow> ('d, 'v) http_env \<Rightarrow> service_loop \<Rightarrow> unit res \<times> service_loop" where
  "http_refresh X T env s =
     (let (reply, s) = (if he_gate_free env \<and> he_queue env then deliver X T (he_delivery env) RefreshProvider s else (None, s)) in
      (refresh_provider (he_gate_free env) (if he_queue env then Some (reply \<noteq> None) else None)
         (case reply of
            Some (Some r) \<Rightarrow> Reply (resp_ok r)
          | _ \<Rightarrow> (case he_delivery env of Unserved True \<Rightarrow> ReplyDropped | _ \<Rightarrow> ReplyTimeout)),
       s))"

definition provider_document ::
  "('d, 'v) http_env \<Rightarrow> bool \<Rightarrow> bool \<Rightarrow> bool \<Rightarrow> bool \<Rightarrow> ip \<Rightarrow> GatewayManager \<Rightarrow> bytes option res \<times> GatewayManager" where
  "provider_document env clash raw include_all socks peer m =
     (if clash then (and_then (manager_clash_provider m include_all socks) (\<lambda>d. Inr (Some d)), m)
      else if raw then manager_raw_provider m include_all peer (he_lookups env)
      else (and_then (manager_provider m include_all socks) (\<lambda>d. Inr (Some d)), m))"

definition provider_reply ::
  "crypto \<Rightarrow> text_crates \<Rightarrow> ('d, 'v) http_env \<Rightarrow> bool \<Rightarrow> ustring \<Rightarrow> bool \<Rightarrow> ip \<Rightarrow> service_loop \<Rightarrow> http_reply \<times> service_loop" where
  "provider_reply X T env clash qs head peer s =
     (let include_all = query_flag qs ''all''; socks = \<not> query_flag qs ''http''; raw = (\<not> clash \<and> query_flag qs ''raw'');
          forced = query_flag qs ''refresh'' in
      if forced \<and> raw \<and> raw_provider_allowed (cs_manager (sl_catalog s)) peer = Inr False then (raw_forbidden head, s)
      else
        let (refreshed, s) = (if forced then http_refresh X T env s else (Inr (), s)) in
        if \<not> is_ok refreshed then (refresh_unavailable head, s)
        else
          let (document, m) = provider_document env clash raw include_all socks peer (cs_manager (sl_catalog s));
              s = s\<lparr>sl_catalog := (sl_catalog s)\<lparr>cs_manager := m\<rparr>\<rparr> in
          (case document of
             Inr (Some d) \<Rightarrow> document_reply (if clash then ''text/yaml; charset=utf-8'' else ''text/plain; charset=utf-8'')
                 (if clash then subscription_header m (ce_now (le_catalog (he_loop env))) else None) d head
           | Inr None \<Rightarrow> raw_forbidden head
           | Inl _ \<Rightarrow> gateway_unavailable raw head, s))"

definition http_respond ::
  "crypto \<Rightarrow> text_crates \<Rightarrow> control_codec \<Rightarrow> ('d, 'v) http_env \<Rightarrow> request_line \<Rightarrow> ip \<Rightarrow> service_loop \<Rightarrow> http_reply res \<times> service_loop" where
  "http_respond X T J env l peer s =
     (let (target, qs) = split_target (rl_target l); head = (rl_method l = ustr ''HEAD''); allowed = (rl_method l = ustr ''GET'' \<or> head) in
      if \<not> rl_complete l then (Inr (bad_request head), s)
      else if target = ustr STATUS_PATH then
        (if \<not> allowed then Inr (method_not_allowed head)
         else (case value_json J (loop_status (he_loop env) s) of
                 Some b \<Rightarrow> Inr (document_reply ''application/json'' None b head)
               | None \<Rightarrow> Inl (Bail ''encode status'')), s)
      else if target = ustr HEALTH_PATH then (Inr (if \<not> allowed then method_not_allowed head else no_content), s)
      else if target = ustr PROVIDER_PATH \<or> target = ustr CLASH_PROVIDER_PATH then
        (if \<not> allowed then (Inr (method_not_allowed head), s)
         else case provider_reply X T env (target = ustr CLASH_PROVIDER_PATH) qs head peer s of (p, s) \<Rightarrow> (Inr p, s))
      else (Inr (not_found head), s))"

definition serve_http ::
  "crypto \<Rightarrow> text_crates \<Rightarrow> control_codec \<Rightarrow> ('d, 'v) http_env \<Rightarrow> ip \<Rightarrow> source \<Rightarrow> sink \<Rightarrow> service_loop \<Rightarrow> unit res \<times> sink \<times> service_loop" where
  "serve_http X T J env peer src w s =
     (if he_late_headers env then (Inl (Bail ''nodelist HTTP header timed out''), w, s)
      else case nodelist_headers [] src of
          (Inl e, _) \<Rightarrow> (Inl e, w, s)
        | (Inr request, _) \<Rightarrow>
            (case http_respond X T J env (request_line_of request) peer s of
               (Inl e, s) \<Rightarrow> (Inl e, w, s)
             | (Inr p, s) \<Rightarrow> (case write_response p w of (r, w) \<Rightarrow> (r, w, s))))"

subsection \<open>Reading a request\<close>

declare nodelist_headers.simps [simp del]

lemma nodelist_headers_Inr:
  "nodelist_headers request s = (Inr r, s') \<Longrightarrow>
    str_contains HEAD_END r \<and> (\<exists>rest. request @ source_bytes s = r @ rest) \<and> length r \<le> max (length request) 8192 + 1024"
proof (induction request s rule: nodelist_headers.induct)
  case (1 request s)
  obtain c t where rs: "read_some 1024 s = (Inr c, t)" "c \<noteq> []"
    using "1.prems" by (cases "read_some 1024 s"; cases "fst (read_some 1024 s)") (auto simp: nodelist_headers.simps [of request s] split: if_splits)
  have b: "source_bytes s = c @ source_bytes t" using read_some_bytes [OF rs] .
  have len: "length c \<le> 1024" using read_some_length [OF rs(1)] .
  show ?case
  proof (cases "str_contains HEAD_END (request @ c)")
    case True
    then show ?thesis using "1.prems" rs b len by (auto simp: nodelist_headers.simps [of request s] Let_def)
  next
    case False
    then have n: "length (request @ c) \<le> 8192" "nodelist_headers (request @ c) t = (Inr r, s')"
      using "1.prems" rs by (auto simp: nodelist_headers.simps [of request s] Let_def split: if_splits)
    from "1.IH" [OF rs(1) [symmetric] refl rs(2) refl False] n
    have "str_contains HEAD_END r \<and> (\<exists>rest. (request @ c) @ source_bytes t = r @ rest) \<and> length r \<le> max (length (request @ c)) 8192 + 1024" by simp
    then show ?thesis using b n(1) by auto
  qed
qed

text \<open>A head that arrives whole, within the limit, is read.\<close>

lemma nodelist_headers_complete:
  assumes "healthy s" "str_contains HEAD_END (request @ source_bytes s)" "\<not> str_contains HEAD_END request" "length (request @ source_bytes s) \<le> 8192"
  shows "\<exists>r s'. nodelist_headers request s = (Inr r, s')"
  using assms
proof (induction request s rule: nodelist_headers.induct)
  case (1 request s)
  obtain c t where rs: "read_some 1024 s = (Inr c, t)" "healthy t" using read_some_healthy "1.prems"(1) by blast
  have c: "c \<noteq> []" using read_some_eof rs(1) "1.prems"(2,3) by fastforce
  then have b: "source_bytes s = c @ source_bytes t" using read_some_bytes rs(1) by blast
  show ?case
  proof (cases "str_contains HEAD_END (request @ c)")
    case True
    then show ?thesis using rs c by (simp add: nodelist_headers.simps [of request s])
  next
    case False
    have l: "\<not> length (request @ c) > 8192" using "1.prems"(4) b by simp
    have "\<exists>r s'. nodelist_headers (request @ c) t = (Inr r, s')"
      using "1.IH" [OF rs(1) [symmetric] refl c refl False l] "1.prems" rs(2) b False by simp
    then show ?thesis using rs c False l by (simp add: nodelist_headers.simps [of request s] Let_def)
  qed
qed

subsection \<open>What a request changes\<close>

lemma provider_document_router:
  "provider_document env clash raw include_all socks peer m = (r, m') \<Longrightarrow> router m' = router m \<and> subscription m' = subscription m"
  by (auto simp: provider_document_def manager_raw_provider_def Let_def split: if_splits option.splits prod.splits)

lemma forced_step:
  assumes "service_inv X T (sl_catalog s)" "loop_step X T env (Asked RefreshProvider True) s = (answer, s')"
  obtains (served) f where "map_option resp_ok answer = Some True" "fetch X T (le_catalog env) (pc_runtime (cs_service (sl_catalog s))) = Inr f"
      "cs_managed (sl_catalog s') = sn_managed f"
  | (failed) "map_option resp_ok answer = Some False" "same_catalog (sl_catalog s) (sl_catalog s')"
  using assms(2)
proof (cases rule: loop_step_cases)
  case (moved c res)
  then have m: "c = Some RefreshProvider" "answer = Some (loop_response env RefreshProvider res s')" by auto
  from moved(1) m(1) obtain c' where c': "refresh_with_policy X T (le_catalog env) True (sl_catalog s) = (res, c')" "s' = s\<lparr>sl_catalog := c'\<rparr>"
    by (cases rule: loop_refresh_cases) auto
  from assms(1) c'(1) show thesis
  proof (cases rule: refresh_cases)
    case (failed e)
    then show thesis using that(2) m c' by simp
  next
    case (refreshed f)
    then show thesis using that(1) [of f] m c' by simp
  qed
qed auto

text \<open>
  A forced refresh: it succeeds only when the loop served it in time, and then the catalog is the one that was fetched; when it fails, the
  catalog is retained, unless the loop was late.
\<close>

lemma http_refresh_outcome:
  assumes "service_inv X T (sl_catalog s)" "http_refresh X T env s = (r, s')"
  shows "if is_ok r then \<exists>lenv f. he_delivery env = Served lenv True \<and> fetch X T (le_catalog lenv) (pc_runtime (cs_service (sl_catalog s))) = Inr f
           \<and> cs_managed (sl_catalog s') = sn_managed f
         else same_catalog (sl_catalog s) (sl_catalog s') \<or> (\<exists>lenv. he_delivery env = Served lenv False)"
proof (cases "he_gate_free env \<and> he_queue env")
  case False
  then have "s' = s" "\<not> is_ok r" using assms(2) by (cases "he_gate_free env"; force simp: http_refresh_def refresh_provider_def)+
  then show ?thesis by (simp add: same_catalog_def)
next
  case True
  show ?thesis
  proof (cases "he_delivery env")
    case (Served lenv in_time)
    obtain answer t where st: "loop_step X T lenv (Asked RefreshProvider True) s = (answer, t)" by (cases "loop_step X T lenv (Asked RefreshProvider True) s")
    have r: "s' = t" "r = refresh_provider True (Some True) (case if in_time then answer else None of Some a \<Rightarrow> Reply (resp_ok a) | None \<Rightarrow> ReplyTimeout)"
      using assms(2) True Served st by (auto simp: http_refresh_def deliver_def split: option.splits)
    from assms(1) st show ?thesis
    proof (cases rule: forced_step)
      case (served f)
      then obtain a where "answer = Some a" "resp_ok a" by auto
      then show ?thesis using r Served served by (cases in_time) (simp_all add: refresh_provider_def)
    next
      case failed
      then obtain a where "answer = Some a" "\<not> resp_ok a" by auto
      then show ?thesis using r Served failed by (cases in_time) (simp_all add: refresh_provider_def)
    qed
  qed (use True assms(2) in \<open>auto simp: http_refresh_def deliver_def refresh_provider_def same_catalog_def split: bool.splits\<close>)
qed

text \<open>A refresh the loop completes after the request has stopped waiting is reported as failed, and its catalog is installed.\<close>

lemma late_refresh_is_installed:
  assumes "he_gate_free env" "he_queue env" "he_delivery env = Served lenv False" "loop_step X T lenv (Asked RefreshProvider True) s = (answer, s')"
  shows "http_refresh X T env s = (Inl (Bail ''provider refresh timed out''), s')"
  using assms by (simp add: http_refresh_def deliver_def refresh_provider_def)

lemmas reply_defs = plain_reply_def bad_request_def method_not_allowed_def no_content_def raw_forbidden_def refresh_unavailable_def
  gateway_unavailable_def not_found_def document_reply_def

lemma reply_status [simp]:
  "hr_status (bad_request h) = 400" "hr_status (method_not_allowed h) = 405" "hr_status no_content = 204" "hr_status (raw_forbidden h) = 403"
  "hr_status (refresh_unavailable h) = 503" "hr_status (gateway_unavailable b h) = 503" "hr_status (not_found h) = 404"
  "hr_status (document_reply t u d h) = 200"
  by (simp_all add: reply_defs)

lemma reply_head_update [simp]:
  "(bad_request h)\<lparr>hr_head := h'\<rparr> = bad_request h'" "(method_not_allowed h)\<lparr>hr_head := h'\<rparr> = method_not_allowed h'" "no_content\<lparr>hr_head := True\<rparr> = no_content"
  "(raw_forbidden h)\<lparr>hr_head := h'\<rparr> = raw_forbidden h'" "(refresh_unavailable h)\<lparr>hr_head := h'\<rparr> = refresh_unavailable h'"
  "(gateway_unavailable b h)\<lparr>hr_head := h'\<rparr> = gateway_unavailable b h'" "(not_found h)\<lparr>hr_head := h'\<rparr> = not_found h'"
  "(document_reply t u d h)\<lparr>hr_head := h'\<rparr> = document_reply t u d h'"
  by (simp_all add: reply_defs)

lemma unavailable_bodies_differ [simp]:
  "text_bytes ''gateway unavailable'' \<noteq> text_bytes ''remote refresh failed or unavailable; previous catalog retained''"
  by (simp add: text_bytes_def ustr_def utf8_Cons utf8_char_def)

lemma path_distinct [simp]:
  "PROVIDER_PATH \<noteq> CLASH_PROVIDER_PATH" "CLASH_PROVIDER_PATH \<noteq> PROVIDER_PATH" "PROVIDER_PATH \<noteq> STATUS_PATH" "PROVIDER_PATH \<noteq> HEALTH_PATH"
  "CLASH_PROVIDER_PATH \<noteq> STATUS_PATH" "CLASH_PROVIDER_PATH \<noteq> HEALTH_PATH" "HEALTH_PATH \<noteq> STATUS_PATH"
  by (simp_all add: PROVIDER_PATH_def CLASH_PROVIDER_PATH_def STATUS_PATH_def HEALTH_PATH_def)

lemma provider_reply_head:
  "provider_reply X T env clash qs True peer s = (case provider_reply X T env clash qs False peer s of (p, s) \<Rightarrow> (p\<lparr>hr_head := True\<rparr>, s))"
proof -
  let ?raw = "\<not> clash \<and> query_flag qs ''raw''"
  define q where "q = (if query_flag qs ''refresh'' then http_refresh X T env s else (Inr (), s))"
  obtain r t where q: "q = (r, t)" by fastforce
  obtain document m where d: "provider_document env clash ?raw (query_flag qs ''all'') (\<not> query_flag qs ''http'') peer (cs_manager (sl_catalog t)) = (document, m)"
    by fastforce
  consider e where "document = Inl e" | "document = Inr None" | b where "document = Inr (Some b)" by (metis old.sum.exhaust not_None_eq)
  then show ?thesis unfolding provider_reply_def Let_def q_def [symmetric] q prod.case d by cases simp_all
qed

text \<open>
  HEAD is GET without the body. For every target, peer and state of the service the two get the same status and headers, with the length of the
  body that GET sends, have the same effect on the service, and only the body is left out.
\<close>

lemma head_is_get_without_body:
  "http_respond X T J env (l\<lparr>rl_method := ustr ''HEAD''\<rparr>) peer s
     = (case http_respond X T J env (l\<lparr>rl_method := ustr ''GET''\<rparr>) peer s of
          (Inr p, s') \<Rightarrow> (Inr (p\<lparr>hr_head := True\<rparr>), s')
        | (Inl e, s') \<Rightarrow> (Inl e, s'))
   \<and> reply_head (p\<lparr>hr_head := b\<rparr>) = reply_head p"
proof
  obtain t qs where t: "split_target (rl_target l) = (t, qs)" by fastforce
  show "http_respond X T J env (l\<lparr>rl_method := ustr ''HEAD''\<rparr>) peer s
     = (case http_respond X T J env (l\<lparr>rl_method := ustr ''GET''\<rparr>) peer s of
          (Inr p, s') \<Rightarrow> (Inr (p\<lparr>hr_head := True\<rparr>), s')
        | (Inl e, s') \<Rightarrow> (Inl e, s'))"
    by (simp add: http_respond_def t provider_reply_head Let_def case_prod_beta split: option.splits)
qed (simp add: reply_head_def)

lemma raw_document:
  assumes "manager_raw_provider m include_all peer lookups = (r, m')"
  shows "r = Inr (Some d) \<Longrightarrow> raw_provider_allowed m' peer = Inr True" "raw_provider_allowed m peer = Inr False \<Longrightarrow> r = Inr None \<and> m' = m"
  using assms by (auto simp: manager_raw_provider_def raw_provider_allowed_def ok_or_def Let_def split: option.splits if_splits prod.splits)

text \<open>The reply of a provider request, with the refresh before it and the document after.\<close>

lemma provider_reply_cases:
  assumes "provider_reply X T env clash qs head peer s = (p, s')"
  obtains (refused) "query_flag qs ''refresh''" "\<not> clash" "query_flag qs ''raw''" "raw_provider_allowed (cs_manager (sl_catalog s)) peer = Inr False"
      "p = raw_forbidden head" "s' = s"
  | (unrefreshed) e where "query_flag qs ''refresh''" "http_refresh X T env s = (Inl e, s')" "p = refresh_unavailable head"
      "\<not> (\<not> clash \<and> query_flag qs ''raw'' \<and> raw_provider_allowed (cs_manager (sl_catalog s)) peer = Inr False)"
  | (rendered) t document m where "if query_flag qs ''refresh'' then http_refresh X T env s = (Inr (), t) else t = s"
      "query_flag qs ''refresh'' \<Longrightarrow> \<not> (\<not> clash \<and> query_flag qs ''raw'' \<and> raw_provider_allowed (cs_manager (sl_catalog s)) peer = Inr False)"
      "provider_document env clash (\<not> clash \<and> query_flag qs ''raw'') (query_flag qs ''all'') (\<not> query_flag qs ''http'') peer (cs_manager (sl_catalog t)) = (document, m)"
      "s' = t\<lparr>sl_catalog := (sl_catalog t)\<lparr>cs_manager := m\<rparr>\<rparr>"
      "p = (case document of
             Inr (Some d) \<Rightarrow> document_reply (if clash then ''text/yaml; charset=utf-8'' else ''text/plain; charset=utf-8'')
                 (if clash then subscription_header m (ce_now (le_catalog (he_loop env))) else None) d head
           | Inr None \<Rightarrow> raw_forbidden head
           | Inl _ \<Rightarrow> gateway_unavailable (\<not> clash \<and> query_flag qs ''raw'') head)"
proof -
  let ?raw = "\<not> clash \<and> query_flag qs ''raw''"
  let ?forced = "query_flag qs ''refresh''"
  define q where "q = (if ?forced then http_refresh X T env s else (Inr (), s))"
  obtain r t where q: "q = (r, t)" by fastforce
  obtain document m where d: "provider_document env clash ?raw (query_flag qs ''all'') (\<not> query_flag qs ''http'') peer (cs_manager (sl_catalog t)) = (document, m)"
    by fastforce
  note eq = assms [unfolded provider_reply_def Let_def q_def [symmetric] q prod.case d]
  show thesis
  proof (cases "?forced \<and> ?raw \<and> raw_provider_allowed (cs_manager (sl_catalog s)) peer = Inr False")
    case True
    then show thesis using refused eq by auto
  next
    case False
    show thesis
    proof (cases r)
      case (Inl e)
      then have "?forced" "http_refresh X T env s = (Inl e, t)" using q q_def by (auto split: if_splits)
      then show thesis using unrefreshed [of e] False eq Inl by auto
    next
      case (Inr u)
      then show thesis using rendered [of t document m] False eq q q_def d by (auto split: if_splits)
    qed
  qed
qed

text \<open>
  C36: The document with the nodes' own credentials goes only to a peer that may have it. When it is delivered, the gateway in force
  allows the peer, which is a loopback peer unless the configuration opens the document to others; a peer that is not allowed gets an error without any of
  the document, before any refresh is started: the request leaves the service exactly as it was.
\<close>

theorem raw_nodes_need_allowed_peer:
  assumes "http_respond X T J env l peer s = (Inr p, s')" "split_target (rl_target l) = (ustr PROVIDER_PATH, qs)" "query_flag qs ''raw''"
  shows "(if hr_status p = 200 then raw_provider_allowed (cs_manager (sl_catalog s')) peer = Inr True else hr_status p \<in> {400, 403, 405, 503})
    \<and> (raw_provider_allowed (cs_manager (sl_catalog s)) peer = Inr False \<longrightarrow> hr_status p \<in> {400, 403, 405} \<and> s' = s)"
proof (cases "rl_complete l \<and> (rl_method l = ustr ''GET'' \<or> rl_method l = ustr ''HEAD'')")
  case False
  then show ?thesis using assms(1,2) by (auto simp: http_respond_def Let_def split: if_splits)
next
  case True
  then have r: "provider_reply X T env False qs (rl_method l = ustr ''HEAD'') peer s = (p, s')"
    using assms(1,2) by (simp add: http_respond_def Let_def split: prod.splits)
  then show ?thesis
  proof (cases rule: provider_reply_cases)
    case (rendered t document m)
    have d: "manager_raw_provider (cs_manager (sl_catalog t)) (query_flag qs ''all'') peer (he_lookups env) = (document, m)"
      using rendered(3) assms(3) by (simp add: provider_document_def)
    have "document = Inr None \<and> s' = s \<and> p = raw_forbidden (rl_method l = ustr ''HEAD'')" if f: "raw_provider_allowed (cs_manager (sl_catalog s)) peer = Inr False"
    proof -
      have "t = s" using rendered(1,2) f assms(3) by (auto split: if_splits)
      then show ?thesis using raw_document(2) [OF d] f rendered(4,5) by simp
    qed
    moreover have "if hr_status p = 200 then raw_provider_allowed (cs_manager (sl_catalog s')) peer = Inr True else hr_status p \<in> {400, 403, 405, 503}"
      using raw_document(1) [OF d] rendered(4,5) by (simp split: sum.splits option.splits)
    ultimately show ?thesis by auto
  qed (use assms(3) in auto)
qed

lemma http_respond_provider:
  assumes "http_respond X T J env l peer s = (Inr p, s')" "split_target (rl_target l) = (t, qs)" "t = ustr PROVIDER_PATH \<or> t = ustr CLASH_PROVIDER_PATH"
  obtains (turned_away) "p = bad_request (rl_method l = ustr ''HEAD'') \<or> p = method_not_allowed (rl_method l = ustr ''HEAD'')" "s' = s"
  | (provider) "provider_reply X T env (t = ustr CLASH_PROVIDER_PATH) qs (rl_method l = ustr ''HEAD'') peer s = (p, s')"
proof (cases "rl_complete l \<and> (rl_method l = ustr ''GET'' \<or> rl_method l = ustr ''HEAD'')")
  case True
  then show thesis using assms provider by (auto simp: http_respond_def Let_def split: prod.splits)
next
  case False
  then show thesis using assms turned_away by (auto simp: http_respond_def Let_def split: if_splits)
qed


subsection \<open>Every request is answered\<close>

lemma http_respond_total:
  assumes "\<And>v. value_json J v \<noteq> None"
  obtains p s' where "http_respond X T J env l peer s = (Inr p, s')"
proof -
  obtain t qs where t: "split_target (rl_target l) = (t, qs)" by fastforce
  obtain b where b: "value_json J (loop_status (he_loop env) s) = Some b" using assms by blast
  have "\<exists>p s'. http_respond X T J env l peer s = (Inr p, s')" by (simp add: http_respond_def t b Let_def case_prod_beta)
  then show thesis using that by blast
qed

lemma write_response_reliable:
  assumes "reliable w"
  shows "\<exists>w'. write_response p w = (Inr (), w') \<and> shut w'
    \<and> delivered w' = accepted w @ utf8 (reply_head p) @ (if hr_head p then [] else hr_body p)"
  using assms by (simp add: write_response_def write_all_reliable flush_reliable shutdown_sink_def accepted_def)

lemma request_line_prefix: "10 \<in> set r \<Longrightarrow> request_line_of (r @ rest) = request_line_of r"
  unfolding request_line_of_def by (subst takeWhile_append1) auto

text \<open>
  C38: A request whose head arrives in time and within the size limit is answered, however the bytes are cut into pieces: the reply is that of its first
  line alone, its head and, except for HEAD, its body reach the peer whole, and the connection is closed after that.
\<close>

theorem every_request_is_answered:
  assumes "\<not> he_late_headers env" "healthy src" "str_contains HEAD_END (source_bytes src)" "length (source_bytes src) \<le> 8192" "reliable w"
    "\<forall>v. value_json J v \<noteq> None"
  shows "\<exists>p s' w'. http_respond X T J env (request_line_of (source_bytes src)) peer s = (Inr p, s')
    \<and> serve_http X T J env peer src w s = (Inr (), w', s')
    \<and> delivered w' = accepted w @ utf8 (reply_head p) @ (if hr_head p then [] else hr_body p) \<and> shut w'"
proof -
  have "\<not> str_contains HEAD_END []" by (simp add: HEAD_END_def)
  then obtain r rest' where r: "nodelist_headers [] src = (Inr r, rest')" using nodelist_headers_complete [of src "[]"] assms(2-4) by auto
  from nodelist_headers_Inr [OF this] obtain rest where rest: "source_bytes src = r @ rest" "str_contains HEAD_END r" by auto
  then have "10 \<in> set r" unfolding str_contains_iff by (auto simp: HEAD_END_def)
  then have l: "request_line_of (source_bytes src) = request_line_of r" using rest(1) request_line_prefix by simp
  obtain p s' where p: "http_respond X T J env (request_line_of r) peer s = (Inr p, s')" using http_respond_total assms(6) by blast
  obtain w' where w: "write_response p w = (Inr (), w')" "shut w'"
    "delivered w' = accepted w @ utf8 (reply_head p) @ (if hr_head p then [] else hr_body p)" using write_response_reliable [OF assms(5)] by blast
  have "serve_http X T J env peer src w s = (Inr (), w', s')" using assms(1) by (simp add: serve_http_def r p w)
  then show ?thesis using p w l by auto
qed

text \<open>A request without a forced refresh leaves configuration, catalog, router, clients and listeners alone.\<close>

lemma unforced_request_keeps_service:
  assumes "http_respond X T J env l peer s = (r, s')" "\<not> query_flag (snd (split_target (rl_target l))) ''refresh''"
  shows "same_catalog (sl_catalog s) (sl_catalog s')" "sl_settings s' = sl_settings s" "sl_interval s' = sl_interval s"
proof -
  obtain t qs where t: "split_target (rl_target l) = (t, qs)" by fastforce
  have P: "same_catalog (sl_catalog s) (sl_catalog s') \<and> sl_settings s' = sl_settings s \<and> sl_interval s' = sl_interval s"
    if "provider_reply X T env clash qs head peer s = (p, s')" for clash head p
    using that by (cases rule: provider_reply_cases)
      (use t assms(2) provider_document_router in \<open>force simp: same_catalog_def split: if_splits\<close>)+
  have "s' = s \<or> (\<exists>clash head p. provider_reply X T env clash qs head peer s = (p, s'))"
    using assms(1) by (auto simp: http_respond_def t Let_def split: if_splits prod.splits)
  then show "same_catalog (sl_catalog s) (sl_catalog s')" "sl_settings s' = sl_settings s" "sl_interval s' = sl_interval s"
    using P by (auto simp: same_catalog_def)
qed

subsection \<open>Requests to a service at work\<close>

lemma sample_targets:
  "split_target (ustr ''/surge-proxies.conf?raw=1'') = (ustr PROVIDER_PATH, ustr ''raw=1'')"
  "split_target (ustr ''/surge-proxies.conf?refresh=1'') = (ustr PROVIDER_PATH, ustr ''refresh=1'')"
  by (simp_all add: split_target_def ustr_def PROVIDER_PATH_def)

lemma sample_flags:
  "query_flag (ustr ''raw=1'') ''raw''" "\<not> query_flag (ustr ''raw=1'') ''refresh''"
  "query_flag (ustr ''refresh=1'') ''refresh''" "\<not> query_flag (ustr ''refresh=1'') ''raw''"
  by (simp_all add: query_flag_def query_values_def split_char_def ustr_def map_filter_simps)

definition sample_http_env :: "(Proxy option list, Proxy option) loop_env delivery \<Rightarrow> (Proxy option list, Proxy option) http_env" where
  "sample_http_env dl = \<lparr>he_loop = sample_loop_env (\<lambda>_. (None, 0)), he_gate_free = True, he_queue = True, he_delivery = dl, he_lookups = [],
     he_late_headers = False\<rparr>"

definition get_line :: "string \<Rightarrow> request_line" where
  "get_line target = \<lparr>rl_method = ustr ''GET'', rl_target = ustr target, rl_complete = True\<rparr>"

lemma get_provider:
  assumes "split_target (ustr target) = (ustr PROVIDER_PATH, qs)" "provider_reply X T env False qs False peer s = (p, s')"
  shows "http_respond X T J env (get_line target) peer s = (Inr p, s')"
  using assms by (simp add: http_respond_def get_line_def Let_def)

lemma sample_forced_refresh:
  assumes "service_inv sample_crypto sample_text s" "cs_managed s = [good_proxy [88]]" "cs_service s = sample_config"
  obtains s' where "refresh_with_policy sample_crypto sample_text (sample_env (\<lambda>_. (Some (Inr sample_response), 2))) True s = (Inr (), s')"
proof -
  let ?env = "sample_env (\<lambda>_. (Some (Inr sample_response), 2))"
  have fp: "cs_fingerprint s = sample_fingerprint"
    using assms(1,3) by (simp add: service_inv_def Let_def sample_fingerprint_def sample_config_def)
  have env: "ce_codec ?env = sample_codec sample_envelope" "ce_fault ?env = None" by (simp_all add: sample_env_def)
  have st: "store_snapshot (sample_codec sample_envelope) None sample_fingerprint [good_proxy [88]] None (Some 5) fs
      = (Inr (), \<lparr>cf_cache = Some [1], cf_temporary = None\<rparr>)" for fs
    by (simp add: store_snapshot_def write_private_atomic_def atomic_write_states_def Let_def sample_codec_def sample_envelope_def snapshot_envelope_def)
  obtain s' where "refresh_with_policy sample_crypto sample_text ?env True s = (Inr (), s')"
    using assms(2,3) fp sample_api_fetch
    by (simp add: refresh_with_policy_def finish_refresh_def apply_refreshed_catalog_def build_replacement_def store_service_def st env
        sample_config_def Let_def error_kind_def)
  then show thesis by (rule that)
qed

lemma sample_answered_refresh:
  obtains s a s' where "loop_reach sample_crypto sample_text one_yaml s"
    "loop_step sample_crypto sample_text (sample_loop_env (\<lambda>_. (Some (Inr sample_response), 2))) (Asked RefreshProvider True) s = (Some a, s')" "resp_ok a"
    "service_inv sample_crypto sample_text (sl_catalog s')" "cs_service (sl_catalog s) = sample_config"
proof (rule sample_loop)
  let ?env = "sample_loop_env (\<lambda>_. (Some (Inr sample_response), 2))"
  fix s assume s: "loop_reach sample_crypto sample_text one_yaml s" "cs_service (sl_catalog s) = sample_config" "cs_managed (sl_catalog s) = [good_proxy [88]]"
  have inv: "service_inv sample_crypto sample_text (sl_catalog s)" using loop_reach_catalog [OF s(1)] service_reach_inv by blast
  obtain c where c: "refresh_with_policy sample_crypto sample_text (le_catalog ?env) True (sl_catalog s) = (Inr (), c)"
    using sample_forced_refresh [OF inv s(3,2)] by (auto simp: sample_loop_env_def)
  have "loop_step sample_crypto sample_text ?env (Asked RefreshProvider True) s
      = (Some (loop_response ?env RefreshProvider (Inr ()) (s\<lparr>sl_catalog := c\<rparr>)), s\<lparr>sl_catalog := c\<rparr>)"
    using c by (simp add: loop_step_def loop_refresh_def)
  then show thesis using that [OF s(1)] s(2) service_inv_refresh [OF inv c] by simp
qed


text \<open>The same service with its raw document closed to others, asked from 8.8.8.8.\<close>

theorem raw_nodes_need_allowed_peer_witness:
  "\<exists>s p s'. http_respond sample_crypto sample_text (sample_control (response_success [] JNull)) (sample_http_env QueueBusy)
      (get_line ''/surge-proxies.conf?raw=1'') (V4 134744072) s = (Inr p, s')
    \<and> raw_provider_allowed (cs_manager (sl_catalog s)) (V4 134744072) = Inr False \<and> hr_status p \<in> {400, 403, 405} \<and> s' = s"
proof (rule sample_loop)
  let ?J = "sample_control (response_success [] JNull)"
  let ?env = "sample_http_env QueueBusy"
  fix s0 assume "loop_reach sample_crypto sample_text one_yaml s0"
  then obtain r where r: "router (cs_manager (sl_catalog s0)) = Some r"
    using loop_reach_catalog service_reach_inv by (fastforce simp: service_inv_def Let_def)
  define s where "s = s0\<lparr>sl_catalog := (sl_catalog s0)\<lparr>cs_manager := (cs_manager (sl_catalog s0))\<lparr>router := Some (r\<lparr>router_remote_raw := False\<rparr>)\<rparr>\<rparr>\<rparr>"
  have f: "raw_provider_allowed (cs_manager (sl_catalog s)) (V4 134744072) = Inr False"
    by (simp add: s_def raw_provider_allowed_def ok_or_def raw_peer_allowed_def v4_loopback_def)
  obtain p s' where "http_respond sample_crypto sample_text ?J ?env (get_line ''/surge-proxies.conf?raw=1'') (V4 134744072) s = (Inr p, s')"
    by (rule http_respond_total [of ?J]) (auto simp: sample_control_def)
  moreover have "split_target (rl_target (get_line ''/surge-proxies.conf?raw=1'')) = (ustr PROVIDER_PATH, ustr ''raw=1'')"
    by (simp add: get_line_def sample_targets)
  ultimately show ?thesis using raw_nodes_need_allowed_peer [OF _ _ sample_flags(1)] f by blast
qed

theorem every_request_is_answered_witness:
  "\<exists>s s' w'. serve_http sample_crypto sample_text (sample_control (response_success [] JNull)) (sample_http_env QueueBusy) (V4 2130706433)
      [Data [71, 13], Data [10, 13, 10]] fresh_sink s = (Inr (), w', s') \<and> shut w'"
proof -
  fix s
  let ?J = "sample_control (response_success [] JNull)"
  have "str_contains HEAD_END (source_bytes [Data [71, 13], Data [10, 13, 10]])" by (simp add: HEAD_END_def starts_with_def)
  then show ?thesis
    using every_request_is_answered [of "sample_http_env QueueBusy" "[Data [71, 13], Data [10, 13, 10]]" fresh_sink ?J sample_crypto sample_text "V4 2130706433" s]
    by (auto simp: sample_http_env_def sample_control_def)
qed

end
