(* ===== verification/Listener.thy ===== *)
theory Listener
  imports Service
begin

text \<open>
  Accepting connections: the retries of \<open>src/accept.rs\<close>, the admission of \<open>admit_connection\<close> in \<open>src/cli.rs\<close> as a step
  relation whose steps are the single accesses to the shared counter, notification and settings, and the refresh of a
  running SOCKS5 map.
\<close>

subsection \<open>Accepting\<close>

datatype AcceptError = ConnectionFailed | ResourceExhausted | FatalError

datatype io_kind = ConnectionAborted | ConnectionReset | ConnectionRefused | Interrupted | OtherKind

datatype errno = ENETDOWN | ENETUNREACH | EHOSTDOWN | EHOSTUNREACH | EPROTO | ENOPROTOOPT | EMFILE | ENFILE | ENOBUFS | ENOMEM | OtherErrno

definition classify_os :: "errno option \<Rightarrow> AcceptError" where
  "classify_os code =
     (case code of
        Some c \<Rightarrow>
          if c \<in> {ENETDOWN, ENETUNREACH, EHOSTDOWN, EHOSTUNREACH, EPROTO, ENOPROTOOPT} then ConnectionFailed
          else if c \<in> {EMFILE, ENFILE, ENOBUFS, ENOMEM} then ResourceExhausted
          else FatalError
      | None \<Rightarrow> FatalError)"

definition accept_classify :: "io_kind \<Rightarrow> errno option \<Rightarrow> AcceptError" where
  "accept_classify kind code =
     (if kind \<in> {ConnectionAborted, ConnectionReset, ConnectionRefused, Interrupted} then ConnectionFailed else classify_os code)"

text \<open>
  The calls of \<open>accept\<close> bring connections or errors; \<open>None\<close> is still waiting when they end. The number counts the waits of \<open>RESOURCE_BACKOFF\<close>.
\<close>

type_synonym 'c accepting = "((io_kind \<times> errno option) + 'c) list"

fun accept_retry :: "'c accepting \<Rightarrow> (((io_kind \<times> errno option) + 'c) \<times> 'c accepting) option \<times> nat" where
  "accept_retry [] = (None, 0)"
| "accept_retry (Inr c # calls) = (Some (Inr c, calls), 0)"
| "accept_retry (Inl (kind, code) # calls) =
     (case accept_classify kind code of
        ConnectionFailed \<Rightarrow> accept_retry calls
      | ResourceExhausted \<Rightarrow> (case accept_retry calls of (r, n) \<Rightarrow> (r, n + 1))
      | FatalError \<Rightarrow> (Some (Inl (kind, code), calls), 0))"

text \<open>
  Only a fatal error ends the accepting: errors of single connections and exhausted resources are survived, and the next connection is
  returned, after one wait for each exhausted resource.
\<close>

lemma accept_survives_transient_errors:
  assumes "list_all (\<lambda>(kind, code). accept_classify kind code \<noteq> FatalError) errors"
  shows "accept_retry (map Inl errors @ Inr c # calls)
    = (Some (Inr c, calls), length (filter (\<lambda>(kind, code). accept_classify kind code = ResourceExhausted) errors))"
  using assms by (induction errors) (auto split: AcceptError.splits)

lemma accept_ends_on_fatal: "accept_retry calls = (Some (Inl (kind, code), rest), n) \<Longrightarrow> accept_classify kind code = FatalError"
  by (induction calls arbitrary: n rule: accept_retry.induct) (auto split: AcceptError.splits prod.splits)

subsection \<open>Admission\<close>

text \<open>
  The shared state: the counter, whether a notification is stored, the settings and whether the listener has not seen them
  yet, and the places of the tasks: connections at work, finished ones between the decrement and the notification, and the listener itself.
\<close>

datatype admission_phase = Accepting | Borrowing | Loading AcceptSettings | Adding AcceptSettings | Sleeping

record admission =
  ad_count :: nat
  ad_notified :: bool
  ad_settings :: AcceptSettings
  ad_unseen :: bool
  ad_phase :: admission_phase
  ad_active :: "AcceptSettings list"
  ad_leaving :: nat

definition admission_start :: "AcceptSettings \<Rightarrow> admission" where
  "admission_start st = \<lparr>ad_count = 0, ad_notified = False, ad_settings = st, ad_unseen = False, ad_phase = Accepting, ad_active = [], ad_leaving = 0\<rparr>"

inductive admission_step :: "admission \<Rightarrow> admission \<Rightarrow> bool" where
  accept: "ad_phase a = Accepting \<Longrightarrow> admission_step a (a\<lparr>ad_phase := Borrowing\<rparr>)"
| borrow: "ad_phase a = Borrowing \<Longrightarrow> admission_step a (a\<lparr>ad_phase := Loading (ad_settings a), ad_unseen := False\<rparr>)"
| free: "ad_phase a = Loading st \<Longrightarrow> ad_count a < as_max_connections st \<Longrightarrow> admission_step a (a\<lparr>ad_phase := Adding st\<rparr>)"
| full: "ad_phase a = Loading st \<Longrightarrow> \<not> ad_count a < as_max_connections st \<Longrightarrow> admission_step a (a\<lparr>ad_phase := Sleeping\<rparr>)"
| admit: "ad_phase a = Adding st \<Longrightarrow> admission_step a (a\<lparr>ad_phase := Accepting, ad_count := ad_count a + 1, ad_active := st # ad_active a\<rparr>)"
| changed: "ad_phase a = Sleeping \<Longrightarrow> ad_unseen a \<Longrightarrow> admission_step a (a\<lparr>ad_phase := Borrowing\<rparr>)"
| notified: "ad_phase a = Sleeping \<Longrightarrow> ad_notified a \<Longrightarrow> admission_step a (a\<lparr>ad_phase := Borrowing, ad_notified := False\<rparr>)"
| finish: "ad_active a = xs @ st # ys \<Longrightarrow> admission_step a (a\<lparr>ad_active := xs @ ys, ad_count := ad_count a - 1, ad_leaving := ad_leaving a + 1\<rparr>)"
| notify: "ad_leaving a = Suc n \<Longrightarrow> admission_step a (a\<lparr>ad_leaving := n, ad_notified := True\<rparr>)"
| send_replace: "admission_step a (a\<lparr>ad_settings := st, ad_unseen := True\<rparr>)"

inductive admission_reach :: "AcceptSettings list \<Rightarrow> admission \<Rightarrow> bool" where
  fresh: "admission_reach [st] (admission_start st)"
| step: "admission_reach hist a \<Longrightarrow> admission_step a a' \<Longrightarrow>
    admission_reach (if ad_settings a' = ad_settings a then hist else ad_settings a' # hist) a'"

text \<open>
  The invariant: the counter counts the admitted connections, no more than the greatest limit that was in force; a free slot found stays free
  until it is taken; and a sleeping listener for which there is room has been told so, or will be.
\<close>

definition admission_inv :: "AcceptSettings list \<Rightarrow> admission \<Rightarrow> bool" where
  "admission_inv hist a \<longleftrightarrow>
     ad_count a = length (ad_active a)
     \<and> (\<exists>st \<in> set hist. ad_count a \<le> as_max_connections st)
     \<and> ad_settings a \<in> set hist \<and> set (ad_active a) \<subseteq> set hist
     \<and> (case ad_phase a of
          Loading st \<Rightarrow> st \<in> set hist \<and> (st = ad_settings a \<or> ad_unseen a)
        | Adding st \<Rightarrow> st \<in> set hist \<and> ad_count a < as_max_connections st
        | Sleeping \<Rightarrow> ad_unseen a \<or> ad_notified a \<or> 0 < ad_leaving a \<or> as_max_connections (ad_settings a) \<le> ad_count a
        | _ \<Rightarrow> True)"

lemma admission_inv_step:
  assumes "admission_inv hist a" "admission_step a a'"
  shows "admission_inv (if ad_settings a' = ad_settings a then hist else ad_settings a' # hist) a'"
  using assms(2)
proof (cases rule: admission_step.cases)
  case (admit st)
  then show ?thesis using assms(1) by (auto simp: admission_inv_def intro!: bexI [of _ st])
next
  case (finish xs st ys)
  then obtain top where "top \<in> set hist" "ad_count a \<le> as_max_connections top" using assms(1) by (auto simp: admission_inv_def)
  then have "\<exists>st \<in> set hist. ad_count a - 1 \<le> as_max_connections st" by (intro bexI [of _ top]) auto
  then show ?thesis using assms(1) finish by (auto simp: admission_inv_def split: admission_phase.splits)
qed (use assms(1) in \<open>auto simp: admission_inv_def split: admission_phase.splits\<close>)

lemma admission_reach_inv: "admission_reach hist a \<Longrightarrow> admission_inv hist a"
proof (induction rule: admission_reach.induct)
  case (fresh st)
  then show ?case by (simp add: admission_inv_def admission_start_def)
next
  case (step hist a a')
  then show ?case using admission_inv_step by blast
qed

text \<open>With room for it, a listener that is awake takes its connection with the settings in force.\<close>

lemma borrowing_admits:
  assumes "ad_phase a = Borrowing" "ad_count a < as_max_connections (ad_settings a)"
  shows "\<exists>a'. admission_step\<^sup>*\<^sup>* a a' \<and> ad_active a' = ad_settings a # ad_active a"
proof -
  let ?b = "a\<lparr>ad_phase := Loading (ad_settings a), ad_unseen := False\<rparr>"
  let ?c = "?b\<lparr>ad_phase := Adding (ad_settings a)\<rparr>"
  let ?d = "?c\<lparr>ad_phase := Accepting, ad_count := ad_count ?c + 1, ad_active := ad_settings a # ad_active ?c\<rparr>"
  have ab: "admission_step a ?b" using assms(1) by (rule admission_step.borrow)
  have bc: "admission_step ?b ?c" by (rule admission_step.free) (use assms(2) in auto)
  have cd: "admission_step ?c ?d" by (rule admission_step.admit) simp
  have "admission_step\<^sup>*\<^sup>* a ?d"
    using converse_rtranclp_into_rtranclp [of admission_step, OF ab converse_rtranclp_into_rtranclp [of admission_step, OF bc r_into_rtranclp [of admission_step, OF cd]]] .
  then show ?thesis by (intro exI [of _ ?d]) simp
qed

lemma notified_admits:
  assumes "ad_phase a = Sleeping" "ad_notified a" "ad_count a < as_max_connections (ad_settings a)"
  shows "\<exists>a'. admission_step\<^sup>*\<^sup>* a a' \<and> ad_active a' = ad_settings a # ad_active a"
  using borrowing_admits [of "a\<lparr>ad_phase := Borrowing, ad_notified := False\<rparr>"] admission_step.notified [OF assms(1,2)] assms(3)
    converse_rtranclp_into_rtranclp [of admission_step a] by fastforce


subsection \<open>Refreshing a SOCKS5 map\<close>

record MapRefresh =
  mr_updates :: "(nat \<times> Proxy) list"
  mr_added :: nat
  mr_removed :: nat

fun map_plan :: "nat \<Rightarrow> Proxy list \<Rightarrow> Proxy list \<Rightarrow> (nat \<times> Proxy) list \<times> nat" where
  "map_plan i [] refreshed = ([], 0)"
| "map_plan i (current # mapped) refreshed =
     (case map_plan (Suc i) mapped refreshed of (updates, removed) \<Rightarrow>
        (case find (\<lambda>p. name p = name current) refreshed of
           Some p \<Rightarrow> if p \<noteq> current then ((i, p) # updates, removed) else (updates, removed)
         | None \<Rightarrow> (updates, removed + 1)))"

definition plan_map_refresh :: "Proxy list \<Rightarrow> Proxy list \<Rightarrow> MapRefresh" where
  "plan_map_refresh mapped refreshed =
     (case map_plan 0 mapped refreshed of (updates, removed) \<Rightarrow>
        \<lparr>mr_updates = updates,
         mr_added = length (filter (\<lambda>p. \<not> list_ex (\<lambda>c. name c = name p) mapped) refreshed),
         mr_removed = removed\<rparr>)"

text \<open>
  The loop over the updates. \<open>build\<close> is the outcome of \<open>build_fixed_route\<close>; a route that is replaced has its client closed.
\<close>

record 'r socks_map =
  sm_mapped :: "Proxy list"
  sm_routes :: "'r list"
  sm_closed :: "'r list"

fun apply_map_updates :: "(Proxy \<Rightarrow> 'r res) \<Rightarrow> (nat \<times> Proxy) list \<Rightarrow> 'r socks_map \<Rightarrow> 'r socks_map" where
  "apply_map_updates build [] m = m"
| "apply_map_updates build ((i, p) # updates) m =
     apply_map_updates build updates
       (case build p of
          Inl e \<Rightarrow> m
        | Inr r \<Rightarrow> m\<lparr>sm_routes := (sm_routes m)[i := r], sm_closed := sm_closed m @ [sm_routes m ! i], sm_mapped := (sm_mapped m)[i := p]\<rparr>)"

definition map_refresh :: "(Proxy \<Rightarrow> 'r res) \<Rightarrow> Proxy list res \<Rightarrow> 'r socks_map \<Rightarrow> 'r socks_map" where
  "map_refresh build loaded m =
     (case loaded of
        Inl e \<Rightarrow> m
      | Inr refreshed \<Rightarrow> apply_map_updates build (mr_updates (plan_map_refresh (sm_mapped m) refreshed)) m)"

lemma map_plan_bounds:
  "(j, p) \<in> set (fst (map_plan i mapped refreshed)) \<Longrightarrow> i \<le> j \<and> j < i + length mapped"
proof (induction mapped arbitrary: i)
  case (Cons c mapped)
  then have "(j, p) \<in> set (fst (map_plan (Suc i) mapped refreshed)) \<or> j = i"
    by (auto split: prod.splits option.splits if_splits)
  then show ?case using Cons.IH [of "Suc i"] by auto
qed simp

lemma map_plan_distinct: "distinct (map fst (fst (map_plan i mapped refreshed)))"
proof (induction mapped arbitrary: i)
  case (Cons c mapped)
  have "i \<notin> fst ` set (fst (map_plan (Suc i) mapped refreshed))" using map_plan_bounds [of _ _ "Suc i"] by force
  then show ?case using Cons.IH [of "Suc i"] by (auto split: prod.splits option.splits)
qed simp

lemma map_plan_update:
  "j < length mapped \<Longrightarrow> map_of (fst (map_plan i mapped refreshed)) (i + j) =
     (case find (\<lambda>p. name p = name (mapped ! j)) refreshed of Some p \<Rightarrow> if p \<noteq> mapped ! j then Some p else None | None \<Rightarrow> None)"
proof (induction mapped arbitrary: i j)
  case (Cons c mapped)
  have none: "map_of (fst (map_plan (Suc i) mapped refreshed)) i = None"
    using map_plan_bounds [of i _ "Suc i"] by (force simp: map_of_eq_None_iff)
  show ?case
  proof (cases j)
    case 0
    then show ?thesis using none by (auto split: prod.splits option.splits)
  next
    case (Suc k)
    then show ?thesis using Cons.IH [of k "Suc i"] Cons.prems by (auto split: prod.splits option.splits)
  qed
qed simp

lemma map_plan_removed:
  "snd (map_plan i mapped refreshed) = length (filter (\<lambda>c. name c \<notin> name ` set refreshed) mapped)"
proof (induction mapped arbitrary: i)
  case (Cons c mapped)
  have "find (\<lambda>p. name p = name c) refreshed = None \<longleftrightarrow> name c \<notin> name ` set refreshed" by (auto simp: find_None_iff image_iff)
  then show ?case using Cons.IH [of "Suc i"] by (auto split: prod.splits option.splits)
qed simp

lemma apply_map_updates_nth:
  assumes "distinct (map fst updates)" "length (sm_routes m) = length (sm_mapped m)" "j < length (sm_mapped m)"
  shows "length (sm_mapped (apply_map_updates build updates m)) = length (sm_mapped m) \<and> length (sm_routes (apply_map_updates build updates m)) = length (sm_mapped m)
    \<and> (sm_mapped (apply_map_updates build updates m) ! j, sm_routes (apply_map_updates build updates m) ! j) = (case map_of updates j of
         Some p \<Rightarrow> (case build p of Inr r \<Rightarrow> (p, r) | Inl e \<Rightarrow> (sm_mapped m ! j, sm_routes m ! j))
       | None \<Rightarrow> (sm_mapped m ! j, sm_routes m ! j))"
  using assms(1-3)
proof (induction build updates m rule: apply_map_updates.induct)
  case (2 build i p updates m)
  define m1 where "m1 = (case build p of Inl e \<Rightarrow> m
      | Inr r \<Rightarrow> m\<lparr>sm_routes := (sm_routes m)[i := r], sm_closed := sm_closed m @ [sm_routes m ! i], sm_mapped := (sm_mapped m)[i := p]\<rparr>)"
  have l: "length (sm_mapped m1) = length (sm_mapped m)" "length (sm_routes m1) = length (sm_mapped m)"
    using "2.prems"(2) by (auto simp: m1_def split: sum.splits)
  have n: "(sm_mapped m1 ! j, sm_routes m1 ! j) = (if j = i then (case build p of Inr r \<Rightarrow> (p, r) | Inl e \<Rightarrow> (sm_mapped m ! j, sm_routes m ! j))
      else (sm_mapped m ! j, sm_routes m ! j))"
    using "2.prems"(2,3) by (auto simp: m1_def split: sum.splits)
  have u: "j = i \<Longrightarrow> map_of updates j = None" using "2.prems"(1) by (force simp: map_of_eq_None_iff)
  show ?case using "2.IH" [folded m1_def] "2.prems" l n u by (auto simp: m1_def [symmetric] split: option.splits sum.splits)
qed simp

text \<open>
  C40: The ports of a SOCKS5 map stay with their nodes. Whatever catalog a refresh loads, or none, every port keeps a node of the same name; a port
  whose node changed in the catalog gets the new node and its route when the route can be built, every other port keeps its node and route
  together, and the nodes that are only reported are counted right.
\<close>

theorem map_ports_keep_their_nodes:
  assumes "length (sm_routes m) = length (sm_mapped m)" "i < length (sm_mapped m)"
  shows "name (sm_mapped (map_refresh build loaded m) ! i) = name (sm_mapped m ! i)
    \<and> length (sm_mapped (map_refresh build loaded m)) = length (sm_mapped m)
    \<and> (sm_mapped (map_refresh build loaded m) ! i, sm_routes (map_refresh build loaded m) ! i) =
        (case loaded of
           Inr refreshed \<Rightarrow>
             (case find (\<lambda>p. name p = name (sm_mapped m ! i)) refreshed of
                Some p \<Rightarrow> if p = sm_mapped m ! i then (sm_mapped m ! i, sm_routes m ! i)
                          else (case build p of Inr r \<Rightarrow> (p, r) | Inl e \<Rightarrow> (sm_mapped m ! i, sm_routes m ! i))
              | None \<Rightarrow> (sm_mapped m ! i, sm_routes m ! i))
         | Inl e \<Rightarrow> (sm_mapped m ! i, sm_routes m ! i))
    \<and> mr_removed (plan_map_refresh (sm_mapped m) ps) = length (filter (\<lambda>c. name c \<notin> name ` set ps) (sm_mapped m))
    \<and> mr_added (plan_map_refresh (sm_mapped m) ps) = length (filter (\<lambda>p. name p \<notin> name ` set (sm_mapped m)) ps)"
proof -
  let ?m' = "map_refresh build loaded m"
  have counts: "mr_removed (plan_map_refresh (sm_mapped m) ps) = length (filter (\<lambda>c. name c \<notin> name ` set ps) (sm_mapped m))"
    "mr_added (plan_map_refresh (sm_mapped m) ps) = length (filter (\<lambda>p. name p \<notin> name ` set (sm_mapped m)) ps)"
    using map_plan_removed [of 0 "sm_mapped m" ps]
    by (auto simp: plan_map_refresh_def list_ex_iff image_iff split: prod.splits intro!: arg_cong [where f = length] filter_cong)
  show ?thesis
  proof (cases loaded)
    case (Inl e)
    then show ?thesis using counts by (simp add: map_refresh_def)
  next
    case (Inr refreshed)
    let ?u = "fst (map_plan 0 (sm_mapped m) refreshed)"
    have m': "?m' = apply_map_updates build ?u m" using Inr by (simp add: map_refresh_def plan_map_refresh_def split: prod.splits)
    note A = apply_map_updates_nth [OF map_plan_distinct assms, of build 0 "sm_mapped m" refreshed, folded m']
    have u: "map_of ?u i = (case find (\<lambda>p. name p = name (sm_mapped m ! i)) refreshed of Some p \<Rightarrow> if p \<noteq> sm_mapped m ! i then Some p else None | None \<Rightarrow> None)"
      using map_plan_update [OF assms(2), of 0 refreshed] by simp
    have eq: "(sm_mapped ?m' ! i, sm_routes ?m' ! i) = (case find (\<lambda>p. name p = name (sm_mapped m ! i)) refreshed of
                Some p \<Rightarrow> if p = sm_mapped m ! i then (sm_mapped m ! i, sm_routes m ! i)
                          else (case build p of Inr r \<Rightarrow> (p, r) | Inl e \<Rightarrow> (sm_mapped m ! i, sm_routes m ! i))
              | None \<Rightarrow> (sm_mapped m ! i, sm_routes m ! i))"
      using A u by (auto split: option.splits)
    have "name (sm_mapped ?m' ! i) = name (sm_mapped m ! i)"
      using eq by (auto simp: find_Some_iff split: option.splits if_splits sum.splits)
    then show ?thesis using A eq counts Inr by simp
  qed
qed

subsection \<open>A full listener\<close>

definition one_place :: AcceptSettings where
  "one_place = \<lparr>as_handshake_timeout = 45, as_tcp_idle_timeout = 60, as_udp_idle_timeout = 60, as_max_connections = 1\<rparr>"

definition two_places :: AcceptSettings where
  "two_places = one_place\<lparr>as_max_connections := 2\<rparr>"

text \<open>One connection is at work, a second one waits, and the limit is raised.\<close>

definition raised :: admission where
  "raised = \<lparr>ad_count = 1, ad_notified = False, ad_settings = two_places, ad_unseen = True, ad_phase = Sleeping, ad_active = [one_place], ad_leaving = 0\<rparr>"

lemma raised_reached: "admission_reach [two_places, one_place] raised"
proof -
  let ?s = "\<lambda>n ph ac. \<lparr>ad_count = n, ad_notified = False, ad_settings = one_place, ad_unseen = False, ad_phase = ph, ad_active = ac, ad_leaving = 0\<rparr>"
  have onward: "admission_reach [one_place] b" if "admission_reach [one_place] a" "admission_step a b" "ad_settings b = ad_settings a" for a b
    using admission_reach.step [OF that(1,2)] that(3) by simp
  have "admission_reach [one_place] (?s 0 Accepting [])" using admission_reach.fresh [of one_place] by (simp add: admission_start_def)
  then have "admission_reach [one_place] (?s 0 Borrowing [])" by (rule onward) (use admission_step.accept [of "?s 0 Accepting []"] in simp_all)
  then have "admission_reach [one_place] (?s 0 (Loading one_place) [])" by (rule onward) (use admission_step.borrow [of "?s 0 Borrowing []"] in simp_all)
  then have "admission_reach [one_place] (?s 0 (Adding one_place) [])"
    by (rule onward) (use admission_step.free [of "?s 0 (Loading one_place) []" one_place] in \<open>simp_all add: one_place_def\<close>)
  then have "admission_reach [one_place] (?s 1 Accepting [one_place])"
    by (rule onward) (use admission_step.admit [of "?s 0 (Adding one_place) []" one_place] in simp_all)
  then have "admission_reach [one_place] (?s 1 Borrowing [one_place])" by (rule onward) (use admission_step.accept [of "?s 1 Accepting [one_place]"] in simp_all)
  then have "admission_reach [one_place] (?s 1 (Loading one_place) [one_place])"
    by (rule onward) (use admission_step.borrow [of "?s 1 Borrowing [one_place]"] in simp_all)
  then have sleeping: "admission_reach [one_place] (?s 1 Sleeping [one_place])"
    by (rule onward) (use admission_step.full [of "?s 1 (Loading one_place) [one_place]" one_place] in \<open>simp_all add: one_place_def\<close>)
  have "two_places \<noteq> one_place" by (simp add: two_places_def one_place_def)
  then show ?thesis
    using admission_reach.step [OF sleeping admission_step.send_replace [of _ two_places]] by (simp add: raised_def)
qed


theorem map_ports_keep_their_nodes_witness:
  "sm_mapped (map_refresh (\<lambda>p. Inr (port p)) (Inr [(good_proxy [88])\<lparr>port := 9\<rparr>]) \<lparr>sm_mapped = [good_proxy [88]], sm_routes = [5], sm_closed = []\<rparr>) ! 0
     = (good_proxy [88])\<lparr>port := 9\<rparr>
   \<and> sm_routes (map_refresh (\<lambda>p. Inr (port p)) (Inr [(good_proxy [88])\<lparr>port := 9\<rparr>]) \<lparr>sm_mapped = [good_proxy [88]], sm_routes = [5], sm_closed = []\<rparr>) ! 0 = 9"
proof -
  let ?m = "\<lparr>sm_mapped = [good_proxy [88]], sm_routes = [5 :: u16], sm_closed = []\<rparr>"
  have "(good_proxy [88])\<lparr>port := 9\<rparr> \<noteq> good_proxy [88]" by (simp add: good_proxy_def)
  then show ?thesis using map_ports_keep_their_nodes [of ?m 0 "\<lambda>p. Inr (port p)" "Inr [(good_proxy [88])\<lparr>port := 9\<rparr>]"] by (simp split: if_splits)
qed

end
