(* ===== verification/Spec2Isabelle.thy ===== *)
theory Spec2Isabelle
  imports Snell_Client Traffic_Time Http_Proxy Http_Server Listener
begin

text \<open>
  A verification library for \<open>oixc-proxy\<close>, a local SOCKS5 and HTTP proxy that carries its connections through Snell sessions to
  the nodes of a managed catalog, over TLS 1.3 with encrypted client hello.

  \<^bold>\<open>The program.\<close> The service (\<open>run_serve\<close> in \<open>src/cli.rs\<close>) reads its configuration (\<open>src/config.rs\<close>), fetches the node
  catalog from the control plane (\<open>src/api.rs\<close>) or takes it from its cache (\<open>src/catalog_cache.rs\<close>), and builds a router
  with one Snell client per node (\<open>src/gateway.rs\<close>). Clients connect to a listener that speaks SOCKS5 (\<open>src/socks5.rs\<close>) and HTTP
  (\<open>src/http_proxy.rs\<close>); the user name selects the node. A client's pool of connections (\<open>src/snell/\<close>) is filled by the ECH dialer
  (\<open>src/transport/\<close>) from the outgoing address that \<open>src/network.rs\<close> chooses. The node lists are published over HTTP
  (\<open>src/http_server.rs\<close>); commands arrive over a private control socket (\<open>src/control.rs\<close>); traffic is accounted in a journal
  (\<open>src/traffic.rs\<close>), and \<open>src/diagnostics.rs\<close> reports on all of it.

  \<^bold>\<open>How the code is modelled.\<close> A struct is a record, an enum a datatype with the source's constructors, a \<open>Result\<close> the sum
  \<open>'a res\<close> with the error on the left, a stateful fallible operation a function into \<open>'a res \<times> 's\<close> whose state is returned
  on the error paths too. Bytes and the integers whose overflow matters are words; lengths are \<open>nat\<close>; a Rust string is the list of its scalar values.
  Clients shared by \<open>Arc\<close> are addresses in an arena. Third-party code (\<open>ring\<close>, \<open>argon2\<close>, \<open>serde\<close>, \<open>url\<close>, \<open>rustls\<close>,
  \<open>hickory_proto\<close>, the C library) is an argument of the definitions, with what the code relies on as a predicate that is a hypothesis where it is needed
  and holds of a sample instance; so are the answers of peers, the clock, elapsed timeouts, random bytes and the outcomes of system calls.
  Concurrency is the interleaving of steps: the sections under the pool's lock, the turns of a relay's two loops, the events of a race of connection attempts, the
  accesses to the admission counter, the turns of the service loop. Where a definition combines several calls into one step, its text says so.

  \<^bold>\<open>The theories\<close>, in the order in which they build on each other:

  \<^item> \<open>Prelude\<close>, \<open>Rust_Str\<close>, \<open>Rust_Io\<close>, \<open>Rust_Net\<close>, \<open>Crates\<close>: results, bytes, strings with UTF-8, byte streams, addresses, and the
    third-party functions with their laws. Lemmas: the round trips of the encodings, and what reads and writes do to a stream.
  \<^item> \<open>Snell_Record\<close>, \<open>Snell_Codec\<close>, \<open>Snell_Reader\<close>: the record layer, the messages and the receiving session of \<open>src/snell/\<close>. What is written is read back
    through every chunking, no nonce is used twice under a key, and a session delivers exactly the stream that was sent.
  \<^item> \<open>Snell_Client\<close>: opening, pooling and reusing connections. The locale \<open>idle_pool\<close> is the contract of a bounded pool, interpreted on the client's
    own operations; in every reachable state the pool is within its limits and nothing leaks.
  \<^item> \<open>Traffic\<close>, \<open>Traffic_Time\<close>: counters, journal, recovery, sampler, report and timestamps. Every byte is accounted once, also across failed appends,
    a report sums its window, an opened journal ends with a complete record.
  \<^item> \<open>Nodes\<close>, \<open>Providers\<close>, \<open>Raw_Provider\<close>: the catalog's nodes and the documents published from them, which read back to the nodes.
  \<^item> \<open>Config\<close>, \<open>Config_File\<close>: the configuration and its files; an accepted configuration is sound.
  \<^item> \<open>Gateway\<close>: router, authentication and manager. The open clients are exactly those of the router in force.
  \<^item> \<open>Relay\<close>, \<open>Socks5\<close>, \<open>Http_Body\<close>, \<open>Http_Request\<close>, \<open>Http_Proxy\<close>: the inbound protocols. A tunnel refines a pair of byte queues, the origin sees the same request
    framing as the proxy, and a body is copied exactly; the locale \<open>body_sink\<close> is the trait \<open>BodySink\<close>, interpreted on the Snell upload.
  \<^item> \<open>Api\<close>, \<open>Catalog\<close>: the control plane client and the catalog service: start, refresh, reload and the cache, whose file is written atomically.
  \<^item> \<open>Network\<close>, \<open>Private_Dns\<close>, \<open>Trust\<close>, \<open>Ech_Dialer\<close>: the way to a node: egress address, private name service, trust anchors, the race of
    connection attempts and the verified TLS session.
  \<^item> \<open>Diagnostics\<close>: counters, node records, the event log, the status document and the diagnostic bundle with its allowlist.
  \<^item> \<open>Service\<close>: the service loop with its commands and the control channel, composed from the catalog service and the diagnostics. The
    locale \<open>truthful_service\<close> is the contract of the loop towards its queue, interpreted on the loop's step.
  \<^item> \<open>Http_Server\<close>: the node-list server on top of the loop, from the bytes of a request to those of the reply.
  \<^item> \<open>Listener\<close>: accepting connections, admission under a changing limit, and the refresh of a SOCKS5 map.
  \<^item> this theory: what holds of a connection whichever protocol it speaks.

  \<^bold>\<open>Termination and fuel.\<close> Loops over input are recursive functions with a termination proof: the measure is the input left, or what
  a source still holds. The download loop of a relay may wait for ever; there an execution is a list of turns and its end is a theorem about
  the turns. The functions that serve a connection (\<open>serve_connection\<close>) return an option, with \<open>None\<close> for turns along which its
  tunnel has not ended. The race of
  connection attempts consumes a list of events, and two events per address are shown to be enough.

  \<^bold>\<open>What modelling showed.\<close> A traffic journal cut within its first bytes is refused instead of recovered
  (\<open>short_first_record_not_recovered\<close>); an append whose unlock fails after the write is counted twice; replacing the router of a closed gateway
  reports an error and reopens it (\<open>replace_reopens_closed_gateway\<close>); a bare line feed in a request header hides a
  framing header from the proxy (\<open>bare_lf_hides_framing\<close>). A forced refresh that is answered too late is reported as \<open>previous catalog retained\<close> although the loop may still
  install the new one (\<open>late_refresh_is_installed\<close>).

  \<^bold>\<open>Not modelled.\<close> The Windows service, files, pipes and network sources and the macOS network source are calls of system APIs; the remaining
  subcommands and flags of the command line (\<open>src/cli.rs\<close>), \<open>src/perftrace.rs\<close> and \<open>src/rlimit.rs\<close> print, trace or make one system call; the stream adapters around TLS forward
  polls; the examples are measurement programs. Socket options, log lines and poisoned locks are left out of the definitions.
\<close>

subsection \<open>Connections\<close>

text \<open>
  C20: On a listener that requires authentication nothing is served without it, in either protocol. Whatever bytes
  arrive, either the connection is refused and no client and no UDP port of the program is touched; or the bytes began with a SOCKS5
  greeting and credentials, or with an HTTP request with credentials, that the mode accepts for one route, and no
  client but that route's is touched.
\<close>

theorem connection_needs_credentials:
  assumes "serve_connection X T P t late_greeting late_handshake te ue race md r h c = Some (s, r', h')" "requires_auth md"
  shows "(is_refused s \<and> r' = r \<and> h' = h)
    \<or> (\<exists>u p route. authenticate T md u p = Inr route \<and> (\<forall>a. a \<noteq> r_client route \<longrightarrow> clients h' a = clients h a)
        \<and> ((\<exists>methods ub pb rest. c_in c = VERSION # client_greeting methods @ client_credentials ub pb @ rest
              \<and> u = from_utf8_lossy ub \<and> p = from_utf8_lossy pb)
           \<or> (\<exists>first rest parsed src. c_in c = first # rest
              \<and> read_proxy_request T P first (Data rest # te_later te) = (Inr parsed, src) \<and> pr_credentials parsed = Some (u, p))))"
proof -
  obtain fr c1 where f: "recv_u8 c = (fr, c1)" by fastforce
  show ?thesis
  proof (cases fr)
    case (Inl e)
    then show ?thesis using assms(1) f by (auto simp: serve_connection_def split: if_splits)
  next
    case (Inr first)
    then have c: "c_in c = first # c_in c1" using f by (simp add: res_simps)
    consider (socks) "first = VERSION" "serve_socks5 X T late_handshake te ue md r h first c1 = Some (s, r', h')"
      | (http) "http_serve X T P late_handshake te race md h first c1 = Some (s, h')" "r' = r"
      | (neither) "is_refused s" "r' = r" "h' = h"
      using assms(1) f Inr by (auto simp: serve_connection_def split: if_splits)
    then show ?thesis
    proof cases
      case socks
      from served_only_with_credentials [OF socks(2) assms(2)] show ?thesis unfolding c unfolding socks(1) list.inject by blast
    next
      case http
      from http_served_authenticates [OF http(1) assms(2)] c http(2) show ?thesis by blast
    qed simp
  qed
qed

theorem connection_needs_credentials_witness:
  "\<forall>X P te oe race. \<exists>s u p route. serve_connection X sample_text P (secs 10) False False te (busy_udp oe) race sample_mode (udp_relay_ephemeral (V4 1))
      sample_arena (sample_conn\<lparr>c_in := 5 # c_in sample_conn\<rparr>) = Some (s, udp_relay_ephemeral (V4 1), sample_arena) \<and> \<not> is_refused s
    \<and> authenticate sample_text sample_mode u p = Inr route"
proof (intro allI)
  fix X P te oe race
  let ?c = "sample_conn\<lparr>c_in := 5 # c_in sample_conn\<rparr>"
  let ?serve = "serve_connection X sample_text P (secs 10) False False te (busy_udp oe) race sample_mode (udp_relay_ephemeral (V4 1)) sample_arena ?c"
  have lossy: "from_utf8_lossy [117] = [117]" "from_utf8_lossy [112] = [112]" by code_simp+
  have "\<exists>s. ?serve = Some (s, udp_relay_ephemeral (V4 1), sample_arena) \<and> \<not> is_refused s"
    by (simp add: serve_connection_def secs_def serve_socks5_def negotiate_and_read_request_def sample_conn_def sample_mode_def sample_route_def
        recv_def read_exact_def send_reliable read_credentials_def recv_u8_def lossy read_request_def read_host_def recv_u16_def socks_consts
        busy_udp_def sample_arena_def serve_udp_associate_def udp_bind_def udp_relay_ephemeral_def write_reply_def sample_text_def from_be16_def)
  then obtain s where s: "?serve = Some (s, udp_relay_ephemeral (V4 1), sample_arena)" "\<not> is_refused s" by blast
  have "requires_auth sample_mode" by (simp add: sample_mode_def)
  from connection_needs_credentials [OF s(1) this] s
  show "\<exists>s u p route. ?serve = Some (s, udp_relay_ephemeral (V4 1), sample_arena) \<and> \<not> is_refused s
      \<and> authenticate sample_text sample_mode u p = Inr route" by blast
qed

end
